(* ===== verification/SF_Prelude.thy ===== *)
theory SF_Prelude
  imports Main "HOL-Library.Word" "HOL-Library.Monad_Syntax"
begin

text \<open>
  Shared vocabulary of the SensorForge development: fixed-width integers, byte buffers with
  bounds-checked access, little-endian byte strings, and the list, option and word lemmas that
  the component theories use.

  A C++ buffer (\<^verbatim>\<open>const uint8_t *\<close> with a length, or \<^verbatim>\<open>std::vector<uint8_t>\<close>) is a list of
  bytes. Every read and write goes through \<open>rd\<close>, \<open>wr\<close> and \<open>sub\<close>, which return \<^term>\<open>None\<close> where
  the C++ access would be out of bounds: a definition that returns \<^term>\<open>Some x\<close> has made no
  out-of-bounds access.
\<close>

unbundle bit_operations_syntax

type_synonym u8 = "8 word"
type_synonym u16 = "16 word"
type_synonym u32 = "32 word"
type_synonym u64 = "64 word"
type_synonym bytes = "u8 list"

named_theorems codec_simps \<open>evaluation of bounds-checked accesses that are in range\<close>

text \<open>The standard exceptions the modelled code throws.\<close>

datatype cpp_exception = length_error string | runtime_error string

text \<open>Sequencing of code that may throw.\<close>

definition bindE :: "'e + 'a \<Rightarrow> ('a \<Rightarrow> 'e + 'b) \<Rightarrow> 'e + 'b" where
  "bindE r f = (case r of Inl e \<Rightarrow> Inl e | Inr x \<Rightarrow> f x)"

lemma bindE_simps [simp]: "bindE (Inl e) f = Inl e" "bindE (Inr x) f = f x"
  by (simp_all add: bindE_def)

lemma bindE_eq_Inr [simp]: "bindE r f = Inr y \<longleftrightarrow> (\<exists>x. r = Inr x \<and> f x = Inr y)"
  by (cases r) simp_all

subsection \<open>Bounds-checked buffer access\<close>

definition rd :: "'a list \<Rightarrow> nat \<Rightarrow> 'a option" where
  "rd b i = (if i < length b then Some (b ! i) else None)"

definition wr :: "'a list \<Rightarrow> nat \<Rightarrow> 'a \<Rightarrow> 'a list option" where
  "wr b i v = (if i < length b then Some (b[i := v]) else None)"

definition sub :: "'a list \<Rightarrow> nat \<Rightarrow> nat \<Rightarrow> 'a list option" where
  "sub b off n = (if off + n \<le> length b then Some (take n (drop off b)) else None)"

text \<open>\<^verbatim>\<open>std::memcpy(dst + off, src, n)\<close> with the whole source copied.\<close>

definition blit :: "'a list \<Rightarrow> nat \<Rightarrow> 'a list \<Rightarrow> 'a list option" where
  "blit b off src = (if off + length src \<le> length b
     then Some (take off b @ src @ drop (off + length src) b) else None)"

lemma rd_in [codec_simps]: "i < length b \<Longrightarrow> rd b i = Some (b ! i)"
  by (simp add: rd_def)

lemma wr_in [codec_simps]: "i < length b \<Longrightarrow> wr b i v = Some (b[i := v])"
  by (simp add: wr_def)

lemma sub_in [codec_simps]: "off + n \<le> length b \<Longrightarrow> sub b off n = Some (take n (drop off b))"
  by (simp add: sub_def)

lemma blit_in [codec_simps]:
  "off + length src \<le> length b \<Longrightarrow> blit b off src = Some (take off b @ src @ drop (off + length src) b)"
  by (simp add: blit_def)

text \<open>Writing consecutive bytes one at a time is one block write.\<close>

definition wr_seq :: "'a list \<Rightarrow> nat \<Rightarrow> 'a list \<Rightarrow> 'a list option" where
  "wr_seq b p xs = foldl (\<lambda>acc i. do { b \<leftarrow> acc; wr b (p + i) (xs ! i) }) (Some b) [0..<length xs]"

lemma wr_seq_snoc:
  "wr_seq b p (xs @ [x]) = do { b' \<leftarrow> wr_seq b p xs; wr b' (p + length xs) x }"
proof -
  have "foldl (\<lambda>acc i. do { b \<leftarrow> acc; wr b (p + i) ((xs @ [x]) ! i) }) (Some b) [0..<length xs]
      = foldl (\<lambda>acc i. do { b \<leftarrow> acc; wr b (p + i) (xs ! i) }) (Some b) [0..<length xs]"
    by (rule foldl_cong) (auto simp: nth_append)
  then show ?thesis by (simp add: wr_seq_def)
qed

lemma wr_seq_blit: "p + length xs \<le> length b \<Longrightarrow> wr_seq b p xs = blit b p xs"
proof (induction xs rule: rev_induct)
  case Nil
  then show ?case by (simp add: wr_seq_def blit_def)
next
  case (snoc x xs)
  have "wr (take p b @ xs @ drop (p + length xs) b) (p + length xs) x
      = Some (take p b @ (xs @ [x]) @ drop (p + length (xs @ [x])) b)"
    using snoc.prems by (simp add: wr_in list_update_append Cons_nth_drop_Suc [symmetric])
  with snoc show ?case by (simp add: wr_seq_snoc blit_def)
qed

lemma wr_length: "wr b i v = Some b' \<Longrightarrow> length b' = length b"
  by (auto simp: wr_def split: if_splits)

lemma sub_length: "sub b off n = Some s \<Longrightarrow> length s = n"
  by (auto simp: sub_def split: if_splits)

subsection \<open>Words\<close>

lemma word_xor_eq_0_iff: "x XOR y = 0 \<longleftrightarrow> x = (y :: 'a::len word)"
proof
  assume "x XOR y = 0"
  then have "(x XOR y) XOR y = y" by simp
  then show "x = y" by (simp add: xor.assoc)
qed simp

lemma word_xor_left_cancel [simp]: "(x :: 'a::len word) XOR y = x XOR z \<longleftrightarrow> y = z"
proof
  assume "x XOR y = x XOR z"
  then have "x XOR (x XOR y) = x XOR (x XOR z)" by simp
  then show "y = z" by (simp flip: xor.assoc)
qed simp

lemma word_xor_right_cancel [simp]: "(y :: 'a::len word) XOR x = z XOR x \<longleftrightarrow> y = z"
  by (simp add: xor.commute [of _ x])

subsection \<open>Little-endian byte strings\<close>

definition le_bytes :: "nat \<Rightarrow> 'a::len word \<Rightarrow> bytes" where
  "le_bytes n v = map (\<lambda>i. ucast (drop_bit (8 * i) v)) [0..<n]"

fun le_word :: "bytes \<Rightarrow> 'a::len word" where
  "le_word [] = 0"
| "le_word (b # bs) = ucast b OR push_bit 8 (le_word bs)"

lemma length_le_bytes [simp]: "length (le_bytes n v) = n"
  by (simp add: le_bytes_def)

lemma le_bytes_nth: "i < n \<Longrightarrow> le_bytes n v ! i = ucast (drop_bit (8 * i) v)"
  by (simp add: le_bytes_def)

lemma bit_le_word:
  "bit (le_word bs :: 'a::len word) k \<longleftrightarrow>
     k < LENGTH('a) \<and> k div 8 < length bs \<and> bit (bs ! (k div 8)) (k mod 8)"
proof (induction bs arbitrary: k)
  case Nil
  then show ?case by simp
next
  case (Cons b bs)
  show ?case
  proof (cases "k < 8")
    case True
    then show ?thesis by (auto simp: bit_simps)
  next
    case False
    then have "k div 8 = Suc ((k - 8) div 8)" and "k mod 8 = (k - 8) mod 8"
      by (auto simp: le_div_geq le_mod_geq)
    moreover have "\<not> bit b k"
      using False bit_imp_le_length [of b k] by auto
    ultimately show ?thesis
      using False Cons.IH [of "k - 8"] by (auto simp: bit_simps)
  qed
qed

lemma bit_le_bytes:
  "i < n \<Longrightarrow> bit (le_bytes n v ! i) k \<longleftrightarrow> k < 8 \<and> bit v (8 * i + k)"
  by (auto simp: le_bytes_nth bit_simps)

lemma le_word_le_bytes:
  "LENGTH('a) \<le> 8 * n \<Longrightarrow> le_word (le_bytes n (v :: 'a::len word)) = v"
  by (rule bit_word_eqI) (auto simp: bit_le_word bit_le_bytes)

lemma le_bytes_le_word:
  assumes "8 * length bs \<le> LENGTH('a)"
  shows "le_bytes (length bs) (le_word bs :: 'a::len word) = bs"
proof (rule nth_equalityI)
  show "length (le_bytes (length bs) (le_word bs :: 'a word)) = length bs" by simp
next
  fix i assume "i < length (le_bytes (length bs) (le_word bs :: 'a word))"
  then have i: "i < length bs" by simp
  show "le_bytes (length bs) (le_word bs :: 'a word) ! i = bs ! i"
  proof (rule bit_word_eqI)
    fix k assume "k < LENGTH(8)"
    then have k: "k < 8" by simp
    with i assms have "8 * i + k < LENGTH('a)" by linarith
    with i k show "bit (le_bytes (length bs) (le_word bs :: 'a word) ! i) k \<longleftrightarrow> bit (bs ! i) k"
      by (simp add: bit_le_bytes bit_le_word)
  qed
qed

lemma le_bytes_le_word_len:
  "length bs = n \<Longrightarrow> 8 * n \<le> LENGTH('a) \<Longrightarrow> le_bytes n (le_word bs :: 'a::len word) = bs"
  using le_bytes_le_word by blast

lemma le_word_inject:
  assumes "length xs = length ys" and "8 * length xs \<le> LENGTH('a)"
    and "(le_word xs :: 'a::len word) = le_word ys"
  shows "xs = ys"
proof -
  have "xs = le_bytes (length xs) (le_word xs :: 'a word)"
    using assms(2) by (simp add: le_bytes_le_word)
  also have "\<dots> = le_bytes (length ys) (le_word ys :: 'a word)"
    by (simp only: assms(1,3))
  also have "\<dots> = ys"
    using assms(1,2) by (simp add: le_bytes_le_word)
  finally show ?thesis .
qed

lemma le_word_append:
  "(le_word (xs @ ys) :: 'a::len word) = le_word xs OR push_bit (8 * length xs) (le_word ys)"
proof (rule bit_word_eqI)
  fix k assume k: "k < LENGTH('a)"
  show "bit (le_word (xs @ ys) :: 'a word) k
      \<longleftrightarrow> bit (le_word xs OR push_bit (8 * length xs) (le_word ys) :: 'a word) k"
  proof (cases "k div 8 < length xs")
    case True
    then have "k < 8 * length xs" by linarith
    with True k show ?thesis by (simp add: bit_simps bit_le_word nth_append)
  next
    case False
    then have "8 * length xs \<le> k" by linarith
    then obtain m where m: "k = 8 * length xs + m" using le_Suc_ex by blast
    have "k div 8 = length xs + m div 8" and "k mod 8 = m mod 8" by (simp_all add: m)
    with k m show ?thesis by (auto simp: bit_simps bit_le_word nth_append)
  qed
qed

lemma upt_2: "[0..<2] = [0, 1 :: nat]"
  by (simp add: upt_rec)

lemma upt_4: "[0..<4] = [0, 1, 2, 3 :: nat]"
  by (simp add: upt_rec)

lemma upt_8: "[0..<8] = [0, 1, 2, 3, 4, 5, 6, 7 :: nat]"
  by (simp add: upt_rec)

lemma ucast_and_byte: "(ucast ((x :: 'a::len word) AND 0xFF) :: u8) = ucast x"
proof -
  have "(0xFF :: 'a word) = mask 8" by (simp add: mask_eq_exp_minus_1)
  then have "(ucast (x AND 0xFF) :: u8) = ucast (x AND mask 8)" by simp
  also have "\<dots> = ucast x"
    by (rule bit_word_eqI) (auto simp: bit_simps dest: bit_imp_le_length)
  finally show ?thesis .
qed

text \<open>Assembling bytes with the most significant first.\<close>

lemma foldl_big_endian:
  "foldl (\<lambda>acc b. push_bit 8 acc OR ucast b) 0 bs = (le_word (rev bs) :: 'a::len word)"
  by (induction bs rule: rev_induct) (simp_all add: or.commute)

end
