(* ===== verification/Link_Interface.thy ===== *)
theory Link_Interface
  imports SF_Prelude
begin

text \<open>
  The contract of a transport below the bridge (\<^verbatim>\<open>network_interface_base.hpp\<close>): while the interface is
  ready, \<^verbatim>\<open>write\<close> returns, the interface stays ready, and the encoding of the data is appended to
  what has been put on the link. Writing is a partial function because the implementations may reach
  undefined behaviour (a null socket).
\<close>

record 'n NetworkInterface =
  ni_open :: "'n \<Rightarrow> 'n option"
  ni_close :: "'n \<Rightarrow> 'n"
  ni_is_ready :: "'n \<Rightarrow> bool"
  ni_has_failed :: "'n \<Rightarrow> bool"
  ni_write :: "bytes \<Rightarrow> 'n \<Rightarrow> 'n option"

fun write_all :: "'n NetworkInterface \<Rightarrow> bytes list \<Rightarrow> 'n \<Rightarrow> 'n option" where
  "write_all ops [] n = Some n"
| "write_all ops (d # ds) n = do { n \<leftarrow> ni_write ops d n; write_all ops ds n }"

lemma write_all_append: "write_all ops (xs @ ys) n = do { n \<leftarrow> write_all ops xs n; write_all ops ys n }"
proof (induction xs arbitrary: n)
  case (Cons d xs)
  then show ?case by (cases "ni_write ops d n") simp_all
qed simp

locale message_link =
  fixes ops :: "'n NetworkInterface"
    and inv :: "'n \<Rightarrow> bool"
    and link_out :: "'n \<Rightarrow> 'o list"
    and wire :: "bytes \<Rightarrow> 'o list"
    and fits :: "bytes \<Rightarrow> bool"
  assumes write_ok: "\<lbrakk>inv n; ni_is_ready ops n; fits d\<rbrakk>
      \<Longrightarrow> \<exists>n'. ni_write ops d n = Some n' \<and> inv n' \<and> ni_is_ready ops n' \<and> link_out n' = link_out n @ wire d"
begin

lemma write_all_ok:
  "\<lbrakk>inv n; ni_is_ready ops n; \<forall>d\<in>set ds. fits d\<rbrakk>
    \<Longrightarrow> \<exists>n'. write_all ops ds n = Some n' \<and> inv n' \<and> ni_is_ready ops n' \<and>
          link_out n' = link_out n @ concat (map wire ds)"
proof (induction ds arbitrary: n)
  case (Cons d ds)
  then obtain n1 where 1: "ni_write ops d n = Some n1" "inv n1" "ni_is_ready ops n1" "link_out n1 = link_out n @ wire d"
    using write_ok [of n d] by auto
  with Cons show ?case by (fastforce dest: Cons.IH [OF 1(2,3)])
qed auto

end

end
