(* ===== verification/IoUring_Interface.thy ===== *)
theory IoUring_Interface
  imports Link_Interface "HOL-Library.Multiset"
begin

text \<open>
  The io\_uring transport (\<^verbatim>\<open>iouring_interface.hpp\<close>, \<^verbatim>\<open>iouring_interface.cpp\<close>, the build with liburing). The
  ring is modelled by the entries that were prepared and those the kernel has accepted; the kernel reads the
  buffer of a send, or fills the buffer of a receive, when it executes the entry, not when it is submitted.
  Results of the system calls and of \<^verbatim>\<open>io_uring_get_sqe\<close> are arguments.
\<close>

subsection \<open>State\<close>

definition kNumRecvBuffers :: nat where "kNumRecvBuffers = 64"
definition kNumSendBuffers :: nat where "kNumSendBuffers = 64"
definition kBufferSize :: nat where "kBufferSize = 65536"

record Slot =
  sl_buf :: bytes
  sl_iov_len :: nat
  sl_index :: u32
  sl_is_recv :: bool

datatype Sqe = Recvmsg nat | Sendmsg nat

record IoUringInterface =
  iu_local_address :: string
  iu_receive_port :: int
  iu_remote_address :: string
  iu_send_port :: int
  iu_ready :: bool
  iu_failed :: bool
  iu_running :: bool
  iu_ring_ready :: bool
  iu_recv_fd :: int
  iu_send_fd :: int
  iu_local_sockaddr :: "string \<times> u16"
  iu_remote_sockaddr :: "string \<times> u16"
  iu_recv_slots :: "Slot list"
  iu_send_slots :: "Slot list"
  iu_next_send_slot :: u32
  iu_sq :: "Sqe list"
  iu_ring :: "Sqe list"
  iu_sent :: "bytes list"
  iu_received :: "bytes list"

definition IoUringInterface_new :: IoUringInterface where
  "IoUringInterface_new = \<lparr>iu_local_address = [], iu_receive_port = 0, iu_remote_address = [], iu_send_port = 0,
     iu_ready = False, iu_failed = False, iu_running = False, iu_ring_ready = False, iu_recv_fd = -1, iu_send_fd = -1,
     iu_local_sockaddr = ([], 0), iu_remote_sockaddr = ([], 0), iu_recv_slots = [], iu_send_slots = [], iu_next_send_slot = 0,
     iu_sq = [], iu_ring = [], iu_sent = [], iu_received = []\<rparr>"

definition iouring_load_parameters :: "(string \<rightharpoonup> string) \<Rightarrow> (string \<rightharpoonup> int) \<Rightarrow> IoUringInterface \<Rightarrow> IoUringInterface" where
  "iouring_load_parameters strings ints i =
     (let str = (\<lambda>p. case strings (''IoUringInterface.'' @ p) of None \<Rightarrow> [] | Some v \<Rightarrow> v);
          num = (\<lambda>p. case ints (''IoUringInterface.'' @ p) of None \<Rightarrow> 0 | Some v \<Rightarrow> v)
      in i\<lparr>iu_local_address := str ''local_address'', iu_receive_port := num ''receive_port'',
           iu_remote_address := str ''remote_address'', iu_send_port := num ''send_port''\<rparr>)"

definition iouring_has_failed :: "IoUringInterface \<Rightarrow> bool" where "iouring_has_failed i = iu_failed i"

definition iouring_is_ready :: "IoUringInterface \<Rightarrow> bool" where "iouring_is_ready i = (iu_ready i \<and> \<not> iu_failed i)"

subsection \<open>Operations\<close>

definition setup_sockets :: "int \<Rightarrow> int \<Rightarrow> int \<Rightarrow> IoUringInterface \<Rightarrow> IoUringInterface" where
  "setup_sockets send_fd recv_fd bind_rc i =
     (let i = i\<lparr>iu_send_fd := send_fd, iu_recv_fd := recv_fd\<rparr>
      in if send_fd < 0 \<or> recv_fd < 0 then i\<lparr>iu_failed := True\<rparr>
         else let i = i\<lparr>iu_local_sockaddr := (iu_local_address i, word_of_int (iu_receive_port i))\<rparr>
              in if bind_rc < 0 then i\<lparr>iu_failed := True\<rparr>
                 else i\<lparr>iu_remote_sockaddr := (iu_remote_address i, word_of_int (iu_send_port i))\<rparr>)"

definition io_uring_submit :: "IoUringInterface \<Rightarrow> IoUringInterface" where
  "io_uring_submit i = i\<lparr>iu_ring := iu_ring i @ iu_sq i, iu_sq := []\<rparr>"

text \<open>\<open>sqe\<close>: a submission queue entry is available.\<close>

definition arm_recv :: "bool \<Rightarrow> nat \<Rightarrow> IoUringInterface \<Rightarrow> IoUringInterface" where
  "arm_recv sqe k i =
     (if \<not> sqe then i
      else i\<lparr>iu_recv_slots := (iu_recv_slots i)[k := (iu_recv_slots i ! k)\<lparr>sl_iov_len := length (sl_buf (iu_recv_slots i ! k))\<rparr>],
             iu_sq := iu_sq i @ [Recvmsg k]\<rparr>)"

definition new_slot :: "bool \<Rightarrow> nat \<Rightarrow> Slot" where
  "new_slot is_recv idx = \<lparr>sl_buf = replicate kBufferSize 0, sl_iov_len = 0, sl_index = word_of_nat idx, sl_is_recv = is_recv\<rparr>"

definition iouring_open :: "int \<Rightarrow> int \<Rightarrow> int \<Rightarrow> int \<Rightarrow> IoUringInterface \<Rightarrow> IoUringInterface" where
  "iouring_open send_fd recv_fd bind_rc queue_rc i =
     (let i = i\<lparr>iu_failed := False, iu_ready := False\<rparr>;
          i = setup_sockets send_fd recv_fd bind_rc i
      in if iu_failed i then i
         else if queue_rc < 0 then i\<lparr>iu_failed := True\<rparr>
         else let i = i\<lparr>iu_ring_ready := True,
                        iu_recv_slots := map (new_slot True) [0..<kNumRecvBuffers],
                        iu_send_slots := map (\<lambda>k. new_slot False (kNumRecvBuffers + k)) [0..<kNumSendBuffers]\<rparr>;
                  i = fold (arm_recv True) [0..<kNumRecvBuffers] i;
                  i = io_uring_submit i
              in i\<lparr>iu_running := True, iu_ready := True\<rparr>)"

definition acquire_send_slot :: "IoUringInterface \<Rightarrow> nat \<times> IoUringInterface" where
  "acquire_send_slot i = (unat (iu_next_send_slot i mod word_of_nat kNumSendBuffers), i\<lparr>iu_next_send_slot := iu_next_send_slot i + 1\<rparr>)"

definition iouring_write :: "bool \<Rightarrow> bytes \<Rightarrow> IoUringInterface \<Rightarrow> IoUringInterface" where
  "iouring_write sqe data i =
     (if \<not> iu_ready i \<or> iu_failed i then i
      else if length data > kBufferSize then i
      else let (k, i) = acquire_send_slot i;
               s = iu_send_slots i ! k;
               s = s\<lparr>sl_buf := data @ drop (length data) (sl_buf s)\<rparr>;
               s = s\<lparr>sl_iov_len := length data\<rparr>;
               i = i\<lparr>iu_send_slots := (iu_send_slots i)[k := s]\<rparr>
           in if \<not> sqe then i
              else io_uring_submit (i\<lparr>iu_sq := iu_sq i @ [Sendmsg k]\<rparr>))"

text \<open>The kernel executes the oldest send.\<close>

fun oldest_send :: "Sqe list \<Rightarrow> (nat \<times> Sqe list) option" where
  "oldest_send [] = None"
| "oldest_send (Sendmsg k # ring) = Some (k, ring)"
| "oldest_send (Recvmsg k # ring) = map_option (\<lambda>(j, rest). (j, Recvmsg k # rest)) (oldest_send ring)"

definition kernel_send :: "IoUringInterface \<Rightarrow> IoUringInterface" where
  "kernel_send i = (case oldest_send (iu_ring i) of
     None \<Rightarrow> i
   | Some (k, ring) \<Rightarrow> i\<lparr>iu_ring := ring, iu_sent := iu_sent i @ [take (sl_iov_len (iu_send_slots i ! k)) (sl_buf (iu_send_slots i ! k))]\<rparr>)"

text \<open>The kernel completes a receive with a datagram, or with an error; then the loop handles the completion.\<close>

definition kernel_recv :: "nat \<Rightarrow> bytes \<Rightarrow> IoUringInterface \<Rightarrow> IoUringInterface" where
  "kernel_recv k d i = i\<lparr>iu_ring := remove1 (Recvmsg k) (iu_ring i),
     iu_recv_slots := (iu_recv_slots i)[k := (iu_recv_slots i ! k)\<lparr>sl_buf := take (length (sl_buf (iu_recv_slots i ! k))) d @
       drop (length d) (sl_buf (iu_recv_slots i ! k))\<rparr>]\<rparr>"

definition completion_step :: "bool \<Rightarrow> nat \<Rightarrow> int \<Rightarrow> IoUringInterface \<Rightarrow> IoUringInterface" where
  "completion_step sqe k res i =
     (let i = (if res > 0 then i\<lparr>iu_received := iu_received i @ [take (nat res) (sl_buf (iu_recv_slots i ! k))]\<rparr> else i)
      in io_uring_submit (arm_recv sqe k i))"

definition iouring_close :: "IoUringInterface \<Rightarrow> IoUringInterface" where
  "iouring_close i =
     (let i = i\<lparr>iu_running := False\<rparr>;
          i = (if iu_ring_ready i then i\<lparr>iu_ring := [], iu_sq := [], iu_ring_ready := False\<rparr> else i);
          i = (if iu_recv_fd i \<ge> 0 then i\<lparr>iu_recv_fd := -1\<rparr> else i);
          i = (if iu_send_fd i \<ge> 0 then i\<lparr>iu_send_fd := -1\<rparr> else i)
      in i\<lparr>iu_ready := False\<rparr>)"

text \<open>The build without liburing.\<close>

definition stub_open :: "IoUringInterface \<Rightarrow> IoUringInterface" where
  "stub_open i = i\<lparr>iu_failed := True\<rparr>"

subsection \<open>Opening\<close>

definition ring_sends :: "Sqe list \<Rightarrow> nat list" where
  "ring_sends ring = concat (map (\<lambda>s. case s of Sendmsg k \<Rightarrow> [k] | Recvmsg _ \<Rightarrow> []) ring)"

definition ring_recvs :: "Sqe list \<Rightarrow> nat list" where
  "ring_recvs ring = concat (map (\<lambda>s. case s of Recvmsg k \<Rightarrow> [k] | Sendmsg _ \<Rightarrow> []) ring)"

lemma ring_append [simp]: "ring_sends (xs @ ys) = ring_sends xs @ ring_sends ys" "ring_recvs (xs @ ys) = ring_recvs xs @ ring_recvs ys"
  by (simp_all add: ring_sends_def ring_recvs_def)

lemma arm_all:
  "iu_sq (fold (arm_recv True) ks i) = iu_sq i @ map Recvmsg ks" "iu_ring (fold (arm_recv True) ks i) = iu_ring i"
  "iu_send_slots (fold (arm_recv True) ks i) = iu_send_slots i" "iu_next_send_slot (fold (arm_recv True) ks i) = iu_next_send_slot i"
  "iu_sent (fold (arm_recv True) ks i) = iu_sent i" "iu_received (fold (arm_recv True) ks i) = iu_received i"
  "iu_failed (fold (arm_recv True) ks i) = iu_failed i"
  "length (iu_recv_slots (fold (arm_recv True) ks i)) = length (iu_recv_slots i)"
  by (induction ks arbitrary: i) (simp_all add: arm_recv_def)

subsection \<open>Sending\<close>

definition slot_data :: "Slot \<Rightarrow> bytes" where
  "slot_data s = take (sl_iov_len s) (sl_buf s)"

text \<open>What the accepted sends would transmit now.\<close>

definition pending :: "IoUringInterface \<Rightarrow> bytes list" where
  "pending i = map (\<lambda>k. slot_data (iu_send_slots i ! k)) (ring_sends (iu_ring i))"

datatype uring_event = UWrite bytes | USend | URecv nat bytes

text \<open>A write, a send executed by the kernel, and a datagram that arrives for an armed slot and is handled.\<close>

fun uring_step :: "IoUringInterface \<Rightarrow> uring_event \<Rightarrow> IoUringInterface" where
  "uring_step i (UWrite d) = iouring_write True d i"
| "uring_step i USend = kernel_send i"
| "uring_step i (URecv k d) = (if Recvmsg k \<in> set (iu_ring i) then completion_step True k (int (length d)) (kernel_recv k d i) else i)"

fun writes :: "uring_event list \<Rightarrow> bytes list" where
  "writes [] = []"
| "writes (UWrite d # evs) = d # writes evs"
| "writes (_ # evs) = writes evs"

text \<open>No write happens while every send buffer is in use.\<close>

fun never_full :: "uring_event list \<Rightarrow> IoUringInterface \<Rightarrow> bool" where
  "never_full [] i \<longleftrightarrow> True"
| "never_full (ev # evs) i \<longleftrightarrow>
     (case ev of UWrite d \<Rightarrow> length d \<le> kBufferSize \<and> length (ring_sends (iu_ring i)) < kNumSendBuffers | _ \<Rightarrow> True) \<and>
     never_full evs (uring_step i ev)"

definition send_inv :: "nat \<Rightarrow> IoUringInterface \<Rightarrow> bool" where
  "send_inv w i \<longleftrightarrow> iu_ready i \<and> \<not> iu_failed i \<and> iu_sq i = [] \<and> length (iu_send_slots i) = kNumSendBuffers \<and>
     iu_next_send_slot i = word_of_nat w \<and>
     (\<exists>n. n \<le> w \<and> n \<le> kNumSendBuffers \<and> ring_sends (iu_ring i) = map (\<lambda>j. j mod kNumSendBuffers) [w - n..<w])"

lemma oldest_send_sends:
  "case oldest_send ring of None \<Rightarrow> ring_sends ring = [] | Some (k, rest) \<Rightarrow> ring_sends ring = k # ring_sends rest"
proof (induction ring)
  case (Cons s ring)
  then show ?case by (cases s) (auto simp: ring_sends_def split: option.splits)
qed (simp add: ring_sends_def)

lemma slot_counter: "unat ((word_of_nat w :: u32) mod word_of_nat kNumSendBuffers) = w mod kNumSendBuffers"
proof -
  have "unat (word_of_nat w :: u32) = w mod 2 ^ 32" by (simp add: unsigned_of_nat take_bit_eq_mod)
  moreover have "unat (word_of_nat kNumSendBuffers :: u32) = kNumSendBuffers" by (simp add: kNumSendBuffers_def)
  moreover have "w mod 2 ^ 32 mod 64 = w mod (64 :: nat)" by (rule mod_mod_cancel) simp
  ultimately show ?thesis by (simp add: unat_mod kNumSendBuffers_def)
qed

lemma slots_apart:
  assumes "w - n \<le> j" "j < w" "n < kNumSendBuffers" "n \<le> w"
  shows "j mod kNumSendBuffers \<noteq> w mod kNumSendBuffers"
proof
  assume "j mod kNumSendBuffers = w mod kNumSendBuffers"
  then have "kNumSendBuffers dvd w - j" using assms(2) by (metis less_imp_le mod_eq_dvd_iff_nat)
  moreover have "0 < w - j" "w - j < kNumSendBuffers" using assms by linarith+
  ultimately show False by (meson dvd_imp_le not_le)
qed

lemma write_state:
  assumes "send_inv w i" "length d \<le> kBufferSize"
  shows "iouring_write True d i = i\<lparr>iu_next_send_slot := word_of_nat (Suc w),
      iu_send_slots := (iu_send_slots i)[w mod kNumSendBuffers :=
        (iu_send_slots i ! (w mod kNumSendBuffers))\<lparr>sl_buf := d @ drop (length d) (sl_buf (iu_send_slots i ! (w mod kNumSendBuffers))), sl_iov_len := length d\<rparr>],
      iu_ring := iu_ring i @ [Sendmsg (w mod kNumSendBuffers)], iu_sq := []\<rparr>"
  using assms slot_counter [of w] by (simp add: iouring_write_def send_inv_def acquire_send_slot_def io_uring_submit_def Let_def add.commute)

lemma write_step:
  assumes "send_inv w i" "length d \<le> kBufferSize" "length (ring_sends (iu_ring i)) < kNumSendBuffers"
  shows "send_inv (Suc w) (iouring_write True d i) \<and> pending (iouring_write True d i) = pending i @ [d] \<and>
    iu_sent (iouring_write True d i) = iu_sent i"
proof -
  obtain n where n: "n \<le> w" "ring_sends (iu_ring i) = map (\<lambda>j. j mod kNumSendBuffers) [w - n..<w]" "n \<le> kNumSendBuffers"
    using assms(1) by (auto simp: send_inv_def)
  then have lt: "n < kNumSendBuffers" using assms(3) by simp
  have "map (\<lambda>j. j mod kNumSendBuffers) [Suc w - Suc n..<Suc w] = ring_sends (iu_ring i) @ [w mod kNumSendBuffers]"
    using n by simp
  then have inv: "send_inv (Suc w) (iouring_write True d i)"
    using assms(1) n lt by (auto simp: write_state [OF assms(1,2)] send_inv_def ring_sends_def intro!: exI [of _ "Suc n"])
  have len: "w mod kNumSendBuffers < length (iu_send_slots i)" using assms(1) by (simp add: send_inv_def kNumSendBuffers_def)
  have "w mod kNumSendBuffers \<noteq> j mod kNumSendBuffers" if "w - n \<le> j" "j < w" for j
    using slots_apart [OF that lt n(1)] by simp
  then have "pending (iouring_write True d i) = pending i @ [d]"
    using n(2) len
    by (auto simp: write_state [OF assms(1,2)] pending_def slot_data_def ring_sends_def)
  then show ?thesis using inv by (simp add: write_state [OF assms(1,2)])
qed

lemma send_step:
  assumes "send_inv w i"
  shows "send_inv w (kernel_send i) \<and> iu_sent (kernel_send i) @ pending (kernel_send i) = iu_sent i @ pending i"
proof (cases "oldest_send (iu_ring i)")
  case None
  then show ?thesis using assms by (simp add: kernel_send_def)
next
  case (Some x)
  obtain k rest where x: "x = (k, rest)" by force
  have s: "ring_sends (iu_ring i) = k # ring_sends rest" using oldest_send_sends [of "iu_ring i"] Some x by simp
  obtain n where n: "n \<le> w" "n \<le> kNumSendBuffers" "ring_sends (iu_ring i) = map (\<lambda>j. j mod kNumSendBuffers) [w - n..<w]"
    using assms by (auto simp: send_inv_def)
  have "n \<noteq> 0" using n(3) s by (cases n) auto
  then have "[w - n..<w] = (w - n) # [w - (n - 1)..<w]" using n(1) by (simp add: upt_rec [of "w - n" w] Suc_diff_le)
  then have "ring_sends rest = map (\<lambda>j. j mod kNumSendBuffers) [w - (n - 1)..<w]" using n(3) s by simp
  then show ?thesis using assms Some x s n
    by (auto simp: kernel_send_def send_inv_def pending_def slot_data_def intro!: exI [of _ "n - 1"])
qed

lemma recv_step:
  assumes "send_inv w i"
  shows "send_inv w (uring_step i (URecv k d)) \<and> iu_sent (uring_step i (URecv k d)) = iu_sent i \<and>
    pending (uring_step i (URecv k d)) = pending i"
proof -
  have "ring_sends (remove1 (Recvmsg k) ring) = ring_sends ring" for ring
    by (induction ring) (auto simp: ring_sends_def)
  then show ?thesis using assms
    by (auto simp: completion_step_def kernel_recv_def arm_recv_def io_uring_submit_def send_inv_def pending_def ring_sends_def Let_def)
qed

lemma run_in_order:
  "send_inv w i \<Longrightarrow> never_full evs i \<Longrightarrow>
     iu_sent (foldl uring_step i evs) @ pending (foldl uring_step i evs) = iu_sent i @ pending i @ writes evs"
proof (induction evs arbitrary: i w)
  case (Cons ev evs)
  show ?case
  proof (cases ev)
    case (UWrite d)
    with Cons.prems have "send_inv (Suc w) (iouring_write True d i)" "pending (iouring_write True d i) = pending i @ [d]"
      "iu_sent (iouring_write True d i) = iu_sent i" using write_step [of w i d] by auto
    with Cons UWrite show ?thesis by simp
  next
    case USend
    with Cons send_step [OF Cons.prems(1)] show ?thesis by auto
  next
    case (URecv k d)
    have r: "send_inv w (uring_step i ev)" "iu_sent (uring_step i ev) = iu_sent i" "pending (uring_step i ev) = pending i"
      using recv_step [OF Cons.prems(1), of k d] URecv by auto
    show ?thesis using Cons.IH [OF r(1)] Cons.prems(2) r(2,3) URecv by simp
  qed
qed simp

lemma open_inv:
  assumes "0 \<le> send_fd" "0 \<le> recv_fd" "0 \<le> bind_rc" "0 \<le> queue_rc" "iu_sq i = []" "iu_ring i = []" "iu_next_send_slot i = word_of_nat w"
  shows "send_inv w (iouring_open send_fd recv_fd bind_rc queue_rc i)"
  using assms
  by (auto simp: iouring_open_def setup_sockets_def io_uring_submit_def arm_all send_inv_def ring_sends_def Let_def comp_def intro!: exI [of _ 0])



lemma writes_fill:
  assumes "send_inv w i" "length ds + length (ring_sends (iu_ring i)) \<le> kNumSendBuffers" "list_all (\<lambda>d. length d \<le> kBufferSize) ds"
  shows "send_inv (w + length ds) (foldl (\<lambda>i d. iouring_write True d i) i ds) \<and>
    pending (foldl (\<lambda>i d. iouring_write True d i) i ds) = pending i @ ds \<and> iu_sent (foldl (\<lambda>i d. iouring_write True d i) i ds) = iu_sent i"
  using assms
proof (induction ds arbitrary: i w)
  case (Cons d ds)
  let ?i = "iouring_write True d i"
  have w: "send_inv (Suc w) ?i" "pending ?i = pending i @ [d]" "iu_sent ?i = iu_sent i"
    using write_step [of w i d] Cons.prems by auto
  have "length (ring_sends (iu_ring ?i)) = Suc (length (ring_sends (iu_ring i)))"
    using arg_cong [OF w(2), of length] by (simp add: pending_def)
  then show ?case using Cons.IH [OF w(1)] Cons.prems w by simp
qed simp

text \<open>A write while all 64 buffers are in use overwrites the buffer of the oldest send: after 65 writes that the kernel has
  not executed, the first datagram it sends is the last one written, and the first one written is lost.\<close>

theorem uring_overrun_corrupts:
  assumes "send_inv 0 i" "length ds = 65" "list_all (\<lambda>d. length d \<le> kBufferSize) ds" "iu_sent i = []"
  shows "iu_sent (kernel_send (foldl (\<lambda>i d. iouring_write True d i) i ds)) = [ds ! 64]"
proof -
  let ?i = "foldl (\<lambda>i d. iouring_write True d i) i (take 64 ds)" and ?d = "ds ! 64"
  have ds: "ds = take 64 ds @ [?d]" using assms(2) take_Suc_conv_app_nth [of 64 ds] by simp
  have "ring_sends (iu_ring i) = []" using assms(1) by (auto simp: send_inv_def)
  then have fill: "send_inv 64 ?i" "length (pending ?i) = 64" "iu_sent ?i = []"
    using writes_fill [of 0 i "take 64 ds"] assms by (auto simp: kNumSendBuffers_def list_all_length pending_def)
  obtain n where n: "n \<le> 64" "ring_sends (iu_ring ?i) = map (\<lambda>j. j mod kNumSendBuffers) [64 - n..<64]" "length (iu_send_slots ?i) = 64"
    using fill(1) by (auto simp: send_inv_def kNumSendBuffers_def)
  with fill(2) have "n = 64" by (simp add: pending_def)
  then have r: "ring_sends (iu_ring ?i) = 0 # map (\<lambda>j. j mod kNumSendBuffers) [1..<64]"
    using n(2) by (simp add: upt_rec [of 0 64])
  have dl: "length ?d \<le> kBufferSize" using assms(2,3) by (simp add: list_all_length)
  have w: "iouring_write True ?d ?i = ?i\<lparr>iu_next_send_slot := word_of_nat 65,
      iu_send_slots := (iu_send_slots ?i)[0 := (iu_send_slots ?i ! 0)\<lparr>sl_buf := ?d @ drop (length ?d) (sl_buf (iu_send_slots ?i ! 0)), sl_iov_len := length ?d\<rparr>],
      iu_ring := iu_ring ?i @ [Sendmsg 0], iu_sq := []\<rparr>"
    using write_state [OF fill(1) dl] by (simp add: kNumSendBuffers_def)
  obtain rest where "oldest_send (iu_ring ?i @ [Sendmsg 0]) = Some (0, rest)"
    using oldest_send_sends [of "iu_ring ?i @ [Sendmsg 0]"] r by (auto simp: ring_sends_def split: option.splits)
  then have "iu_sent (kernel_send (iouring_write True ?d ?i)) = [?d]"
    using n(3) fill(3) by (simp add: kernel_send_def w nth_list_update)
  moreover have "foldl (\<lambda>i d. iouring_write True d i) i ds = iouring_write True ?d ?i" by (subst ds) simp
  ultimately show ?thesis by simp
qed

theorem uring_overrun_corrupts_witness:
  "iu_sent (kernel_send (foldl (\<lambda>i d. iouring_write True d i)
      (iouring_open 4 3 0 0 IoUringInterface_new) (map (\<lambda>j. [word_of_nat j]) [0..<65]))) = [[64]]"
proof -
  let ?i = "iouring_open 4 3 0 0 IoUringInterface_new" and ?ds = "map (\<lambda>j. [word_of_nat j]) [0..<65] :: bytes list"
  have "send_inv 0 ?i" by (rule open_inv) (simp_all add: IoUringInterface_new_def)
  moreover have "iu_sent ?i = []"
    by (simp add: iouring_open_def setup_sockets_def io_uring_submit_def arm_all Let_def IoUringInterface_new_def)
  moreover have "list_all (\<lambda>d. length d \<le> kBufferSize) ?ds" by (simp add: list_all_iff kBufferSize_def)
  ultimately show ?thesis using uring_overrun_corrupts [of ?i ?ds] by (simp add: nth_append del: upt_rec_numeral)
qed

subsection \<open>Receiving\<close>

text \<open>Every armed slot delivers the datagram that arrives for it and is armed again.\<close>

lemma recv_delivers:
  assumes "Recvmsg k \<in> set (iu_ring i)" "iu_sq i = []" "k < length (iu_recv_slots i)" "length (sl_buf (iu_recv_slots i ! k)) = kBufferSize"
    "d \<noteq> []" "length d \<le> kBufferSize"
  shows "iu_received (uring_step i (URecv k d)) = iu_received i @ [d] \<and>
    mset (iu_ring (uring_step i (URecv k d))) = mset (iu_ring i)"
  using assms by (auto simp: completion_step_def kernel_recv_def arm_recv_def io_uring_submit_def Let_def)

lemma stub_never_ready: "\<not> iouring_is_ready (stub_open i)" "iouring_has_failed (stub_open i)"
  by (simp_all add: stub_open_def iouring_is_ready_def iouring_has_failed_def)

end
