(* ===== verification/Bridge_Header.thy ===== *)
theory Bridge_Header
  imports SF_Prelude
begin

text \<open>
  The inner header of a bridged message (\<^verbatim>\<open>NetworkBridge::create_header\<close> and
  \<^verbatim>\<open>NetworkBridge::parse_header\<close> of \<^verbatim>\<open>network_bridge.cpp\<close>): topic, NUL, type, NUL. The parser has two
  output parameters and leaves one unassigned on the error paths.
\<close>

definition char_byte :: "char \<Rightarrow> u8" where
  "char_byte c = word_of_nat (of_char c)"

definition byte_char :: "u8 \<Rightarrow> char" where
  "byte_char b = char_of (unat b)"

lemma byte_char_byte [simp]: "byte_char (char_byte c) = c"
  by (simp add: byte_char_def char_byte_def unat_of_nat)

lemma char_byte_char [simp]: "char_byte (byte_char b) = b"
proof -
  have "unat b < 256" using unsigned_less [of b] by simp
  then show ?thesis by (simp add: byte_char_def char_byte_def)
qed

definition create_header :: "string \<Rightarrow> string \<Rightarrow> bytes" where
  "create_header topic msg_type = map char_byte topic @ [0] @ map char_byte msg_type @ [0]"

text \<open>The loop \<^verbatim>\<open>while (i < header.size() && base[i] != '\0') ++i\<close>.\<close>

function scan_nul :: "bytes \<Rightarrow> nat \<Rightarrow> nat" where
  "scan_nul b i = (if i < length b \<and> b ! i \<noteq> 0 then scan_nul b (i + 1) else i)"
  by pat_completeness auto
termination by (relation "measure (\<lambda>(b, i). length b - i)") auto

declare scan_nul.simps [simp del]

definition parse_header :: "bytes \<Rightarrow> string \<Rightarrow> string \<Rightarrow> (string \<times> string) option" where
  "parse_header header topic msg_type =
     (if length header < 4 then Some (topic, msg_type)
      else let topic_end = scan_nul header 0
      in if topic_end \<ge> length header - 1 then Some (topic, msg_type)
      else do {
        t \<leftarrow> sub header 0 topic_end;
        let topic = map byte_char t;
        let type_start = topic_end + 1;
        let type_end = scan_nul header type_start;
        if type_end \<ge> length header then Some (topic, msg_type)
        else do {
          t \<leftarrow> sub header type_start (type_end - type_start);
          Some (topic, map byte_char t) } })"

lemma scan_nul_takeWhile:
  "i \<le> length b \<Longrightarrow> scan_nul b i = i + length (takeWhile (\<lambda>x. x \<noteq> 0) (drop i b))"
proof (induction b i rule: scan_nul.induct)
  case (1 b i)
  show ?case
  proof (cases "i < length b \<and> b ! i \<noteq> 0")
    case True
    with 1 have "scan_nul b (i + 1) = i + 1 + length (takeWhile (\<lambda>x. x \<noteq> 0) (drop (i + 1) b))" by simp
    with True show ?thesis by (simp add: scan_nul.simps [of b i] flip: Cons_nth_drop_Suc)
  next
    case False
    then have "scan_nul b i = i" by (auto simp: scan_nul.simps [of b i])
    with False 1 show ?thesis
      by (cases "i = length b") (auto simp flip: Cons_nth_drop_Suc)
  qed
qed

lemma scan_nul_hit: "0 \<notin> set xs \<Longrightarrow> scan_nul (pre @ xs @ 0 # rest) (length pre) = length pre + length xs"
proof -
  assume "0 \<notin> set xs"
  then have "takeWhile (\<lambda>x. x \<noteq> 0) (xs @ 0 # rest) = xs" by (subst takeWhile_append2) auto
  then show ?thesis by (subst scan_nul_takeWhile) simp_all
qed

lemma scan_nul_bound: "i \<le> length b \<Longrightarrow> i \<le> scan_nul b i \<and> scan_nul b i \<le> length b"
  using length_takeWhile_le [of "\<lambda>x. x \<noteq> 0" "drop i b"] by (simp add: scan_nul_takeWhile)

lemma scan_nul_split:
  assumes "i \<le> length b" and "scan_nul b i < length b"
  shows "0 \<notin> set (take (scan_nul b i - i) (drop i b))" "b ! scan_nul b i = 0"
proof -
  let ?w = "takeWhile (\<lambda>x. x \<noteq> 0) (drop i b)"
  have n: "scan_nul b i - i = length ?w" using assms(1) by (simp add: scan_nul_takeWhile)
  have "take (length ?w) (drop i b) = ?w" by (simp add: takeWhile_eq_take [symmetric])
  then show "0 \<notin> set (take (scan_nul b i - i) (drop i b))"
    using n set_takeWhileD by fastforce
  have "length ?w < length (drop i b)" using assms by (simp add: scan_nul_takeWhile)
  then have "drop i b ! length ?w = 0" using nth_length_takeWhile by blast
  then show "b ! scan_nul b i = 0" using assms by (simp add: scan_nul_takeWhile)
qed

lemma char_byte_zero [simp]: "char_byte c = 0 \<longleftrightarrow> c = CHR 0x00"
proof -
  have "byte_char 0 = CHR 0x00" by (simp add: byte_char_def char_of_def)
  then show ?thesis by (metis byte_char_byte char_byte_char)
qed

text \<open>The parser never reads out of bounds, and what it accepts is a header followed by the message.\<close>

lemma parse_header_total: "\<exists>t ty. parse_header b topic msg_type = Some (t, ty)"
proof -
  have "scan_nul b 0 \<le> length b" using scan_nul_bound [of 0 b] by simp
  moreover have "scan_nul b (scan_nul b 0 + 1) \<le> length b" "scan_nul b 0 + 1 \<le> scan_nul b (scan_nul b 0 + 1)"
    if "scan_nul b 0 < length b - 1"
    using scan_nul_bound [of "scan_nul b 0 + 1" b] that by auto
  ultimately show ?thesis
    by (auto simp: parse_header_def Let_def sub_def)
qed

text \<open>Topic and type survive, whatever message follows.\<close>

lemma parse_create:
  assumes "topic \<noteq> []" "msg_type \<noteq> []" "CHR 0x00 \<notin> set topic" "CHR 0x00 \<notin> set msg_type"
  shows "parse_header (create_header topic msg_type @ data) t ty = Some (topic, msg_type)"
proof -
  let ?t = "map char_byte topic" and ?y = "map char_byte msg_type"
  define h where "h = create_header topic msg_type @ data"
  have nz: "0 \<notin> set ?t" "0 \<notin> set ?y" using assms(3,4) by auto
  have hs: "h = [] @ ?t @ 0 # (?y @ 0 # data)" "h = (?t @ [0]) @ ?y @ 0 # data" by (simp_all add: h_def create_header_def)
  have 1: "scan_nul h 0 = length topic"
    using scan_nul_hit [OF nz(1), of "[]" "?y @ 0 # data"] unfolding hs(1) [symmetric] by simp
  have 2: "scan_nul h (length topic + 1) = length topic + 1 + length msg_type"
    using scan_nul_hit [OF nz(2), of "?t @ [0]" data] unfolding hs(2) [symmetric] by simp
  have l: "length h = length topic + length msg_type + 2 + length data" by (simp add: h_def create_header_def)
  have "\<not> length topic + length msg_type + length data < 2"
    using assms(1,2) by (cases topic; cases msg_type) auto
  moreover have "take (length topic) h = ?t" "take (length msg_type) (drop (length topic + 1) h) = ?y"
    by (simp_all add: h_def create_header_def)
  ultimately show ?thesis
    unfolding h_def [symmetric] using 2 by (simp add: parse_header_def Let_def 1 l sub_def o_def)
qed

text \<open>Conversely, two non-empty fields are only read from a buffer that starts with their header.\<close>

lemma parse_accepts:
  assumes "parse_header b [] [] = Some (topic, msg_type)" and "topic \<noteq> []" and "msg_type \<noteq> []"
  shows "\<exists>data. b = create_header topic msg_type @ data"
proof -
  let ?i = "scan_nul b 0"
  let ?j = "scan_nul b (?i + 1)"
  have i: "?i < length b - 1" and j: "?j < length b"
    and t: "topic = map byte_char (take ?i b)" and ty: "msg_type = map byte_char (take (?j - (?i + 1)) (drop (?i + 1) b))"
    using assms by (auto simp: parse_header_def Let_def sub_def split: if_splits bind_splits)
  have ij: "?i + 1 \<le> ?j" using scan_nul_bound [of "?i + 1" b] i by simp
  have z: "b ! ?i = 0" "b ! ?j = 0"
    using scan_nul_split(2) [of 0 b] scan_nul_split(2) [of "?i + 1" b] i j by auto
  have "b = take ?i b @ b ! ?i # drop (?i + 1) b" using i by (simp add: id_take_nth_drop)
  also have "drop (?i + 1) b = take (?j - (?i + 1)) (drop (?i + 1) b) @ drop ?j b"
    using ij by (metis append_take_drop_id drop_drop le_add_diff_inverse2)
  also have "drop ?j b = 0 # drop (?j + 1) b" using j z(2) by (simp flip: Cons_nth_drop_Suc)
  finally have "b = create_header topic msg_type @ drop (?j + 1) b"
    using z(1) by (simp add: create_header_def t ty o_def)
  then show ?thesis by blast
qed

end
