(* ===== verification/Fp64.thy ===== *)
theory Fp64
  imports SF_Prelude Complex_Main
begin

text \<open>
  Finite IEEE 754 double-precision numbers, for the rates, delays and times of the fault engine, the
  scenario runner and the replayer. A \<^verbatim>\<open>double\<close> is a real number, and every arithmetic operation
  rounds its exact result to the nearest representable value, ties to even (\<open>rnd64\<close>). Overflow to
  infinity and not-a-number are outside the model: no modelled computation produces them from finite
  inputs of ordinary size.
\<close>

type_synonym dbl = real

subsection \<open>Rounding\<close>

definition round_even :: "real \<Rightarrow> int" where
  "round_even x =
     (let f = \<lfloor>x\<rfloor>; d = x - of_int f
      in if d < 1 / 2 then f else if 1 / 2 < d then f + 1 else if even f then f else f + 1)"

text \<open>The exponent of the last place of a 53-bit significand, bounded below by the subnormal range.\<close>

definition ulp_exp :: "real \<Rightarrow> int" where
  "ulp_exp x = max (\<lfloor>log 2 \<bar>x\<bar>\<rfloor> - 52) (- 1074)"

definition rnd64 :: "real \<Rightarrow> dbl" where
  "rnd64 x = (if x = 0 then 0 else of_int (round_even (x / 2 powi ulp_exp x)) * 2 powi ulp_exp x)"

definition fadd :: "dbl \<Rightarrow> dbl \<Rightarrow> dbl" where "fadd x y = rnd64 (x + y)"
definition fsub :: "dbl \<Rightarrow> dbl \<Rightarrow> dbl" where "fsub x y = rnd64 (x - y)"
definition fmul :: "dbl \<Rightarrow> dbl \<Rightarrow> dbl" where "fmul x y = rnd64 (x * y)"
definition fdiv :: "dbl \<Rightarrow> dbl \<Rightarrow> dbl" where "fdiv x y = rnd64 (x / y)"

text \<open>\<^verbatim>\<open>static_cast<double>\<close> of an integer, and the truncating cast back.\<close>

definition of_integer :: "int \<Rightarrow> dbl" where "of_integer n = rnd64 (of_int n)"

definition trunc :: "dbl \<Rightarrow> int" where "trunc x = (if 0 \<le> x then \<lfloor>x\<rfloor> else \<lceil>x\<rceil>)"

subsection \<open>Facts\<close>

lemma round_even_int [simp]: "round_even (of_int n) = n"
  by (simp add: round_even_def)

lemma round_even_nonneg: "0 \<le> x \<Longrightarrow> 0 \<le> round_even x"
  by (simp add: round_even_def Let_def)

lemma round_even_near: "\<bar>of_int (round_even x) - x\<bar> \<le> 1 / 2"
  unfolding round_even_def Let_def by (auto simp: abs_le_iff; linarith)

lemma rnd64_zero [simp]: "rnd64 0 = 0"
  by (simp add: rnd64_def)

lemma rnd64_nonneg: "0 \<le> x \<Longrightarrow> 0 \<le> rnd64 x"
  by (simp add: rnd64_def round_even_nonneg)

text \<open>Integers of at most 53 bits are represented exactly.\<close>

lemma rnd64_int:
  assumes "\<bar>n\<bar> < 2 ^ 53"
  shows "rnd64 (of_int n) = of_int n"
proof (cases "n = 0")
  case False
  have "log 2 \<bar>real_of_int n\<bar> < 53"
    using assms False by (simp add: log_less_iff powr_numeral flip: of_int_abs)
  then have e: "ulp_exp (of_int n) \<le> 0" by (simp add: ulp_exp_def floor_le_iff; linarith)
  then obtain k where k: "ulp_exp (of_int n) = - int k" by (metis int_nat_eq minus_minus neg_0_le_iff_le nat_0_le)
  have "of_int n / 2 powi ulp_exp (of_int n) = (of_int (n * 2 ^ k) :: real)"
    by (simp add: k power_int_minus field_simps)
  then have "rnd64 (of_int n) = of_int (n * 2 ^ k) * 2 powi ulp_exp (of_int n)"
    using False by (simp only: rnd64_def round_even_int) simp
  then show ?thesis by (simp add: k power_int_minus)
qed simp

lemma of_integer_exact: "\<bar>n\<bar> < 2 ^ 53 \<Longrightarrow> of_integer n = of_int n"
  by (simp add: of_integer_def rnd64_int)

lemma trunc_nonneg: "0 \<le> x \<Longrightarrow> 0 \<le> trunc x"
  by (simp add: trunc_def)

lemma of_integer_nonneg: "0 \<le> n \<Longrightarrow> 0 \<le> of_integer n"
  unfolding of_integer_def by (rule rnd64_nonneg) simp

lemma fdiv_nonneg: "0 \<le> x \<Longrightarrow> 0 < y \<Longrightarrow> 0 \<le> fdiv x y"
  unfolding fdiv_def by (rule rnd64_nonneg) simp

subsection \<open>Rounding is monotone\<close>

lemma round_even_bounds: "\<lfloor>x\<rfloor> \<le> round_even x" "round_even x \<le> \<lfloor>x\<rfloor> + 1"
  by (auto simp: round_even_def Let_def)

lemma round_even_le: "x \<le> of_int m \<Longrightarrow> round_even x \<le> m"
proof (cases "\<lfloor>x\<rfloor> = m")
  case True
  moreover assume "x \<le> of_int m"
  ultimately have "x = of_int m" by linarith
  then show ?thesis by simp
next
  case False
  moreover assume "x \<le> of_int m"
  ultimately have "\<lfloor>x\<rfloor> < m" by linarith
  then show ?thesis using round_even_bounds(2) [of x] by linarith
qed

lemma round_even_ge: "of_int m \<le> x \<Longrightarrow> m \<le> round_even x"
  using round_even_bounds(1) [of x] by linarith

lemma round_even_mono: "x \<le> y \<Longrightarrow> round_even x \<le> round_even y"
proof (cases "\<lfloor>x\<rfloor> = \<lfloor>y\<rfloor>")
  case True
  moreover assume "x \<le> y"
  ultimately show ?thesis by (auto simp: round_even_def Let_def)
next
  case False
  moreover assume "x \<le> y"
  ultimately have "\<lfloor>x\<rfloor> + 1 \<le> \<lfloor>y\<rfloor>" by linarith
  then show ?thesis using round_even_bounds(2) [of x] round_even_bounds(1) [of y] by linarith
qed

lemma ulp_exp_mono: "0 < x \<Longrightarrow> x \<le> y \<Longrightarrow> ulp_exp x \<le> ulp_exp y"
proof -
  assume "0 < x" "x \<le> y"
  then have "\<lfloor>log 2 \<bar>x\<bar>\<rfloor> \<le> \<lfloor>log 2 \<bar>y\<bar>\<rfloor>" by (intro floor_mono) simp
  then show ?thesis by (auto simp: ulp_exp_def)
qed

lemma ulp_exp_upper: assumes "0 < x" shows "x < 2 powi (ulp_exp x + 53)"
proof -
  have "log 2 x < of_int (ulp_exp x + 53)" unfolding ulp_exp_def using assms by linarith
  then have "x < 2 powr of_int (ulp_exp x + 53)" using assms by (simp add: log_less_iff)
  then show ?thesis using powr_real_of_int' [of 2 "ulp_exp x + 53"] by simp
qed

lemma ulp_exp_lower: assumes "0 < x" "- 1074 < ulp_exp x" shows "2 powi (ulp_exp x + 52) \<le> x"
proof -
  have "of_int (ulp_exp x + 52) \<le> log 2 x" using assms unfolding ulp_exp_def by linarith
  then have "2 powr of_int (ulp_exp x + 52) \<le> x" using assms by (simp add: le_log_iff)
  then show ?thesis using powr_real_of_int' [of 2 "ulp_exp x + 52"] by simp
qed

lemma rnd64_le_power:
  assumes "0 < x" "x \<le> 2 powi n" "ulp_exp x \<le> n"
  shows "rnd64 x \<le> 2 powi n"
proof -
  let ?e = "ulp_exp x"
  have p: "(2 powi n :: real) = 2 powi (n - ?e) * 2 powi ?e" by (simp add: power_int_add flip: power_int_add)
  have "x / 2 powi ?e \<le> of_int (2 ^ nat (n - ?e))"
    using assms p by (simp add: divide_le_eq power_int_def)
  then have "round_even (x / 2 powi ?e) \<le> 2 ^ nat (n - ?e)" by (rule round_even_le)
  then have "real_of_int (round_even (x / 2 powi ?e)) \<le> 2 ^ nat (n - ?e)" by (simp flip: of_int_le_iff)
  then have "real_of_int (round_even (x / 2 powi ?e)) * 2 powi ?e \<le> 2 powi (n - ?e) * 2 powi ?e"
    using assms(3) by (intro mult_right_mono) (simp_all add: power_int_def)
  with assms(1) p show ?thesis by (simp add: rnd64_def)
qed

lemma rnd64_ge_power:
  assumes "0 < x" "2 powi (ulp_exp x + 52) \<le> x"
  shows "2 powi (ulp_exp x + 52) \<le> rnd64 x"
proof -
  let ?e = "ulp_exp x"
  have p: "(2 powi (?e + 52) :: real) = 2 ^ 52 * 2 powi ?e" by (simp add: power_int_add)
  have "of_int (2 ^ 52) \<le> x / 2 powi ?e" using assms p by (simp add: le_divide_eq)
  then have "2 ^ 52 \<le> round_even (x / 2 powi ?e)" by (rule round_even_ge)
  then have "2 ^ 52 \<le> real_of_int (round_even (x / 2 powi ?e))" by (simp flip: of_int_le_iff)
  then have "2 ^ 52 * 2 powi ?e \<le> real_of_int (round_even (x / 2 powi ?e)) * 2 powi ?e"
    by (intro mult_right_mono) simp_all
  with assms(1) p show ?thesis by (simp add: rnd64_def)
qed

lemma rnd64_mono:
  assumes "0 \<le> x" "x \<le> y"
  shows "rnd64 x \<le> rnd64 y"
proof (cases "x = 0")
  case True
  with assms show ?thesis by (simp add: rnd64_nonneg)
next
  case False
  with assms have x: "0 < x" and y: "0 < y" by simp_all
  show ?thesis
  proof (cases "ulp_exp x = ulp_exp y")
    case True
    with x y assms(2) show ?thesis
      by (auto simp: rnd64_def intro!: mult_right_mono round_even_mono divide_right_mono)
  next
    case False
    with ulp_exp_mono [OF x assms(2)] have less: "ulp_exp x < ulp_exp y" by simp
    have "- 1074 \<le> ulp_exp x" by (simp add: ulp_exp_def)
    with less have low: "2 powi (ulp_exp y + 52) \<le> y" by (intro ulp_exp_lower [OF y]) simp
    have "2 powi (ulp_exp x + 53) \<le> (2 powi (ulp_exp y + 52) :: real)" using less by (intro power_int_increasing) auto
    with ulp_exp_upper [OF x] have "rnd64 x \<le> 2 powi (ulp_exp y + 52)"
      using less by (intro rnd64_le_power [OF x]) auto
    also have "\<dots> \<le> rnd64 y" by (rule rnd64_ge_power [OF y low])
    finally show ?thesis .
  qed
qed

lemma trunc_mono: "0 \<le> x \<Longrightarrow> x \<le> y \<Longrightarrow> trunc x \<le> trunc y"
  by (simp add: trunc_def floor_mono)

lemma trunc_int [simp]: "trunc (of_int n) = n"
  by (simp add: trunc_def)

subsection \<open>Rounding is symmetric and bounded\<close>

lemma round_even_minus [simp]: "round_even (- x) = - round_even x"
proof (cases "x = of_int \<lfloor>x\<rfloor>")
  case True
  then show ?thesis by (metis of_int_minus round_even_int)
next
  case False
  then have f: "\<lfloor>- x\<rfloor> = - \<lfloor>x\<rfloor> - 1" by linarith
  show ?thesis unfolding round_even_def Let_def f by auto
qed

lemma ulp_exp_minus [simp]: "ulp_exp (- x) = ulp_exp x"
  by (simp add: ulp_exp_def)

lemma rnd64_minus [simp]: "rnd64 (- x) = - rnd64 x"
  by (simp add: rnd64_def)

lemma rnd64_abs_le:
  assumes "\<bar>x\<bar> \<le> of_int n" and "n < 2 ^ 53"
  shows "\<bar>rnd64 x\<bar> \<le> of_int n"
proof -
  have "0 \<le> n" using assms(1) by linarith
  then have n: "rnd64 (of_int n) = of_int n" using assms(2) by (intro rnd64_int) simp
  have "rnd64 \<bar>x\<bar> \<le> of_int n" using rnd64_mono [of "\<bar>x\<bar>" "of_int n"] assms(1) n by simp
  moreover have "0 \<le> rnd64 \<bar>x\<bar>" by (rule rnd64_nonneg) simp
  moreover have "\<bar>rnd64 x\<bar> = rnd64 \<bar>x\<bar>" using rnd64_nonneg [of x] rnd64_nonneg [of "- x"] by (cases "0 \<le> x") auto
  ultimately show ?thesis by simp
qed

lemma fadd_abs_le: "\<bar>x\<bar> \<le> of_int m \<Longrightarrow> \<bar>y\<bar> \<le> of_int n \<Longrightarrow> m + n < 2 ^ 53 \<Longrightarrow> \<bar>fadd x y\<bar> \<le> of_int (m + n)"
  unfolding fadd_def by (rule rnd64_abs_le) simp_all

lemma fmul_abs_le:
  assumes "\<bar>x\<bar> \<le> of_int m" and "\<bar>y\<bar> \<le> of_int n" and "m * n < 2 ^ 53"
  shows "\<bar>fmul x y\<bar> \<le> of_int (m * n)"
proof -
  have "0 \<le> m" using assms(1) by linarith
  then have "\<bar>x * y\<bar> \<le> of_int (m * n)" using assms(1,2) by (simp add: abs_mult mult_mono)
  then show ?thesis unfolding fmul_def by (rule rnd64_abs_le [OF _ assms(3)])
qed

lemma trunc_abs_le: "\<bar>x\<bar> \<le> of_int n \<Longrightarrow> \<bar>trunc x\<bar> \<le> n"
  unfolding trunc_def by (auto simp: abs_le_iff; linarith)

end
