(* ===== verification/Fault_Engine.thy ===== *)
theory Fault_Engine
  imports Fp64 "HOL-Library.Multiset"
begin

text \<open>
  The fault injection engine (\<^verbatim>\<open>faults/fault_types.hpp\<close>, \<^verbatim>\<open>faults/fault_engine.hpp\<close>,
  \<^verbatim>\<open>faults/fault_engine.cpp\<close>). The environment \<open>'g\<close> stands for the random generator and the steady clock:
  the operations of \<open>Env\<close> draw from the standard distributions and read the clock, and return the
  environment to continue with. The engine is built with a write callback; the
  callback and the restart hook are modelled by the lists of the arguments they are called with. The delay queue is a list of which the earliest entry with the smallest due time
  is released first. Locks have no counterpart: \<^verbatim>\<open>process\<close>, \<^verbatim>\<open>flush\<close> and a release by the worker are the
  steps that interleave.
\<close>

subsection \<open>Rules\<close>

datatype FaultKind = kNone | kDelay | kDrop | kDuplicate | kCorrupt | kReorder | kBurstLoss
  | kBandwidthLimit | kEcuDisconnect | kProcessRestart

definition fault_kind_from_string :: "string \<Rightarrow> FaultKind" where
  "fault_kind_from_string s =
     (if s = ''delay'' then kDelay
      else if s = ''drop'' then kDrop
      else if s = ''duplicate'' then kDuplicate
      else if s = ''corrupt'' then kCorrupt
      else if s = ''reorder'' then kReorder
      else if s = ''burst'' \<or> s = ''burst_loss'' then kBurstLoss
      else if s = ''bandwidth_limit'' then kBandwidthLimit
      else if s = ''ecu_disconnect'' then kEcuDisconnect
      else if s = ''process_restart'' then kProcessRestart
      else kNone)"

record FaultRule =
  fr_kind :: FaultKind
  fr_stream :: string
  fr_start_s :: dbl
  fr_duration_s :: dbl
  fr_delay_ms :: dbl
  fr_drop_rate :: dbl
  fr_bandwidth_kbps :: dbl
  fr_corrupt_bits :: u32
  fr_seed :: u64

definition FaultRule_init :: FaultRule where
  "FaultRule_init = \<lparr>fr_kind = kNone, fr_stream = [], fr_start_s = 0, fr_duration_s = 0, fr_delay_ms = 0,
     fr_drop_rate = 0, fr_bandwidth_kbps = 0, fr_corrupt_bits = 4, fr_seed = 1\<rparr>"

definition active_at :: "FaultRule \<Rightarrow> dbl \<Rightarrow> bool" where
  "active_at r t_s \<longleftrightarrow> fr_start_s r \<le> t_s \<and> t_s < fadd (fr_start_s r) (fr_duration_s r)"

definition rule_matches :: "FaultRule \<Rightarrow> string \<Rightarrow> bool" where
  "rule_matches r s \<longleftrightarrow> fr_stream r = [] \<or> fr_stream r = s"

subsection \<open>State\<close>

record FaultStats =
  st_forwarded :: u64
  st_dropped :: u64
  st_duplicated :: u64
  st_corrupted :: u64
  st_reordered :: u64
  st_delayed :: u64

definition FaultStats_init :: FaultStats where
  "FaultStats_init = \<lparr>st_forwarded = 0, st_dropped = 0, st_duplicated = 0, st_corrupted = 0, st_reordered = 0, st_delayed = 0\<rparr>"

record Delayed =
  due_ns :: dbl
  dl_data :: bytes

text \<open>Draws from \<^verbatim>\<open>uniform_real_distribution(0, 1)\<close>, \<^verbatim>\<open>uniform_int_distribution(0, n - 1)\<close> and
  \<^verbatim>\<open>uniform_int_distribution(0, 7)\<close>, and the clock in nanoseconds.\<close>

record 'g Env =
  draw_real :: "'g \<Rightarrow> dbl \<times> 'g"
  draw_index :: "nat \<Rightarrow> 'g \<Rightarrow> nat \<times> 'g"
  draw_bit :: "'g \<Rightarrow> nat \<times> 'g"
  now_ns :: "'g \<Rightarrow> dbl \<times> 'g"

definition env_ok :: "'g Env \<Rightarrow> bool" where
  "env_ok E \<longleftrightarrow> (\<forall>g. 0 \<le> fst (draw_real E g) \<and> fst (draw_real E g) < 1) \<and>
     (\<forall>n g. 0 < n \<longrightarrow> fst (draw_index E n g) < n) \<and> (\<forall>g. fst (draw_bit E g) < 8)"

record 'g FaultEngine =
  fe_rules :: "FaultRule list"
  fe_env :: 'g
  fe_has_held :: bool
  fe_held :: bytes
  fe_tokens_bytes :: dbl
  fe_last_refill_ns :: dbl
  fe_restarted :: "string list"
  fe_delayed :: "Delayed list"
  fe_stop :: bool
  fe_stats :: FaultStats
  fe_writes :: "bytes list"
  fe_restarts :: "string list"
  fe_restart_hook :: bool

definition FaultEngine_new :: "'g \<Rightarrow> 'g FaultEngine" where
  "FaultEngine_new g = \<lparr>fe_rules = [], fe_env = g, fe_has_held = False, fe_held = [], fe_tokens_bytes = 0,
     fe_last_refill_ns = 0, fe_restarted = [], fe_delayed = [], fe_stop = False, fe_stats = FaultStats_init,
     fe_writes = [], fe_restarts = [], fe_restart_hook = False\<rparr>"

definition add_rule :: "FaultRule \<Rightarrow> 'g FaultEngine \<Rightarrow> 'g FaultEngine" where
  "add_rule r e = e\<lparr>fe_rules := fe_rules e @ [r]\<rparr>"

definition set_restart_hook :: "'g FaultEngine \<Rightarrow> 'g FaultEngine" where
  "set_restart_hook e = e\<lparr>fe_restart_hook := True\<rparr>"

subsection \<open>Operations\<close>

definition emit :: "bytes \<Rightarrow> 'g FaultEngine \<Rightarrow> 'g FaultEngine" where
  "emit data e = e\<lparr>fe_writes := fe_writes e @ [data],
     fe_stats := (fe_stats e)\<lparr>st_forwarded := st_forwarded (fe_stats e) + 1\<rparr>\<rparr>"

definition count_drop :: "'g FaultEngine \<Rightarrow> 'g FaultEngine" where
  "count_drop e = e\<lparr>fe_stats := (fe_stats e)\<lparr>st_dropped := st_dropped (fe_stats e) + 1\<rparr>\<rparr>"

definition max_delay :: "FaultRule list \<Rightarrow> dbl" where
  "max_delay active = foldl (\<lambda>d r. if fr_kind r = kDelay then max d (fr_delay_ms r) else d) 0 active"

definition dispatch_or_delay :: "'g Env \<Rightarrow> FaultRule list \<Rightarrow> bytes \<Rightarrow> 'g FaultEngine \<Rightarrow> 'g FaultEngine" where
  "dispatch_or_delay E active payload e =
     (let delay_ms = max_delay active
      in if delay_ms \<le> 0 then emit payload e
         else case now_ns E (fe_env e) of (now, g) \<Rightarrow>
           e\<lparr>fe_env := g,
             fe_delayed := fe_delayed e @ [\<lparr>due_ns = fadd now (fmul delay_ms 1000000), dl_data = payload\<rparr>],
             fe_stats := (fe_stats e)\<lparr>st_delayed := st_delayed (fe_stats e) + 1\<rparr>\<rparr>)"

text \<open>The restart hook fires for an active restart rule if the stream is not marked yet.\<close>

fun restart_loop :: "string \<Rightarrow> FaultRule list \<Rightarrow> 'g FaultEngine \<Rightarrow> 'g FaultEngine" where
  "restart_loop stream [] e = e"
| "restart_loop stream (r # rs) e = restart_loop stream rs
     (if fr_kind r = kProcessRestart \<and> stream \<notin> set (fe_restarted e)
      then e\<lparr>fe_restarted := fe_restarted e @ [stream],
             fe_restarts := (if fe_restart_hook e then fe_restarts e @ [stream] else fe_restarts e)\<rparr> else e)"

text \<open>The probabilistic drop: whether the frame is dropped, and the environment after the draws.\<close>

fun drop_loop :: "'g Env \<Rightarrow> FaultRule list \<Rightarrow> 'g \<Rightarrow> bool \<times> 'g" where
  "drop_loop E [] g = (False, g)"
| "drop_loop E (r # rs) g =
     (if fr_kind r = kDrop \<and> fr_drop_rate r > 0
      then case draw_real E g of (x, g) \<Rightarrow> if x < fr_drop_rate r then (True, g) else drop_loop E rs g
      else drop_loop E rs g)"

text \<open>The token bucket; all rules share one bucket.\<close>

fun bandwidth_loop :: "'g Env \<Rightarrow> nat \<Rightarrow> FaultRule list \<Rightarrow> 'g FaultEngine \<Rightarrow> bool \<times> 'g FaultEngine" where
  "bandwidth_loop E sz [] e = (False, e)"
| "bandwidth_loop E sz (r # rs) e =
     (if fr_kind r = kBandwidthLimit \<and> fr_bandwidth_kbps r > 0
      then case now_ns E (fe_env e) of (now, g) \<Rightarrow>
        let e = e\<lparr>fe_env := g\<rparr>;
            cap_bytes = fdiv (fmul (fr_bandwidth_kbps r) 1000) 8;
            e = (if fe_last_refill_ns e = 0 then e\<lparr>fe_last_refill_ns := now, fe_tokens_bytes := cap_bytes\<rparr> else e);
            elapsed_s = fdiv (fsub now (fe_last_refill_ns e)) 1000000000;
            e = e\<lparr>fe_tokens_bytes := min cap_bytes (fadd (fe_tokens_bytes e) (fmul elapsed_s cap_bytes)),
                  fe_last_refill_ns := now\<rparr>
        in if fe_tokens_bytes e < of_integer (int sz) then (True, e)
           else bandwidth_loop E sz rs (e\<lparr>fe_tokens_bytes := fsub (fe_tokens_bytes e) (of_integer (int sz))\<rparr>)
      else bandwidth_loop E sz rs e)"

text \<open>\<open>n\<close> bit flips; the bit is drawn before the position.\<close>

fun flip_bits :: "'g Env \<Rightarrow> nat \<Rightarrow> bytes \<Rightarrow> 'g \<Rightarrow> bytes \<times> 'g" where
  "flip_bits E 0 payload g = (payload, g)"
| "flip_bits E (Suc n) payload g =
     (case draw_bit E g of (b, g) \<Rightarrow> case draw_index E (length payload) g of (i, g) \<Rightarrow>
        flip_bits E n (payload[i := payload ! i XOR push_bit b 1]) g)"

fun corrupt_loop :: "'g Env \<Rightarrow> FaultRule list \<Rightarrow> bytes \<Rightarrow> 'g FaultEngine \<Rightarrow> bytes \<times> 'g FaultEngine" where
  "corrupt_loop E [] payload e = (payload, e)"
| "corrupt_loop E (r # rs) payload e =
     (if fr_kind r = kCorrupt \<and> payload \<noteq> []
      then case flip_bits E (unat (fr_corrupt_bits r)) payload (fe_env e) of (payload, g) \<Rightarrow>
        corrupt_loop E rs payload (e\<lparr>fe_env := g, fe_stats := (fe_stats e)\<lparr>st_corrupted := st_corrupted (fe_stats e) + 1\<rparr>\<rparr>)
      else corrupt_loop E rs payload e)"

fun duplicate_loop :: "'g Env \<Rightarrow> FaultRule list \<Rightarrow> FaultRule list \<Rightarrow> bytes \<Rightarrow> 'g FaultEngine \<Rightarrow> 'g FaultEngine" where
  "duplicate_loop E active [] payload e = e"
| "duplicate_loop E active (r # rs) payload e =
     (if fr_kind r = kDuplicate
      then let e = dispatch_or_delay E active payload e
           in duplicate_loop E active rs payload
                (e\<lparr>fe_stats := (fe_stats e)\<lparr>st_duplicated := st_duplicated (fe_stats e) + 1\<rparr>\<rparr>)
      else duplicate_loop E active rs payload e)"

definition active_rules :: "'g FaultEngine \<Rightarrow> dbl \<Rightarrow> string \<Rightarrow> FaultRule list" where
  "active_rules e t_s stream = filter (\<lambda>r. rule_matches r stream \<and> active_at r t_s) (fe_rules e)"

definition process :: "'g Env \<Rightarrow> bytes \<Rightarrow> dbl \<Rightarrow> string \<Rightarrow> 'g FaultEngine \<Rightarrow> 'g FaultEngine" where
  "process E data t_s stream e =
     (let active = active_rules e t_s stream;
          e = restart_loop stream active e;
          e = (if active = [] then e\<lparr>fe_restarted := filter (\<lambda>s. s \<noteq> stream) (fe_restarted e)\<rparr> else e)
      in if list_ex (\<lambda>r. fr_kind r = kEcuDisconnect \<or> fr_kind r = kBurstLoss) active then count_drop e
         else case drop_loop E active (fe_env e) of (dropped, g) \<Rightarrow>
         let e = e\<lparr>fe_env := g\<rparr>
         in if dropped then count_drop e
         else case bandwidth_loop E (length data) active e of (over, e) \<Rightarrow>
         if over then count_drop e
         else case corrupt_loop E active data e of (payload, e) \<Rightarrow>
         let reorder = list_ex (\<lambda>r. fr_kind r = kReorder) active
         in if reorder then
              (if \<not> fe_has_held e then e\<lparr>fe_has_held := True, fe_held := payload\<rparr>
               else let current = payload; prev = fe_held e;
                        e = e\<lparr>fe_has_held := False, fe_held := []\<rparr>;
                        e = dispatch_or_delay E active current e;
                        e = dispatch_or_delay E active prev e
                    in e\<lparr>fe_stats := (fe_stats e)\<lparr>st_reordered := st_reordered (fe_stats e) + 1\<rparr>\<rparr>)
            else duplicate_loop E active active payload (dispatch_or_delay E active payload e))"

subsection \<open>The delay queue\<close>

text \<open>The entry with the smallest due time and the queue without it.\<close>

fun pop_min :: "Delayed \<Rightarrow> Delayed list \<Rightarrow> Delayed \<times> Delayed list" where
  "pop_min d [] = (d, [])"
| "pop_min d (d' # ds) =
     (if due_ns d' < due_ns d then (case pop_min d' ds of (m, rest) \<Rightarrow> (m, d # rest))
      else (case pop_min d ds of (m, rest) \<Rightarrow> (m, d' # rest)))"

definition delayed_pop :: "Delayed list \<Rightarrow> (Delayed \<times> Delayed list) option" where
  "delayed_pop q = (case q of [] \<Rightarrow> None | d # ds \<Rightarrow> Some (pop_min d ds))"

lemma pop_min_length: "pop_min d ds = (m, rest) \<Longrightarrow> length rest = length ds"
  by (induction d ds arbitrary: m rest rule: pop_min.induct) (auto split: if_splits prod.splits)

text \<open>One turn of the worker loop that finds an entry: it is released once it is due.\<close>

definition worker_step :: "'g Env \<Rightarrow> 'g FaultEngine \<Rightarrow> 'g FaultEngine" where
  "worker_step E e =
     (if fe_stop e then e
      else case delayed_pop (fe_delayed e) of
          None \<Rightarrow> e
        | Some (d, rest) \<Rightarrow>
            (case now_ns E (fe_env e) of (now, g) \<Rightarrow>
               let e = e\<lparr>fe_env := g\<rparr>
               in if now < due_ns d then e else emit (dl_data d) (e\<lparr>fe_delayed := rest\<rparr>)))"

function engine_flush :: "'g FaultEngine \<Rightarrow> 'g FaultEngine" where
  "engine_flush e = (case delayed_pop (fe_delayed e) of
     None \<Rightarrow> e
   | Some (d, rest) \<Rightarrow> engine_flush (emit (dl_data d) (e\<lparr>fe_delayed := rest\<rparr>)))"
  by pat_completeness auto
termination
  by (relation "measure (\<lambda>e. length (fe_delayed e))")
    (auto simp: delayed_pop_def emit_def split: list.splits dest: pop_min_length)

declare engine_flush.simps [simp del]

definition engine_stop :: "'g FaultEngine \<Rightarrow> 'g FaultEngine" where
  "engine_stop e = e\<lparr>fe_stop := True\<rparr>"

subsection \<open>Accounting\<close>

text \<open>Frames that are out, lost on purpose, queued or held, less the extra copies.\<close>

definition account :: "'g FaultEngine \<Rightarrow> u64" where
  "account e = st_forwarded (fe_stats e) + st_dropped (fe_stats e) + word_of_nat (length (fe_delayed e)) +
     (if fe_has_held e then 1 else 0) - st_duplicated (fe_stats e)"

definition writes_counted :: "'g FaultEngine \<Rightarrow> bool" where
  "writes_counted e \<longleftrightarrow> st_forwarded (fe_stats e) = word_of_nat (length (fe_writes e))"

named_theorems fault_account

lemma account_emit [fault_account]: "account (emit d e) = account e + 1" "writes_counted (emit d e) = writes_counted e"
  by (simp_all add: account_def emit_def writes_counted_def)

lemma account_drop [fault_account]: "account (count_drop e) = account e + 1" "writes_counted (count_drop e) = writes_counted e"
  by (simp_all add: account_def count_drop_def writes_counted_def)

lemma account_irrelevant [fault_account]:
  "account (e\<lparr>fe_env := g\<rparr>) = account e" "writes_counted (e\<lparr>fe_env := g\<rparr>) = writes_counted e"
  "account (e\<lparr>fe_restarted := xs\<rparr>) = account e" "writes_counted (e\<lparr>fe_restarted := xs\<rparr>) = writes_counted e"
  by (simp_all add: account_def writes_counted_def)

lemma account_dispatch [fault_account]:
  "account (dispatch_or_delay E active d e) = account e + 1"
  "writes_counted (dispatch_or_delay E active d e) = writes_counted e"
  by (auto simp: dispatch_or_delay_def fault_account Let_def split: prod.split)
    (simp_all add: account_def writes_counted_def)

lemma dispatch_keeps [simp]:
  "fe_has_held (dispatch_or_delay E active d e) = fe_has_held e"
  "fe_rules (dispatch_or_delay E active d e) = fe_rules e"
  by (simp_all add: dispatch_or_delay_def emit_def Let_def split: prod.split)

lemma account_restart [fault_account]:
  "account (restart_loop stream rs e) = account e \<and> writes_counted (restart_loop stream rs e) = writes_counted e"
  by (induction rs arbitrary: e) (auto simp: account_def writes_counted_def)

lemma account_bucket:
  "account (e\<lparr>fe_env := g, fe_last_refill_ns := n, fe_tokens_bytes := t\<rparr>) = account e"
  "writes_counted (e\<lparr>fe_env := g, fe_last_refill_ns := n, fe_tokens_bytes := t\<rparr>) = writes_counted e"
  by (simp_all add: account_def writes_counted_def)

lemma bandwidth_loop_frame:
  "bandwidth_loop E sz rs e = (over, e') \<Longrightarrow> \<exists>g n t. e' = e\<lparr>fe_env := g, fe_last_refill_ns := n, fe_tokens_bytes := t\<rparr>"
proof (induction rs arbitrary: e)
  case Nil
  then show ?case by (cases e) auto
next
  case (Cons r rs)
  show ?case
  proof (cases "fr_kind r = kBandwidthLimit \<and> fr_bandwidth_kbps r > 0")
    case True
    obtain now g where n: "now_ns E (fe_env e) = (now, g)" by force
    obtain t where "e' = e\<lparr>fe_env := g, fe_last_refill_ns := now, fe_tokens_bytes := t\<rparr> \<or>
        bandwidth_loop E sz rs (e\<lparr>fe_env := g, fe_last_refill_ns := now, fe_tokens_bytes := t\<rparr>) = (over, e')"
      using Cons.prems True n by (cases e) (auto simp: Let_def split: if_splits)
    then show ?thesis
      using Cons.IH by fastforce
  qed (use Cons in auto)
qed

lemma account_bandwidth:
  assumes "bandwidth_loop E sz rs e = (over, e')"
  shows "account e' = account e \<and> writes_counted e' = writes_counted e \<and> fe_has_held e' = fe_has_held e"
  using bandwidth_loop_frame [OF assms] by (auto simp: account_bucket)

lemma account_corrupt:
  "corrupt_loop E rs d e = (d', e') \<Longrightarrow> account e' = account e \<and> writes_counted e' = writes_counted e \<and> fe_has_held e' = fe_has_held e"
proof (induction rs arbitrary: d e)
  case (Cons r rs)
  obtain d1 g where f: "flip_bits E (unat (fr_corrupt_bits r)) d (fe_env e) = (d1, g)" by force
  show ?case
  proof (cases "fr_kind r = kCorrupt \<and> d \<noteq> []")
    case True
    let ?e = "e\<lparr>fe_env := g, fe_stats := (fe_stats e)\<lparr>st_corrupted := st_corrupted (fe_stats e) + 1\<rparr>\<rparr>"
    have "account ?e = account e" "writes_counted ?e = writes_counted e" by (simp_all add: account_def writes_counted_def)
    with Cons.IH [of d1 ?e] Cons.prems True f show ?thesis by simp
  qed (use Cons in auto)
qed simp

lemma account_duplicate [fault_account]:
  "account (duplicate_loop E active rs d e) = account e \<and> writes_counted (duplicate_loop E active rs d e) = writes_counted e"
proof (induction rs arbitrary: e)
  case (Cons r rs)
  have "account (e'\<lparr>fe_stats := (fe_stats e')\<lparr>st_duplicated := st_duplicated (fe_stats e') + 1\<rparr>\<rparr>) = account e' - 1"
    "writes_counted (e'\<lparr>fe_stats := (fe_stats e')\<lparr>st_duplicated := st_duplicated (fe_stats e') + 1\<rparr>\<rparr>) = writes_counted e'"
    for e' :: "'a FaultEngine"
    by (simp_all add: account_def writes_counted_def)
  with Cons show ?case by (simp add: Let_def account_dispatch)
qed simp

lemma account_hold [fault_account]:
  "\<not> fe_has_held e \<Longrightarrow> account (e\<lparr>fe_has_held := True, fe_held := d\<rparr>) = account e + 1"
  "fe_has_held e \<Longrightarrow> account (e\<lparr>fe_has_held := False, fe_held := d\<rparr>) = account e - 1"
  "writes_counted (e\<lparr>fe_has_held := b, fe_held := d\<rparr>) = writes_counted e"
  "account (e\<lparr>fe_stats := (fe_stats e)\<lparr>st_reordered := n\<rparr>\<rparr>) = account e"
  "writes_counted (e\<lparr>fe_stats := (fe_stats e)\<lparr>st_reordered := n\<rparr>\<rparr>) = writes_counted e"
  by (simp_all add: account_def writes_counted_def)

text \<open>The stages of \<^verbatim>\<open>process\<close>: \<open>e1\<close> after the restart marks, \<open>e2\<close> after the bandwidth limit, \<open>e3\<close> after the corruption.\<close>

lemma process_stages:
  assumes "e1 = (let e' = restart_loop stream a e
      in if a = [] then e'\<lparr>fe_restarted := filter (\<lambda>s. s \<noteq> stream) (fe_restarted e')\<rparr> else e')"
    and "drop_loop E a (fe_env e1) = (dr, g)" and "bandwidth_loop E (length d) a (e1\<lparr>fe_env := g\<rparr>) = (ov, e2)"
    and "corrupt_loop E a d e2 = (p, e3)" and a: "a = active_rules e t stream"
  shows "process E d t stream e =
      (if list_ex (\<lambda>r. fr_kind r = kEcuDisconnect \<or> fr_kind r = kBurstLoss) a then count_drop e1
       else if dr then count_drop (e1\<lparr>fe_env := g\<rparr>)
       else if ov then count_drop e2
       else if list_ex (\<lambda>r. fr_kind r = kReorder) a then
         (if \<not> fe_has_held e3 then e3\<lparr>fe_has_held := True, fe_held := p\<rparr>
          else let e4 = dispatch_or_delay E a (fe_held e3) (dispatch_or_delay E a p (e3\<lparr>fe_has_held := False, fe_held := []\<rparr>))
               in e4\<lparr>fe_stats := (fe_stats e4)\<lparr>st_reordered := st_reordered (fe_stats e4) + 1\<rparr>\<rparr>)
       else duplicate_loop E a a p (dispatch_or_delay E a p e3))"
  unfolding process_def Let_def a [symmetric] assms(1) [unfolded Let_def, symmetric] by (simp add: assms(2-4))

lemma account_process: "account (process E d t stream e) = account e + 1 \<and> writes_counted (process E d t stream e) = writes_counted e"
proof -
  let ?a = "active_rules e t stream"
  define e1 where "e1 = (let e = restart_loop stream ?a e
    in if ?a = [] then e\<lparr>fe_restarted := filter (\<lambda>s. s \<noteq> stream) (fe_restarted e)\<rparr> else e)"
  obtain dr g where dl: "drop_loop E ?a (fe_env e1) = (dr, g)" by force
  obtain ov e2 where bl: "bandwidth_loop E (length d) ?a (e1\<lparr>fe_env := g\<rparr>) = (ov, e2)" by force
  obtain p e3 where cl: "corrupt_loop E ?a d e2 = (p, e3)" by force
  have 1: "account e1 = account e" "writes_counted e1 = writes_counted e"
    by (simp_all add: e1_def fault_account Let_def)
  have 2: "account e2 = account e" "writes_counted e2 = writes_counted e"
    using account_bandwidth [OF bl] 1 by (simp_all add: fault_account)
  have 3: "account e3 = account e" "writes_counted e3 = writes_counted e"
    using account_corrupt [OF cl] 2 by simp_all
  from 1 2 3 show ?thesis
    unfolding process_stages [OF e1_def dl bl cl refl] by (simp add: fault_account Let_def)
qed

lemma account_release:
  assumes "delayed_pop (fe_delayed e) = Some (d, rest)"
  shows "account (emit (dl_data d) (e\<lparr>fe_delayed := rest\<rparr>)) = account e \<and>
    writes_counted (emit (dl_data d) (e\<lparr>fe_delayed := rest\<rparr>)) = writes_counted e"
proof -
  have "length (fe_delayed e) = Suc (length rest)"
    using assms by (auto simp: delayed_pop_def split: list.splits dest: pop_min_length)
  then show ?thesis by (simp add: account_emit) (simp add: account_def writes_counted_def)
qed

lemma account_worker: "account (worker_step E e) = account e \<and> writes_counted (worker_step E e) = writes_counted e"
  using account_release [of "e\<lparr>fe_env := g\<rparr>" for g]
  by (auto simp: worker_step_def Let_def fault_account split: option.splits prod.splits)

lemma account_flush: "account (engine_flush e) = account e \<and> writes_counted (engine_flush e) = writes_counted e"
proof (induction e rule: engine_flush.induct)
  case (1 e)
  show ?case
  proof (cases "delayed_pop (fe_delayed e)")
    case None
    then show ?thesis by (simp add: engine_flush.simps [of e])
  next
    case (Some x)
    obtain d rest where x: "x = (d, rest)" by force
    from 1 [OF Some x [symmetric]] account_release [of e d rest] Some x show ?thesis
      by (simp add: engine_flush.simps [of e])
  qed
qed

subsection \<open>Runs\<close>

text \<open>What the threads do to the engine: a frame to process, a turn of the worker, a flush.\<close>

datatype fault_event = EvProcess bytes dbl string | EvWorker | EvFlush

fun fault_step :: "'g Env \<Rightarrow> 'g FaultEngine \<Rightarrow> fault_event \<Rightarrow> 'g FaultEngine" where
  "fault_step E e (EvProcess d t stream) = process E d t stream e"
| "fault_step E e EvWorker = worker_step E e"
| "fault_step E e EvFlush = engine_flush e"

fun is_process :: "fault_event \<Rightarrow> bool" where
  "is_process (EvProcess _ _ _) = True"
| "is_process _ = False"

lemma account_run:
  "account (foldl (fault_step E) e evs) = account e + word_of_nat (length (filter is_process evs)) \<and>
   writes_counted (foldl (fault_step E) e evs) = writes_counted e"
proof (induction evs rule: rev_induct)
  case (snoc ev evs)
  then show ?case by (cases ev) (simp_all add: account_process account_worker account_flush)
qed simp

lemma account_rules:
  "account (fold add_rule rules e) = account e \<and> writes_counted (fold add_rule rules e) = writes_counted e"
  by (induction rules arbitrary: e) (simp_all add: add_rule_def account_def writes_counted_def)

lemma account_new: "account (FaultEngine_new g) = 0" "writes_counted (FaultEngine_new g)"
  by (simp_all add: account_def FaultEngine_new_def FaultStats_init_def writes_counted_def)

text \<open>C10: However frames, worker turns and flushes interleave, and whatever rules, random draws and clock
  readings they meet, no frame is lost without trace: the frames forwarded, dropped, still queued for
  later and held for a swap are together the frames processed plus the copies added by duplication,
  and the forwarded count is the number of calls of the write callback (modulo the 64-bit counters).\<close>

theorem fault_accounting:
  "let e = foldl (fault_step E) (fold add_rule rules (FaultEngine_new g)) evs
   in st_forwarded (fe_stats e) + st_dropped (fe_stats e) + word_of_nat (length (fe_delayed e)) +
        (if fe_has_held e then 1 else 0) =
        word_of_nat (length (filter is_process evs)) + st_duplicated (fe_stats e) \<and>
      st_forwarded (fe_stats e) = word_of_nat (length (fe_writes e))"
proof -
  define e where "e = foldl (fault_step E) (fold add_rule rules (FaultEngine_new g)) evs"
  have "account e = word_of_nat (length (filter is_process evs))" "writes_counted e"
    using account_run [of E "fold add_rule rules (FaultEngine_new g)" evs] account_rules [of rules "FaultEngine_new g"]
    by (simp_all add: e_def account_new)
  then show ?thesis
    unfolding e_def [symmetric] account_def writes_counted_def Let_def by (metis diff_add_cancel)
qed

subsection \<open>Single faults\<close>

lemma active_rules_restart [simp]: "active_rules (e\<lparr>fe_restarted := x\<rparr>) t s = active_rules e t s"
  by (simp add: active_rules_def)

text \<open>Without an active rule the engine is transparent; during a disconnect or a burst it is silent.\<close>

lemma process_transparent:
  assumes "active_rules e t stream = []"
  shows "fe_writes (process E d t stream e) = fe_writes e @ [d]"
    "fe_delayed (process E d t stream e) = fe_delayed e"
    "fe_env (process E d t stream e) = fe_env e"
    "stream \<notin> set (fe_restarted (process E d t stream e))"
  using assms by (auto simp: process_def Let_def dispatch_or_delay_def max_delay_def emit_def)

lemma restart_loop_keeps [simp]:
  "fe_writes (restart_loop stream rs e) = fe_writes e" "fe_delayed (restart_loop stream rs e) = fe_delayed e"
  "fe_env (restart_loop stream rs e) = fe_env e" "fe_has_held (restart_loop stream rs e) = fe_has_held e"
  "fe_held (restart_loop stream rs e) = fe_held e" "fe_rules (restart_loop stream rs e) = fe_rules e"
  "fe_stats (restart_loop stream rs e) = fe_stats e"
  by (induction rs arbitrary: e) auto

lemma process_suppressed:
  assumes "r \<in> set (active_rules e t stream)" "fr_kind r = kEcuDisconnect \<or> fr_kind r = kBurstLoss"
  shows "fe_writes (process E d t stream e) = fe_writes e" "fe_delayed (process E d t stream e) = fe_delayed e"
    "st_dropped (fe_stats (process E d t stream e)) = st_dropped (fe_stats e) + 1"
proof -
  have "list_ex (\<lambda>r. fr_kind r = kEcuDisconnect \<or> fr_kind r = kBurstLoss) (active_rules e t stream)"
    using assms by (auto simp: list_ex_iff)
  then show "fe_writes (process E d t stream e) = fe_writes e" "fe_delayed (process E d t stream e) = fe_delayed e"
    "st_dropped (fe_stats (process E d t stream e)) = st_dropped (fe_stats e) + 1"
    by (auto simp: process_def Let_def count_drop_def)
qed

text \<open>A drop rate of at least one drops every frame, a rate of at most zero none.\<close>

lemma drop_loop_always:
  assumes "env_ok E" "r \<in> set rs" "fr_kind r = kDrop" "1 \<le> fr_drop_rate r"
  shows "fst (drop_loop E rs g)"
  using assms
proof (induction rs arbitrary: g)
  case (Cons a rs)
  obtain x g' where x: "draw_real E g = (x, g')" by force
  have "x < 1" using Cons.prems(1) x by (auto simp: env_ok_def dest!: spec [of _ g])
  with Cons x show ?case by auto
qed simp

lemma drop_loop_never:
  assumes "\<And>r. r \<in> set rs \<Longrightarrow> fr_kind r = kDrop \<Longrightarrow> fr_drop_rate r \<le> 0"
  shows "drop_loop E rs g = (False, g)"
  using assms
proof (induction rs)
  case (Cons a rs)
  have "\<not> (fr_kind a = kDrop \<and> 0 < fr_drop_rate a)" using Cons.prems [of a] by auto
  moreover have "drop_loop E rs g = (False, g)" using Cons by simp
  ultimately show ?case by auto
qed simp

lemma bandwidth_loop_none: "(\<And>r. r \<in> set rs \<Longrightarrow> fr_kind r \<noteq> kBandwidthLimit) \<Longrightarrow> bandwidth_loop E n rs e = (False, e)"
  by (induction rs) auto

lemma corrupt_loop_none: "(\<And>r. r \<in> set rs \<Longrightarrow> fr_kind r \<noteq> kCorrupt) \<Longrightarrow> corrupt_loop E rs d e = (d, e)"
  by (induction rs) auto

text \<open>Corruption keeps the length of the frame.\<close>

lemma flip_bits_length: "length (fst (flip_bits E n d g)) = length d"
  by (induction n arbitrary: d g) (auto split: prod.split)

lemma corrupt_loop_length: "length (fst (corrupt_loop E rs d e)) = length d"
proof (induction rs arbitrary: d e)
  case (Cons r rs)
  then show ?case
    using flip_bits_length [of E _ d] by (auto split: prod.split) (metis fst_conv)
qed simp

subsection \<open>Order of release\<close>

lemma pop_min_min:
  "pop_min d ds = (m, rest) \<Longrightarrow> mset (m # rest) = mset (d # ds) \<and> (\<forall>x\<in>set (d # ds). due_ns m \<le> due_ns x)"
proof (induction d ds arbitrary: m rest rule: pop_min.induct)
  case (2 d d' ds)
  show ?case
  proof (cases "due_ns d' < due_ns d")
    case True
    then obtain r where "pop_min d' ds = (m, r)" "rest = d # r" using 2(3) by (auto split: prod.splits)
    with 2(1) [OF True this(1)] True show ?thesis by auto
  next
    case False
    then obtain r where "pop_min d ds = (m, r)" "rest = d' # r" using 2(3) by (auto split: prod.splits)
    with 2(2) [OF False this(1)] False show ?thesis by auto
  qed
qed simp

lemma delayed_pop_min:
  assumes "delayed_pop q = Some (m, rest)"
  shows "mset q = add_mset m (mset rest)" "x \<in> set q \<Longrightarrow> due_ns m \<le> due_ns x"
proof -
  obtain d ds where "q = d # ds" "pop_min d ds = (m, rest)"
    using assms by (auto simp: delayed_pop_def split: list.splits)
  then show "mset q = add_mset m (mset rest)" "x \<in> set q \<Longrightarrow> due_ns m \<le> due_ns x"
    using pop_min_min [of d ds m rest] by auto
qed

lemma flush_sorted:
  "\<exists>ds. mset ds = mset (fe_delayed e) \<and> sorted (map due_ns ds) \<and>
     fe_writes (engine_flush e) = fe_writes e @ map dl_data ds \<and> fe_delayed (engine_flush e) = []"
proof (induction e rule: engine_flush.induct)
  case (1 e)
  show ?case
  proof (cases "delayed_pop (fe_delayed e)")
    case None
    then have "fe_delayed e = []" by (auto simp: delayed_pop_def split: list.splits)
    with None show ?thesis by (simp add: engine_flush.simps [of e])
  next
    case (Some x)
    obtain d rest where x: "x = (d, rest)" by force
    let ?e = "emit (dl_data d) (e\<lparr>fe_delayed := rest\<rparr>)"
    obtain ds where ds: "mset ds = mset rest" "sorted (map due_ns ds)"
      "fe_writes (engine_flush ?e) = fe_writes e @ [dl_data d] @ map dl_data ds" "fe_delayed (engine_flush ?e) = []"
      using 1 [OF Some x [symmetric]] by (auto simp: emit_def)
    have m: "mset (fe_delayed e) = add_mset d (mset rest)" "\<And>y. y \<in> set (fe_delayed e) \<Longrightarrow> due_ns d \<le> due_ns y"
      using delayed_pop_min [of "fe_delayed e" d rest] Some x by auto
    have "\<forall>y\<in>set ds. due_ns d \<le> due_ns y"
      using m(2) mset_eq_setD [OF ds(1)] arg_cong [OF m(1), of set_mset] by simp
    with ds m(1) have "mset (d # ds) = mset (fe_delayed e) \<and> sorted (map due_ns (d # ds)) \<and>
        fe_writes (engine_flush e) = fe_writes e @ map dl_data (d # ds) \<and> fe_delayed (engine_flush e) = []"
      using Some x by (simp add: engine_flush.simps [of e])
    then show ?thesis by blast
  qed
qed

text \<open>The worker writes only what is due: what it writes had a due time not after the clock.\<close>

lemma worker_due:
  assumes "fe_writes (worker_step E e) \<noteq> fe_writes e"
  obtains d where "d \<in> set (fe_delayed e)" "due_ns d \<le> fst (now_ns E (fe_env e))"
    "fe_writes (worker_step E e) = fe_writes e @ [dl_data d]" "\<forall>x\<in>set (fe_delayed e). due_ns d \<le> due_ns x"
proof -
  obtain d rest where p: "delayed_pop (fe_delayed e) = Some (d, rest)"
    using assms by (auto simp: worker_step_def split: if_splits option.splits)
  have "d \<in> set (fe_delayed e)"
    using arg_cong [OF delayed_pop_min(1) [OF p], of set_mset] by simp
  with p assms delayed_pop_min(2) [OF p] show thesis
    by (intro that [of d]) (auto simp: worker_step_def emit_def Let_def split: if_splits prod.splits)
qed

subsection \<open>Reordering\<close>

lemma process_reorder_only:
  assumes a: "active_rules e t stream \<noteq> []" "\<And>r. r \<in> set (active_rules e t stream) \<Longrightarrow> fr_kind r = kReorder"
  shows "process E d t stream e =
    (if fe_has_held e then (let e = emit (fe_held e) (emit d (e\<lparr>fe_has_held := False, fe_held := []\<rparr>))
       in e\<lparr>fe_stats := (fe_stats e)\<lparr>st_reordered := st_reordered (fe_stats e) + 1\<rparr>\<rparr>)
     else e\<lparr>fe_has_held := True, fe_held := d\<rparr>)"
proof -
  let ?a = "active_rules e t stream"
  have r: "restart_loop stream rs e = e" if "\<forall>r\<in>set rs. fr_kind r = kReorder" for rs
    using that by (induction rs) auto
  have m: "max_delay rs = 0" if "\<forall>r\<in>set rs. fr_kind r = kReorder" for rs
    using that by (induction rs) (auto simp: max_delay_def)
  have x: "list_ex (\<lambda>r. fr_kind r = kReorder) ?a" "\<not> list_ex (\<lambda>r. fr_kind r = kEcuDisconnect \<or> fr_kind r = kBurstLoss) ?a"
    using a by (auto simp: list_ex_iff neq_Nil_conv)
  have l: "drop_loop E ?a g = (False, g)" "bandwidth_loop E n ?a e' = (False, e')" "corrupt_loop E ?a d e' = (d, e')" for g n e'
    using a(2) by (auto intro!: drop_loop_never bandwidth_loop_none corrupt_loop_none)
  have "restart_loop stream ?a e = e" "max_delay ?a = 0" using r m a(2) by auto
  then show ?thesis
    using a(1) x by (simp add: process_def l dispatch_or_delay_def Let_def)
qed

lemma active_rules_frame [simp]:
  "active_rules (e\<lparr>fe_has_held := b, fe_held := d\<rparr>) t s = active_rules e t s"
  by (simp add: active_rules_def)

text \<open>Two frames in a reorder window come out swapped.\<close>

lemma reorder_swaps:
  assumes "active_rules e t1 stream \<noteq> []" "\<And>r. r \<in> set (active_rules e t1 stream) \<Longrightarrow> fr_kind r = kReorder"
    "active_rules e t2 stream \<noteq> []" "\<And>r. r \<in> set (active_rules e t2 stream) \<Longrightarrow> fr_kind r = kReorder" "\<not> fe_has_held e"
  shows "fe_writes (process E d2 t2 stream (process E d1 t1 stream e)) = fe_writes e @ [d2, d1]"
proof -
  let ?e = "e\<lparr>fe_has_held := True, fe_held := d1\<rparr>"
  have "process E d1 t1 stream e = ?e" using process_reorder_only [OF assms(1,2)] assms(5) by simp
  moreover have "fe_writes (process E d2 t2 stream ?e) = fe_writes e @ [d2, d1]"
    using process_reorder_only [of ?e t2 stream E d2] assms(3,4) by (simp add: emit_def Let_def)
  ultimately show ?thesis by simp
qed

text \<open>A frame that is held when the reorder window closes stays held: neither later frames nor a flush
  release it.\<close>

lemma flush_keeps_held: "fe_has_held (engine_flush e) = fe_has_held e \<and> fe_held (engine_flush e) = fe_held e"
proof (induction e rule: engine_flush.induct)
  case (1 e)
  then show ?case
    by (cases "delayed_pop (fe_delayed e)") (auto simp: engine_flush.simps [of e] emit_def)
qed

end
