(* ===== verification/Crc32c.thy ===== *)
theory Crc32c
  imports SF_Prelude
begin

text \<open>
  CRC32C (\<^verbatim>\<open>include/sensorforge/protocol/crc32c.hpp\<close>): the table-driven software routine, the
  hardware routine over the SSE4.2 and ARMv8 instructions, and the compile-time and run-time
  dispatch between them. The instructions are not part of the repository: they are arguments of
  the definitions, and \<open>insn8_ok\<close> and \<open>insn64_ok\<close> state their documented behaviour.

  The lemmas show that the table routine is the bitwise CRC, that every build computes the same
  function, and that two byte strings of equal length that differ only within four consecutive
  bytes never have the same CRC.
\<close>

subsection \<open>Definitions\<close>

definition kPoly :: u32 where
  "kPoly = 0x82F63B78"

text \<open>One iteration of the inner loop of \<^verbatim>\<open>make_table\<close>.\<close>

definition crc_bit :: "u32 \<Rightarrow> u32" where
  "crc_bit crc = (if crc AND 1 \<noteq> 0 then drop_bit 1 crc XOR kPoly else drop_bit 1 crc)"

definition make_table :: "u32 list" where
  "make_table = map (\<lambda>i. (crc_bit ^^ 8) (word_of_nat i)) [0..<256]"

definition kTable :: "u32 list" where
  "kTable = make_table"

fun crc32c_software :: "u32 \<Rightarrow> bytes \<Rightarrow> u32" where
  "crc32c_software crc [] = crc"
| "crc32c_software crc (b # bs) =
     crc32c_software (kTable ! unat ((crc XOR ucast b) AND 0xFF) XOR drop_bit 8 crc) bs"

text \<open>
  The hardware loop consumes eight bytes per step while eight remain, then single bytes. The chunk
  is loaded with \<^verbatim>\<open>memcpy\<close> on a little-endian machine. The two instruction arguments are the
  64-bit and the 8-bit CRC instruction.
\<close>

fun crc32c_hw :: "(u32 \<Rightarrow> u64 \<Rightarrow> u64) \<Rightarrow> (u32 \<Rightarrow> u8 \<Rightarrow> u32) \<Rightarrow> u32 \<Rightarrow> bytes \<Rightarrow> u32" where
  "crc32c_hw i64 i8 crc (b0 # b1 # b2 # b3 # b4 # b5 # b6 # b7 # bs) =
     crc32c_hw i64 i8 (ucast (i64 crc (le_word [b0, b1, b2, b3, b4, b5, b6, b7]))) bs"
| "crc32c_hw i64 i8 crc [] = crc"
| "crc32c_hw i64 i8 crc (b # bs) = crc32c_hw i64 i8 (i8 crc b) bs"

text \<open>The build targets of the preprocessor conditionals, with the cached CPU probe on x86.\<close>

datatype crc_target = X86 bool | ArmCrc | Portable

fun crc32c_on :: "crc_target \<Rightarrow> (u32 \<Rightarrow> u64 \<Rightarrow> u64) \<Rightarrow> (u32 \<Rightarrow> u8 \<Rightarrow> u32) \<Rightarrow> bytes \<Rightarrow> u32" where
  "crc32c_on (X86 has_sse42) i64 i8 data =
     (if has_sse42 then crc32c_hw i64 i8 0xFFFFFFFF data
      else crc32c_software 0xFFFFFFFF data) XOR 0xFFFFFFFF"
| "crc32c_on ArmCrc i64 i8 data = crc32c_hw i64 i8 0xFFFFFFFF data XOR 0xFFFFFFFF"
| "crc32c_on Portable i64 i8 data = crc32c_software 0xFFFFFFFF data XOR 0xFFFFFFFF"

text \<open>The build without CRC instructions; the codecs of the other theories call this one.\<close>

definition crc32c :: "bytes \<Rightarrow> u32" where
  "crc32c data = crc32c_software 0xFFFFFFFF data XOR 0xFFFFFFFF"

subsection \<open>Reference definitions\<close>

text \<open>The bitwise CRC: eight bit steps per byte.\<close>

definition crc_byte :: "u32 \<Rightarrow> u8 \<Rightarrow> u32" where
  "crc_byte crc b = (crc_bit ^^ 8) (crc XOR ucast b)"

definition crc_spec :: "u32 \<Rightarrow> bytes \<Rightarrow> u32" where
  "crc_spec crc bs = foldl crc_byte crc bs"

text \<open>
  The documented behaviour of the instructions: \<^verbatim>\<open>crc32 r32, r/m8\<close> accumulates one byte, and the
  64-bit form accumulates eight bytes from the least significant one on, zero-extended.
\<close>

definition insn8_ok :: "(u32 \<Rightarrow> u8 \<Rightarrow> u32) \<Rightarrow> bool" where
  "insn8_ok i8 \<longleftrightarrow> (\<forall>crc b. i8 crc b = crc_byte crc b)"

definition insn64_ok :: "(u32 \<Rightarrow> u64 \<Rightarrow> u64) \<Rightarrow> bool" where
  "insn64_ok i64 \<longleftrightarrow> (\<forall>crc v. i64 crc v = ucast (crc_spec crc (le_bytes 8 v)))"

subsection \<open>The bit step is linear and injective\<close>

lemma crc_bit_xor: "crc_bit (x XOR y) = crc_bit x XOR crc_bit y"
proof (rule bit_word_eqI)
  fix n
  show "bit (crc_bit (x XOR y)) n \<longleftrightarrow> bit (crc_bit x XOR crc_bit y) n"
    by (auto simp: crc_bit_def bit_simps and_one_eq mod_2_eq_odd even_xor_iff)
qed

lemma crc_bits_xor: "(crc_bit ^^ n) (x XOR y) = (crc_bit ^^ n) x XOR (crc_bit ^^ n) y"
  by (induction n) (simp_all add: crc_bit_xor)

lemma crc_bit_0 [simp]: "crc_bit 0 = 0"
  by (simp add: crc_bit_def)

lemma crc_bit_eq_0: "crc_bit x = 0 \<Longrightarrow> x = 0"
proof (rule bit_word_eqI)
  fix n assume z: "crc_bit x = 0" and n: "n < LENGTH(32)"
  have "even x"
  proof (rule ccontr)
    assume "odd x"
    then have "bit (crc_bit x) 31"
      using not_bit_length [of x]
      by (simp add: crc_bit_def and_one_eq mod_2_eq_odd bit_simps kPoly_def)
    with z show False by simp
  qed
  then have "drop_bit 1 x = 0" using z by (simp add: crc_bit_def and_one_eq mod_2_eq_odd)
  then have "\<not> bit (drop_bit 1 x) m" for m by simp
  then have "\<not> bit x (Suc m)" for m by (simp add: bit_simps)
  with \<open>even x\<close> show "bit x n \<longleftrightarrow> bit 0 n"
    by (cases n) (auto simp: bit_0)
qed

lemma crc_bits_inj: "(crc_bit ^^ n) x = (crc_bit ^^ n) y \<Longrightarrow> x = y"
proof (induction n arbitrary: x y)
  case 0
  then show ?case by simp
next
  case (Suc n)
  have "(crc_bit ^^ n) (crc_bit x) = (crc_bit ^^ n) (crc_bit y)"
    using Suc.prems by (simp add: funpow_swap1)
  then have "crc_bit x = crc_bit y" by (rule Suc.IH)
  then have "crc_bit (x XOR y) = 0" by (simp add: crc_bit_xor)
  then have "x XOR y = 0" by (rule crc_bit_eq_0)
  then show ?case by (simp add: word_xor_eq_0_iff)
qed

text \<open>Bit steps on a word whose low bits are zero only shift it.\<close>

lemma crc_bits_shift:
  assumes "\<And>k. bit x k \<Longrightarrow> k + n < 32"
  shows "(crc_bit ^^ n) (push_bit n x) = x"
  using assms
proof (induction n)
  case 0
  then show ?case by simp
next
  case (Suc n)
  have "drop_bit 1 (push_bit (Suc n) x) = push_bit n x"
  proof (rule bit_word_eqI)
    fix m assume "m < LENGTH(32)"
    then show "bit (drop_bit 1 (push_bit (Suc n) x)) m \<longleftrightarrow> bit (push_bit n x) m"
      using Suc.prems [of "m - n"] by (auto simp: bit_simps simp del: push_bit_Suc)
  qed
  moreover have "push_bit (Suc n) x AND 1 = 0"
    by (simp add: and_one_eq mod_2_eq_odd)
  ultimately have "crc_bit (push_bit (Suc n) x) = push_bit n x"
    by (simp add: crc_bit_def)
  moreover have "(crc_bit ^^ n) (push_bit n x) = x"
    using Suc.prems by (intro Suc.IH) fastforce
  ultimately show ?case by (simp add: funpow_swap1)
qed

subsection \<open>The table routine is the bitwise CRC\<close>

lemma kTable_nth: "i < 256 \<Longrightarrow> kTable ! i = (crc_bit ^^ 8) (word_of_nat i)"
  by (simp add: kTable_def make_table_def)

lemma byte_index_less: "unat (x AND 0xFF :: u32) < 256"
proof -
  have "x AND 0xFF \<le> (0xFF :: u32)" by (rule word_and_le1)
  then have "unat (x AND 0xFF) \<le> unat (0xFF :: u32)" by (simp add: word_le_nat_alt)
  then show ?thesis by simp
qed

lemma word_split_low_byte:
  "(x :: u32) = (x AND 0xFF) XOR push_bit 8 (drop_bit 8 x)"
proof -
  have "x = (x AND mask 8) XOR push_bit 8 (drop_bit 8 x)"
    by (rule bit_word_eqI) (auto simp: bit_simps)
  moreover have "mask 8 = (0xFF :: u32)" by (simp add: mask_eq_exp_minus_1)
  ultimately show ?thesis by simp
qed

lemma crc_table_step:
  "kTable ! unat ((crc XOR ucast b) AND 0xFF) XOR drop_bit 8 crc = crc_byte crc b"
proof -
  let ?x = "crc XOR ucast b"
  have d: "drop_bit 8 ?x = drop_bit 8 crc"
    by (rule bit_word_eqI) (auto simp: bit_simps dest: bit_imp_le_length)
  have "(crc_bit ^^ 8) (push_bit 8 (drop_bit 8 ?x)) = drop_bit 8 ?x"
    by (rule crc_bits_shift) (auto simp: bit_simps dest: bit_imp_le_length)
  moreover have "kTable ! unat (?x AND 0xFF) = (crc_bit ^^ 8) (?x AND 0xFF)"
    by (simp add: kTable_nth byte_index_less)
  moreover have "(crc_bit ^^ 8) ?x
      = (crc_bit ^^ 8) (?x AND 0xFF) XOR (crc_bit ^^ 8) (push_bit 8 (drop_bit 8 ?x))"
    using word_split_low_byte [of ?x] crc_bits_xor [of 8 "?x AND 0xFF" "push_bit 8 (drop_bit 8 ?x)"]
    by metis
  ultimately show ?thesis by (simp only: crc_byte_def d)
qed

lemma crc32c_software_spec: "crc32c_software crc bs = crc_spec crc bs"
  by (induction crc bs rule: crc32c_software.induct) (simp_all add: crc_table_step crc_spec_def)

lemma crc_spec_Nil [simp]: "crc_spec crc [] = crc"
  by (simp add: crc_spec_def)

lemma crc_spec_Cons: "crc_spec crc (b # bs) = crc_spec (crc_byte crc b) bs"
  by (simp add: crc_spec_def)

lemma crc_spec_append: "crc_spec crc (xs @ ys) = crc_spec (crc_spec crc xs) ys"
  by (simp add: crc_spec_def)

subsection \<open>The hardware routine\<close>

lemma ucast_u64_u32: "ucast (ucast (x :: u32) :: u64) = x"
  by (rule bit_word_eqI) (simp add: bit_simps)

lemma crc32c_hw_spec:
  assumes i64: "insn64_ok i64" and i8: "insn8_ok i8"
  shows "crc32c_hw i64 i8 crc bs = crc_spec crc bs"
  using assms
proof (induction i64 i8 crc bs rule: crc32c_hw.induct)
  case (1 i64 i8 crc b0 b1 b2 b3 b4 b5 b6 b7 bs)
  let ?c = "[b0, b1, b2, b3, b4, b5, b6, b7]"
  have "le_bytes 8 (le_word ?c :: u64) = ?c"
    by (rule le_bytes_le_word_len) simp_all
  then have "ucast (i64 crc (le_word ?c)) = crc_spec crc ?c"
    using "1.prems"(1) by (simp add: insn64_ok_def ucast_u64_u32)
  with 1 show ?case by (simp add: crc_spec_Cons del: le_word.simps)
qed (auto simp: crc_spec_Cons insn8_ok_def)

subsection \<open>Burst detection\<close>

text \<open>
  Accumulating at most four bytes is one run of bit steps on the state with the bytes added in
  as a little-endian word. Hence it is injective in the bytes, and in the state.
\<close>

lemma crc_spec_word:
  "length w \<le> 4 \<Longrightarrow> crc_spec crc w = (crc_bit ^^ (8 * length w)) (crc XOR le_word w)"
proof (induction w arbitrary: crc rule: rev_induct)
  case Nil
  then show ?case by simp
next
  case (snoc b w)
  let ?n = "8 * length w"
  have pb: "(crc_bit ^^ ?n) (push_bit ?n (ucast b)) = ucast b"
    using snoc.prems by (intro crc_bits_shift) (auto simp: bit_simps dest: bit_imp_le_length)
  have or: "le_word w OR push_bit ?n (ucast b) = le_word w XOR push_bit ?n (ucast b :: u32)"
    by (rule bit_word_eqI) (auto simp: bit_simps bit_le_word dest: bit_imp_le_length)
  have "crc_spec crc (w @ [b]) = (crc_bit ^^ 8) ((crc_bit ^^ ?n) (crc XOR le_word w) XOR ucast b)"
    using snoc by (simp add: crc_spec_append crc_spec_Cons crc_byte_def)
  also have "(crc_bit ^^ ?n) (crc XOR le_word w) XOR ucast b
      = (crc_bit ^^ ?n) (crc XOR le_word (w @ [b]))"
    by (simp add: pb or le_word_append crc_bits_xor flip: xor.assoc)
  finally show ?case by (simp add: funpow_add)
qed

lemma crc_byte_inj: "crc_byte c b = crc_byte c' b \<Longrightarrow> c = c'"
  unfolding crc_byte_def by (drule crc_bits_inj) simp

lemma crc_spec_inj: "crc_spec c bs = crc_spec c' bs \<Longrightarrow> c = c'"
  by (induction bs arbitrary: c c') (auto simp: crc_spec_Cons dest: crc_byte_inj)

lemma crc_spec_burst:
  assumes "length w = length w'" and "length w \<le> 4" and "w \<noteq> w'"
  shows "crc_spec crc (p @ w @ q) \<noteq> crc_spec crc (p @ w' @ q)"
proof
  assume "crc_spec crc (p @ w @ q) = crc_spec crc (p @ w' @ q)"
  then have "crc_spec (crc_spec crc p) w = crc_spec (crc_spec crc p) w'"
    by (auto simp: crc_spec_append dest: crc_spec_inj)
  then have "(le_word w :: u32) = le_word w'"
    using assms(1,2) by (auto simp: crc_spec_word dest: crc_bits_inj)
  with assms(1,2) have "w = w'" by (intro le_word_inject) auto
  with assms(3) show False ..
qed

lemma crc32c_burst:
  assumes "length w = length w'" and "length w \<le> 4" and "w \<noteq> w'"
  shows "crc32c (p @ w @ q) \<noteq> crc32c (p @ w' @ q)"
  using crc_spec_burst [OF assms]
  by (simp add: crc32c_def crc32c_software_spec)

text \<open>
  A byte string followed by its own CRC leaves the register in one fixed state, and only the
  right CRC does: the check "stored CRC equals computed CRC" is a check on one register value.
\<close>

definition crc_residue :: u32 where
  "crc_residue = (crc_bit ^^ 32) 0xFFFFFFFF"

lemma crc_trailer_iff:
  assumes "length t = 4"
  shows "crc_spec 0xFFFFFFFF (h @ t) = crc_residue \<longleftrightarrow> le_word t = crc32c h"
proof -
  let ?s = "crc_spec 0xFFFFFFFF h"
  have "crc_spec 0xFFFFFFFF (h @ t) = crc_residue
      \<longleftrightarrow> (crc_bit ^^ 32) (?s XOR le_word t) = (crc_bit ^^ 32) 0xFFFFFFFF"
    using assms by (simp add: crc_spec_append crc_spec_word crc_residue_def)
  also have "\<dots> \<longleftrightarrow> ?s XOR le_word t = 0xFFFFFFFF"
    by (auto dest: crc_bits_inj)
  also have "\<dots> \<longleftrightarrow> ?s XOR le_word t = ?s XOR (?s XOR 0xFFFFFFFF)"
    by (simp flip: xor.assoc)
  also have "\<dots> \<longleftrightarrow> le_word t = crc32c h"
    by (simp only: word_xor_left_cancel crc32c_def crc32c_software_spec)
  finally show ?thesis .
qed

text \<open>Corrupting at most four consecutive bytes of a string together with its CRC is detected.\<close>

lemma crc_trailer_burst:
  assumes "length t = 4" and "length t' = 4" and "le_word t = crc32c h"
    and "h @ t = p @ w @ q" and "h' @ t' = p @ w' @ q"
    and "length w = length w'" and "length w \<le> 4" and "w \<noteq> w'"
  shows "le_word t' \<noteq> crc32c h'"
  using crc_spec_burst [OF assms(6-8), of "0xFFFFFFFF" p q] crc_trailer_iff [OF assms(1), of h]
    crc_trailer_iff [OF assms(2), of h'] assms(3-5) by auto

lemma crc_bits_8:
  "(crc_bit ^^ 8) x = crc_bit (crc_bit (crc_bit (crc_bit (crc_bit (crc_bit (crc_bit (crc_bit x)))))))"
  by (simp add: eval_nat_numeral)

subsection \<open>Properties\<close>

text \<open>Whatever the build target and the CPU probe, and with CRC instructions that behave as
  documented, the checksum is the one of the portable software routine.\<close>

theorem crc32c_build_independent:
  assumes "insn64_ok i64" and "insn8_ok i8"
  shows "crc32c_on t i64 i8 data = crc32c data"
  using assms
  by (cases t) (simp_all add: crc32c_def crc32c_hw_spec crc32c_software_spec)

theorem crc32c_build_independent_witness:
  "crc32c_on ArmCrc (\<lambda>crc v. ucast (crc_spec crc (le_bytes 8 v))) crc_byte [0x31, 0x32]
     = crc32c [0x31, 0x32]"
  by (rule crc32c_build_independent) (simp_all add: insn64_ok_def insn8_ok_def)

text \<open>The published check vector of CRC32C, the one the header comment quotes: the checksum of
  the nine bytes "123456789" is 0xE3069283, and that of the empty string is 0.\<close>

theorem crc32c_check_vector:
  "crc32c [0x31, 0x32, 0x33, 0x34, 0x35, 0x36, 0x37, 0x38, 0x39] = 0xE3069283 \<and> crc32c [] = 0"
  by (simp add: crc32c_def crc32c_software_spec crc_spec_Cons crc_byte_def crc_bits_8 crc_bit_def
      kPoly_def)

text \<open>C32: two buffers of the same length that differ only inside a window of at most four
  consecutive bytes have different checksums.\<close>

theorem crc32c_detects_burst:
  assumes "length w = length w'" and "length w \<le> 4" and "w \<noteq> w'"
  shows "crc32c (p @ w @ q) \<noteq> crc32c (p @ w' @ q)"
  using assms by (rule crc32c_burst)

theorem crc32c_detects_burst_witness:
  "crc32c ([1, 2] @ [3, 4, 5, 6] @ [7]) \<noteq> crc32c ([1, 2] @ [0, 4, 5, 255] @ [7])"
  by (rule crc32c_detects_burst) simp_all

end
