(* ===== verification/Codec_Interface.thy ===== *)
theory Codec_Interface
  imports SF_Prelude
begin

text \<open>
  The contract between a framed codec (the wire frame of \<^verbatim>\<open>frame_codec.cpp\<close>, the log record of
  \<^verbatim>\<open>record.hpp\<close>) and the code that reads a buffer through it: the decoder accepts exactly the
  buffers that start with the image of a well-formed message, and images are uniquely decodable.
  The lemmas are what the readers need of either codec: a verdict does not change when more bytes
  follow, and a concatenation of messages can be read in one way only.
\<close>

locale framed_codec =
  fixes image :: "'h \<Rightarrow> bytes \<Rightarrow> bytes"
    and ok :: "'h \<Rightarrow> bytes \<Rightarrow> bool"
    and accepts :: "bytes \<Rightarrow> 'h \<Rightarrow> bool"
  assumes accepts_iff: "accepts d h \<longleftrightarrow> (\<exists>payload rest. d = image h payload @ rest \<and> ok h payload)"
    and image_inject: "\<lbrakk>image h p @ r = image h' p' @ r'; ok h p; ok h' p'\<rbrakk>
          \<Longrightarrow> h = h' \<and> p = p' \<and> r = r'"
    and image_nonempty: "ok h p \<Longrightarrow> image h p \<noteq> []"
begin

lemma accepts_image: "ok h p \<Longrightarrow> accepts (image h p @ r) h"
  by (auto simp: accepts_iff)

lemma accepts_unique: "accepts d h \<Longrightarrow> accepts d h' \<Longrightarrow> h = h'"
  unfolding accepts_iff by (metis image_inject)

lemma accepts_prefix_stable: "accepts d h \<Longrightarrow> accepts (d @ x) h"
  unfolding accepts_iff by (metis append.assoc)

lemma accepts_nonempty: "accepts d h \<Longrightarrow> d \<noteq> []"
  using image_nonempty by (auto simp: accepts_iff)

text \<open>The image of a sequence of messages, and that it determines the sequence.\<close>

definition images :: "('h \<times> bytes) list \<Rightarrow> bytes" where
  "images ms = concat (map (\<lambda>(h, p). image h p) ms)"

definition all_ok :: "('h \<times> bytes) list \<Rightarrow> bool" where
  "all_ok ms \<longleftrightarrow> (\<forall>(h, p) \<in> set ms. ok h p)"

lemma images_Cons: "images ((h, p) # ms) = image h p @ images ms"
  by (simp add: images_def)

lemma all_ok_Cons: "all_ok ((h, p) # ms) \<longleftrightarrow> ok h p \<and> all_ok ms"
  by (simp add: all_ok_def)

lemma images_inject: "\<lbrakk>images ms = images ms'; all_ok ms; all_ok ms'\<rbrakk> \<Longrightarrow> ms = ms'"
proof (induction ms arbitrary: ms')
  case Nil
  then show ?case
    by (cases ms') (auto simp: images_def all_ok_def image_nonempty)
next
  case (Cons m ms)
  obtain h p where m: "m = (h, p)" by force
  from Cons.prems m have ne: "images ms' \<noteq> []"
    using image_nonempty [of h p] by (auto simp: images_Cons all_ok_Cons)
  then obtain h' p' ms'' where ms': "ms' = (h', p') # ms''"
    by (cases ms') (auto simp: images_def)
  with Cons.prems m have "h = h' \<and> p = p' \<and> images ms = images ms''"
    by (intro image_inject) (simp_all add: images_Cons all_ok_Cons)
  with Cons m ms' show ?case by (simp add: all_ok_Cons)
qed

end

text \<open>A codec that also detects every change confined to a window of four bytes.\<close>

locale burst_codec = framed_codec +
  assumes burst: "\<lbrakk>ok h p; image h p = a @ w @ b; length w = length w'; length w \<le> 4; w \<noteq> w'\<rbrakk>
          \<Longrightarrow> \<not> accepts (a @ w' @ b) h'"
begin

lemma byte_change_rejected:
  assumes "ok h p" and "i < length (image h p)" and "x \<noteq> image h p ! i"
  shows "\<not> accepts ((image h p)[i := x]) h'"
proof -
  have "\<not> accepts (take i (image h p) @ [x] @ drop (Suc i) (image h p)) h'"
    by (rule burst [OF assms(1), of _ "[image h p ! i]"])
      (use assms in \<open>auto simp: Cons_nth_drop_Suc\<close>)
  then show ?thesis using assms(2) by (simp add: upd_conv_take_nth_drop)
qed

end

end
