(* ===== verification/Frame_Codec.thy ===== *)
theory Frame_Codec
  imports Crc32c Codec_Interface
begin

text \<open>
  The binary frame protocol: \<^verbatim>\<open>include/sensorforge/protocol/frame.hpp\<close>,
  \<^verbatim>\<open>include/sensorforge/protocol/frame_codec.hpp\<close> and \<^verbatim>\<open>src/protocol/frame_codec.cpp\<close>.

  Pointers into a buffer are offsets; every access is bounds-checked, and \<^term>\<open>None\<close> stands for an
  out-of-bounds access. A null data pointer is the argument \<^term>\<open>None\<close>. The output parameter
  \<^verbatim>\<open>FrameHeader & out\<close> is passed in and returned, with the partial updates the code makes before
  an early return.
\<close>

subsection \<open>Constants and data (frame.hpp)\<close>

definition kMagic :: u32 where "kMagic = 0x53464844"
definition kVersion :: u16 where "kVersion = 0x0001"
definition kHeaderSize :: u16 where "kHeaderSize = 36"
definition kFrameOverhead :: nat where "kFrameOverhead = unat kHeaderSize + 4"
definition kMaxPayload :: u32 where "kMaxPayload = 4 * 1024 * 1024"

definition kFlagNone :: u16 where "kFlagNone = 0"
definition kFlagFragmented :: u16 where "kFlagFragmented = push_bit 0 1"
definition kFlagCompressed :: u16 where "kFlagCompressed = push_bit 1 1"

text \<open>
  A scoped enum with a fixed underlying type holds any value of that type, and \<^verbatim>\<open>decode_header\<close>
  casts an arbitrary 16-bit value to it: the type is the 16-bit word, with named values.
\<close>

type_synonym SensorType = u16

definition kUnknown :: SensorType where "kUnknown = 0"
definition kLidar :: SensorType where "kLidar = 1"
definition kCamera :: SensorType where "kCamera = 2"
definition kImu :: SensorType where "kImu = 3"
definition kGps :: SensorType where "kGps = 4"
definition kCan :: SensorType where "kCan = 5"
definition kControl :: SensorType where "kControl = 6"

lemmas sensor_type_defs = kUnknown_def kLidar_def kCamera_def kImu_def kGps_def kCan_def kControl_def

record FrameHeader =
  fh_magic :: u32
  fh_version :: u16
  fh_sensor_type :: SensorType
  fh_flags :: u16
  fh_header_size :: u16
  fh_sequence :: u64
  fh_timestamp_ns :: u64
  fh_payload_size :: u32
  fh_payload_crc32c :: u32

definition FrameHeader_init :: FrameHeader where
  "FrameHeader_init = \<lparr>fh_magic = kMagic, fh_version = kVersion, fh_sensor_type = kUnknown,
     fh_flags = kFlagNone, fh_header_size = kHeaderSize, fh_sequence = 0, fh_timestamp_ns = 0,
     fh_payload_size = 0, fh_payload_crc32c = 0\<rparr>"

datatype FrameError =
    kOk
  | kTruncatedHeader
  | kBadMagic
  | kUnsupportedVersion
  | kBadHeaderSize
  | kPayloadTooLarge
  | kLengthOverflow
  | kTruncatedPayload
  | kHeaderCrcMismatch
  | kPayloadCrcMismatch
  | kSequenceRegression
  | kTimestampRegression

fun frame_error_to_string :: "FrameError \<Rightarrow> string" where
  "frame_error_to_string FrameError.kOk = ''ok''"
| "frame_error_to_string FrameError.kTruncatedHeader = ''truncated_header''"
| "frame_error_to_string kBadMagic = ''bad_magic''"
| "frame_error_to_string kUnsupportedVersion = ''unsupported_version''"
| "frame_error_to_string kBadHeaderSize = ''bad_header_size''"
| "frame_error_to_string FrameError.kPayloadTooLarge = ''payload_too_large''"
| "frame_error_to_string kLengthOverflow = ''length_overflow''"
| "frame_error_to_string kTruncatedPayload = ''truncated_payload''"
| "frame_error_to_string kHeaderCrcMismatch = ''header_crc_mismatch''"
| "frame_error_to_string FrameError.kPayloadCrcMismatch = ''payload_crc_mismatch''"
| "frame_error_to_string kSequenceRegression = ''sequence_regression''"
| "frame_error_to_string kTimestampRegression = ''timestamp_regression''"

definition sensor_type_to_string :: "SensorType \<Rightarrow> string" where
  "sensor_type_to_string t =
     (if t = kUnknown then ''unknown''
      else if t = kLidar then ''lidar''
      else if t = kCamera then ''camera''
      else if t = kImu then ''imu''
      else if t = kGps then ''gps''
      else if t = kCan then ''can''
      else if t = kControl then ''ctrl''
      else ''unknown'')"

subsection \<open>Little-endian accessors (frame_codec.cpp)\<close>

definition put_u16 :: "bytes \<Rightarrow> nat \<Rightarrow> u16 \<Rightarrow> bytes option" where
  "put_u16 b p v = do {
     b \<leftarrow> wr b p (ucast (v AND 0xFF));
     wr b (p + 1) (ucast (drop_bit 8 v AND 0xFF)) }"

definition put_u32 :: "bytes \<Rightarrow> nat \<Rightarrow> u32 \<Rightarrow> bytes option" where
  "put_u32 b p v = do {
     b \<leftarrow> wr b p (ucast (v AND 0xFF));
     b \<leftarrow> wr b (p + 1) (ucast (drop_bit 8 v AND 0xFF));
     b \<leftarrow> wr b (p + 2) (ucast (drop_bit 16 v AND 0xFF));
     wr b (p + 3) (ucast (drop_bit 24 v AND 0xFF)) }"

definition put_u64 :: "bytes \<Rightarrow> nat \<Rightarrow> u64 \<Rightarrow> bytes option" where
  "put_u64 b p v =
     foldl (\<lambda>acc i. do { b \<leftarrow> acc; wr b (p + i) (ucast (drop_bit (8 * i) v AND 0xFF)) })
       (Some b) [0..<8]"

definition get_u16 :: "bytes \<Rightarrow> nat \<Rightarrow> u16 option" where
  "get_u16 b p = do {
     p0 \<leftarrow> rd b p;
     p1 \<leftarrow> rd b (p + 1);
     Some (ucast p0 OR push_bit 8 (ucast p1)) }"

definition get_u32 :: "bytes \<Rightarrow> nat \<Rightarrow> u32 option" where
  "get_u32 b p = do {
     p0 \<leftarrow> rd b p;
     p1 \<leftarrow> rd b (p + 1);
     p2 \<leftarrow> rd b (p + 2);
     p3 \<leftarrow> rd b (p + 3);
     Some (ucast p0 OR push_bit 8 (ucast p1) OR push_bit 16 (ucast p2) OR push_bit 24 (ucast p3)) }"

definition get_u64 :: "bytes \<Rightarrow> nat \<Rightarrow> u64 option" where
  "get_u64 b p =
     foldl (\<lambda>acc i. do { v \<leftarrow> acc; x \<leftarrow> rd b (p + i); Some (v OR push_bit (8 * i) (ucast x)) })
       (Some 0) [0..<8]"

definition kOffMagic :: nat where "kOffMagic = 0"
definition kOffVersion :: nat where "kOffVersion = 4"
definition kOffSensorType :: nat where "kOffSensorType = 6"
definition kOffFlags :: nat where "kOffFlags = 8"
definition kOffHeaderSize :: nat where "kOffHeaderSize = 10"
definition kOffSequence :: nat where "kOffSequence = 12"
definition kOffTimestamp :: nat where "kOffTimestamp = 20"
definition kOffPayloadSize :: nat where "kOffPayloadSize = 28"
definition kOffPayloadCrc :: nat where "kOffPayloadCrc = 32"
definition kOffHeaderCrc :: nat where "kOffHeaderCrc = unat kHeaderSize"

lemmas frame_offset_defs = kOffMagic_def kOffVersion_def kOffSensorType_def kOffFlags_def
  kOffHeaderSize_def kOffSequence_def kOffTimestamp_def kOffPayloadSize_def kOffPayloadCrc_def
  kOffHeaderCrc_def kFrameOverhead_def kHeaderSize_def

subsection \<open>Encoding and decoding (frame_codec.cpp)\<close>

definition encode_frame ::
    "SensorType \<Rightarrow> u64 \<Rightarrow> u64 \<Rightarrow> u16 \<Rightarrow> bytes \<Rightarrow> (cpp_exception + bytes) option" where
  "encode_frame sensor_type sequence timestamp_ns flags payload =
     (if length payload > unat kMaxPayload
      then Some (Inl (length_error ''SensorForge frame payload exceeds kMaxPayload''))
      else do {
        let out = replicate (kFrameOverhead + length payload) 0;
        out \<leftarrow> put_u32 out kOffMagic kMagic;
        out \<leftarrow> put_u16 out kOffVersion kVersion;
        out \<leftarrow> put_u16 out kOffSensorType sensor_type;
        out \<leftarrow> put_u16 out kOffFlags flags;
        out \<leftarrow> put_u16 out kOffHeaderSize kHeaderSize;
        out \<leftarrow> put_u64 out kOffSequence sequence;
        out \<leftarrow> put_u64 out kOffTimestamp timestamp_ns;
        out \<leftarrow> put_u32 out kOffPayloadSize (word_of_nat (length payload));
        let payload_crc = (if length payload \<noteq> 0 then crc32c payload else crc32c []);
        out \<leftarrow> put_u32 out kOffPayloadCrc payload_crc;
        hdr \<leftarrow> sub out 0 (unat kHeaderSize);
        let header_crc = crc32c hdr;
        out \<leftarrow> put_u32 out kOffHeaderCrc header_crc;
        out \<leftarrow> (if length payload \<noteq> 0 then blit out kFrameOverhead payload else Some out);
        Some (Inr out) })"

definition decode_header ::
    "bytes option \<Rightarrow> FrameHeader \<Rightarrow> (FrameError \<times> FrameHeader) option" where
  "decode_header data_ptr out = (case data_ptr of
     None \<Rightarrow> Some (FrameError.kTruncatedHeader, out)
   | Some data \<Rightarrow>
      if length data < kFrameOverhead then Some (FrameError.kTruncatedHeader, out) else do {
        m \<leftarrow> get_u32 data kOffMagic;
        let out = out\<lparr>fh_magic := m\<rparr>;
        if fh_magic out \<noteq> kMagic then Some (kBadMagic, out) else do {
        v \<leftarrow> get_u16 data kOffVersion;
        let out = out\<lparr>fh_version := v\<rparr>;
        if fh_version out > kVersion then Some (kUnsupportedVersion, out) else do {
        t \<leftarrow> get_u16 data kOffSensorType;
        let out = out\<lparr>fh_sensor_type := t\<rparr>;
        f \<leftarrow> get_u16 data kOffFlags;
        let out = out\<lparr>fh_flags := f\<rparr>;
        h \<leftarrow> get_u16 data kOffHeaderSize;
        let out = out\<lparr>fh_header_size := h\<rparr>;
        if fh_header_size out \<noteq> kHeaderSize then Some (kBadHeaderSize, out) else do {
        s \<leftarrow> get_u64 data kOffSequence;
        ts \<leftarrow> get_u64 data kOffTimestamp;
        n \<leftarrow> get_u32 data kOffPayloadSize;
        c \<leftarrow> get_u32 data kOffPayloadCrc;
        let out = out\<lparr>fh_sequence := s, fh_timestamp_ns := ts, fh_payload_size := n,
                     fh_payload_crc32c := c\<rparr>;
        if fh_payload_size out > kMaxPayload then Some (FrameError.kPayloadTooLarge, out) else do {
        let need = (kFrameOverhead + unat (fh_payload_size out)) mod 2 ^ 64;
        if need < kFrameOverhead then Some (kLengthOverflow, out)
        else if length data < need then Some (kTruncatedPayload, out) else do {
        stored_header_crc \<leftarrow> get_u32 data kOffHeaderCrc;
        hdr \<leftarrow> sub data 0 (unat kHeaderSize);
        if crc32c hdr \<noteq> stored_header_crc then Some (kHeaderCrcMismatch, out) else do {
        region \<leftarrow> (if fh_payload_size out \<noteq> 0
          then sub data kFrameOverhead (unat (fh_payload_size out)) else sub data kFrameOverhead 0);
        let payload_crc = crc32c region;
        if payload_crc \<noteq> fh_payload_crc32c out then Some (FrameError.kPayloadCrcMismatch, out)
        else Some (FrameError.kOk, out) }}}}}}})"

text \<open>\<^verbatim>\<open>payload_ptr\<close>: the bytes from the payload on.\<close>

definition payload_ptr :: "bytes \<Rightarrow> bytes" where
  "payload_ptr data = drop kFrameOverhead data"

subsection \<open>The stateful decoder (frame_codec.hpp, frame_codec.cpp)\<close>

record StreamState =
  last_sequence :: u64
  last_timestamp_ns :: u64
  seen :: bool

definition StreamState_init :: StreamState where
  "StreamState_init = \<lparr>last_sequence = 0, last_timestamp_ns = 0, seen = False\<rparr>"

type_synonym FrameDecoder = "u64 \<rightharpoonup> StreamState"

definition decoder_reset :: "FrameDecoder \<Rightarrow> FrameDecoder" where
  "decoder_reset lasts = Map.empty"

definition frame_decode ::
    "FrameDecoder \<Rightarrow> bytes option \<Rightarrow> u64 \<Rightarrow> FrameHeader
       \<Rightarrow> (FrameError \<times> FrameHeader \<times> FrameDecoder) option" where
  "frame_decode lasts data_ptr stream_key out = do {
     (err, out) \<leftarrow> decode_header data_ptr out;
     if err \<noteq> FrameError.kOk then Some (err, out, lasts) else do {
     let st = (case lasts stream_key of None \<Rightarrow> StreamState_init | Some st \<Rightarrow> st);
     let lasts = lasts(stream_key \<mapsto> st);
     if seen st \<and> fh_sequence out < last_sequence st then Some (kSequenceRegression, out, lasts)
     else if seen st \<and> fh_timestamp_ns out < last_timestamp_ns st
     then Some (kTimestampRegression, out, lasts)
     else Some (FrameError.kOk, out,
       lasts(stream_key \<mapsto> st\<lparr>seen := True, last_sequence := fh_sequence out,
                              last_timestamp_ns := fh_timestamp_ns out\<rparr>)) }}"

subsection \<open>The accessors are the little-endian byte strings\<close>

lemma take_drop_map_nth: "p + n \<le> length b \<Longrightarrow> take n (drop p b) = map (\<lambda>i. b ! (p + i)) [0..<n]"
  by (rule nth_equalityI) auto


lemma get_u16_in [codec_simps]:
  "p + 2 \<le> length b \<Longrightarrow> get_u16 b p = Some (le_word (take 2 (drop p b)))"
  by (simp add: get_u16_def rd_in take_drop_map_nth upt_2)

lemma get_u32_in [codec_simps]:
  "p + 4 \<le> length b \<Longrightarrow> get_u32 b p = Some (le_word (take 4 (drop p b)))"
  by (simp add: get_u32_def rd_in take_drop_map_nth upt_4 or.assoc)

lemma get_u64_in [codec_simps]:
  "p + 8 \<le> length b \<Longrightarrow> get_u64 b p = Some (le_word (take 8 (drop p b)))"
  by (simp add: get_u64_def rd_in take_drop_map_nth upt_8 or.assoc)

lemma put_u16_in [codec_simps]: "p + 2 \<le> length b \<Longrightarrow> put_u16 b p v = blit b p (le_bytes 2 v)"
  by (simp add: put_u16_def wr_seq_def le_bytes_def upt_2 ucast_and_byte flip: wr_seq_blit)

lemma put_u32_in [codec_simps]: "p + 4 \<le> length b \<Longrightarrow> put_u32 b p v = blit b p (le_bytes 4 v)"
  by (simp add: put_u32_def wr_seq_def le_bytes_def upt_4 ucast_and_byte
      add.commute [of p] flip: wr_seq_blit) (simp add: eval_nat_numeral)

lemma put_u64_in [codec_simps]: "p + 8 \<le> length b \<Longrightarrow> put_u64 b p v = blit b p (le_bytes 8 v)"
  by (simp add: put_u64_def wr_seq_def le_bytes_def upt_8 ucast_and_byte
      flip: wr_seq_blit) (simp add: eval_nat_numeral)

subsection \<open>The frame layout\<close>

text \<open>The wire image that the table at the top of \<^verbatim>\<open>frame.hpp\<close> describes.\<close>

definition frame_header_bytes :: "FrameHeader \<Rightarrow> bytes" where
  "frame_header_bytes h =
     le_bytes 4 (fh_magic h) @ le_bytes 2 (fh_version h) @ le_bytes 2 (fh_sensor_type h) @
     le_bytes 2 (fh_flags h) @ le_bytes 2 (fh_header_size h) @ le_bytes 8 (fh_sequence h) @
     le_bytes 8 (fh_timestamp_ns h) @ le_bytes 4 (fh_payload_size h) @
     le_bytes 4 (fh_payload_crc32c h)"

definition frame_image :: "FrameHeader \<Rightarrow> bytes \<Rightarrow> bytes" where
  "frame_image h payload =
     frame_header_bytes h @ le_bytes 4 (crc32c (frame_header_bytes h)) @ payload"

definition frame_header_for :: "SensorType \<Rightarrow> u64 \<Rightarrow> u64 \<Rightarrow> u16 \<Rightarrow> bytes \<Rightarrow> FrameHeader" where
  "frame_header_for t s ts fl payload = \<lparr>fh_magic = kMagic, fh_version = kVersion,
     fh_sensor_type = t, fh_flags = fl, fh_header_size = kHeaderSize, fh_sequence = s,
     fh_timestamp_ns = ts, fh_payload_size = word_of_nat (length payload),
     fh_payload_crc32c = crc32c payload\<rparr>"

text \<open>A header that describes its payload: what a decoder may accept.\<close>

definition frame_ok :: "FrameHeader \<Rightarrow> bytes \<Rightarrow> bool" where
  "frame_ok h payload \<longleftrightarrow> fh_magic h = kMagic \<and> fh_version h \<le> kVersion \<and>
     fh_header_size h = kHeaderSize \<and> fh_payload_size h \<le> kMaxPayload \<and>
     unat (fh_payload_size h) = length payload \<and> fh_payload_crc32c h = crc32c payload"

lemma length_frame_header_bytes [simp]: "length (frame_header_bytes h) = 36"
  by (simp add: frame_header_bytes_def)

lemma length_frame_image [simp]: "length (frame_image h payload) = 40 + length payload"
  by (simp add: frame_image_def)

lemma unat_kMaxPayload: "unat kMaxPayload = 4194304"
  by (simp add: kMaxPayload_def)

lemma unat_payload_size:
  "length payload \<le> unat kMaxPayload \<Longrightarrow> unat (word_of_nat (length payload) :: u32) = length payload"
  by (simp add: unat_kMaxPayload unat_of_nat take_bit_nat_eq_self)

lemma frame_ok_header_for:
  "length payload \<le> unat kMaxPayload \<Longrightarrow> frame_ok (frame_header_for t s ts fl payload) payload"
  by (simp add: frame_ok_def frame_header_for_def unat_payload_size word_le_nat_alt)

subsection \<open>Encoding produces the layout\<close>

definition filled :: "bytes \<Rightarrow> nat \<Rightarrow> bytes" where
  "filled pre m = pre @ replicate m 0"

lemma blit_filled:
  "length pre = p \<Longrightarrow> length src \<le> m \<Longrightarrow>
     blit (filled pre m) p src = Some (filled (pre @ src) (m - length src))"
  by (simp add: blit_def filled_def)

lemma put_filled:
  "length pre = p \<Longrightarrow> 2 \<le> m \<Longrightarrow> put_u16 (filled pre m) p v = Some (filled (pre @ le_bytes 2 v) (m - 2))"
  "length pre = p \<Longrightarrow> 4 \<le> m \<Longrightarrow> put_u32 (filled pre m) p w = Some (filled (pre @ le_bytes 4 w) (m - 4))"
  "length pre = p \<Longrightarrow> 8 \<le> m \<Longrightarrow> put_u64 (filled pre m) p x = Some (filled (pre @ le_bytes 8 x) (m - 8))"
proof -
  have len: "length (filled pre m) = length pre + m" by (simp add: filled_def)
  show "length pre = p \<Longrightarrow> 2 \<le> m \<Longrightarrow> put_u16 (filled pre m) p v = Some (filled (pre @ le_bytes 2 v) (m - 2))"
    by (simp add: put_u16_in len blit_filled)
  show "length pre = p \<Longrightarrow> 4 \<le> m \<Longrightarrow> put_u32 (filled pre m) p w = Some (filled (pre @ le_bytes 4 w) (m - 4))"
    by (simp add: put_u32_in len blit_filled)
  show "length pre = p \<Longrightarrow> 8 \<le> m \<Longrightarrow> put_u64 (filled pre m) p x = Some (filled (pre @ le_bytes 8 x) (m - 8))"
    by (simp add: put_u64_in len blit_filled)
qed

lemma sub_filled: "length pre = n \<Longrightarrow> sub (filled pre m) 0 n = Some pre"
  by (simp add: sub_def filled_def)

lemma encode_frame_image:
  assumes "length payload \<le> unat kMaxPayload"
  shows "encode_frame t s ts fl payload
     = Some (Inr (frame_image (frame_header_for t s ts fl payload) payload))"
proof -
  let ?h = "frame_header_for t s ts fl payload"
  have z: "replicate (kFrameOverhead + length payload) 0 = filled [] (40 + length payload)"
    by (simp add: filled_def kFrameOverhead_def kHeaderSize_def)
  have crc: "(if length payload \<noteq> 0 then crc32c payload else crc32c []) = crc32c payload"
    by simp
  show ?thesis
    using assms unfolding encode_frame_def z crc
    by (simp add: put_filled sub_filled blit_filled frame_offset_defs Let_def)
      (simp add: filled_def frame_image_def frame_header_bytes_def frame_header_for_def
        frame_offset_defs)
qed

subsection \<open>Decoding inverts the layout\<close>

definition parsed_header :: "bytes \<Rightarrow> FrameHeader" where
  "parsed_header d = \<lparr>fh_magic = le_word (take 4 d), fh_version = le_word (take 2 (drop 4 d)),
     fh_sensor_type = le_word (take 2 (drop 6 d)), fh_flags = le_word (take 2 (drop 8 d)),
     fh_header_size = le_word (take 2 (drop 10 d)), fh_sequence = le_word (take 8 (drop 12 d)),
     fh_timestamp_ns = le_word (take 8 (drop 20 d)),
     fh_payload_size = le_word (take 4 (drop 28 d)),
     fh_payload_crc32c = le_word (take 4 (drop 32 d))\<rparr>"

lemma take_drop_split: "take (m + n) (drop p d) = take m (drop p d) @ take n (drop (p + m) d)"
  by (simp add: take_add add.commute)

lemma parsed_header_image: "parsed_header (frame_image h payload @ rest) = h"
  by (simp add: parsed_header_def frame_image_def frame_header_bytes_def le_word_le_bytes)

lemma header_bytes_parsed:
  assumes "36 \<le> length d"
  shows "frame_header_bytes (parsed_header d) = take 36 d"
proof -
  have "take 36 d = take (4 + (2 + (2 + (2 + (2 + (8 + (8 + (4 + 4)))))))) (drop 0 d)"
    by simp
  also have "\<dots> = take 4 d @ take 2 (drop 4 d) @ take 2 (drop 6 d) @ take 2 (drop 8 d) @
      take 2 (drop 10 d) @ take 8 (drop 12 d) @ take 8 (drop 20 d) @ take 4 (drop 28 d) @
      take 4 (drop 32 d)"
    unfolding take_drop_split by simp
  finally show ?thesis
    using assms by (simp add: frame_header_bytes_def parsed_header_def le_bytes_le_word_len)
qed

text \<open>With forty bytes present every header read is in range, and the checks are those of a
  pure function of the parsed header.\<close>

definition header_verdict :: "bytes \<Rightarrow> FrameHeader \<Rightarrow> FrameError" where
  "header_verdict d h =
     (if fh_magic h \<noteq> kMagic then kBadMagic
      else if fh_version h > kVersion then kUnsupportedVersion
      else if fh_header_size h \<noteq> kHeaderSize then kBadHeaderSize
      else if fh_payload_size h > kMaxPayload then FrameError.kPayloadTooLarge
      else if length d < 40 + unat (fh_payload_size h) then kTruncatedPayload
      else if crc32c (take 36 d) \<noteq> le_word (take 4 (drop 36 d)) then kHeaderCrcMismatch
      else if crc32c (take (unat (fh_payload_size h)) (drop 40 d)) \<noteq> fh_payload_crc32c h
      then FrameError.kPayloadCrcMismatch
      else FrameError.kOk)"

lemma decode_region: "(if n \<noteq> 0 then sub d p (unat n) else sub d p 0) = sub d p (unat (n :: u32))"
  by simp

lemma need_no_wrap: "n \<le> kMaxPayload \<Longrightarrow> (40 + unat n) mod 18446744073709551616 = 40 + unat n"
  by (simp add: word_le_nat_alt unat_kMaxPayload)

lemma decode_header_verdict:
  assumes "40 \<le> length d"
  shows "\<exists>h. decode_header (Some d) out = Some (header_verdict d (parsed_header d), h) \<and>
    (header_verdict d (parsed_header d) = FrameError.kOk \<longrightarrow> h = parsed_header d)"
proof -
  have len: "\<not> length d < 40" using assms by simp
  have reads: "get_u32 d 0 = Some (le_word (take 4 d))" "get_u16 d 4 = Some (le_word (take 2 (drop 4 d)))"
    "get_u16 d 6 = Some (le_word (take 2 (drop 6 d)))" "get_u16 d 8 = Some (le_word (take 2 (drop 8 d)))"
    "get_u16 d 10 = Some (le_word (take 2 (drop 10 d)))" "get_u64 d 12 = Some (le_word (take 8 (drop 12 d)))"
    "get_u64 d 20 = Some (le_word (take 8 (drop 20 d)))" "get_u32 d 28 = Some (le_word (take 4 (drop 28 d)))"
    "get_u32 d 32 = Some (le_word (take 4 (drop 32 d)))" "get_u32 d 36 = Some (le_word (take 4 (drop 36 d)))"
    "sub d 0 36 = Some (take 36 d)"
    using assms by (simp_all add: codec_simps)
  show ?thesis
    unfolding decode_header_def header_verdict_def decode_region
    by (simp add: reads len frame_offset_defs parsed_header_def Let_def need_no_wrap sub_in)
qed

lemma decode_header_short:
  "length d < 40 \<Longrightarrow> decode_header (Some d) out = Some (FrameError.kTruncatedHeader, out)"
  by (simp add: decode_header_def kFrameOverhead_def kHeaderSize_def)

lemma decode_header_returns: "\<exists>e h. decode_header dp out = Some (e, h)"
proof (cases dp)
  case None
  then show ?thesis by (simp add: decode_header_def)
next
  case (Some d)
  then show ?thesis
    using decode_header_verdict [of d out] decode_header_short [of d out]
    by (cases "length d < 40") auto
qed

lemma header_verdict_image:
  assumes "frame_ok h payload"
  shows "header_verdict (frame_image h payload @ rest) h = FrameError.kOk"
proof -
  have "take 36 (frame_image h payload @ rest) = frame_header_bytes h"
    "take 4 (drop 36 (frame_image h payload @ rest)) = le_bytes 4 (crc32c (frame_header_bytes h))"
    "drop 40 (frame_image h payload @ rest) = payload @ rest"
    by (simp_all add: frame_image_def)
  with assms show ?thesis
    by (auto simp: header_verdict_def frame_ok_def le_word_le_bytes not_less)
qed

lemma image_of_verdict:
  assumes "40 \<le> length d" and "header_verdict d (parsed_header d) = FrameError.kOk"
  defines "n \<equiv> unat (fh_payload_size (parsed_header d))"
  defines "payload \<equiv> take n (drop 40 d)"
  shows "frame_ok (parsed_header d) payload \<and>
    d = frame_image (parsed_header d) payload @ drop (40 + n) d"
proof -
  have v: "crc32c (take 36 d) = le_word (take 4 (drop 36 d))" "40 + n \<le> length d"
    "crc32c payload = fh_payload_crc32c (parsed_header d)"
    and ok: "fh_magic (parsed_header d) = kMagic" "fh_version (parsed_header d) \<le> kVersion"
    "fh_header_size (parsed_header d) = kHeaderSize" "fh_payload_size (parsed_header d) \<le> kMaxPayload"
    using assms(2) by (auto simp: header_verdict_def payload_def n_def split: if_splits)
  have "le_bytes 4 (crc32c (take 36 d)) = take 4 (drop 36 d)"
    using assms(1) v(1) by (simp add: le_bytes_le_word_len)
  then have "frame_image (parsed_header d) payload = take 36 d @ take 4 (drop 36 d) @ take n (drop 40 d)"
    using assms(1) by (simp add: frame_image_def header_bytes_parsed payload_def)
  also have "\<dots> = take (36 + (4 + n)) (drop 0 d)"
    unfolding take_drop_split by simp
  finally have "d = frame_image (parsed_header d) payload @ drop (40 + n) d"
    by simp
  moreover have "frame_ok (parsed_header d) payload"
    using ok v by (simp add: frame_ok_def payload_def n_def)
  ultimately show ?thesis by blast
qed

lemma decode_header_ok_iff:
  "decode_header (Some d) out = Some (FrameError.kOk, h) \<longleftrightarrow>
     (\<exists>payload rest. d = frame_image h payload @ rest \<and> frame_ok h payload)"
proof
  assume ok: "decode_header (Some d) out = Some (FrameError.kOk, h)"
  then have len: "40 \<le> length d"
    using decode_header_short [of d out] by (cases "length d < 40") auto
  then have "header_verdict d (parsed_header d) = FrameError.kOk" and "h = parsed_header d"
    using ok decode_header_verdict [of d out] by auto
  with len show "\<exists>payload rest. d = frame_image h payload @ rest \<and> frame_ok h payload"
    using image_of_verdict [of d] by blast
next
  assume "\<exists>payload rest. d = frame_image h payload @ rest \<and> frame_ok h payload"
  then obtain payload rest where d: "d = frame_image h payload @ rest" and ok: "frame_ok h payload"
    by blast
  have "parsed_header d = h" by (simp add: d parsed_header_image)
  moreover from this have "header_verdict d (parsed_header d) = FrameError.kOk"
    using header_verdict_image [OF ok] d by simp
  moreover have "40 \<le> length d" by (simp add: d)
  ultimately show "decode_header (Some d) out = Some (FrameError.kOk, h)"
    using decode_header_verdict [of d out] by auto
qed

lemma frame_image_inject:
  assumes "frame_image h payload @ rest = frame_image h' payload' @ rest'"
    and "frame_ok h payload" and "frame_ok h' payload'"
  shows "h = h' \<and> payload = payload' \<and> rest = rest'"
proof -
  from assms(1) have h: "h = h'" using parsed_header_image by metis
  with assms(2,3) have "length payload = length payload'" by (simp add: frame_ok_def)
  with assms(1) h show ?thesis by (simp add: frame_image_def)
qed

lemma decode_image:
  "frame_ok h payload \<Longrightarrow>
     decode_header (Some (frame_image h payload @ rest)) out = Some (FrameError.kOk, h)"
  using decode_header_ok_iff by blast

subsection \<open>Corrupted frames\<close>

lemma frame_burst:
  assumes ok: "frame_ok h payload" and img: "frame_image h payload = p @ w @ q"
    and w: "length w = length w'" "length w \<le> 4" "w \<noteq> w'"
  shows "decode_header (Some (p @ w' @ q)) out \<noteq> Some (FrameError.kOk, h')"
proof
  assume "decode_header (Some (p @ w' @ q)) out = Some (FrameError.kOk, h')"
  then obtain payload' rest where img': "p @ w' @ q = frame_image h' payload' @ rest"
    and ok': "frame_ok h' payload'"
    unfolding decode_header_ok_iff by blast
  let ?k = "40 - length p" and ?m = "40 - length p - length w"
  have heads: "frame_header_bytes h @ le_bytes 4 (crc32c (frame_header_bytes h))
      = take 40 p @ take ?k w @ take ?m q"
    using arg_cong [OF img, of "take 40"] by (simp add: frame_image_def)
  have heads': "frame_header_bytes h' @ le_bytes 4 (crc32c (frame_header_bytes h'))
      = take 40 p @ take ?k w' @ take ?m q"
    using arg_cong [OF img', of "take 40"] w(1) by (simp add: frame_image_def)
  have tails: "payload = drop 40 p @ drop ?k w @ drop ?m q"
    using arg_cong [OF img, of "drop 40"] by (simp add: frame_image_def)
  have tails': "payload' @ rest = drop 40 p @ drop ?k w' @ drop ?m q"
    using arg_cong [OF img', of "drop 40"] w(1) by (simp add: frame_image_def)
  show False
  proof (cases "take ?k w = take ?k w'")
    case False
    have "le_word (le_bytes 4 (crc32c (frame_header_bytes h'))) \<noteq> crc32c (frame_header_bytes h')"
      by (rule crc_trailer_burst [OF _ _ _ heads heads'])
        (use w False in \<open>auto simp: le_word_le_bytes\<close>)
    then show False by (simp add: le_word_le_bytes)
  next
    case True
    then have "frame_header_bytes h @ le_bytes 4 (crc32c (frame_header_bytes h))
        = frame_header_bytes h' @ le_bytes 4 (crc32c (frame_header_bytes h'))"
      using heads heads' by simp
    then have "h = h'"
      using parsed_header_image [of h "[]" "[]"] parsed_header_image [of h' "[]" "[]"]
      by (simp add: frame_image_def)
    then have len: "length payload = length payload'" and crc: "crc32c payload = crc32c payload'"
      using ok ok' by (simp_all add: frame_ok_def)
    moreover have "length payload = length (payload' @ rest)" using tails tails' w(1) by simp
    ultimately have "rest = []" by simp
    moreover have "drop ?k w \<noteq> drop ?k w'"
      using True w(3) by (metis append_take_drop_id)
    then have "crc32c (drop 40 p @ drop ?k w @ drop ?m q) \<noteq> crc32c (drop 40 p @ drop ?k w' @ drop ?m q)"
      by (intro crc32c_burst) (use w in auto)
    ultimately show False using crc tails tails' by simp
  qed
qed

definition frame_accepts :: "bytes \<Rightarrow> FrameHeader \<Rightarrow> bool" where
  "frame_accepts d h \<longleftrightarrow> decode_header (Some d) FrameHeader_init = Some (FrameError.kOk, h)"

interpretation frame: burst_codec frame_image frame_ok frame_accepts
proof unfold_locales
  show "frame_accepts d h \<longleftrightarrow> (\<exists>payload rest. d = frame_image h payload @ rest \<and> frame_ok h payload)"
    for d h by (simp only: frame_accepts_def decode_header_ok_iff)
  show "h = h' \<and> p = p' \<and> r = r'"
    if "frame_image h p @ r = frame_image h' p' @ r'" "frame_ok h p" "frame_ok h' p'" for h p r h' p' r'
    using that by (rule frame_image_inject)
  show "frame_image h p \<noteq> []" for h p
    by (metis length_frame_image list.size(3) add_is_0 zero_neq_numeral)
  show "\<not> frame_accepts (a @ w' @ b) h'"
    if "frame_ok h p" "frame_image h p = a @ w @ b" "length w = length w'" "length w \<le> 4" "w \<noteq> w'"
    for h p a w b w' h'
    using frame_burst [OF that] by (simp add: frame_accepts_def)
qed

subsection \<open>The stateful decoder\<close>

lemma frame_decode_returns: "\<exists>e h l. frame_decode lasts dp k out = Some (e, h, l)"
  using decode_header_returns [of dp out] by (auto simp: frame_decode_def Let_def)

lemma StreamState_update:
  "(st :: StreamState)\<lparr>seen := b, last_sequence := s, last_timestamp_ns := ts\<rparr>
     = \<lparr>last_sequence = s, last_timestamp_ns = ts, seen = b\<rparr>"
  by simp

text \<open>What an accepted frame says of the state before and after it.\<close>

lemma frame_decode_ok:
  assumes "frame_decode lasts dp k out = Some (FrameError.kOk, h, lasts')"
  shows "decode_header dp out = Some (FrameError.kOk, h)"
    and "lasts' = lasts(k \<mapsto> \<lparr>last_sequence = fh_sequence h, last_timestamp_ns = fh_timestamp_ns h,
                             seen = True\<rparr>)"
    and "lasts k = Some st \<Longrightarrow> seen st \<Longrightarrow>
           last_sequence st \<le> fh_sequence h \<and> last_timestamp_ns st \<le> fh_timestamp_ns h"
  using assms
  by (auto simp: frame_decode_def Let_def bind_eq_Some_conv StreamState_init_def StreamState_update
      split: if_splits option.splits prod.splits)

lemma frame_decode_reject:
  assumes "frame_decode lasts dp k out = Some (e, h, lasts')" and "e \<noteq> FrameError.kOk"
  shows "lasts' = lasts"
  using assms
  by (auto simp: frame_decode_def Let_def bind_eq_Some_conv StreamState_init_def
      split: if_splits option.splits prod.splits)

lemma frame_decode_accept:
  assumes "decode_header dp out = Some (FrameError.kOk, h)"
    and "\<And>st. lasts k = Some st \<Longrightarrow>
           last_sequence st \<le> fh_sequence h \<and> last_timestamp_ns st \<le> fh_timestamp_ns h"
  shows "frame_decode lasts dp k out = Some (FrameError.kOk, h,
    lasts(k \<mapsto> \<lparr>last_sequence = fh_sequence h, last_timestamp_ns = fh_timestamp_ns h, seen = True\<rparr>))"
  using assms by (auto simp: frame_decode_def Let_def StreamState_init_def split: option.splits)

text \<open>The frames a decoder accepts from a sequence of inputs, each with its stream key.\<close>

fun accepted :: "FrameDecoder \<Rightarrow> (u64 \<times> bytes option) list \<Rightarrow> (u64 \<times> FrameHeader) list" where
  "accepted lasts [] = []"
| "accepted lasts ((k, dp) # fs) = (case frame_decode lasts dp k FrameHeader_init of
     None \<Rightarrow> []
   | Some (e, h, lasts') \<Rightarrow>
       (if e = FrameError.kOk then (k, h) # accepted lasts' fs else accepted lasts' fs))"

definition on_stream :: "u64 \<Rightarrow> (u64 \<times> FrameHeader) list \<Rightarrow> FrameHeader list" where
  "on_stream k acc = map snd (filter (\<lambda>x. fst x = k) acc)"

lemma on_stream_simps [simp]:
  "on_stream k [] = []"
  "on_stream k ((k', h) # acc) = (if k' = k then h # on_stream k acc else on_stream k acc)"
  by (simp_all add: on_stream_def)

lemma accepted_bounds_sorted:
  "(\<forall>h \<in> set (on_stream k (accepted lasts fs)). \<forall>st. lasts k = Some st \<longrightarrow> seen st \<longrightarrow>
      last_sequence st \<le> fh_sequence h \<and> last_timestamp_ns st \<le> fh_timestamp_ns h) \<and>
   sorted (map fh_sequence (on_stream k (accepted lasts fs))) \<and>
   sorted (map fh_timestamp_ns (on_stream k (accepted lasts fs)))"
proof (induction lasts fs rule: accepted.induct)
  case (1 lasts)
  then show ?case by simp
next
  case (2 lasts k' dp fs)
  obtain e h l where d: "frame_decode lasts dp k' FrameHeader_init = Some (e, h, l)"
    using frame_decode_returns by blast
  note IH = "2.IH" [OF d refl refl]
  show ?case
  proof (cases "e = FrameError.kOk")
    case False
    with d have "l = lasts" by (rule frame_decode_reject)
    with False IH d show ?thesis by simp
  next
    case True
    note ok = frame_decode_ok [OF d [unfolded True]]
    from ok(2) have lk: "k' = k \<Longrightarrow> l k = Some \<lparr>last_sequence = fh_sequence h,
        last_timestamp_ns = fh_timestamp_ns h, seen = True\<rparr>" and lo: "k' \<noteq> k \<Longrightarrow> l k = lasts k"
      by simp_all
    show ?thesis
    proof (cases "k' = k")
      case False
      with True IH(1) d lo show ?thesis by simp
    next
      case same: True
      with IH(1) True lk have "\<forall>x \<in> set (on_stream k (accepted l fs)).
          fh_sequence h \<le> fh_sequence x \<and> fh_timestamp_ns h \<le> fh_timestamp_ns x"
        by simp
      with same True IH(1) d ok(3) show ?thesis by (fastforce intro: order.trans)
    qed
  qed
qed

subsection \<open>Properties\<close>

text \<open>C5: a payload of at most 4 MiB is encoded without any out-of-bounds access and without an
  exception; decoding the frame, also when other bytes follow it, returns \<^verbatim>\<open>kOk\<close>, every field that
  was encoded, and the payload at \<^verbatim>\<open>payload_ptr\<close>.\<close>

theorem frame_roundtrip:
  assumes "length payload \<le> unat kMaxPayload"
  shows "\<exists>frame h. encode_frame t s ts fl payload = Some (Inr frame) \<and>
     decode_header (Some (frame @ rest)) out = Some (FrameError.kOk, h) \<and>
     fh_sensor_type h = t \<and> fh_sequence h = s \<and> fh_timestamp_ns h = ts \<and> fh_flags h = fl \<and>
     take (unat (fh_payload_size h)) (payload_ptr (frame @ rest)) = payload"
proof (intro exI conjI)
  let ?h = "frame_header_for t s ts fl payload"
  show "encode_frame t s ts fl payload = Some (Inr (frame_image ?h payload))"
    using assms by (rule encode_frame_image)
  show "decode_header (Some (frame_image ?h payload @ rest)) out = Some (FrameError.kOk, ?h)"
    using assms by (intro decode_image frame_ok_header_for)
  show "take (unat (fh_payload_size ?h)) (payload_ptr (frame_image ?h payload @ rest)) = payload"
    using assms by (simp add: frame_header_for_def unat_payload_size payload_ptr_def
        frame_image_def kFrameOverhead_def kHeaderSize_def)
qed (simp_all add: frame_header_for_def)

theorem frame_roundtrip_witness:
  "\<exists>frame h. encode_frame kImu 7 1000 kFlagCompressed [1, 2, 3] = Some (Inr frame) \<and>
     decode_header (Some (frame @ [9])) FrameHeader_init = Some (FrameError.kOk, h) \<and>
     fh_sensor_type h = kImu \<and> fh_sequence h = 7 \<and> fh_timestamp_ns h = 1000 \<and>
     fh_flags h = kFlagCompressed \<and>
     take (unat (fh_payload_size h)) (payload_ptr (frame @ [9])) = [1, 2, 3]"
  by (rule frame_roundtrip) (simp add: unat_kMaxPayload)

text \<open>Encoding throws exactly when the payload is longer than \<^verbatim>\<open>kMaxPayload\<close>, and never
  accesses a byte out of bounds.\<close>

theorem encode_frame_throws_iff:
  "(\<exists>x. encode_frame t s ts fl payload = Some x) \<and>
   ((\<exists>e. encode_frame t s ts fl payload = Some (Inl e)) \<longleftrightarrow> length payload > unat kMaxPayload)"
proof (cases "length payload > unat kMaxPayload")
  case True
  then show ?thesis by (simp add: encode_frame_def)
next
  case False
  then show ?thesis using encode_frame_image [of payload t s ts fl] by simp
qed

text \<open>\<^verbatim>\<open>decode_header\<close> is safe on every input: for a null pointer and for any byte string it
  returns a verdict without an out-of-bounds access, and \<^verbatim>\<open>kLengthOverflow\<close> is never the verdict.\<close>

theorem decode_header_safe:
  "\<exists>e h. decode_header data_ptr out = Some (e, h) \<and> e \<noteq> kLengthOverflow"
proof (cases data_ptr)
  case None
  then show ?thesis by (simp add: decode_header_def)
next
  case (Some d)
  then show ?thesis
    using decode_header_verdict [of d out] decode_header_short [of d out]
    by (cases "length d < 40") (auto simp: header_verdict_def)
qed

text \<open>C11: \<^verbatim>\<open>decode_header\<close> accepts a buffer exactly when it starts with the documented wire image
  of the returned header and a payload that the header describes.\<close>

theorem decode_header_accepts_iff:
  "decode_header (Some d) out = Some (FrameError.kOk, h) \<longleftrightarrow>
     (\<exists>payload rest. d = frame_image h payload @ rest \<and> frame_ok h payload)"
  by (rule decode_header_ok_iff)

text \<open>C6: a frame in which up to four consecutive bytes were changed anywhere (header, header CRC,
  payload, or across a boundary) is rejected.\<close>

theorem corrupt_frame_rejected:
  assumes "encode_frame t s ts fl payload = Some (Inr (p @ w @ q))"
    and "length w = length w'" and "length w \<le> 4" and "w \<noteq> w'"
  shows "\<exists>e h. decode_header (Some (p @ w' @ q)) out = Some (e, h) \<and> e \<noteq> FrameError.kOk"
proof -
  have len: "length payload \<le> unat kMaxPayload"
    using assms(1) by (auto simp: encode_frame_def split: if_splits)
  then have "frame_image (frame_header_for t s ts fl payload) payload = p @ w @ q"
    using assms(1) encode_frame_image by simp
  with assms(2-4) len show ?thesis
    using frame_burst frame_ok_header_for decode_header_returns by metis
qed

theorem corrupt_frame_rejected_witness:
  "\<exists>e h. decode_header (Some (le_bytes 4 (kMagic + 1) @
      drop 4 (frame_image (frame_header_for kCan 0 0 0 [1]) [1]))) FrameHeader_init = Some (e, h) \<and>
     e \<noteq> FrameError.kOk"
proof -
  let ?f = "frame_image (frame_header_for kCan 0 0 0 [1]) [1]"
  have w: "take 4 ?f = le_bytes 4 kMagic"
    by (simp add: frame_image_def frame_header_bytes_def frame_header_for_def)
  have "encode_frame kCan 0 0 0 [1] = Some (Inr ([] @ take 4 ?f @ drop 4 ?f))"
    by (simp add: encode_frame_image unat_kMaxPayload)
  then have "\<exists>e h. decode_header (Some ([] @ le_bytes 4 (kMagic + 1) @ drop 4 ?f)) FrameHeader_init
      = Some (e, h) \<and> e \<noteq> FrameError.kOk"
    by (rule corrupt_frame_rejected)
      (simp_all add: w, simp add: le_bytes_def upt_4 kMagic_def)
  then show ?thesis by simp
qed

text \<open>Over any sequence of inputs on any streams, the frames the stateful decoder accepts on one
  stream have non-decreasing sequence numbers and non-decreasing timestamps.\<close>

theorem decoder_monotone:
  "sorted (map fh_sequence (on_stream k (accepted Map.empty inputs))) \<and>
   sorted (map fh_timestamp_ns (on_stream k (accepted Map.empty inputs)))"
  using accepted_bounds_sorted [of k Map.empty inputs] by blast

text \<open>A rejected frame leaves the decoder state unchanged, and an accepted one changes only its
  own stream.\<close>

theorem decoder_frame_isolation:
  assumes "frame_decode lasts dp k out = Some (e, h, lasts')"
  shows "(e \<noteq> FrameError.kOk \<longrightarrow> lasts' = lasts) \<and> (\<forall>k'. k' \<noteq> k \<longrightarrow> lasts' k' = lasts k')"
  using assms frame_decode_reject [OF assms] frame_decode_ok(2) [of lasts dp k out h lasts']
  by (cases "e = FrameError.kOk") auto

theorem decoder_frame_isolation_witness:
  "\<exists>lasts'. frame_decode [5 \<mapsto> StreamState_init]
      (Some (frame_image (frame_header_for kGps 1 2 0 [7]) [7])) 3 FrameHeader_init
      = Some (FrameError.kOk, frame_header_for kGps 1 2 0 [7], lasts') \<and>
     lasts' 5 = Some StreamState_init"
proof -
  let ?h = "frame_header_for kGps 1 2 0 [7]" and ?l = "[5 \<mapsto> StreamState_init] :: FrameDecoder"
  have "decode_header (Some (frame_image ?h [7] @ [])) FrameHeader_init = Some (FrameError.kOk, ?h)"
    by (intro decode_image frame_ok_header_for) (simp add: unat_kMaxPayload)
  then obtain l where d: "frame_decode ?l (Some (frame_image ?h [7])) 3 FrameHeader_init
      = Some (FrameError.kOk, ?h, l)"
    using frame_decode_accept [of "Some (frame_image ?h [7])" FrameHeader_init ?h ?l 3] by auto
  have "l 5 = ?l 5"
    using decoder_frame_isolation [OF d] by simp
  with d show ?thesis by auto
qed

end
