(* ===== verification/Wal_Record.thy ===== *)
theory Wal_Record
  imports Frame_Codec
begin

text \<open>
  The replay-log record codec (\<^verbatim>\<open>include/sensorforge/replay/record.hpp\<close>): the on-disk record
  layout, \<^verbatim>\<open>encode_record\<close> and \<^verbatim>\<open>decode_record\<close>. As in the frame codec, \<^term>\<open>None\<close> stands for an
  out-of-bounds access and the output header is passed in and returned.
\<close>

subsection \<open>Definitions\<close>

definition kRecordHeaderSize :: nat where "kRecordHeaderSize = 30"
definition kRecordTrailerSize :: nat where "kRecordTrailerSize = 4"
definition kRecordOverhead :: nat where "kRecordOverhead = kRecordHeaderSize + kRecordTrailerSize"
definition kMaxRecordPayload :: u32 where "kMaxRecordPayload = 4 * 1024 * 1024"
definition kMaxRecordLength :: nat where "kMaxRecordLength = kRecordOverhead + unat kMaxRecordPayload"

lemmas record_const_defs = kRecordHeaderSize_def kRecordTrailerSize_def kRecordOverhead_def
  kMaxRecordLength_def

record RecordHeader =
  rh_record_length :: u32
  rh_timestamp_ns :: u64
  rh_sensor_type :: SensorType
  rh_sequence :: u64
  rh_payload_size :: u32
  rh_payload_crc32c :: u32

definition RecordHeader_init :: RecordHeader where
  "RecordHeader_init = \<lparr>rh_record_length = 0, rh_timestamp_ns = 0, rh_sensor_type = kUnknown,
     rh_sequence = 0, rh_payload_size = 0, rh_payload_crc32c = 0\<rparr>"

datatype RecordError =
    kOk
  | kTruncatedHeader
  | kBadLength
  | kLengthMismatch
  | kPayloadTooLarge
  | kTruncatedRecord
  | kPayloadCrcMismatch
  | kRecordCrcMismatch

fun record_error_to_string :: "RecordError \<Rightarrow> string" where
  "record_error_to_string RecordError.kOk = ''ok''"
| "record_error_to_string RecordError.kTruncatedHeader = ''truncated_header''"
| "record_error_to_string kBadLength = ''bad_length''"
| "record_error_to_string kLengthMismatch = ''length_mismatch''"
| "record_error_to_string RecordError.kPayloadTooLarge = ''payload_too_large''"
| "record_error_to_string kTruncatedRecord = ''truncated_record''"
| "record_error_to_string RecordError.kPayloadCrcMismatch = ''payload_crc_mismatch''"
| "record_error_to_string kRecordCrcMismatch = ''record_crc_mismatch''"

text \<open>The record writers append to the vector; the readers repeat those of the frame codec.\<close>

definition push_u16 :: "bytes \<Rightarrow> u16 \<Rightarrow> bytes" where
  "push_u16 v x = v @ [ucast (x AND 0xFF)] @ [ucast (drop_bit 8 x AND 0xFF)]"

definition push_u32 :: "bytes \<Rightarrow> u32 \<Rightarrow> bytes" where
  "push_u32 v x = foldl (\<lambda>v i. v @ [ucast (drop_bit (8 * i) x AND 0xFF)]) v [0..<4]"

definition push_u64 :: "bytes \<Rightarrow> u64 \<Rightarrow> bytes" where
  "push_u64 v x = foldl (\<lambda>v i. v @ [ucast (drop_bit (8 * i) x AND 0xFF)]) v [0..<8]"

definition rec_get_u16 :: "bytes \<Rightarrow> nat \<Rightarrow> u16 option" where
  "rec_get_u16 b p = do {
     p0 \<leftarrow> rd b p;
     p1 \<leftarrow> rd b (p + 1);
     Some (ucast p0 OR push_bit 8 (ucast p1)) }"

definition rec_get_u32 :: "bytes \<Rightarrow> nat \<Rightarrow> u32 option" where
  "rec_get_u32 b p = do {
     p0 \<leftarrow> rd b p;
     p1 \<leftarrow> rd b (p + 1);
     p2 \<leftarrow> rd b (p + 2);
     p3 \<leftarrow> rd b (p + 3);
     Some (ucast p0 OR push_bit 8 (ucast p1) OR push_bit 16 (ucast p2) OR push_bit 24 (ucast p3)) }"

definition rec_get_u64 :: "bytes \<Rightarrow> nat \<Rightarrow> u64 option" where
  "rec_get_u64 b p =
     foldl (\<lambda>acc i. do { v \<leftarrow> acc; x \<leftarrow> rd b (p + i); Some (v OR push_bit (8 * i) (ucast x)) })
       (Some 0) [0..<8]"

definition encode_record :: "u64 \<Rightarrow> SensorType \<Rightarrow> u64 \<Rightarrow> bytes \<Rightarrow> bytes" where
  "encode_record timestamp_ns sensor_type sequence payload =
     (let n = (word_of_nat (length payload) :: u32);
          record_length = (word_of_nat (kRecordOverhead + length payload) :: u32);
          out = [];
          out = push_u32 out record_length;
          out = push_u64 out timestamp_ns;
          out = push_u16 out sensor_type;
          out = push_u64 out sequence;
          out = push_u32 out n;
          out = push_u32 out (if length payload \<noteq> 0 then crc32c payload else crc32c []);
          out = (if length payload \<noteq> 0 then out @ payload else out);
          record_crc = crc32c out
      in push_u32 out record_crc)"

definition decode_record ::
    "bytes option \<Rightarrow> RecordHeader \<Rightarrow> (RecordError \<times> RecordHeader) option" where
  "decode_record data_ptr out = (case data_ptr of
     None \<Rightarrow> Some (RecordError.kTruncatedHeader, out)
   | Some data \<Rightarrow>
      if length data < kRecordHeaderSize then Some (RecordError.kTruncatedHeader, out) else do {
        l \<leftarrow> rec_get_u32 data 0;
        ts \<leftarrow> rec_get_u64 data 4;
        t \<leftarrow> rec_get_u16 data 12;
        s \<leftarrow> rec_get_u64 data 14;
        n \<leftarrow> rec_get_u32 data 22;
        c \<leftarrow> rec_get_u32 data 26;
        let out = out\<lparr>rh_record_length := l, rh_timestamp_ns := ts, rh_sensor_type := t,
                     rh_sequence := s, rh_payload_size := n, rh_payload_crc32c := c\<rparr>;
        if unat (rh_record_length out) < kRecordOverhead \<or>
           unat (rh_record_length out) > kMaxRecordLength then Some (kBadLength, out)
        else if rh_payload_size out > kMaxRecordPayload
        then Some (RecordError.kPayloadTooLarge, out)
        else if unat (rh_record_length out) \<noteq> kRecordOverhead + unat (rh_payload_size out)
        then Some (kLengthMismatch, out)
        else if length data < unat (rh_record_length out) then Some (kTruncatedRecord, out)
        else do {
        payload \<leftarrow> (if rh_payload_size out \<noteq> 0
          then sub data kRecordHeaderSize (unat (rh_payload_size out))
          else sub data kRecordHeaderSize 0);
        let pc = crc32c payload;
        if pc \<noteq> rh_payload_crc32c out then Some (RecordError.kPayloadCrcMismatch, out) else do {
        let crc_off = kRecordHeaderSize + unat (rh_payload_size out);
        stored_record_crc \<leftarrow> rec_get_u32 data crc_off;
        body \<leftarrow> sub data 0 crc_off;
        if crc32c body \<noteq> stored_record_crc then Some (kRecordCrcMismatch, out)
        else Some (RecordError.kOk, out) }}})"

definition record_payload :: "bytes \<Rightarrow> bytes" where
  "record_payload data = drop kRecordHeaderSize data"

subsection \<open>The record layout\<close>

definition record_header_bytes :: "RecordHeader \<Rightarrow> bytes" where
  "record_header_bytes h =
     le_bytes 4 (rh_record_length h) @ le_bytes 8 (rh_timestamp_ns h) @
     le_bytes 2 (rh_sensor_type h) @ le_bytes 8 (rh_sequence h) @ le_bytes 4 (rh_payload_size h) @
     le_bytes 4 (rh_payload_crc32c h)"

definition record_image :: "RecordHeader \<Rightarrow> bytes \<Rightarrow> bytes" where
  "record_image h payload =
     record_header_bytes h @ payload @ le_bytes 4 (crc32c (record_header_bytes h @ payload))"

definition record_header_for :: "u64 \<Rightarrow> SensorType \<Rightarrow> u64 \<Rightarrow> bytes \<Rightarrow> RecordHeader" where
  "record_header_for ts t s payload = \<lparr>rh_record_length = word_of_nat (34 + length payload),
     rh_timestamp_ns = ts, rh_sensor_type = t, rh_sequence = s,
     rh_payload_size = word_of_nat (length payload), rh_payload_crc32c = crc32c payload\<rparr>"

definition record_ok :: "RecordHeader \<Rightarrow> bytes \<Rightarrow> bool" where
  "record_ok h payload \<longleftrightarrow> unat (rh_record_length h) = 34 + length payload \<and>
     unat (rh_payload_size h) = length payload \<and> length payload \<le> unat kMaxRecordPayload \<and>
     rh_payload_crc32c h = crc32c payload"

lemma unat_kMaxRecordPayload: "unat kMaxRecordPayload = 4194304"
  by (simp add: kMaxRecordPayload_def)

lemma length_record_header_bytes [simp]: "length (record_header_bytes h) = 30"
  by (simp add: record_header_bytes_def)

lemma length_record_image [simp]: "length (record_image h payload) = 34 + length payload"
  by (simp add: record_image_def)

lemma record_ok_header_for:
  "length payload \<le> unat kMaxRecordPayload \<Longrightarrow> record_ok (record_header_for ts t s payload) payload"
  by (simp add: record_ok_def record_header_for_def unat_kMaxRecordPayload unat_of_nat
      take_bit_nat_eq_self del: of_nat_add)

lemma push_le_bytes:
  "push_u16 v x = v @ le_bytes 2 x"
  "push_u32 v y = v @ le_bytes 4 y"
  "push_u64 v z = v @ le_bytes 8 z"
  by (simp_all add: push_u16_def push_u32_def push_u64_def le_bytes_def upt_2 upt_4 upt_8
      ucast_and_byte)

lemma encode_record_image:
  "encode_record ts t s payload = record_image (record_header_for ts t s payload) payload"
proof -
  have "(if length payload \<noteq> 0 then crc32c payload else crc32c []) = crc32c payload"
    "(if length payload \<noteq> 0 then out @ payload else out) = out @ payload" for out
    by simp_all
  then show ?thesis
    by (simp add: encode_record_def push_le_bytes record_image_def record_header_bytes_def
        record_header_for_def Let_def record_const_defs)
qed

subsection \<open>Decoding inverts the layout\<close>

lemma rec_get_eq:
  "rec_get_u16 = get_u16" "rec_get_u32 = get_u32" "rec_get_u64 = get_u64"
  by (simp_all add: fun_eq_iff rec_get_u16_def get_u16_def rec_get_u32_def get_u32_def
      rec_get_u64_def get_u64_def)

definition parsed_record :: "bytes \<Rightarrow> RecordHeader" where
  "parsed_record d = \<lparr>rh_record_length = le_word (take 4 d),
     rh_timestamp_ns = le_word (take 8 (drop 4 d)), rh_sensor_type = le_word (take 2 (drop 12 d)),
     rh_sequence = le_word (take 8 (drop 14 d)), rh_payload_size = le_word (take 4 (drop 22 d)),
     rh_payload_crc32c = le_word (take 4 (drop 26 d))\<rparr>"

definition record_verdict :: "bytes \<Rightarrow> RecordHeader \<Rightarrow> RecordError" where
  "record_verdict d h =
     (let n = unat (rh_payload_size h); l = unat (rh_record_length h) in
      if l < 34 \<or> l > 4194338 then kBadLength
      else if rh_payload_size h > kMaxRecordPayload then RecordError.kPayloadTooLarge
      else if l \<noteq> 34 + n then kLengthMismatch
      else if length d < l then kTruncatedRecord
      else if crc32c (take n (drop 30 d)) \<noteq> rh_payload_crc32c h then RecordError.kPayloadCrcMismatch
      else if crc32c (take (30 + n) d) \<noteq> le_word (take 4 (drop (30 + n) d)) then kRecordCrcMismatch
      else RecordError.kOk)"

lemma parsed_record_image: "parsed_record (record_image h payload @ rest) = h"
  by (simp add: parsed_record_def record_image_def record_header_bytes_def le_word_le_bytes)

lemma record_header_parsed:
  assumes "30 \<le> length d"
  shows "record_header_bytes (parsed_record d) = take 30 d"
proof -
  have "take 30 d = take (4 + (8 + (2 + (8 + (4 + 4))))) (drop 0 d)" by simp
  also have "\<dots> = take 4 d @ take 8 (drop 4 d) @ take 2 (drop 12 d) @ take 8 (drop 14 d) @
      take 4 (drop 22 d) @ take 4 (drop 26 d)"
    unfolding take_drop_split by simp
  finally show ?thesis
    using assms by (simp add: record_header_bytes_def parsed_record_def le_bytes_le_word_len)
qed

lemma decode_record_verdict:
  assumes "30 \<le> length d"
  shows "decode_record (Some d) out = Some (record_verdict d (parsed_record d), parsed_record d)"
proof -
  have reads: "get_u32 d 0 = Some (le_word (take 4 d))" "get_u64 d 4 = Some (le_word (take 8 (drop 4 d)))"
    "get_u16 d 12 = Some (le_word (take 2 (drop 12 d)))" "get_u64 d 14 = Some (le_word (take 8 (drop 14 d)))"
    "get_u32 d 22 = Some (le_word (take 4 (drop 22 d)))" "get_u32 d 26 = Some (le_word (take 4 (drop 26 d)))"
    using assms by (simp_all add: codec_simps)
  have len: "\<not> length d < 30" using assms by simp
  show ?thesis
    unfolding decode_record_def record_verdict_def decode_region rec_get_eq
    by (simp add: reads len record_const_defs parsed_record_def Let_def sub_in get_u32_in
        unat_kMaxRecordPayload)
qed

lemma decode_record_short:
  "length d < 30 \<Longrightarrow> decode_record (Some d) out = Some (RecordError.kTruncatedHeader, out)"
  by (simp add: decode_record_def kRecordHeaderSize_def)

lemma decode_record_returns: "\<exists>e h. decode_record dp out = Some (e, h)"
proof (cases dp)
  case None
  then show ?thesis by (simp add: decode_record_def)
next
  case (Some d)
  then show ?thesis
    using decode_record_verdict [of d out] decode_record_short [of d out]
    by (cases "length d < 30") auto
qed

lemma record_verdict_image:
  assumes "record_ok h payload"
  shows "record_verdict (record_image h payload @ rest) h = RecordError.kOk"
proof -
  let ?d = "record_image h payload @ rest"
  have "take (30 + length payload) ?d = record_header_bytes h @ payload"
    "take 4 (drop (30 + length payload) ?d) = le_bytes 4 (crc32c (record_header_bytes h @ payload))"
    "take (length payload) (drop 30 ?d) = payload"
    by (simp_all add: record_image_def)
  with assms show ?thesis
    by (simp add: record_verdict_def record_ok_def le_word_le_bytes Let_def word_less_nat_alt
        unat_kMaxRecordPayload)
qed

lemma image_of_record_verdict:
  assumes "30 \<le> length d" and "record_verdict d (parsed_record d) = RecordError.kOk"
  defines "n \<equiv> unat (rh_payload_size (parsed_record d))"
  defines "payload \<equiv> take n (drop 30 d)"
  shows "record_ok (parsed_record d) payload \<and>
    d = record_image (parsed_record d) payload @ drop (34 + n) d"
proof -
  have v: "unat (rh_record_length (parsed_record d)) = 34 + n" "34 + n \<le> length d"
    "rh_payload_size (parsed_record d) \<le> kMaxRecordPayload"
    "crc32c payload = rh_payload_crc32c (parsed_record d)"
    "crc32c (take (30 + n) d) = le_word (take 4 (drop (30 + n) d))"
    using assms(2) by (auto simp: record_verdict_def payload_def n_def Let_def split: if_splits)
  have t: "le_bytes 4 (crc32c (take (30 + n) d)) = take 4 (drop (30 + n) d)"
    using v by (simp add: le_bytes_le_word_len)
  have b: "take 30 d @ payload = take (30 + n) d"
    using take_drop_split [of 30 n 0 d] by (simp add: payload_def)
  have "record_image (parsed_record d) payload = take (30 + n) d @ take 4 (drop (30 + n) d)"
    unfolding record_image_def record_header_parsed [OF assms(1)] b t [symmetric]
    by (simp flip: b)
  also have "\<dots> = take (34 + n) d"
    using take_drop_split [of "30 + n" 4 0 d] by (simp add: add.commute add.left_commute)
  finally have "d = record_image (parsed_record d) payload @ drop (34 + n) d"
    by simp
  moreover have "record_ok (parsed_record d) payload"
    using v by (simp add: record_ok_def payload_def n_def word_le_nat_alt)
  ultimately show ?thesis by blast
qed

lemma decode_record_ok_iff:
  "decode_record (Some d) out = Some (RecordError.kOk, h) \<longleftrightarrow>
     (\<exists>payload rest. d = record_image h payload @ rest \<and> record_ok h payload)"
proof
  assume ok: "decode_record (Some d) out = Some (RecordError.kOk, h)"
  then have len: "30 \<le> length d"
    using decode_record_short [of d out] by (cases "length d < 30") auto
  then have "record_verdict d (parsed_record d) = RecordError.kOk" and "h = parsed_record d"
    using ok decode_record_verdict [of d out] by auto
  with len show "\<exists>payload rest. d = record_image h payload @ rest \<and> record_ok h payload"
    using image_of_record_verdict [of d] by blast
next
  assume "\<exists>payload rest. d = record_image h payload @ rest \<and> record_ok h payload"
  then obtain payload rest where d: "d = record_image h payload @ rest"
    and ok: "record_ok h payload" by blast
  have "parsed_record d = h" by (simp add: d parsed_record_image)
  moreover from this have "record_verdict d (parsed_record d) = RecordError.kOk"
    using record_verdict_image [OF ok] d by simp
  moreover have "30 \<le> length d" by (simp add: d)
  ultimately show "decode_record (Some d) out = Some (RecordError.kOk, h)"
    using decode_record_verdict [of d out] by auto
qed

lemma record_image_inject:
  assumes "record_image h payload @ rest = record_image h' payload' @ rest'"
    and "record_ok h payload" and "record_ok h' payload'"
  shows "h = h' \<and> payload = payload' \<and> rest = rest'"
proof -
  from assms(1) have h: "h = h'" using parsed_record_image by metis
  with assms(2,3) have "length payload = length payload'" by (simp add: record_ok_def)
  with assms(1) h show ?thesis by (simp add: record_image_def)
qed

subsection \<open>Corrupted records\<close>

text \<open>Two byte strings that agree outside a window of four bytes cannot differ both in the length
  field at offset 0 and in the payload size field at offset 22.\<close>

lemma window_apart:
  assumes "length w = length w'" and "length w \<le> 4"
    and "take 4 (p @ w @ q) \<noteq> take 4 (p @ w' @ q)"
  shows "take 4 (drop 22 (p @ w @ q)) = take 4 (drop 22 (p @ w' @ q))"
proof -
  have "length p < 4" using assms(1,3) by (cases "length p < 4") auto
  with assms(1,2) show ?thesis by simp
qed

lemma record_burst:
  assumes ok: "record_ok h payload" and img: "record_image h payload = p @ w @ q"
    and w: "length w = length w'" "length w \<le> 4" "w \<noteq> w'"
  shows "decode_record (Some (p @ w' @ q)) out \<noteq> Some (RecordError.kOk, h')"
proof
  assume "decode_record (Some (p @ w' @ q)) out = Some (RecordError.kOk, h')"
  then obtain payload' rest where img': "p @ w' @ q = record_image h' payload' @ rest"
    and ok': "record_ok h' payload'"
    unfolding decode_record_ok_iff by blast
  have fields: "h = parsed_record (p @ w @ q)" "h' = parsed_record (p @ w' @ q)"
    using parsed_record_image [of h payload "[]"] parsed_record_image [of h' payload' rest] img img'
    by simp_all
  have "length payload = length payload'"
  proof (cases "take 4 (p @ w @ q) = take 4 (p @ w' @ q)")
    case True
    then have "rh_record_length h = rh_record_length h'" by (simp add: fields parsed_record_def)
    with ok ok' show ?thesis by (simp add: record_ok_def)
  next
    case False
    then have "rh_payload_size h = rh_payload_size h'"
      using window_apart [OF w(1,2)] by (simp add: fields parsed_record_def)
    with ok ok' show ?thesis by (simp add: record_ok_def)
  qed
  moreover have "34 + length payload = 34 + length payload' + length rest"
    using arg_cong [OF img, of length] arg_cong [OF img', of length] w(1) by simp
  ultimately have "rest = []" by simp
  then have heads: "(record_header_bytes h @ payload) @ le_bytes 4 (crc32c (record_header_bytes h @ payload))
      = p @ w @ q"
    "(record_header_bytes h' @ payload') @ le_bytes 4 (crc32c (record_header_bytes h' @ payload'))
      = p @ w' @ q"
    using img img' by (simp_all add: record_image_def)
  have "le_word (le_bytes 4 (crc32c (record_header_bytes h' @ payload')))
      \<noteq> crc32c (record_header_bytes h' @ payload')"
    by (rule crc_trailer_burst [OF _ _ _ heads w]) (simp_all add: le_word_le_bytes)
  then show False by (simp add: le_word_le_bytes)
qed

definition record_accepts :: "bytes \<Rightarrow> RecordHeader \<Rightarrow> bool" where
  "record_accepts d h \<longleftrightarrow> decode_record (Some d) RecordHeader_init = Some (RecordError.kOk, h)"

interpretation wal_rec: burst_codec record_image record_ok record_accepts
proof unfold_locales
  show "record_accepts d h \<longleftrightarrow>
      (\<exists>payload rest. d = record_image h payload @ rest \<and> record_ok h payload)"
    for d h by (simp only: record_accepts_def decode_record_ok_iff)
  show "h = h' \<and> p = p' \<and> r = r'"
    if "record_image h p @ r = record_image h' p' @ r'" "record_ok h p" "record_ok h' p'"
    for h p r h' p' r'
    using that by (rule record_image_inject)
  show "record_image h p \<noteq> []" for h p
    by (metis length_record_image list.size(3) add_is_0 zero_neq_numeral)
  show "\<not> record_accepts (a @ w' @ b) h'"
    if "record_ok h p" "record_image h p = a @ w @ b" "length w = length w'" "length w \<le> 4" "w \<noteq> w'"
    for h p a w b w' h'
    using record_burst [OF that] by (simp add: record_accepts_def)
qed

subsection \<open>Properties\<close>

text \<open>An encoded record of at most 4 MiB, also when other bytes follow it, is decoded to the
  fields it was built from, and its payload is found at \<^verbatim>\<open>record_payload\<close>.\<close>

theorem record_roundtrip:
  assumes "length payload \<le> unat kMaxRecordPayload"
  shows "\<exists>h. decode_record (Some (encode_record ts t s payload @ rest)) out = Some (RecordError.kOk, h) \<and>
     rh_timestamp_ns h = ts \<and> rh_sensor_type h = t \<and> rh_sequence h = s \<and>
     unat (rh_record_length h) = length (encode_record ts t s payload) \<and>
     take (unat (rh_payload_size h)) (record_payload (encode_record ts t s payload @ rest)) = payload"
proof (intro exI conjI)
  let ?h = "record_header_for ts t s payload"
  have ok: "record_ok ?h payload" using assms by (rule record_ok_header_for)
  then show "decode_record (Some (encode_record ts t s payload @ rest)) out = Some (RecordError.kOk, ?h)"
    unfolding decode_record_ok_iff encode_record_image by blast
  show "unat (rh_record_length ?h) = length (encode_record ts t s payload)"
    using ok by (simp add: record_ok_def encode_record_image)
  show "take (unat (rh_payload_size ?h)) (record_payload (encode_record ts t s payload @ rest)) = payload"
    using ok by (simp add: record_ok_def encode_record_image record_payload_def record_image_def
        kRecordHeaderSize_def)
qed (simp_all add: record_header_for_def)

theorem record_roundtrip_witness:
  "\<exists>h. decode_record (Some (encode_record 5 kImu 9 [1, 2] @ [0, 0])) RecordHeader_init
       = Some (RecordError.kOk, h) \<and>
     rh_timestamp_ns h = 5 \<and> rh_sensor_type h = kImu \<and> rh_sequence h = 9 \<and>
     unat (rh_record_length h) = length (encode_record 5 kImu 9 [1, 2]) \<and>
     take (unat (rh_payload_size h)) (record_payload (encode_record 5 kImu 9 [1, 2] @ [0, 0])) = [1, 2]"
  by (rule record_roundtrip) (simp add: unat_kMaxRecordPayload)

text \<open>\<^verbatim>\<open>decode_record\<close> returns a verdict on every input without an out-of-bounds access, and it
  accepts exactly the buffers that start with the documented record image.\<close>

theorem decode_record_safe_exact:
  "(\<exists>e h. decode_record dp out = Some (e, h)) \<and>
   (decode_record (Some d) out = Some (RecordError.kOk, h) \<longleftrightarrow>
     (\<exists>payload rest. d = record_image h payload @ rest \<and> record_ok h payload))"
  using decode_record_returns decode_record_ok_iff by blast

text \<open>Changing up to four consecutive bytes anywhere in an encoded record makes
  \<^verbatim>\<open>decode_record\<close> reject it, also when the changed bytes are the length fields.\<close>

theorem corrupt_record_rejected:
  assumes "length payload \<le> unat kMaxRecordPayload" and "encode_record ts t s payload = p @ w @ q"
    and "length w = length w'" and "length w \<le> 4" and "w \<noteq> w'"
  shows "\<exists>e h. decode_record (Some (p @ w' @ q)) out = Some (e, h) \<and> e \<noteq> RecordError.kOk"
  using record_burst [OF record_ok_header_for [OF assms(1)] _ assms(3-5)] assms(2)
    decode_record_returns unfolding encode_record_image by metis

theorem corrupt_record_rejected_witness:
  "\<exists>e h. decode_record (Some ([0, 0, 0, 0] @ drop 4 (encode_record 1 kGps 2 [3]))) RecordHeader_init
       = Some (e, h) \<and> e \<noteq> RecordError.kOk"
proof -
  let ?r = "encode_record 1 kGps 2 [3]"
  have w: "take 4 ?r = [35, 0, 0, 0]"
    by (simp add: encode_record_image record_image_def record_header_bytes_def record_header_for_def
        le_bytes_def upt_4)
  have r: "?r = [] @ [35, 0, 0, 0] @ drop 4 ?r"
    using append_take_drop_id [of 4 ?r] unfolding w by simp
  have "\<exists>e h. decode_record (Some ([] @ [0, 0, 0, 0] @ drop 4 ?r)) RecordHeader_init = Some (e, h) \<and>
      e \<noteq> RecordError.kOk"
    by (rule corrupt_record_rejected [OF _ r]) (simp_all add: unat_kMaxRecordPayload)
  then show ?thesis by simp
qed

end
