(* ===== verification/Replay_Index.thy ===== *)
theory Replay_Index
  imports SF_Prelude
begin

text \<open>
  The in-memory index of the log (\<^verbatim>\<open>include/sensorforge/replay/replay_index.hpp\<close>): one entry per record,
  kept in time order lazily. \<open>std_lower_bound\<close> is the binary search of the standard library, also used
  by the reader; \<^verbatim>\<open>std::stable_sort\<close> is \<^const>\<open>sort_key\<close>.
\<close>

subsection \<open>Binary search\<close>

text \<open>The search keeps the partition point in \<open>[first, first + count]\<close>; \<open>lt\<close> is the comparison with the value.\<close>

function lower_bound_loop :: "('a \<Rightarrow> bool) \<Rightarrow> 'a list \<Rightarrow> nat \<Rightarrow> nat \<Rightarrow> nat" where
  "lower_bound_loop lt xs first count =
     (if count = 0 then first
      else let step = count div 2; it = first + step
           in if lt (xs ! it) then lower_bound_loop lt xs (it + 1) (count - (step + 1))
              else lower_bound_loop lt xs first step)"
  by pat_completeness auto
termination by (relation "measure (\<lambda>(lt, xs, first, count). count)") auto

declare lower_bound_loop.simps [simp del]

definition std_lower_bound :: "('a \<Rightarrow> bool) \<Rightarrow> 'a list \<Rightarrow> nat" where
  "std_lower_bound lt xs = lower_bound_loop lt xs 0 (length xs)"

definition partitioned :: "('a \<Rightarrow> bool) \<Rightarrow> 'a list \<Rightarrow> bool" where
  "partitioned lt xs \<longleftrightarrow> (\<forall>i j. i \<le> j \<longrightarrow> j < length xs \<longrightarrow> lt (xs ! j) \<longrightarrow> lt (xs ! i))"

lemma lower_bound_loop_partition:
  assumes "partitioned lt xs" and "first + count \<le> length xs"
    and "\<forall>i<first. lt (xs ! i)" and "\<forall>i. first + count \<le> i \<longrightarrow> i < length xs \<longrightarrow> \<not> lt (xs ! i)"
  shows "(\<forall>i < lower_bound_loop lt xs first count. lt (xs ! i)) \<and>
    (\<forall>i. lower_bound_loop lt xs first count \<le> i \<longrightarrow> i < length xs \<longrightarrow> \<not> lt (xs ! i)) \<and>
    lower_bound_loop lt xs first count \<le> length xs"
  using assms
proof (induction lt xs first count rule: lower_bound_loop.induct)
  case (1 lt xs first count)
  note part = "1.prems"(1) and len = "1.prems"(2) and below = "1.prems"(3) and above = "1.prems"(4)
  show ?case
  proof (cases "count = 0")
    case True
    with len below above show ?thesis by (simp add: lower_bound_loop.simps [of _ _ _ 0])
  next
    case False
    let ?it = "first + count div 2"
    have it: "?it < length xs" using len False by linarith
    show ?thesis
    proof (cases "lt (xs ! ?it)")
      case True
      then have 2: "\<forall>i<?it + 1. lt (xs ! i)"
        using part it unfolding partitioned_def by (metis Suc_eq_plus1 less_Suc_eq_le)
      have e: "?it + 1 + (count - (count div 2 + 1)) = first + count" using False by simp
      have eq: "lower_bound_loop lt xs first count = lower_bound_loop lt xs (?it + 1) (count - (count div 2 + 1))"
        using True False by (subst lower_bound_loop.simps) (simp add: Let_def)
      show ?thesis
        unfolding eq by (rule "1.IH"(1) [OF False refl refl True part len [folded e] 2 above [folded e]])
    next
      case no: False
      then have 3: "\<forall>i. ?it \<le> i \<longrightarrow> i < length xs \<longrightarrow> \<not> lt (xs ! i)"
        using part unfolding partitioned_def by blast
      have 1: "?it \<le> length xs" using it by simp
      have eq: "lower_bound_loop lt xs first count = lower_bound_loop lt xs first (count div 2)"
        using no False by (subst lower_bound_loop.simps) (simp add: Let_def)
      show ?thesis
        unfolding eq by (rule "1.IH"(2) [OF False refl refl no part 1 below 3])
    qed
  qed
qed

text \<open>On a partitioned list the search finds the partition point.\<close>

lemma std_lower_bound_partition:
  assumes "partitioned lt xs"
  shows "take (std_lower_bound lt xs) xs = filter lt xs \<and>
    drop (std_lower_bound lt xs) xs = filter (\<lambda>x. \<not> lt x) xs"
proof -
  let ?n = "std_lower_bound lt xs"
  have *: "\<forall>i<?n. lt (xs ! i)" "\<forall>i. ?n \<le> i \<longrightarrow> i < length xs \<longrightarrow> \<not> lt (xs ! i)" "?n \<le> length xs"
    using lower_bound_loop_partition [OF assms, of 0 "length xs"] by (simp_all add: std_lower_bound_def)
  have t: "\<forall>x \<in> set (take ?n xs). lt x" using * by (auto simp: in_set_conv_nth)
  have d: "\<forall>x \<in> set (drop ?n xs). \<not> lt x" using * by (auto simp: in_set_conv_nth)
  have "filter lt xs = filter lt (take ?n xs @ drop ?n xs)" by simp
  also have "\<dots> = take ?n xs" using t d by (simp only: filter_append) simp
  finally have 1: "filter lt xs = take ?n xs" .
  have "filter (\<lambda>x. \<not> lt x) xs = filter (\<lambda>x. \<not> lt x) (take ?n xs @ drop ?n xs)" by simp
  also have "\<dots> = drop ?n xs" using t d by (simp only: filter_append) simp
  finally show ?thesis using 1 by simp
qed

lemma sorted_partitioned:
  fixes key :: "'a \<Rightarrow> 'b::linorder"
  assumes "sorted (map key xs)"
  shows "partitioned (\<lambda>x. key x < t) xs"
  unfolding partitioned_def
proof (intro allI impI)
  fix i j assume "i \<le> j" "j < length xs" "key (xs ! j) < t"
  with sorted_nth_mono [OF assms, of i j] show "key (xs ! i) < t" by simp
qed

subsection \<open>The index\<close>

record IndexEntry =
  ie_timestamp_ns :: u64
  ie_segment_id :: u32
  ie_offset :: nat
  ie_record_length :: u32

record ReplayIndex =
  entries :: "IndexEntry list"
  sorted_flag :: bool

definition ReplayIndex_init :: ReplayIndex where
  "ReplayIndex_init = \<lparr>entries = [], sorted_flag = True\<rparr>"

definition index_add :: "u64 \<Rightarrow> u32 \<Rightarrow> nat \<Rightarrow> u32 \<Rightarrow> ReplayIndex \<Rightarrow> ReplayIndex" where
  "index_add timestamp_ns segment_id offset record_length ix =
     (let es = entries ix @ [\<lparr>ie_timestamp_ns = timestamp_ns, ie_segment_id = segment_id,
                              ie_offset = offset, ie_record_length = record_length\<rparr>]
      in ix\<lparr>entries := es,
            sorted_flag := (if length es > 1 \<and> timestamp_ns < ie_timestamp_ns (es ! (length es - 2))
                            then False else sorted_flag ix)\<rparr>)"

definition index_finalize :: "ReplayIndex \<Rightarrow> ReplayIndex" where
  "index_finalize ix =
     (if \<not> sorted_flag ix
      then \<lparr>entries = sort_key ie_timestamp_ns (entries ix), sorted_flag = True\<rparr> else ix)"

definition index_lower_bound :: "u64 \<Rightarrow> ReplayIndex \<Rightarrow> nat" where
  "index_lower_bound start_ns ix = std_lower_bound (\<lambda>e. ie_timestamp_ns e < start_ns) (entries ix)"

definition index_clear :: "ReplayIndex \<Rightarrow> ReplayIndex" where
  "index_clear ix = \<lparr>entries = [], sorted_flag = True\<rparr>"

definition index_inv :: "ReplayIndex \<Rightarrow> bool" where
  "index_inv ix \<longleftrightarrow> (sorted_flag ix \<longrightarrow> sorted (map ie_timestamp_ns (entries ix)))"

lemma index_init_inv: "index_inv ReplayIndex_init"
  by (simp add: index_inv_def ReplayIndex_init_def)

lemma index_add_inv:
  assumes "index_inv ix"
  shows "index_inv (index_add ts seg off len ix)"
proof (cases "entries ix" rule: rev_cases)
  case Nil
  then show ?thesis by (simp add: index_inv_def index_add_def Let_def)
next
  case (snoc ys y)
  then have "(entries ix @ [e]) ! (length (entries ix @ [e]) - 2) = y" for e by (simp add: nth_append)
  with assms snoc show ?thesis
    by (auto simp: index_inv_def index_add_def Let_def sorted_append not_less intro: order_trans)
qed

lemma index_finalize_sorts:
  assumes "index_inv ix"
  shows "entries (index_finalize ix) = sort_key ie_timestamp_ns (entries ix)"
  using assms by (simp add: index_finalize_def index_inv_def sort_key_id_if_sorted)

end
