(* ===== verification/Segment_Name.thy ===== *)
theory Segment_Name
  imports SF_Prelude "HOL-Library.Char_ord"
begin

text \<open>
  Names of the log segments (\<^verbatim>\<open>include/sensorforge/replay/segment.hpp\<close>): \<^verbatim>\<open>segment-000007.sflog\<close> for
  segment 7. The identifier is a 32-bit word; parsing accumulates it digit by digit and wraps around.
\<close>

subsection \<open>Decimal numbers\<close>

text \<open>What \<^verbatim>\<open>operator<<\<close> prints for an unsigned number, and the effect of \<^verbatim>\<open>setw\<close> and \<^verbatim>\<open>setfill\<close>.\<close>

definition digit_char :: "nat \<Rightarrow> char" where
  "digit_char d = char_of (48 + d)"

fun decimal :: "nat \<Rightarrow> string" where
  "decimal n = (if n < 10 then [digit_char n] else decimal (n div 10) @ [digit_char (n mod 10)])"

declare decimal.simps [simp del]

definition pad_left :: "nat \<Rightarrow> char \<Rightarrow> string \<Rightarrow> string" where
  "pad_left w c s = replicate (w - length s) c @ s"

lemma of_digit_char: "d < 10 \<Longrightarrow> of_char (digit_char d) = 48 + d"
  by (simp add: digit_char_def)

subsection \<open>Definitions\<close>

definition kSegmentPrefix :: string where "kSegmentPrefix = ''segment-''"
definition kSegmentSuffix :: string where "kSegmentSuffix = ''.sflog''"
definition kDefaultSegmentBytes :: nat where "kDefaultSegmentBytes = 64 * 1024 * 1024"

definition segment_filename :: "u32 \<Rightarrow> string" where
  "segment_filename segment_id =
     kSegmentPrefix @ pad_left 6 (CHR ''0'') (decimal (unat segment_id)) @ kSegmentSuffix"

fun parse_digits :: "string \<Rightarrow> u32 \<Rightarrow> u32" where
  "parse_digits [] sid = sid"
| "parse_digits (c # cs) sid =
     (if of_char c < (48 :: nat) \<or> 57 < (of_char c :: nat) then 0
      else parse_digits cs (sid * 10 + word_of_nat (of_char c - 48)))"

definition segment_id_from_filename :: "string \<Rightarrow> u32" where
  "segment_id_from_filename name =
     (let prefix = kSegmentPrefix; suffix = kSegmentSuffix
      in if length name \<le> length prefix + length suffix then 0
         else if take (length prefix) name \<noteq> prefix then 0
         else if drop (length name - length suffix) name \<noteq> suffix then 0
         else let digits = take (length name - length prefix - length suffix) (drop (length prefix) name)
              in if digits = [] then 0 else parse_digits digits 0)"

subsection \<open>Parsing digits\<close>

text \<open>The value a digit string denotes.\<close>

definition digits_value :: "nat \<Rightarrow> string \<Rightarrow> nat" where
  "digits_value acc cs = foldl (\<lambda>a c. a * 10 + (of_char c - 48)) acc cs"

definition all_digits :: "string \<Rightarrow> bool" where
  "all_digits cs \<longleftrightarrow> (\<forall>c \<in> set cs. (48 :: nat) \<le> of_char c \<and> of_char c \<le> (57 :: nat))"

lemma digits_Cons:
  "all_digits (c # cs) \<longleftrightarrow> ((48 :: nat) \<le> of_char c \<and> of_char c \<le> (57 :: nat)) \<and> all_digits cs"
  "digits_value acc (c # cs) = digits_value (acc * 10 + (of_char c - 48)) cs"
  by (simp_all add: all_digits_def digits_value_def)

lemma parse_digits_value:
  "parse_digits cs (word_of_nat acc) = (if all_digits cs then word_of_nat (digits_value acc cs) else 0)"
proof (induction cs arbitrary: acc)
  case Nil
  then show ?case by (simp add: all_digits_def digits_value_def)
next
  case (Cons c cs)
  have step: "word_of_nat acc * 10 + word_of_nat (of_char c - 48) = (word_of_nat (acc * 10 + (of_char c - 48)) :: u32)"
    by (simp only: of_nat_add of_nat_mult of_nat_numeral)
  show ?case
    unfolding parse_digits.simps step Cons.IH digits_Cons by (auto simp only: not_le split: if_splits)
qed

lemma all_digits_append: "all_digits (xs @ ys) \<longleftrightarrow> all_digits xs \<and> all_digits ys"
  by (auto simp: all_digits_def)

lemma digits_value_append: "digits_value acc (xs @ ys) = digits_value (digits_value acc xs) ys"
  by (simp add: digits_value_def)

lemma decimal_value: "all_digits (decimal n) \<and> digits_value 0 (decimal n) = n \<and> decimal n \<noteq> []"
proof (induction n rule: decimal.induct)
  case (1 n)
  show ?case
  proof (cases "n < 10")
    case True
    then show ?thesis
      by (simp add: decimal.simps [of n] all_digits_def digits_value_def of_digit_char)
  next
    case False
    have m: "n mod 10 < 10" by simp
    from 1 [OF False] False show ?thesis
      by (simp add: decimal.simps [of n] all_digits_append digits_value_append)
        (simp add: all_digits_def digits_value_def of_digit_char [OF m])
  qed
qed

lemma zeros_value: "all_digits (replicate k (CHR ''0'')) \<and> digits_value 0 (replicate k (CHR ''0'')) = 0"
  by (induction k) (simp_all add: all_digits_def digits_value_def)

lemma parse_padded:
  "parse_digits (pad_left w (CHR ''0'') (decimal (unat sid))) 0 = sid"
proof -
  have "all_digits (pad_left w (CHR ''0'') (decimal (unat sid)))"
    and "digits_value 0 (pad_left w (CHR ''0'') (decimal (unat sid))) = unat sid"
    using decimal_value zeros_value by (simp_all add: pad_left_def all_digits_append digits_value_append)
  then show ?thesis using parse_digits_value [of _ 0] by simp
qed

lemma segment_id_parse:
  "ds \<noteq> [] \<Longrightarrow> segment_id_from_filename (kSegmentPrefix @ ds @ kSegmentSuffix) = parse_digits ds 0"
  by (simp add: segment_id_from_filename_def Let_def)

lemma segment_id_filename: "segment_id_from_filename (segment_filename sid) = sid"
proof -
  let ?d = "pad_left 6 (CHR ''0'') (decimal (unat sid))"
  have "?d \<noteq> []" using decimal_value by (simp add: pad_left_def)
  then show ?thesis by (simp add: segment_filename_def segment_id_parse parse_padded)
qed

lemma segment_filename_inject: "segment_filename a = segment_filename b \<longleftrightarrow> a = b"
  by (metis segment_id_filename)

subsection \<open>Properties\<close>

text \<open>Every segment file name is recognised with its own identifier, so that names of different segments
  differ, and a file is taken for a segment exactly if its name is the prefix, a non-empty string
  of digits whose value does not vanish modulo \<open>2\<^sup>3\<^sup>2\<close>, and the suffix.\<close>

theorem segment_names:
  "segment_id_from_filename (segment_filename sid) = sid \<and>
   (segment_id_from_filename name \<noteq> 0 \<longleftrightarrow>
     (\<exists>ds. name = kSegmentPrefix @ ds @ kSegmentSuffix \<and> ds \<noteq> [] \<and> all_digits ds \<and>
        digits_value 0 ds mod 2 ^ 32 \<noteq> 0))"
proof -
  have "segment_id_from_filename name \<noteq> 0 \<longleftrightarrow>
     (\<exists>ds. name = kSegmentPrefix @ ds @ kSegmentSuffix \<and> ds \<noteq> [] \<and> parse_digits ds 0 \<noteq> 0)"
  proof
    assume "\<exists>ds. name = kSegmentPrefix @ ds @ kSegmentSuffix \<and> ds \<noteq> [] \<and> parse_digits ds 0 \<noteq> 0"
    then show "segment_id_from_filename name \<noteq> 0"
      by (auto simp: segment_id_parse)
  next
    let ?ds = "take (length name - length kSegmentPrefix - length kSegmentSuffix) (drop (length kSegmentPrefix) name)"
    assume "segment_id_from_filename name \<noteq> 0"
    then have len: "length kSegmentPrefix + length kSegmentSuffix < length name"
      and pre: "take (length kSegmentPrefix) name = kSegmentPrefix"
      and suf: "drop (length name - length kSegmentSuffix) name = kSegmentSuffix"
      and ds: "?ds \<noteq> []" "parse_digits ?ds 0 \<noteq> 0"
      by (auto simp: segment_id_from_filename_def Let_def split: if_splits)
    have "name = take (length kSegmentPrefix) name @ ?ds @ drop (length name - length kSegmentSuffix) name"
    proof -
      have "drop (length name - length kSegmentPrefix - length kSegmentSuffix) (drop (length kSegmentPrefix) name)
          = drop (length name - length kSegmentSuffix) name"
        using len by (simp add: drop_drop)
      then show ?thesis by (metis append_take_drop_id)
    qed
    with pre suf ds show "\<exists>ds. name = kSegmentPrefix @ ds @ kSegmentSuffix \<and> ds \<noteq> [] \<and> parse_digits ds 0 \<noteq> 0"
      by metis
  qed
  moreover have "parse_digits ds 0 \<noteq> 0 \<longleftrightarrow> all_digits ds \<and> digits_value 0 ds mod 2 ^ 32 \<noteq> 0" for ds
    using parse_digits_value [of ds 0] by (simp add: word_unat_eq_iff unat_of_nat)
  ultimately show ?thesis by (simp add: segment_id_filename)
qed

end
