(* ===== verification/Wal_Reader.thy ===== *)
theory Wal_Reader
  imports Wal_Record Replay_Index Segment_Name Fp64
    "HOL-Library.Product_Lexorder" "HOL-Library.List_Lexorder" "HOL-Library.Multiset"
begin

text \<open>
  The log reader (\<^verbatim>\<open>include/sensorforge/replay/wal_reader.hpp\<close>, \<^verbatim>\<open>src/replay/wal_reader.cpp\<close>): it
  loads every segment of a directory, resynchronises byte by byte after damage, sorts the records by
  time and replays them. The directory is a list of entries in the order the iterator yields them;
  \<open>de_contents\<close> is \<^term>\<open>None\<close> for a file that cannot be opened. \<open>scan\<close> returns \<^term>\<open>None\<close> for an out-of-bounds
  access.
\<close>

subsection \<open>Data\<close>

datatype ReplayMode = kDeterministic | kRealTime | kFast

record ReplayStats =
  records_ok :: u64
  records_corrupt_skipped :: u64
  bytes_skipped :: u64
  segments_read :: u32

definition ReplayStats_init :: ReplayStats where
  "ReplayStats_init = \<lparr>records_ok = 0, records_corrupt_skipped = 0, bytes_skipped = 0, segments_read = 0\<rparr>"

record ReplayRecord =
  rr_header :: RecordHeader
  rr_payload :: bytes

record WalReader =
  wr_records :: "ReplayRecord list"
  wr_index :: ReplayIndex
  wr_stats :: ReplayStats

record dir_entry =
  de_name :: string
  de_regular :: bool
  de_contents :: "bytes option"

subsection \<open>Loading\<close>

definition accept_record :: "u32 \<Rightarrow> nat \<Rightarrow> RecordHeader \<Rightarrow> bytes \<Rightarrow> WalReader \<Rightarrow> WalReader" where
  "accept_record seg_id pos hdr payload w = w\<lparr>
     wr_records := wr_records w @ [\<lparr>rr_header = hdr, rr_payload = payload\<rparr>],
     wr_index := index_add (rh_timestamp_ns hdr) seg_id pos (rh_record_length hdr) (wr_index w),
     wr_stats := (wr_stats w)\<lparr>records_ok := records_ok (wr_stats w) + 1\<rparr>\<rparr>"

definition skip_byte :: "bool \<Rightarrow> WalReader \<Rightarrow> WalReader" where
  "skip_byte in_skip_run w = w\<lparr>wr_stats := (wr_stats w)\<lparr>
     records_corrupt_skipped := records_corrupt_skipped (wr_stats w) + (if in_skip_run then 0 else 1),
     bytes_skipped := bytes_skipped (wr_stats w) + 1\<rparr>\<rparr>"

lemma decode_ok_length:
  "decode_record (Some d) out = Some (RecordError.kOk, h) \<Longrightarrow> 34 \<le> unat (rh_record_length h)"
  unfolding decode_record_ok_iff record_ok_def by (auto simp: kRecordOverhead_def kRecordHeaderSize_def kRecordTrailerSize_def)

function (sequential) scan :: "u32 \<Rightarrow> bytes \<Rightarrow> nat \<Rightarrow> bool \<Rightarrow> WalReader \<Rightarrow> (nat \<times> bool \<times> WalReader) option" where
  "scan seg_id buf pos in_skip_run w =
     (if pos + kRecordHeaderSize \<le> length buf
      then case decode_record (Some (drop pos buf)) RecordHeader_init of
        None \<Rightarrow> None
      | Some (err, hdr) \<Rightarrow>
          if err = RecordError.kOk
          then case sub buf (pos + kRecordHeaderSize) (unat (rh_payload_size hdr)) of
              None \<Rightarrow> None
            | Some payload \<Rightarrow>
                scan seg_id buf (pos + unat (rh_record_length hdr)) False (accept_record seg_id pos hdr payload w)
          else scan seg_id buf (pos + 1) True (skip_byte in_skip_run w)
      else Some (pos, in_skip_run, w))"
  by pat_completeness auto
termination
  by (relation "measure (\<lambda>(seg_id, buf, pos, in_skip_run, w). length buf - pos)")
    (auto simp: kRecordHeaderSize_def dest: decode_ok_length)

declare scan.simps [simp del]

text \<open>One segment: the scan, then the incomplete tail.\<close>

definition scan_segment :: "u32 \<Rightarrow> bytes \<Rightarrow> WalReader \<Rightarrow> WalReader option" where
  "scan_segment seg_id buf w = do {
     (pos, in_skip_run, w) \<leftarrow> scan seg_id buf 0 False w;
     Some (if pos < length buf
       then w\<lparr>wr_stats := (wr_stats w)\<lparr>
          records_corrupt_skipped := records_corrupt_skipped (wr_stats w) + (if in_skip_run then 0 else 1),
          bytes_skipped := bytes_skipped (wr_stats w) + word_of_nat (length buf - pos)\<rparr>\<rparr>
       else w) }"

fun load_segments :: "(u32 \<times> string \<times> bytes option) list \<Rightarrow> WalReader \<Rightarrow> WalReader option" where
  "load_segments [] w = Some w"
| "load_segments ((seg_id, path, contents) # segs) w =
     (case contents of
        None \<Rightarrow> load_segments segs w
      | Some buf \<Rightarrow>
          (let w = w\<lparr>wr_stats := (wr_stats w)\<lparr>segments_read := segments_read (wr_stats w) + 1\<rparr>\<rparr>
           in if length buf \<le> 0 then load_segments segs w
              else do { w \<leftarrow> scan_segment seg_id buf w; load_segments segs w }))"

text \<open>The segments of a directory in ascending order of identifier, then of path.\<close>

definition collect_segments :: "dir_entry list \<Rightarrow> (u32 \<times> string \<times> bytes option) list" where
  "collect_segments listing = sort_key (\<lambda>(seg_id, path, _). (seg_id, path))
     (map (\<lambda>e. (segment_id_from_filename (de_name e), de_name e, de_contents e))
       (filter (\<lambda>e. de_regular e \<and> segment_id_from_filename (de_name e) \<noteq> 0) listing))"

definition WalReader_init :: WalReader where
  "WalReader_init = \<lparr>wr_records = [], wr_index = ReplayIndex_init, wr_stats = ReplayStats_init\<rparr>"

definition replay_key :: "ReplayRecord \<Rightarrow> u64 \<times> u64" where
  "replay_key r = (rh_timestamp_ns (rr_header r), rh_sequence (rr_header r))"

text \<open>\<open>listing\<close> is \<^term>\<open>None\<close> when the directory does not exist.\<close>

definition load :: "dir_entry list option \<Rightarrow> WalReader option" where
  "load listing = (case listing of
     None \<Rightarrow> Some WalReader_init
   | Some es \<Rightarrow> do {
       w \<leftarrow> load_segments (collect_segments es) WalReader_init;
       Some (w\<lparr>wr_records := sort_key replay_key (wr_records w), wr_index := index_finalize (wr_index w)\<rparr>) })"

subsection \<open>Replay\<close>

text \<open>The records handed to the callback with, outside the deterministic mode, the time in nanoseconds after
  the start at which the replayer wakes up for each; the count returned is the length of the list.\<close>

definition wake_time :: "dbl \<Rightarrow> u64 \<Rightarrow> ReplayRecord \<Rightarrow> int" where
  "wake_time speed base_ts r =
     trunc (fdiv (of_integer (uint (rh_timestamp_ns (rr_header r) - base_ts))) speed)"

definition replay :: "ReplayMode \<Rightarrow> dbl \<Rightarrow> u64 \<Rightarrow> WalReader \<Rightarrow> (int option \<times> ReplayRecord) list \<times> u64" where
  "replay mode speed start_ns w =
     (if wr_records w = [] then ([], 0)
      else let speed = (if speed \<le> 0 then 1 else speed);
               first = std_lower_bound (\<lambda>r. rh_timestamp_ns (rr_header r) < start_ns) (wr_records w);
               base_ts = (if first \<noteq> length (wr_records w)
                          then rh_timestamp_ns (rr_header (wr_records w ! first)) else 0);
               out = map (\<lambda>r. (if mode \<noteq> kDeterministic then Some (wake_time speed base_ts r) else None, r))
                       (drop first (wr_records w))
           in (out, word_of_nat (length out)))"

subsection \<open>The steps of the scan\<close>

text \<open>A record that is stored intact at an offset of a segment.\<close>

definition stored_at :: "bytes \<Rightarrow> nat \<Rightarrow> RecordHeader \<Rightarrow> bytes \<Rightarrow> bool" where
  "stored_at buf off h payload \<longleftrightarrow> record_ok h payload \<and> (\<exists>rest. drop off buf = record_image h payload @ rest)"

lemma stored_at_bound: "stored_at buf off h payload \<Longrightarrow> off + 34 + length payload \<le> length buf"
proof -
  assume "stored_at buf off h payload"
  then obtain rest where "drop off buf = record_image h payload @ rest" by (auto simp: stored_at_def)
  from arg_cong [OF this, of length] show ?thesis by (simp; linarith)
qed

lemma stored_at_decode:
  "decode_record (Some (drop off buf)) out = Some (RecordError.kOk, h) \<longleftrightarrow> (\<exists>payload. stored_at buf off h payload)"
  by (auto simp: decode_record_ok_iff stored_at_def)

lemma scan_accept:
  assumes "stored_at buf pos h payload"
  shows "scan seg_id buf pos skip w
    = scan seg_id buf (pos + (34 + length payload)) False (accept_record seg_id pos h payload w)"
proof -
  from assms obtain rest where d: "drop pos buf = record_image h payload @ rest" and ok: "record_ok h payload"
    by (auto simp: stored_at_def)
  have b: "pos + 30 \<le> length buf" using stored_at_bound [OF assms] by simp
  have "decode_record (Some (drop pos buf)) RecordHeader_init = Some (RecordError.kOk, h)"
    using assms stored_at_decode by blast
  moreover have "sub buf (pos + 30) (length payload) = Some payload"
  proof -
    have "drop (pos + 30) buf = drop 30 (drop pos buf)" by (simp add: add.commute)
    also have "\<dots> = payload @ le_bytes 4 (crc32c (record_header_bytes h @ payload)) @ rest"
      by (simp add: d record_image_def)
    finally show ?thesis using stored_at_bound [OF assms] by (simp add: sub_def)
  qed
  ultimately show ?thesis
    using b ok by (subst scan.simps) (simp add: record_ok_def kRecordHeaderSize_def)
qed

lemma scan_reject:
  assumes "pos + 30 \<le> length buf" and "\<nexists>h payload. stored_at buf pos h payload"
  shows "scan seg_id buf pos skip w = scan seg_id buf (Suc pos) True (skip_byte skip w)"
proof -
  obtain e h where "decode_record (Some (drop pos buf)) RecordHeader_init = Some (e, h)" "e \<noteq> RecordError.kOk"
    using decode_record_returns [of "Some (drop pos buf)" RecordHeader_init] assms(2) stored_at_decode by metis
  with assms(1) show ?thesis by (subst scan.simps) (simp add: kRecordHeaderSize_def)
qed

lemma scan_stop: "length buf < pos + 30 \<Longrightarrow> scan seg_id buf pos skip w = Some (pos, skip, w)"
  by (subst scan.simps) (simp add: kRecordHeaderSize_def)

text \<open>Induction along the scan.\<close>

lemma scan_induct [consumes 1, case_names stop accept reject]:
  assumes le: "pos \<le> length buf"
    and stop: "\<And>pos skip w. length buf < pos + 30 \<Longrightarrow> pos \<le> length buf \<Longrightarrow> P pos skip w"
    and accept: "\<And>pos skip w h payload. stored_at buf pos h payload \<Longrightarrow>
      P (pos + (34 + length payload)) False (accept_record seg_id pos h payload w) \<Longrightarrow> P pos skip w"
    and reject: "\<And>pos skip w. pos + 30 \<le> length buf \<Longrightarrow> \<nexists>h payload. stored_at buf pos h payload \<Longrightarrow>
      P (Suc pos) True (skip_byte skip w) \<Longrightarrow> P pos skip w"
  shows "P pos skip w"
  using le
proof (induction "length buf - pos" arbitrary: pos skip w rule: less_induct)
  case less
  consider "length buf < pos + 30" | (ok) h payload where "stored_at buf pos h payload"
    | (bad) "pos + 30 \<le> length buf" "\<nexists>h payload. stored_at buf pos h payload"
    using not_less by blast
  then show ?case
  proof cases
    case 1
    then show ?thesis using less.prems by (rule stop)
  next
    case ok
    have "pos + (34 + length payload) \<le> length buf" using stored_at_bound [OF ok] by simp
    then show ?thesis by (intro accept [OF ok] less.hyps) simp_all
  next
    case bad
    then show ?thesis by (intro reject [OF bad] less.hyps) simp_all
  qed
qed

subsection \<open>What a segment yields\<close>

text \<open>The records found in a segment, with their offsets, and the bytes they occupy.\<close>

type_synonym found = "nat \<times> RecordHeader \<times> bytes"

definition found_record :: "found \<Rightarrow> ReplayRecord" where
  "found_record f = (case f of (off, h, payload) \<Rightarrow> \<lparr>rr_header = h, rr_payload = payload\<rparr>)"

definition found_entry :: "u32 \<Rightarrow> found \<Rightarrow> IndexEntry" where
  "found_entry seg_id f = (case f of (off, h, payload) \<Rightarrow>
     \<lparr>ie_timestamp_ns = rh_timestamp_ns h, ie_segment_id = seg_id, ie_offset = off, ie_record_length = rh_record_length h\<rparr>)"

definition found_bytes :: "found list \<Rightarrow> nat" where
  "found_bytes fs = sum_list (map (\<lambda>(off, h, payload). 34 + length payload) fs)"

text \<open>The effect of a segment on the reader: \<open>fs\<close> were found, \<open>n\<close> bytes were skipped.\<close>

definition yields :: "u32 \<Rightarrow> WalReader \<Rightarrow> found list \<Rightarrow> nat \<Rightarrow> WalReader \<Rightarrow> bool" where
  "yields seg_id w fs n w' \<longleftrightarrow>
     wr_records w' = wr_records w @ map found_record fs \<and>
     entries (wr_index w') = entries (wr_index w) @ map (found_entry seg_id) fs \<and>
     (index_inv (wr_index w) \<longrightarrow> index_inv (wr_index w')) \<and>
     records_ok (wr_stats w') = records_ok (wr_stats w) + word_of_nat (length fs) \<and>
     bytes_skipped (wr_stats w') = bytes_skipped (wr_stats w) + word_of_nat n \<and>
     segments_read (wr_stats w') = segments_read (wr_stats w)"

lemma yields_refl: "yields seg_id w [] 0 w"
  by (simp add: yields_def)

lemma yields_accept:
  "yields seg_id (accept_record seg_id off h payload w) fs n w' \<Longrightarrow> yields seg_id w ((off, h, payload) # fs) n w'"
  by (auto simp: yields_def accept_record_def found_record_def found_entry_def index_add_inv)
    (auto simp: index_add_def Let_def)

lemma yields_skip: "yields seg_id (skip_byte skip w) fs n w' \<Longrightarrow> yields seg_id w fs (Suc n) w'"
  by (simp add: yields_def skip_byte_def)

lemma scan_yields:
  "pos \<le> length buf \<Longrightarrow> \<exists>pos' skip' w' fs n. scan seg_id buf pos skip w = Some (pos', skip', w') \<and>
     yields seg_id w fs n w' \<and> (\<forall>(off, h, payload) \<in> set fs. stored_at buf off h payload) \<and>
     pos' \<le> length buf \<and> pos + found_bytes fs + n = pos'"
proof (induction pos skip w rule: scan_induct [where seg_id = seg_id])
  case (stop pos skip w)
  have "yields seg_id w [] 0 w" by (rule yields_refl)
  with stop show ?case by (force simp: scan_stop found_bytes_def)
next
  case (accept pos skip w h payload)
  then obtain pos' skip' w' fs n where
    "scan seg_id buf (pos + (34 + length payload)) False (accept_record seg_id pos h payload w) = Some (pos', skip', w')"
    and y: "yields seg_id (accept_record seg_id pos h payload w) fs n w'"
    and f: "\<forall>(off, h, payload) \<in> set fs. stored_at buf off h payload"
    and p: "pos' \<le> length buf" "pos + (34 + length payload) + found_bytes fs + n = pos'"
    by blast
  then have "scan seg_id buf pos skip w = Some (pos', skip', w')"
    using scan_accept [OF accept.hyps] by simp
  moreover have "\<forall>(off, h, payload) \<in> set ((pos, h, payload) # fs). stored_at buf off h payload"
    using f accept.hyps by simp
  moreover have "pos + found_bytes ((pos, h, payload) # fs) + n = pos'" using p(2) by (simp add: found_bytes_def)
  ultimately show ?case using yields_accept [OF y] p(1) by blast
next
  case (reject pos skip w)
  then obtain pos' skip' w' fs n where
    "scan seg_id buf (Suc pos) True (skip_byte skip w) = Some (pos', skip', w')"
    and y: "yields seg_id (skip_byte skip w) fs n w'"
    and f: "\<forall>(off, h, payload) \<in> set fs. stored_at buf off h payload"
    and p: "pos' \<le> length buf" "Suc pos + found_bytes fs + n = pos'"
    by blast
  then have "scan seg_id buf pos skip w = Some (pos', skip', w')"
    using scan_reject [OF reject.hyps] by simp
  moreover have "pos + found_bytes fs + Suc n = pos'" using p(2) by simp
  ultimately show ?case using yields_skip [OF y] p(1) f by blast
qed

lemma scan_segment_yields:
  "\<exists>w' fs n. scan_segment seg_id buf w = Some w' \<and> yields seg_id w fs n w' \<and>
     (\<forall>(off, h, payload) \<in> set fs. stored_at buf off h payload) \<and> found_bytes fs + n = length buf"
proof -
  obtain pos skip w1 fs n where s: "scan seg_id buf 0 False w = Some (pos, skip, w1)"
    and y: "yields seg_id w fs n w1" and f: "\<forall>(off, h, payload) \<in> set fs. stored_at buf off h payload"
    and p: "pos \<le> length buf" "found_bytes fs + n = pos"
    using scan_yields [of 0 buf seg_id False w] by auto
  obtain w' where w': "scan_segment seg_id buf w = Some w'" by (simp add: scan_segment_def s)
  have "yields seg_id w fs (n + (length buf - pos)) w'"
    using y w' by (cases "pos < length buf") (auto simp: scan_segment_def s yields_def)
  moreover have "found_bytes fs + (n + (length buf - pos)) = length buf" using p by simp
  ultimately show ?thesis using w' f by blast
qed

subsection \<open>Recovery after damage\<close>

type_synonym rec_data = "RecordHeader \<times> bytes"

definition images :: "rec_data list \<Rightarrow> bytes" where
  "images rs = concat (map (\<lambda>(h, payload). record_image h payload) rs)"

fun placed :: "nat \<Rightarrow> rec_data list \<Rightarrow> found list" where
  "placed off [] = []"
| "placed off ((h, payload) # rs) = (off, h, payload) # placed (off + (34 + length payload)) rs"

definition accept_all :: "u32 \<Rightarrow> found list \<Rightarrow> WalReader \<Rightarrow> WalReader" where
  "accept_all seg_id fs w = foldl (\<lambda>w (off, h, payload). accept_record seg_id off h payload w) w fs"

definition skipped :: "bool \<Rightarrow> nat \<Rightarrow> WalReader \<Rightarrow> WalReader" where
  "skipped run n w = w\<lparr>wr_stats := (wr_stats w)\<lparr>
     records_corrupt_skipped := records_corrupt_skipped (wr_stats w) + (if run \<or> n = 0 then 0 else 1),
     bytes_skipped := bytes_skipped (wr_stats w) + word_of_nat n\<rparr>\<rparr>"

lemma images_simps [simp]: "images [] = []" "images ((h, p) # rs) = record_image h p @ images rs"
  "images (rs @ rs') = images rs @ images rs'"
  by (simp_all add: images_def)

lemma images_long: "rs \<noteq> [] \<Longrightarrow> 34 \<le> length (images rs)"
  by (cases rs) auto

lemma scan_images:
  assumes "\<forall>(h, payload) \<in> set rs. record_ok h payload" and "drop pos buf = images rs @ rest"
  shows "scan seg_id buf pos skip w
    = scan seg_id buf (pos + length (images rs)) (skip \<and> rs = []) (accept_all seg_id (placed pos rs) w)"
  using assms
proof (induction rs arbitrary: pos skip w)
  case Nil
  then show ?case by (simp add: accept_all_def)
next
  case (Cons r rs)
  obtain h p where r: "r = (h, p)" by force
  have st: "stored_at buf pos h p" using Cons.prems r by (auto simp: stored_at_def)
  have "drop (pos + (34 + length p)) buf = drop (34 + length p) (drop pos buf)" by (simp add: add.commute)
  also have "\<dots> = images rs @ rest" by (simp add: Cons.prems(2) r)
  finally have d: "drop (pos + (34 + length p)) buf = images rs @ rest" .
  show ?case
    unfolding scan_accept [OF st] using Cons.IH [OF _ d] Cons.prems(1)
    by (simp add: r accept_all_def add.assoc)
qed

lemma scan_junk:
  assumes "\<forall>j < n. pos + j + 30 \<le> length buf \<and> (\<nexists>h payload. stored_at buf (pos + j) h payload)"
  shows "scan seg_id buf pos skip w = scan seg_id buf (pos + n) (skip \<or> 0 < n) (skipped skip n w)"
  using assms
proof (induction n arbitrary: pos skip w)
  case 0
  then show ?case by (simp add: skipped_def)
next
  case (Suc n)
  have "pos + 30 \<le> length buf" "\<nexists>h payload. stored_at buf pos h payload" using Suc.prems by force+
  then have "scan seg_id buf pos skip w = scan seg_id buf (Suc pos) True (skip_byte skip w)" by (rule scan_reject)
  also have "\<dots> = scan seg_id buf (Suc pos + n) True (skipped True n (skip_byte skip w))"
    using Suc.IH [of "Suc pos" True "skip_byte skip w"] Suc.prems by force
  also have "skipped True n (skip_byte skip w) = skipped skip (Suc n) w"
    by (simp add: skipped_def skip_byte_def)
  finally show ?case by simp
qed

lemma accept_all_yields: "yields seg_id w fs 0 (accept_all seg_id fs w)"
  unfolding accept_all_def
proof (induction fs arbitrary: w)
  case Nil
  then show ?case by (simp add: yields_refl)
next
  case (Cons f fs)
  obtain off h p where "f = (off, h, p)" by (cases f)
  with yields_accept [OF Cons.IH] show ?case by simp
qed

lemma accept_all_corrupt:
  "records_corrupt_skipped (wr_stats (accept_all seg_id fs w)) = records_corrupt_skipped (wr_stats w)"
  unfolding accept_all_def by (induction fs arbitrary: w) (auto simp: accept_record_def)

lemma yields_skipped: "yields seg_id w fs n w' \<Longrightarrow> yields seg_id w fs (n + k) (skipped run k w')"
  by (simp add: yields_def skipped_def)

lemma yields_trans:
  "yields seg_id w fs n w' \<Longrightarrow> yields seg_id w' fs' n' w'' \<Longrightarrow> yields seg_id w (fs @ fs') (n + n') w''"
  by (simp add: yields_def)

text \<open>Damage at the end of a segment: the last 29 bytes are too short for a header and are skipped together.\<close>

lemma scan_segment_tail:
  assumes ok: "\<forall>(h, payload) \<in> set rs. record_ok h payload" and buf: "buf = images rs @ junk"
    and dead: "\<forall>j < length junk. \<nexists>h payload. stored_at buf (length (images rs) + j) h payload"
  shows "\<exists>w'. scan_segment seg_id buf w = Some w' \<and> yields seg_id w (placed 0 rs) (length junk) w' \<and>
    records_corrupt_skipped (wr_stats w') = records_corrupt_skipped (wr_stats w) + (if junk = [] then 0 else 1)"
proof -
  let ?p1 = "length (images rs)" and ?w1 = "accept_all seg_id (placed 0 rs) w"
  let ?n = "length junk - 29" and ?k = "length junk - (length junk - 29)"
  let ?w2 = "skipped False ?n ?w1" and ?w3 = "skipped (0 < ?n) ?k (skipped False ?n ?w1)"
  have s1: "scan seg_id buf 0 False w = scan seg_id buf ?p1 False ?w1"
    using scan_images [OF ok, of 0 buf junk] by (simp add: buf)
  have "\<forall>j < ?n. ?p1 + j + 30 \<le> length buf \<and> (\<nexists>h payload. stored_at buf (?p1 + j) h payload)"
  proof (intro allI impI conjI)
    fix j assume j: "j < ?n"
    then show "?p1 + j + 30 \<le> length buf" by (simp add: buf; linarith)
    from j have "j < length junk" by simp
    with dead show "\<nexists>h payload. stored_at buf (?p1 + j) h payload" by blast
  qed
  from scan_junk [OF this, of seg_id False ?w1]
  have "scan seg_id buf ?p1 False ?w1 = scan seg_id buf (?p1 + ?n) (0 < ?n) ?w2" by simp
  also have "\<dots> = Some (?p1 + ?n, 0 < ?n, ?w2)"
    by (rule scan_stop) (simp add: buf)
  finally have s: "scan seg_id buf 0 False w = Some (?p1 + ?n, 0 < ?n, ?w2)" using s1 by simp
  have "scan_segment seg_id buf w = Some ?w3"
    unfolding scan_segment_def s by (auto simp: buf skipped_def)
  moreover have "yields seg_id w (placed 0 rs) (0 + ?n + ?k) ?w3"
    by (intro yields_skipped accept_all_yields)
  moreover have "0 + ?n + ?k = length junk" by simp
  moreover have "records_corrupt_skipped (wr_stats ?w3) = records_corrupt_skipped (wr_stats w) + (if junk = [] then 0 else 1)"
    by (auto simp: skipped_def accept_all_corrupt)
  ultimately show ?thesis by metis
qed

lemma scan_segment_damaged:
  assumes ok: "\<forall>(h, payload) \<in> set (rs1 @ rs2). record_ok h payload"
    and buf: "buf = images rs1 @ junk @ images rs2"
    and dead: "\<forall>j < length junk. \<nexists>h payload. stored_at buf (length (images rs1) + j) h payload"
  shows "\<exists>w'. scan_segment seg_id buf w = Some w' \<and>
    yields seg_id w (placed 0 rs1 @ placed (length (images rs1 @ junk)) rs2) (length junk) w' \<and>
    records_corrupt_skipped (wr_stats w') = records_corrupt_skipped (wr_stats w) + (if junk = [] then 0 else 1)"
proof (cases "rs2 = []")
  case True
  with scan_segment_tail [of rs1 buf junk seg_id w] ok buf dead show ?thesis by simp
next
  case False
  let ?p1 = "length (images rs1)" and ?w1 = "accept_all seg_id (placed 0 rs1) w"
  let ?p2 = "?p1 + length junk" and ?w2 = "skipped False (length junk) ?w1"
  let ?w3 = "accept_all seg_id (placed ?p2 rs2) ?w2"
  have ok1: "\<forall>(h, payload) \<in> set rs1. record_ok h payload" and ok2: "\<forall>(h, payload) \<in> set rs2. record_ok h payload"
    using ok by auto
  have "scan seg_id buf 0 False w = scan seg_id buf ?p1 False ?w1"
    using scan_images [OF ok1, of 0 buf "junk @ images rs2"] by (simp add: buf)
  also have "\<dots> = scan seg_id buf ?p2 (0 < length junk) ?w2"
    using scan_junk [of "length junk" ?p1 buf seg_id False] dead images_long [OF False] by (simp add: buf)
  also have "\<dots> = scan seg_id buf (?p2 + length (images rs2)) False ?w3"
    using scan_images [OF ok2, of ?p2 buf "[]"] False by (simp add: buf)
  also have "\<dots> = Some (length buf, False, ?w3)" by (simp add: buf scan_stop)
  finally have "scan_segment seg_id buf w = Some ?w3" by (simp add: scan_segment_def)
  moreover have "yields seg_id w (placed 0 rs1 @ placed ?p2 rs2) (0 + length junk + 0) ?w3"
    by (intro yields_trans [OF yields_skipped accept_all_yields] accept_all_yields)
  moreover have "records_corrupt_skipped (wr_stats ?w3) = records_corrupt_skipped (wr_stats w) + (if junk = [] then 0 else 1)"
    by (simp add: accept_all_corrupt skipped_def)
  ultimately show ?thesis by (metis add_0 add_0_right length_append)
qed

subsection \<open>Loading a directory\<close>

text \<open>Where the records of the loaded segments come from.\<close>

definition intact_in :: "(u32 \<times> string \<times> bytes option) list \<Rightarrow> ReplayRecord \<Rightarrow> bool" where
  "intact_in segs r \<longleftrightarrow> (\<exists>seg_id path buf off. (seg_id, path, Some buf) \<in> set segs \<and>
     stored_at buf off (rr_header r) (rr_payload r))"

definition reader_inv :: "(u32 \<times> string \<times> bytes option) list \<Rightarrow> WalReader \<Rightarrow> bool" where
  "reader_inv segs w \<longleftrightarrow> (\<forall>r \<in> set (wr_records w). intact_in segs r) \<and> index_inv (wr_index w) \<and>
     map ie_timestamp_ns (entries (wr_index w)) = map (\<lambda>r. rh_timestamp_ns (rr_header r)) (wr_records w) \<and>
     records_ok (wr_stats w) = word_of_nat (length (wr_records w))"

lemma reader_inv_init: "reader_inv segs WalReader_init"
  by (simp add: reader_inv_def WalReader_init_def ReplayStats_init_def index_inv_def ReplayIndex_init_def)

lemma reader_inv_yields:
  assumes "reader_inv segs w" and y: "yields seg_id w fs n w'" and "(seg_id, path, Some buf) \<in> set segs"
    and st: "\<forall>(off, h, payload) \<in> set fs. stored_at buf off h payload"
  shows "reader_inv segs w'"
proof -
  have "intact_in segs (found_record f)" if "f \<in> set fs" for f
    using that st assms(3) by (fastforce simp: intact_in_def found_record_def)
  moreover have "ie_timestamp_ns (found_entry seg_id f) = rh_timestamp_ns (rr_header (found_record f))" for f
    by (simp add: found_entry_def found_record_def split: prod.splits)
  ultimately show ?thesis using assms(1) y by (auto simp: reader_inv_def yields_def)
qed

lemma load_segments_inv:
  assumes "reader_inv segs w" and "set segs' \<subseteq> set segs"
  shows "\<exists>w'. load_segments segs' w = Some w' \<and> reader_inv segs w' \<and>
    segments_read (wr_stats w') = segments_read (wr_stats w)
      + word_of_nat (length (filter (\<lambda>(_, _, c). c \<noteq> None) segs'))"
  using assms
proof (induction segs' arbitrary: w)
  case Nil
  then show ?case by simp
next
  case (Cons s segs')
  obtain seg_id path contents where s: "s = (seg_id, path, contents)" by (cases s)
  show ?case
  proof (cases contents)
    case None
    with Cons s show ?thesis by simp
  next
    case (Some buf)
    let ?w = "w\<lparr>wr_stats := (wr_stats w)\<lparr>segments_read := segments_read (wr_stats w) + 1\<rparr>\<rparr>"
    have inv: "reader_inv segs ?w" using Cons.prems(1) by (simp add: reader_inv_def)
    obtain w1 fs n where w1: "scan_segment seg_id buf ?w = Some w1" "yields seg_id ?w fs n w1"
      "\<forall>(off, h, payload) \<in> set fs. stored_at buf off h payload"
      using scan_segment_yields by blast
    have in1: "reader_inv segs w1"
      using reader_inv_yields [OF inv w1(2) _ w1(3), of path] Cons.prems(2) s Some by simp
    have "segments_read (wr_stats w1) = segments_read (wr_stats w) + 1" using w1(2) by (simp add: yields_def)
    with Cons.IH [OF in1] Cons.IH [OF inv] Cons.prems(2) w1(1) show ?thesis
      by (cases "buf = []") (auto simp: s Some algebra_simps Let_def)
  qed
qed

lemma load_spec:
  "\<exists>w. load (Some es) = Some w \<and> (\<forall>r \<in> set (wr_records w). intact_in (collect_segments es) r) \<and>
     sorted (map replay_key (wr_records w)) \<and>
     sorted (map ie_timestamp_ns (entries (wr_index w))) \<and>
     mset (map ie_timestamp_ns (entries (wr_index w))) = mset (map (\<lambda>r. rh_timestamp_ns (rr_header r)) (wr_records w)) \<and>
     records_ok (wr_stats w) = word_of_nat (length (wr_records w))"
proof -
  obtain w where w: "load_segments (collect_segments es) WalReader_init = Some w"
    and inv: "reader_inv (collect_segments es) w"
    using load_segments_inv [OF reader_inv_init subset_refl] by blast
  have "image_mset ie_timestamp_ns (mset (entries (wr_index w)))
      = image_mset (\<lambda>r. rh_timestamp_ns (rr_header r)) (mset (wr_records w))"
    using inv unfolding reader_inv_def by (metis mset_map)
  with w inv show ?thesis
    by (simp add: load_def reader_inv_def index_finalize_sorts)
qed

lemma replay_key_timestamps: "sorted (map replay_key rs) \<Longrightarrow> sorted (map (\<lambda>r. rh_timestamp_ns (rr_header r)) rs)"
  by (induction rs) (auto simp: replay_key_def)

subsection \<open>Properties\<close>

text \<open>C19: Loading any directory, whatever its files contain, returns without an out-of-bounds access; every
  record it yields is intact in one of the segment files, the records are in order of time and then
  of sequence number, the index is in time order and has the same timestamps, and \<^verbatim>\<open>records_ok\<close> counts
  the records.\<close>

theorem load_sound:
  "\<exists>w. load (Some es) = Some w \<and> (\<forall>r \<in> set (wr_records w). intact_in (collect_segments es) r) \<and>
     sorted (map replay_key (wr_records w)) \<and>
     sorted (map ie_timestamp_ns (entries (wr_index w))) \<and>
     mset (map ie_timestamp_ns (entries (wr_index w))) = mset (map (\<lambda>r. rh_timestamp_ns (rr_header r)) (wr_records w)) \<and>
     records_ok (wr_stats w) = word_of_nat (length (wr_records w))"
  by (rule load_spec)

theorem load_sound_witness:
  "\<exists>w. load (Some [\<lparr>de_name = ''segment-1.sflog'', de_regular = True, de_contents = Some [1, 2, 3]\<rparr>]) = Some w \<and>
     sorted (map replay_key (wr_records w))"
  using load_sound by blast

text \<open>C18: A segment in which a stretch of bytes between two groups of records is damaged gives back all
  records before and all records after the damage, as long as no byte position inside the damage
  looks like a valid record; the damage counts as one corrupt record and all its bytes are counted
  as skipped. With no damage nothing is skipped.\<close>

theorem damaged_segment_recovers:
  assumes "\<forall>(h, payload) \<in> set (rs1 @ rs2). record_ok h payload"
    and "buf = images rs1 @ junk @ images rs2"
    and "\<forall>j < length junk. \<nexists>h payload. stored_at buf (length (images rs1) + j) h payload"
  shows "\<exists>w'. scan_segment seg_id buf w = Some w' \<and>
    map (\<lambda>r. (rr_header r, rr_payload r)) (wr_records w') = map (\<lambda>r. (rr_header r, rr_payload r)) (wr_records w) @ rs1 @ rs2 \<and>
    records_corrupt_skipped (wr_stats w') = records_corrupt_skipped (wr_stats w) + (if junk = [] then 0 else 1) \<and>
    bytes_skipped (wr_stats w') = bytes_skipped (wr_stats w) + word_of_nat (length junk)"
proof -
  have "map (\<lambda>r. (rr_header r, rr_payload r)) (map found_record (placed off rs)) = rs" for off rs
    by (induction off rs rule: placed.induct) (simp_all add: found_record_def)
  with scan_segment_damaged [OF assms, of seg_id w] show ?thesis by (auto simp: yields_def)
qed

theorem damaged_segment_recovers_witness:
  "\<exists>w'. scan_segment 1 (encode_record 5 kImu 9 [1] @ [7, 7] @ encode_record 6 kImu 10 []) WalReader_init = Some w' \<and>
    length (wr_records w') = 2 \<and> bytes_skipped (wr_stats w') = 2"
proof -
  let ?rs1 = "[(record_header_for 5 kImu 9 [1], [1])]" and ?rs2 = "[(record_header_for 6 kImu 10 [], [])]"
  let ?buf = "images ?rs1 @ [7, 7] @ images ?rs2"
  have ok: "\<forall>(h, payload) \<in> set (?rs1 @ ?rs2). record_ok h payload"
    by (simp add: record_ok_header_for unat_kMaxRecordPayload)
  have "\<not> stored_at ?buf (length (images ?rs1) + j) h payload" if "j < 2" for j h payload
  proof
    assume st: "stored_at ?buf (length (images ?rs1) + j) h payload"
    then have len: "unat (rh_record_length h) = 34 + length payload" "34 + length payload \<le> 36"
      using stored_at_bound [OF st] that by (auto simp: stored_at_def record_ok_def)
    from st obtain rest where "drop j ([7, 7] @ images ?rs2) = record_image h payload @ rest"
      by (auto simp: stored_at_def)
    then have "hd (drop j ([7, 7] @ images ?rs2)) = ucast (rh_record_length h)"
      by (simp add: record_image_def record_header_bytes_def le_bytes_def upt_4)
    moreover have "hd (drop j ([7, 7] @ images ?rs2)) = 7" using that by (auto simp: less_2_cases_iff)
    ultimately have "unat (ucast (rh_record_length h) :: u8) = 7" by simp
    with len show False by (simp add: unsigned_ucast_eq take_bit_eq_mod)
  qed
  then have dead: "\<forall>j < length [7 :: u8, 7]. \<nexists>h payload. stored_at ?buf (length (images ?rs1) + j) h payload" by simp
  obtain w' where w': "scan_segment 1 ?buf WalReader_init = Some w'"
    and r: "map (\<lambda>r. (rr_header r, rr_payload r)) (wr_records w') = [] @ ?rs1 @ ?rs2"
    and "bytes_skipped (wr_stats w') = 0 + word_of_nat (length [7 :: u8, 7])"
    using damaged_segment_recovers [OF ok refl dead, of 1 WalReader_init]
    by (auto simp: WalReader_init_def ReplayStats_init_def)
  moreover have "length (wr_records w') = 2" using arg_cong [OF r, of length] by simp
  ultimately show ?thesis by (simp add: encode_record_image)
qed

text \<open>The bytes of a segment are accounted for: the lengths of the records found and the number of
  skipped bytes add up to the size of the file.\<close>

theorem segment_bytes_accounted:
  "\<exists>w' fs. scan_segment seg_id buf w = Some w' \<and> wr_records w' = wr_records w @ map found_record fs \<and>
     bytes_skipped (wr_stats w') + word_of_nat (found_bytes fs) = bytes_skipped (wr_stats w) + word_of_nat (length buf)"
proof -
  obtain w' fs n where "scan_segment seg_id buf w = Some w'" "yields seg_id w fs n w'" and n: "found_bytes fs + n = length buf"
    using scan_segment_yields by blast
  then show ?thesis by (auto simp: yields_def simp flip: n)
qed

text \<open>In every mode and at every speed, replaying a loaded directory hands exactly the records with a
  timestamp of at least \<^verbatim>\<open>start_ns\<close> to the callback, in order, and returns their number; outside the
  deterministic mode no wake-up time lies before the start.\<close>

theorem replay_delivers:
  assumes "load (Some es) = Some w"
  shows "map snd (fst (replay mode speed start_ns w)) = filter (\<lambda>r. start_ns \<le> rh_timestamp_ns (rr_header r)) (wr_records w) \<and>
    snd (replay mode speed start_ns w) = word_of_nat (length (fst (replay mode speed start_ns w))) \<and>
    (\<forall>(t, r) \<in> set (fst (replay mode speed start_ns w)). if mode = kDeterministic then t = None else \<exists>ns \<ge> 0. t = Some ns)"
proof -
  have "sorted (map replay_key (wr_records w))" using load_spec [of es] assms by auto
  then have "sorted (map (\<lambda>r. rh_timestamp_ns (rr_header r)) (wr_records w))" by (rule replay_key_timestamps)
  then have "drop (std_lower_bound (\<lambda>r. rh_timestamp_ns (rr_header r) < start_ns) (wr_records w)) (wr_records w)
      = filter (\<lambda>r. \<not> rh_timestamp_ns (rr_header r) < start_ns) (wr_records w)"
    using std_lower_bound_partition [OF sorted_partitioned] by blast
  moreover have "0 \<le> wake_time sp base r" if "0 < sp" for sp base r
    unfolding wake_time_def using that by (intro trunc_nonneg fdiv_nonneg of_integer_nonneg) simp_all
  ultimately have "map snd (fst (replay mode speed start_ns w)) = filter (\<lambda>r. start_ns \<le> rh_timestamp_ns (rr_header r)) (wr_records w)"
    and "\<forall>(t, r) \<in> set (fst (replay mode speed start_ns w)). if mode = kDeterministic then t = None else \<exists>ns \<ge> 0. t = Some ns"
    by (auto simp: replay_def Let_def comp_def not_less)
  moreover have "snd (replay mode speed start_ns w) = word_of_nat (length (fst (replay mode speed start_ns w)))"
    by (simp add: replay_def Let_def)
  ultimately show ?thesis by blast
qed

theorem replay_delivers_witness:
  "\<exists>w. load (Some []) = Some w \<and> fst (replay kFast 2 5 w) = []"
proof -
  obtain w where w: "load (Some []) = Some w" and r: "wr_records w = []"
    by (simp add: load_def collect_segments_def WalReader_init_def)
  with replay_delivers [OF w, of kFast 2 5] show ?thesis by simp
qed

end
