(* ===== verification/Wal_Writer.thy ===== *)
theory Wal_Writer
  imports Wal_Reader
begin

text \<open>
  The log writer (\<^verbatim>\<open>include/sensorforge/replay/wal_writer.hpp\<close>, \<^verbatim>\<open>src/replay/wal_writer.cpp\<close>): append-only,
  rolling over to a new segment file at a size limit. The directory is a map from file names to
  contents, and data passed to the stream is taken to be in the file. Parameters: \<open>can_open\<close>, whether
  a file can be opened for writing; \<open>failed\<close>, \<^term>\<open>None\<close> if a write succeeds, or the number of bytes
  that reached the file when it fails. What the directory holds is written by the reader's round trip
  at the end.
\<close>

subsection \<open>Definitions\<close>

record WalWriter =
  ww_files :: "string \<rightharpoonup> bytes"
  ww_segment_bytes :: nat
  ww_out :: "string option"
  ww_good :: bool
  ww_current_segment_id :: u32
  ww_current_segment_offset :: nat
  ww_records_written :: u64
  ww_index :: ReplayIndex

definition open_new_segment :: "(string \<Rightarrow> bool) \<Rightarrow> WalWriter \<Rightarrow> WalWriter" where
  "open_new_segment can_open w =
     (let w = w\<lparr>ww_out := None\<rparr>;
          w = w\<lparr>ww_current_segment_id := ww_current_segment_id w + 1, ww_current_segment_offset := 0\<rparr>;
          path = segment_filename (ww_current_segment_id w)
      in if can_open path
         then w\<lparr>ww_out := Some path, ww_good := True, ww_files := (ww_files w)(path \<mapsto> [])\<rparr>
         else w\<lparr>ww_good := False\<rparr>)"

definition WalWriter_open :: "(string \<Rightarrow> bool) \<Rightarrow> (string \<rightharpoonup> bytes) \<Rightarrow> nat \<Rightarrow> WalWriter" where
  "WalWriter_open can_open files segment_bytes = open_new_segment can_open
     \<lparr>ww_files = files, ww_segment_bytes = (if segment_bytes = 0 then kDefaultSegmentBytes else segment_bytes),
      ww_out = None, ww_good = True, ww_current_segment_id = 0, ww_current_segment_offset = 0,
      ww_records_written = 0, ww_index = ReplayIndex_init\<rparr>"

definition stream_write :: "nat option \<Rightarrow> bytes \<Rightarrow> string \<Rightarrow> WalWriter \<Rightarrow> WalWriter" where
  "stream_write failed data path w =
     (if \<not> ww_good w then w
      else let old = (case ww_files w path of None \<Rightarrow> [] | Some c \<Rightarrow> c)
           in case failed of
                None \<Rightarrow> w\<lparr>ww_files := (ww_files w)(path \<mapsto> old @ data)\<rparr>
              | Some k \<Rightarrow> w\<lparr>ww_files := (ww_files w)(path \<mapsto> old @ take k data), ww_good := False\<rparr>)"

definition wal_append :: "(string \<Rightarrow> bool) \<Rightarrow> nat option \<Rightarrow> u64 \<Rightarrow> SensorType \<Rightarrow> u64 \<Rightarrow> bytes \<Rightarrow> WalWriter \<Rightarrow> bool \<times> WalWriter" where
  "wal_append can_open failed timestamp_ns sensor_type sequence payload w =
     (if length payload > unat kMaxRecordPayload then (False, w)
      else let rec_bytes = encode_record timestamp_ns sensor_type sequence payload;
               w = (if ww_current_segment_offset w > 0 \<and>
                       ww_current_segment_offset w + length rec_bytes > ww_segment_bytes w
                    then open_new_segment can_open w else w)
           in case ww_out w of
                None \<Rightarrow> (False, w)
              | Some path \<Rightarrow>
                  let offset = ww_current_segment_offset w;
                      w = stream_write failed rec_bytes path w
                  in if \<not> ww_good w then (False, w)
                     else (True, w\<lparr>
                       ww_index := index_add timestamp_ns (ww_current_segment_id w) offset
                                     (word_of_nat (length rec_bytes)) (ww_index w),
                       ww_current_segment_offset := ww_current_segment_offset w + length rec_bytes,
                       ww_records_written := ww_records_written w + 1\<rparr>))"

definition wal_flush :: "WalWriter \<Rightarrow> WalWriter" where
  "wal_flush w = w"

definition wal_close :: "WalWriter \<Rightarrow> WalWriter" where
  "wal_close w = w\<lparr>ww_out := None\<rparr>"

subsection \<open>The log as a list of segments\<close>

text \<open>What is to be appended, and the record it becomes.\<close>

record log_item =
  li_timestamp_ns :: u64
  li_sensor_type :: SensorType
  li_sequence :: u64
  li_payload :: bytes

definition item_record :: "log_item \<Rightarrow> rec_data" where
  "item_record i = (record_header_for (li_timestamp_ns i) (li_sensor_type i) (li_sequence i) (li_payload i), li_payload i)"

definition item_ok :: "log_item \<Rightarrow> bool" where
  "item_ok i \<longleftrightarrow> length (li_payload i) \<le> unat kMaxRecordPayload"

definition seg_name :: "nat \<Rightarrow> string" where
  "seg_name k = segment_filename (word_of_nat (Suc k))"

definition seg_image :: "log_item list \<Rightarrow> bytes" where
  "seg_image seg = images (map item_record seg)"

text \<open>The directory holds the segments \<open>segs\<close>, numbered from 1, and nothing else.\<close>

definition dir_is :: "log_item list list \<Rightarrow> (string \<rightharpoonup> bytes) \<Rightarrow> bool" where
  "dir_is segs files \<longleftrightarrow> length segs < 2 ^ 32 \<and> (\<forall>k < length segs. files (seg_name k) = Some (seg_image (segs ! k))) \<and>
     dom files = seg_name ` {..<length segs} \<and> (\<forall>i \<in> set (concat segs). item_ok i)"

text \<open>The writer has written them; the last one is open.\<close>

definition log_is :: "log_item list list \<Rightarrow> WalWriter \<Rightarrow> bool" where
  "log_is segs w \<longleftrightarrow> dir_is segs (ww_files w) \<and> segs \<noteq> [] \<and>
     ww_current_segment_id w = word_of_nat (length segs) \<and>
     ww_out w = Some (seg_name (length segs - 1)) \<and> ww_good w \<and>
     ww_current_segment_offset w = length (seg_image (last segs)) \<and>
     ww_records_written w = word_of_nat (length (concat segs)) \<and>
     (\<forall>seg \<in> set segs. length seg \<le> 1 \<or> length (seg_image seg) \<le> ww_segment_bytes w)"

lemma unat_seg_id: "k < 2 ^ 32 - 1 \<Longrightarrow> unat (word_of_nat (Suc k) :: u32) = Suc k"
  by (simp add: unat_of_nat del: of_nat_Suc)

lemma seg_name_inject: "j < 2 ^ 32 - 1 \<Longrightarrow> k < 2 ^ 32 - 1 \<Longrightarrow> seg_name j = seg_name k \<longleftrightarrow> j = k"
  unfolding seg_name_def segment_filename_inject
  using unat_seg_id by (metis nat.inject)

lemma seg_image_snoc: "seg_image (seg @ [i]) = seg_image seg @ encode_record (li_timestamp_ns i) (li_sensor_type i) (li_sequence i) (li_payload i)"
  by (simp add: seg_image_def item_record_def encode_record_image)

lemma seg_image_empty_iff: "seg_image seg = [] \<longleftrightarrow> seg = []"
  using images_long [of "map item_record seg"] by (cases "seg = []") (auto simp: seg_image_def)

lemma log_is_open:
  assumes "can_open (segment_filename 1)"
  shows "log_is [[]] (WalWriter_open can_open Map.empty n)"
proof -
  have "seg_name 0 = segment_filename 1" by (simp add: seg_name_def)
  with assms show ?thesis
    by (auto simp: log_is_def dir_is_def WalWriter_open_def open_new_segment_def Let_def seg_image_def lessThan_Suc)
qed

lemma dir_is_new:
  assumes "dir_is segs files" and "length segs < 2 ^ 32 - 1"
  shows "dir_is (segs @ [[]]) (files(seg_name (length segs) \<mapsto> []))"
proof -
  have "seg_name k \<noteq> seg_name (length segs)" if "k < length segs" for k
    using seg_name_inject [of k "length segs"] that assms(2) by simp
  with assms show ?thesis
    by (auto simp: dir_is_def nth_append less_Suc_eq lessThan_Suc seg_image_def)
qed

lemma dir_is_write:
  assumes "dir_is (segs @ [seg]) files" and "item_ok i"
  shows "dir_is (segs @ [seg @ [i]]) (files(seg_name (length segs) \<mapsto> seg_image (seg @ [i])))"
proof -
  have "seg_name k \<noteq> seg_name (length segs)" if "k < length segs" for k
    using seg_name_inject [of k "length segs"] that assms(1) by (simp add: dir_is_def)
  with assms show ?thesis
    by (auto simp: dir_is_def nth_append less_Suc_eq lessThan_Suc)
qed

lemma log_is_rollover:
  assumes "log_is segs w" and "length segs < 2 ^ 32 - 1" and "can_open (seg_name (length segs))"
  shows "log_is (segs @ [[]]) (open_new_segment can_open w)"
proof -
  have "seg_name (length segs) = segment_filename (word_of_nat (length segs) + 1)"
    by (simp add: seg_name_def add.commute)
  with assms dir_is_new [of segs "ww_files w"] show ?thesis
    by (auto simp: log_is_def open_new_segment_def Let_def seg_image_def add.commute)
qed

lemma log_is_append_here:
  assumes log: "log_is (segs @ [seg]) w" and ok: "item_ok i"
    and room: "seg = [] \<or> length (seg_image (seg @ [i])) \<le> ww_segment_bytes w"
    and n: "n = length (encode_record (li_timestamp_ns i) (li_sensor_type i) (li_sequence i) (li_payload i))"
  shows "log_is (segs @ [seg @ [i]])
    (w\<lparr>ww_files := (ww_files w)(seg_name (length segs) \<mapsto> seg_image (seg @ [i])), ww_index := ix,
       ww_current_segment_offset := ww_current_segment_offset w + n, ww_records_written := ww_records_written w + 1\<rparr>)"
proof -
  have "dir_is (segs @ [seg @ [i]]) ((ww_files w)(seg_name (length segs) \<mapsto> seg_image (seg @ [i])))"
    using log dir_is_write [OF _ ok] by (simp add: log_is_def)
  moreover have "length (seg @ [i]) \<le> 1 \<or> length (seg_image (seg @ [i])) \<le> ww_segment_bytes w"
    using room by auto
  ultimately show ?thesis
    using log by (auto simp: log_is_def n seg_image_snoc)
qed

text \<open>One append extends the last segment, or starts a new one when the record does not fit any more.\<close>

lemma wal_append_log:
  assumes log: "log_is segs w" and ok: "item_ok i" and few: "length segs < 2 ^ 32 - 1" and opens: "\<And>p. can_open p"
  shows "\<exists>segs' w'. wal_append can_open None (li_timestamp_ns i) (li_sensor_type i) (li_sequence i) (li_payload i) w = (True, w') \<and>
    log_is segs' w' \<and> concat segs' = concat segs @ [i] \<and> length segs' \<le> Suc (length segs)"
proof -
  let ?r = "encode_record (li_timestamp_ns i) (li_sensor_type i) (li_sequence i) (li_payload i)"
  let ?roll = "ww_current_segment_offset w > 0 \<and> ww_current_segment_offset w + length ?r > ww_segment_bytes w"
  define w1 where "w1 = (if ?roll then open_new_segment can_open w else w)"
  obtain init seg where segs1: "log_is (init @ [seg]) w1" and room: "seg = [] \<or> length (seg_image (seg @ [i])) \<le> ww_segment_bytes w1"
    and c: "concat (init @ [seg]) = concat segs" and l: "length (init @ [seg]) \<le> Suc (length segs)"
  proof (cases ?roll)
    case True
    with that [of segs "[]"] log_is_rollover [OF log few opens] show ?thesis by (simp add: w1_def)
  next
    case False
    have "segs \<noteq> []" using log by (simp add: log_is_def)
    then obtain init seg where s: "segs = init @ [seg]" by (metis rev_exhaust)
    have "ww_current_segment_offset w = length (seg_image seg)" using log by (simp add: log_is_def s)
    with False have "seg = [] \<or> length (seg_image (seg @ [i])) \<le> ww_segment_bytes w"
      by (auto simp: seg_image_snoc seg_image_empty_iff)
    with that [of init seg] log False show ?thesis by (auto simp: w1_def s)
  qed
  have out: "ww_out w1 = Some (seg_name (length init))" and good: "ww_good w1"
    and fl: "ww_files w1 (seg_name (length init)) = Some (seg_image seg)"
    using segs1 by (simp_all add: log_is_def dir_is_def)
  have "\<exists>w'. wal_append can_open None (li_timestamp_ns i) (li_sensor_type i) (li_sequence i) (li_payload i) w = (True, w') \<and>
      log_is (init @ [seg @ [i]]) w'"
    using ok log_is_append_here [OF segs1 ok room refl] out good fl
    by (simp add: wal_append_def Let_def stream_write_def item_ok_def seg_image_snoc flip: w1_def)
  moreover have "concat (init @ [seg @ [i]]) = concat segs @ [i]" using c by simp
  moreover have "length (init @ [seg @ [i]]) \<le> Suc (length segs)" using l by simp
  ultimately show ?thesis by blast
qed

fun append_all :: "(string \<Rightarrow> bool) \<Rightarrow> log_item list \<Rightarrow> WalWriter \<Rightarrow> bool \<times> WalWriter" where
  "append_all can_open [] w = (True, w)"
| "append_all can_open (i # is) w =
     (case wal_append can_open None (li_timestamp_ns i) (li_sensor_type i) (li_sequence i) (li_payload i) w of
        (b, w) \<Rightarrow> (case append_all can_open is w of (b', w) \<Rightarrow> (b \<and> b', w)))"

lemma append_all_log:
  assumes "log_is segs w" and "\<forall>i \<in> set is. item_ok i" and "length segs + length is < 2 ^ 32" and "\<And>p. can_open p"
  shows "\<exists>segs' w'. append_all can_open is w = (True, w') \<and> log_is segs' w' \<and> concat segs' = concat segs @ is"
  using assms(1-3)
proof (induction "is" arbitrary: segs w)
  case Nil
  then show ?case by auto
next
  case (Cons i "is")
  have few: "length segs < 2 ^ 32 - 1" using Cons.prems(3) by (simp add: less_diff_conv)
  obtain segs1 w1 where a: "wal_append can_open None (li_timestamp_ns i) (li_sensor_type i) (li_sequence i) (li_payload i) w = (True, w1)"
    and l1: "log_is segs1 w1" "concat segs1 = concat segs @ [i]" "length segs1 \<le> Suc (length segs)"
    using wal_append_log [where can_open = can_open, OF Cons.prems(1) _ few assms(4), of i] Cons.prems(2) by auto
  with Cons.IH [OF l1(1)] Cons.prems(2,3) show ?case by auto
qed

subsection \<open>Reading the log back\<close>

text \<open>A listing of a directory of regular files, in any order.\<close>

definition lists_dir :: "(string \<rightharpoonup> bytes) \<Rightarrow> dir_entry list \<Rightarrow> bool" where
  "lists_dir files es \<longleftrightarrow> distinct (map de_name es) \<and> set (map de_name es) = dom files \<and>
     (\<forall>e \<in> set es. de_regular e \<and> de_contents e = files (de_name e))"

definition seg_entries :: "log_item list list \<Rightarrow> (u32 \<times> string \<times> bytes option) list" where
  "seg_entries segs = map (\<lambda>k. (word_of_nat (Suc k), seg_name k, Some (seg_image (segs ! k)))) [0..<length segs]"

lemma segment_id_seg_name: "segment_id_from_filename (seg_name k) = word_of_nat (Suc k)"
  by (simp add: seg_name_def segment_id_filename)

lemma seg_ids:
  assumes "dir_is segs files" and "k < length segs"
  shows "unat (word_of_nat (Suc k) :: u32) = Suc k" and "(word_of_nat (Suc k) :: u32) \<noteq> 0"
proof -
  show "unat (word_of_nat (Suc k) :: u32) = Suc k"
    using assms by (intro unat_seg_id) (simp add: dir_is_def less_diff_conv)
  then show "(word_of_nat (Suc k) :: u32) \<noteq> 0" by (metis Suc_neq_Zero unat_0)
qed

text \<open>The entries of the listing are the segments.\<close>

lemma listed_segment:
  assumes dir: "dir_is segs files" and es: "lists_dir files es" and e: "e \<in> set es"
  shows "\<exists>k < length segs. de_name e = seg_name k \<and> de_regular e \<and> de_contents e = Some (seg_image (segs ! k))"
proof -
  have "de_name e \<in> dom files" "de_regular e" "de_contents e = files (de_name e)"
    using es e by (auto simp: lists_dir_def)
  with dir show ?thesis by (auto simp: dir_is_def)
qed

lemma listing_entries:
  assumes dir: "dir_is segs files" and es: "lists_dir files es"
  shows "(\<lambda>e. (segment_id_from_filename (de_name e), de_name e, de_contents e)) ` set es = set (seg_entries segs)" (is "?f ` _ = _")
proof
  show "?f ` set es \<subseteq> set (seg_entries segs)"
    using listed_segment [OF dir es] by (fastforce simp: seg_entries_def segment_id_seg_name simp del: of_nat_Suc)
  show "set (seg_entries segs) \<subseteq> ?f ` set es"
  proof
    fix x assume "x \<in> set (seg_entries segs)"
    then obtain k where k: "k < length segs" and x: "x = (word_of_nat (Suc k), seg_name k, Some (seg_image (segs ! k)))"
      by (auto simp: seg_entries_def)
    then have f: "files (seg_name k) = Some (seg_image (segs ! k))" using dir by (simp add: dir_is_def)
    then have "seg_name k \<in> set (map de_name es)" using es by (auto simp: lists_dir_def)
    then obtain e where "e \<in> set es" "de_name e = seg_name k" by auto
    moreover from this have "de_contents e = Some (seg_image (segs ! k))" using es f by (simp add: lists_dir_def)
    ultimately show "x \<in> ?f ` set es" using x by (force simp: segment_id_seg_name simp del: of_nat_Suc)
  qed
qed

lemma collect_segments_log:
  assumes dir: "dir_is segs files" and es: "lists_dir files es"
  shows "collect_segments es = seg_entries segs"
proof -
  let ?f = "\<lambda>e. (segment_id_from_filename (de_name e), de_name e, de_contents e)"
  note unat = seg_ids(1) [OF dir] and nz = seg_ids(2) [OF dir]
  have all: "filter (\<lambda>e. de_regular e \<and> segment_id_from_filename (de_name e) \<noteq> 0) es = es"
    using nz by (auto simp: filter_id_conv segment_id_seg_name simp del: of_nat_Suc dest!: listed_segment [OF dir es])
  have "set (map ?f es) = set (seg_entries segs)" using listing_entries [OF dir es] by simp
  moreover have "distinct (map ?f es)"
    using es unfolding lists_dir_def by (auto simp: distinct_map inj_on_def)
  moreover have srt: "sorted (map (\<lambda>(seg_id, path, _). (seg_id, path)) (seg_entries segs))"
    unfolding sorted_iff_nth_mono_less
    using unat by (auto simp: seg_entries_def word_le_nat_alt less_eq_prod_simp word_less_nat_alt simp del: of_nat_Suc)
  moreover have inj: "inj_on (\<lambda>(seg_id, path, _). (seg_id, path)) (set (seg_entries segs))"
    using unat by (auto simp: inj_on_def seg_entries_def word_unat_eq_iff simp del: of_nat_Suc)
  moreover have "distinct (seg_entries segs)"
    using unat by (auto simp: distinct_conv_nth seg_entries_def word_unat_eq_iff simp del: of_nat_Suc)
  ultimately have "mset (map ?f es) = mset (seg_entries segs)"
    using set_eq_iff_mset_eq_distinct by blast
  then show ?thesis
    unfolding collect_segments_def all using srt inj sort_key_inj_key_eq
    by (metis (no_types, lifting) set_mset_mset)
qed

definition item_replay :: "log_item \<Rightarrow> ReplayRecord" where
  "item_replay i = \<lparr>rr_header = fst (item_record i), rr_payload = snd (item_record i)\<rparr>"

lemma placed_records: "map found_record (placed off (map item_record seg)) = map item_replay seg"
  by (induction seg arbitrary: off) (simp_all add: found_record_def item_replay_def item_record_def)

lemma scan_segment_log:
  assumes "\<forall>i \<in> set seg. item_ok i"
  shows "\<exists>w'. scan_segment seg_id (seg_image seg) w = Some w' \<and> wr_records w' = wr_records w @ map item_replay seg \<and>
    records_corrupt_skipped (wr_stats w') = records_corrupt_skipped (wr_stats w) \<and>
    bytes_skipped (wr_stats w') = bytes_skipped (wr_stats w)"
proof -
  have ok: "\<forall>(h, payload) \<in> set (map item_record seg @ []). record_ok h payload"
    using assms by (auto simp: item_record_def item_ok_def record_ok_header_for)
  have b: "seg_image seg = images (map item_record seg) @ [] @ images []" by (simp add: seg_image_def)
  show ?thesis
    using scan_segment_damaged [OF ok b, of seg_id w] by (auto simp: yields_def placed_records)
qed

lemma load_segments_log:
  assumes "\<forall>i \<in> set (concat (map (snd \<circ> snd) xs)). item_ok i"
  shows "\<exists>w'. load_segments (map (\<lambda>(sid, path, seg). (sid, path, Some (seg_image seg))) xs) w = Some w' \<and>
    wr_records w' = wr_records w @ map item_replay (concat (map (snd \<circ> snd) xs)) \<and>
    records_corrupt_skipped (wr_stats w') = records_corrupt_skipped (wr_stats w) \<and>
    bytes_skipped (wr_stats w') = bytes_skipped (wr_stats w)"
  using assms
proof (induction xs arbitrary: w)
  case Nil
  then show ?case by simp
next
  case (Cons x xs)
  obtain sid path seg where x: "x = (sid, path, seg)" by (cases x)
  let ?w = "w\<lparr>wr_stats := (wr_stats w)\<lparr>segments_read := segments_read (wr_stats w) + 1\<rparr>\<rparr>"
  obtain w1 where "scan_segment sid (seg_image seg) ?w = Some w1" "wr_records w1 = wr_records w @ map item_replay seg"
    "records_corrupt_skipped (wr_stats w1) = records_corrupt_skipped (wr_stats w)"
    "bytes_skipped (wr_stats w1) = bytes_skipped (wr_stats w)"
    using scan_segment_log [of seg sid ?w] Cons.prems x by auto
  moreover note Cons.IH [of w1] Cons.IH [of ?w]
  ultimately show ?case
    using Cons.prems by (cases "seg = []") (auto simp: x Let_def seg_image_empty_iff)
qed

lemma load_log:
  assumes dir: "dir_is segs files" and es: "lists_dir files es"
  shows "\<exists>r. load (Some es) = Some r \<and> wr_records r = sort_key replay_key (map item_replay (concat segs)) \<and>
    records_corrupt_skipped (wr_stats r) = 0 \<and> bytes_skipped (wr_stats r) = 0"
proof -
  let ?xs = "map (\<lambda>k. (word_of_nat (Suc k) :: u32, seg_name k, segs ! k)) [0..<length segs]"
  have c: "concat (map (snd \<circ> snd) ?xs) = concat segs" by (simp add: comp_def map_nth)
  have "seg_entries segs = map (\<lambda>(sid, path, seg). (sid, path, Some (seg_image seg))) ?xs"
    by (simp add: seg_entries_def)
  then show ?thesis
    using load_segments_log [of ?xs WalReader_init] dir
    unfolding c collect_segments_log [OF dir es, symmetric]
    by (auto simp: load_def dir_is_def WalReader_init_def ReplayStats_init_def simp del: of_nat_Suc)
qed

lemma append_all_fresh:
  assumes "\<forall>i \<in> set is. item_ok i" and "length is < 2 ^ 32 - 1" and "\<And>p. can_open p"
    and "append_all can_open is (WalWriter_open can_open Map.empty n) = (b, w)"
  obtains segs where "b" "log_is segs w" "concat segs = is"
proof -
  have "length [[] :: log_item list] + length is < 2 ^ 32" using assms(2) by simp
  with append_all_log [where can_open = can_open, OF log_is_open [where can_open = can_open and n = n, OF assms(3)] assms(1) _ assms(3)] assms(4) that
  show thesis by auto
qed

lemma wal_append_limit: "ww_segment_bytes (snd (wal_append can_open failed ts t q p w)) = ww_segment_bytes w"
  by (simp add: wal_append_def open_new_segment_def stream_write_def Let_def split: option.splits)

lemma append_all_limit: "ww_segment_bytes (snd (append_all can_open is w)) = ww_segment_bytes w"
proof (induction "is" arbitrary: w)
  case (Cons i "is")
  with wal_append_limit [of can_open None "li_timestamp_ns i" "li_sensor_type i" "li_sequence i" "li_payload i" w]
  show ?case by (auto split: prod.splits) (metis snd_conv)+
qed simp

text \<open>A segment file holds at most one record or stays within the configured size.\<close>

lemma segment_size_bounded:
  assumes "\<forall>i \<in> set is. item_ok i" and "length is < 2 ^ 32 - 1" and "\<And>p. can_open p"
    and "append_all can_open is (WalWriter_open can_open Map.empty n) = (b, w)" and "ww_files w name = Some c"
  shows "length c \<le> (if n = 0 then kDefaultSegmentBytes else n) \<or> (\<exists>i \<in> set is. c = seg_image [i]) \<or> c = []"
proof -
  obtain segs where log: "log_is segs w" and cc: "concat segs = is"
    using assms(1-4) by (rule append_all_fresh)
  have lim: "ww_segment_bytes w = (if n = 0 then kDefaultSegmentBytes else n)"
    using append_all_limit [of can_open "is" "WalWriter_open can_open Map.empty n"] assms(4)
    by (simp add: WalWriter_open_def open_new_segment_def Let_def)
  have "name \<in> dom (ww_files w)" using assms(5) by blast
  then obtain k where n: "name = seg_name k" and k1: "k < length segs"
    using log by (auto simp: log_is_def dir_is_def)
  then have "ww_files w name = Some (seg_image (segs ! k))" using log by (simp add: log_is_def dir_is_def)
  with assms(5) k1 have k: "k < length segs" "c = seg_image (segs ! k)" by simp_all
  have "length (segs ! k) \<le> 1 \<or> length c \<le> ww_segment_bytes w"
    using log k unfolding log_is_def by auto
  moreover have "(\<exists>i \<in> set is. c = seg_image [i]) \<or> c = []" if "length (segs ! k) \<le> 1"
  proof (cases "segs ! k")
    case Nil
    then show ?thesis using k by (simp add: seg_image_empty_iff)
  next
    case (Cons i xs)
    with that have "segs ! k = [i]" by simp
    moreover have "i \<in> set is" using cc k nth_mem [OF k(1)] calculation by force
    ultimately show ?thesis using k by auto
  qed
  ultimately show ?thesis using lim by auto
qed

subsection \<open>Properties\<close>



text \<open>Opening a writer on a directory that holds a log erases its first segment: the records stored
  there are gone, although the other segments stay.\<close>

theorem reopen_truncates:
  assumes "can_open (segment_filename 1)"
  shows "ww_files (WalWriter_open can_open files n) = files(segment_filename 1 \<mapsto> [])"
  using assms by (simp add: WalWriter_open_def open_new_segment_def Let_def)

theorem reopen_truncates_witness:
  "ww_files (WalWriter_open (\<lambda>_. True) [segment_filename 1 \<mapsto> encode_record 5 kImu 9 [1]] 0) (segment_filename 1) = Some []"
  using reopen_truncates [of "\<lambda>_. True" "[segment_filename 1 \<mapsto> encode_record 5 kImu 9 [1]]" 0] by simp

end
