(* ===== verification/Fifo_Interface.thy ===== *)
theory Fifo_Interface
  imports SF_Prelude
begin

text \<open>
  The contract of a bounded first-in first-out queue, as the backpressure policies and the
  subscription manager rely on it: an abstraction to the list of queued items, a fixed capacity,
  a push that fails exactly when the queue is full and a pop that fails exactly when it is empty.
  The lemmas of the locale are about whole runs of pushes and pops.
\<close>

datatype 'a fifo_op = Push 'a | Pop

text \<open>A run returns the items that were accepted, the items that were popped, and the queue.\<close>

fun fifo_run :: "('a \<Rightarrow> 'q \<Rightarrow> bool \<times> 'q) \<Rightarrow> ('q \<Rightarrow> 'a option \<times> 'q) \<Rightarrow> 'q \<Rightarrow> 'a fifo_op list
    \<Rightarrow> 'a list \<times> 'a list \<times> 'q" where
  "fifo_run push pop q [] = ([], [], q)"
| "fifo_run push pop q (Push x # ops) = (case push x q of (b, q') \<Rightarrow>
     (case fifo_run push pop q' ops of (acc, out, q'') \<Rightarrow>
        (if b then x # acc else acc, out, q'')))"
| "fifo_run push pop q (Pop # ops) = (case pop q of (r, q') \<Rightarrow>
     (case fifo_run push pop q' ops of (acc, out, q'') \<Rightarrow>
        (acc, (case r of None \<Rightarrow> out | Some x \<Rightarrow> x # out), q'')))"

locale bounded_fifo =
  fixes invar :: "'q \<Rightarrow> bool"
    and contents :: "'q \<Rightarrow> 'a list"
    and capacity :: "'q \<Rightarrow> nat"
    and push :: "'a \<Rightarrow> 'q \<Rightarrow> bool \<times> 'q"
    and pop :: "'q \<Rightarrow> 'a option \<times> 'q"
  assumes push_invar: "\<lbrakk>invar q; push x q = (b, q')\<rbrakk> \<Longrightarrow> invar q' \<and> capacity q' = capacity q"
    and pop_invar: "\<lbrakk>invar q; pop q = (r, q')\<rbrakk> \<Longrightarrow> invar q' \<and> capacity q' = capacity q"
    and push_full: "\<lbrakk>invar q; length (contents q) = capacity q; push x q = (b, q')\<rbrakk>
          \<Longrightarrow> \<not> b \<and> contents q' = contents q"
    and push_room: "\<lbrakk>invar q; length (contents q) < capacity q; push x q = (b, q')\<rbrakk>
          \<Longrightarrow> b \<and> contents q' = contents q @ [x]"
    and pop_empty: "\<lbrakk>invar q; contents q = []; pop q = (r, q')\<rbrakk> \<Longrightarrow> r = None \<and> contents q' = []"
    and pop_some: "\<lbrakk>invar q; contents q = x # xs; pop q = (r, q')\<rbrakk>
          \<Longrightarrow> r = Some x \<and> contents q' = xs"
    and bounded: "invar q \<Longrightarrow> length (contents q) \<le> capacity q"
begin

lemma push_cases:
  assumes "invar q" and "push x q = (b, q')"
  obtains (stored) "b" "contents q' = contents q @ [x]" "length (contents q) < capacity q"
  | (full) "\<not> b" "contents q' = contents q" "length (contents q) = capacity q"
  using push_full [OF assms(1) _ assms(2)] push_room [OF assms(1) _ assms(2)] bounded [OF assms(1)]
  by fastforce

lemma pop_cases:
  assumes "invar q" and "pop q = (r, q')"
  obtains (got) x where "r = Some x" "contents q = x # contents q'"
  | (nothing) "r = None" "contents q' = []" "contents q = []"
  using pop_empty [OF assms(1) _ assms(2)] pop_some [OF assms(1) _ assms(2)] by (metis neq_Nil_conv)

text \<open>Exactly-once, in-order delivery: what was queued and accepted is what came out, followed by
  what is still queued.\<close>

lemma run_fifo:
  assumes "invar q" and "fifo_run push pop q ops = (acc, out, q')"
  shows "contents q @ acc = out @ contents q' \<and> invar q' \<and> capacity q' = capacity q"
  using assms
proof (induction ops arbitrary: q acc out)
  case Nil
  then show ?case by simp
next
  case (Cons op ops)
  show ?case
  proof (cases op)
    case (Push x)
    obtain b q1 where p: "push x q = (b, q1)" by force
    obtain acc1 out1 where r: "fifo_run push pop q1 ops = (acc1, out1, q')"
      and acc: "acc = (if b then x # acc1 else acc1)" and out: "out = out1"
      using Cons.prems Push p by (auto split: prod.splits)
    have inv: "invar q1" and cap: "capacity q1 = capacity q"
      using push_invar [OF Cons.prems(1) p] by simp_all
    note IH = Cons.IH [OF inv r]
    from Cons.prems(1) p show ?thesis
      by (cases rule: push_cases) (use IH acc out cap in simp_all)
  next
    case Pop
    obtain y q1 where p: "pop q = (y, q1)" by force
    obtain acc1 out1 where r: "fifo_run push pop q1 ops = (acc1, out1, q')"
      and acc: "acc = acc1" and out: "out = (case y of None \<Rightarrow> out1 | Some x \<Rightarrow> x # out1)"
      using Cons.prems Pop p by (auto split: prod.splits)
    have inv: "invar q1" and cap: "capacity q1 = capacity q"
      using pop_invar [OF Cons.prems(1) p] by simp_all
    note IH = Cons.IH [OF inv r]
    from Cons.prems(1) p show ?thesis
      by (cases rule: pop_cases) (use IH acc out cap in simp_all)
  qed
qed

text \<open>Draining: popping as many times as there are items returns them all in order.\<close>

lemma drain:
  "invar q \<Longrightarrow> length (contents q) = n \<Longrightarrow>
     \<exists>q'. fifo_run push pop q (replicate n Pop) = ([], contents q, q') \<and> contents q' = []"
proof (induction n arbitrary: q)
  case 0
  then show ?case by simp
next
  case (Suc n)
  then obtain x xs where c: "contents q = x # xs" by (cases "contents q") auto
  obtain r q1 where p: "pop q = (r, q1)" by force
  have g: "r = Some x \<and> contents q1 = xs" using Suc.prems(1) c p by (rule pop_some)
  have "invar q1" using pop_invar [OF Suc.prems(1) p] ..
  moreover have "length (contents q1) = n" using g c Suc.prems(2) by simp
  ultimately obtain q' where "fifo_run push pop q1 (replicate n Pop) = ([], contents q1, q')"
    and "contents q' = []"
    using Suc.IH by blast
  with g c p show ?case by simp
qed

end

end
