(* ===== verification/Spsc_Ring.thy ===== *)
theory Spsc_Ring
  imports Fifo_Interface
begin

text \<open>
  The single-producer single-consumer ring buffer (\<^verbatim>\<open>include/sensorforge/core/spsc_ring.hpp\<close>),
  as called from one thread at a time. The two cache-line-padded atomics are \<open>rg_head\<close> and
  \<open>rg_tail\<close>, 64-bit words; \<^verbatim>\<open>Capacity\<close> is the length of the storage array. A slot that was moved
  from holds an unspecified value of its type: \<open>moved\<close> gives it and is a parameter.

  The ring refines a bounded queue: \<open>ring_contents\<close> reads the queued items off the storage, and the
  interpretation \<open>ring\<close> discharges the laws of \<open>bounded_fifo\<close>.
\<close>

subsection \<open>Definitions\<close>

record 'a SPSCRing =
  rg_head :: u64
  rg_tail :: u64
  rg_buffer :: "'a list"

definition ring_init :: "nat \<Rightarrow> 'a \<Rightarrow> 'a SPSCRing" where
  "ring_init Capacity dflt = \<lparr>rg_head = 0, rg_tail = 0, rg_buffer = replicate Capacity dflt\<rparr>"

definition Capacity :: "'a SPSCRing \<Rightarrow> nat" where
  "Capacity r = length (rg_buffer r)"

definition kMask :: "'a SPSCRing \<Rightarrow> u64" where
  "kMask r = word_of_nat (Capacity r) - 1"

definition ring_capacity :: "'a SPSCRing \<Rightarrow> nat" where
  "ring_capacity r = Capacity r - 1"

text \<open>The compile-time assertions on the template argument, for a 64-bit \<^verbatim>\<open>size_t\<close>.\<close>

definition ring_static_asserts :: "nat \<Rightarrow> bool" where
  "ring_static_asserts n \<longleftrightarrow> 2 \<le> n \<and> n < 2 ^ 64 \<and> (word_of_nat n :: u64) AND (word_of_nat n - 1) = 0"

definition try_push :: "'a \<Rightarrow> 'a SPSCRing \<Rightarrow> bool \<times> 'a SPSCRing" where
  "try_push item r =
     (let head = rg_head r;
          nxt = (head + 1) AND kMask r
      in if nxt = rg_tail r then (False, r)
         else (True, r\<lparr>rg_buffer := (rg_buffer r)[unat head := item], rg_head := nxt\<rparr>))"

text \<open>The move overload: the second component is the argument after the call.\<close>

definition try_push_move :: "('a \<Rightarrow> 'a) \<Rightarrow> 'a \<Rightarrow> 'a SPSCRing \<Rightarrow> bool \<times> 'a \<times> 'a SPSCRing" where
  "try_push_move moved item r =
     (let head = rg_head r;
          nxt = (head + 1) AND kMask r
      in if nxt = rg_tail r then (False, item, r)
         else (True, moved item, r\<lparr>rg_buffer := (rg_buffer r)[unat head := item], rg_head := nxt\<rparr>))"

definition try_pop :: "('a \<Rightarrow> 'a) \<Rightarrow> 'a SPSCRing \<Rightarrow> 'a option \<times> 'a SPSCRing" where
  "try_pop moved r =
     (let tail = rg_tail r
      in if tail = rg_head r then (None, r)
         else let out = rg_buffer r ! unat tail
              in (Some out, r\<lparr>rg_buffer := (rg_buffer r)[unat tail := moved out],
                              rg_tail := (tail + 1) AND kMask r\<rparr>))"

definition force_push_overwrite :: "'a \<Rightarrow> 'a SPSCRing \<Rightarrow> bool \<times> 'a SPSCRing" where
  "force_push_overwrite item r =
     (case try_push item r of (b, r) \<Rightarrow>
        if b then (True, r)
        else let tail = rg_tail r
             in try_push item (r\<lparr>rg_tail := (tail + 1) AND kMask r\<rparr>))"

definition size_approx :: "'a SPSCRing \<Rightarrow> u64" where
  "size_approx r = (rg_head r - rg_tail r) AND kMask r"

definition empty_approx :: "'a SPSCRing \<Rightarrow> bool" where
  "empty_approx r \<longleftrightarrow> size_approx r = 0"

subsection \<open>Invariant and abstraction\<close>

definition ring_inv :: "'a SPSCRing \<Rightarrow> bool" where
  "ring_inv r \<longleftrightarrow> ring_static_asserts (Capacity r) \<and>
     unat (rg_head r) < Capacity r \<and> unat (rg_tail r) < Capacity r"

definition ring_size :: "'a SPSCRing \<Rightarrow> nat" where
  "ring_size r = (unat (rg_head r) + Capacity r - unat (rg_tail r)) mod Capacity r"

definition ring_contents :: "'a SPSCRing \<Rightarrow> 'a list" where
  "ring_contents r =
     map (\<lambda>i. rg_buffer r ! ((unat (rg_tail r) + i) mod Capacity r)) [0..<ring_size r]"

lemma and_pred_pow2:
  assumes "0 < n" and "n AND (n - 1) = (0 :: nat)"
  shows "\<exists>k. n = 2 ^ k"
  using assms
proof (induction n rule: less_induct)
  case (less n)
  show ?case
  proof (cases "even n")
    case False
    then obtain m where "n = 2 * m + 1" by (rule oddE)
    then have "n AND (n - 1) = n - 1" by (simp add: and_nat_rec [of "Suc (2 * m)"])
    with less.prems have "n = 1" by simp
    then show ?thesis by (intro exI [of _ 0]) simp
  next
    case True
    then obtain m where m: "n = 2 * m" by blast
    with less.prems have "0 < m" and "m < n" by auto
    have "n - 1 = 2 * (m - 1) + 1" using m \<open>0 < m\<close> by simp
    then have "n AND (n - 1) = 2 * (m AND (m - 1))"
      using m by (simp add: and_nat_rec [of "2 * m"])
    with less.prems have "m AND (m - 1) = 0" by simp
    with less.IH [OF \<open>m < n\<close> \<open>0 < m\<close>] obtain k where "m = 2 ^ k" by blast
    then show ?thesis using m by (intro exI [of _ "Suc k"]) simp
  qed
qed

lemma static_asserts_pow2:
  assumes "ring_static_asserts n"
  obtains k where "n = 2 ^ k" "1 \<le> k" "k < 64"
proof -
  from assms have n: "2 \<le> n" "n < 2 ^ 64"
    and z: "(word_of_nat n :: u64) AND (word_of_nat n - 1) = 0"
    by (simp_all add: ring_static_asserts_def)
  have "unat (word_of_nat n :: u64) = n" using n by (simp add: unat_of_nat)
  moreover have "unat (word_of_nat n - 1 :: u64) = n - 1"
    using n of_nat_diff [of 1 n, where 'a = u64] unat_of_nat [of "n - 1", where 'a = 64] by simp
  ultimately have "n AND (n - 1) = 0"
    using arg_cong [OF z, of unat] by (simp add: unsigned_and_eq)
  with n obtain k where k: "n = 2 ^ k" using and_pred_pow2 [of n] by auto
  have "(2 :: nat) ^ k < 2 ^ 64" using n(2) k by simp
  then have "k < 64" by (rule power_less_imp_less_exp [rotated]) simp
  moreover have "1 \<le> k" using n(1) k by (cases k) auto
  ultimately show thesis using k that by blast
qed

lemma kMask_mod:
  assumes "ring_inv r"
  shows "unat (x AND kMask r) = unat x mod Capacity r"
proof -
  from assms obtain k where k: "Capacity r = 2 ^ k" "k < 64"
    unfolding ring_inv_def by (blast elim: static_asserts_pow2)
  have "kMask r = mask k" by (simp add: kMask_def k mask_eq_exp_minus_1)
  then have "x AND kMask r = take_bit k x" by (simp add: take_bit_eq_mask)
  then have "unat (x AND kMask r) = take_bit k (unat x)" by (simp only: unsigned_take_bit_eq)
  then show ?thesis by (simp add: k take_bit_eq_mod)
qed

lemma ring_succ:
  assumes "ring_inv r" and "unat w < Capacity r"
  shows "unat ((w + 1) AND kMask r) = (if unat w + 1 = Capacity r then 0 else unat w + 1)"
proof -
  have "Capacity r < 2 ^ 64" using assms(1) by (simp add: ring_inv_def ring_static_asserts_def)
  with assms(2) have "unat (w + 1) = unat w + 1" by (simp add: unat_word_ariths)
  with assms show ?thesis by (simp add: kMask_mod)
qed

lemma ring_size_if:
  assumes "ring_inv r"
  shows "ring_size r = (if unat (rg_tail r) \<le> unat (rg_head r)
     then unat (rg_head r) - unat (rg_tail r)
     else unat (rg_head r) + Capacity r - unat (rg_tail r))"
proof -
  have "unat (rg_head r) < Capacity r" "unat (rg_tail r) < Capacity r"
    using assms by (simp_all add: ring_inv_def)
  then show ?thesis by (auto simp: ring_size_def mod_if)
qed

lemma ring_inv_bounds:
  "ring_inv r \<Longrightarrow> 2 \<le> Capacity r \<and> unat (rg_head r) < Capacity r \<and> unat (rg_tail r) < Capacity r"
  by (simp add: ring_inv_def ring_static_asserts_def)

lemma length_ring_contents [simp]: "length (ring_contents r) = ring_size r"
  by (simp add: ring_contents_def)

lemma ring_size_le: "ring_inv r \<Longrightarrow> ring_size r \<le> ring_capacity r"
  using ring_inv_bounds [of r] by (auto simp: ring_size_if ring_capacity_def)

lemma ring_full_iff:
  assumes "ring_inv r"
  shows "(rg_head r + 1) AND kMask r = rg_tail r \<longleftrightarrow> ring_size r = ring_capacity r"
  using ring_inv_bounds [OF assms] ring_succ [OF assms, of "rg_head r"]
  by (auto simp: word_unat_eq_iff ring_size_if [OF assms] ring_capacity_def)

lemma ring_empty_iff:
  assumes "ring_inv r"
  shows "rg_tail r = rg_head r \<longleftrightarrow> ring_size r = 0"
  using ring_inv_bounds [OF assms] by (auto simp: word_unat_eq_iff ring_size_if [OF assms])

lemma ring_slot_if:
  assumes "ring_inv r" and "i < Capacity r"
  shows "(unat (rg_tail r) + i) mod Capacity r
     = (if unat (rg_tail r) + i < Capacity r then unat (rg_tail r) + i
        else unat (rg_tail r) + i - Capacity r)"
  using assms ring_inv_bounds [OF assms(1)] by (auto simp: mod_if)

subsection \<open>The operations on the contents\<close>

lemma push_contents:
  assumes inv: "ring_inv r" and nf: "ring_size r < ring_capacity r"
    and r': "r' = r\<lparr>rg_buffer := (rg_buffer r)[unat (rg_head r) := x],
                  rg_head := (rg_head r + 1) AND kMask r\<rparr>"
  shows "ring_inv r' \<and> Capacity r' = Capacity r \<and> ring_contents r' = ring_contents r @ [x]"
proof -
  note b = ring_inv_bounds [OF inv] and s = ring_size_if [OF inv]
  have c: "Capacity r' = Capacity r" by (simp add: r' Capacity_def)
  have t: "rg_tail r' = rg_tail r" by (simp add: r')
  have h: "unat (rg_head r') = (if unat (rg_head r) + 1 = Capacity r then 0 else unat (rg_head r) + 1)"
    using ring_succ [OF inv] b by (simp add: r')
  have inv': "ring_inv r'" using inv b h by (auto simp: ring_inv_def c t)
  have sz: "ring_size r' = Suc (ring_size r)"
    using nf b by (auto simp: ring_size_if [OF inv'] s h t c ring_capacity_def)
  have "ring_contents r' = ring_contents r @ [x]"
  proof (rule nth_equalityI)
    show "length (ring_contents r') = length (ring_contents r @ [x])" by (simp add: sz)
  next
    fix i assume "i < length (ring_contents r')"
    then have i: "i \<le> ring_size r" by (simp add: sz)
    then have lt: "i < Capacity r" using nf by (simp add: ring_capacity_def)
    have slot: "(unat (rg_tail r) + i) mod Capacity r = unat (rg_head r) \<longleftrightarrow> i = ring_size r"
      using i b lt by (auto simp: ring_slot_if [OF inv lt] s split: if_splits)
    have len: "unat (rg_head r) < length (rg_buffer r)" using b by (simp add: Capacity_def)
    have "ring_contents r' ! i = rg_buffer r' ! ((unat (rg_tail r) + i) mod Capacity r)"
      using i by (simp add: ring_contents_def sz c t del: upt_Suc)
    also have "\<dots> = (ring_contents r @ [x]) ! i"
    proof (cases "i = ring_size r")
      case True
      with slot len show ?thesis by (simp add: r' nth_append)
    next
      case False
      with slot have ne: "unat (rg_head r) \<noteq> (unat (rg_tail r) + i) mod Capacity r" by simp
      from False i have "i < ring_size r" by simp
      with ne show ?thesis by (simp add: r' nth_append ring_contents_def)
    qed
    finally show "ring_contents r' ! i = (ring_contents r @ [x]) ! i" .
  qed
  with inv' c show ?thesis by simp
qed

lemma pop_contents:
  assumes inv: "ring_inv r" and ne: "0 < ring_size r" and len: "length bf = Capacity r"
    and same: "\<And>j. j \<noteq> unat (rg_tail r) \<Longrightarrow> bf ! j = rg_buffer r ! j"
    and r': "r' = r\<lparr>rg_buffer := bf, rg_tail := (rg_tail r + 1) AND kMask r\<rparr>"
  shows "ring_inv r' \<and> Capacity r' = Capacity r \<and>
    ring_contents r = rg_buffer r ! unat (rg_tail r) # ring_contents r'"
proof -
  note b = ring_inv_bounds [OF inv] and s = ring_size_if [OF inv]
  have c: "Capacity r' = Capacity r" using len by (simp add: r' Capacity_def)
  have h: "rg_head r' = rg_head r" by (simp add: r')
  have t: "unat (rg_tail r') = (if unat (rg_tail r) + 1 = Capacity r then 0 else unat (rg_tail r) + 1)"
    using ring_succ [OF inv] b by (simp add: r')
  have inv': "ring_inv r'" using inv b t by (auto simp: ring_inv_def c h)
  have sz: "ring_size r = Suc (ring_size r')"
    using ne b by (auto simp: ring_size_if [OF inv'] s h t c)
  have "ring_contents r = rg_buffer r ! unat (rg_tail r) # ring_contents r'"
  proof (rule nth_equalityI)
    show "length (ring_contents r) = length (rg_buffer r ! unat (rg_tail r) # ring_contents r')"
      by (simp add: sz)
  next
    fix i assume "i < length (ring_contents r)"
    then have i: "i < ring_size r" by simp
    show "ring_contents r ! i = (rg_buffer r ! unat (rg_tail r) # ring_contents r') ! i"
    proof (cases i)
      case 0
      with i b show ?thesis by (simp add: ring_contents_def)
    next
      case (Suc j)
      then have lt: "j < Capacity r" "i < Capacity r"
        using i ring_size_le [OF inv] by (auto simp: ring_capacity_def)
      have slot: "(unat (rg_tail r') + j) mod Capacity r' = (unat (rg_tail r) + i) mod Capacity r"
        unfolding ring_slot_if [OF inv lt(2)] ring_slot_if [OF inv', unfolded c, OF lt(1)] c
        using b lt Suc by (auto simp: t)
      have "(unat (rg_tail r) + i) mod Capacity r \<noteq> unat (rg_tail r)"
        unfolding ring_slot_if [OF inv lt(2)] using b lt Suc by auto
      with i Suc slot same show ?thesis by (simp add: ring_contents_def sz r' del: upt_Suc)
    qed
  qed
  with inv' c show ?thesis by simp
qed

lemma try_push_full: "ring_inv r \<Longrightarrow> ring_size r = ring_capacity r \<Longrightarrow> try_push x r = (False, r)"
  by (simp add: try_push_def ring_full_iff)

lemma try_push_room:
  assumes "ring_inv r" and "ring_size r < ring_capacity r"
  shows "try_push x r = (True, r\<lparr>rg_buffer := (rg_buffer r)[unat (rg_head r) := x],
                  rg_head := (rg_head r + 1) AND kMask r\<rparr>)"
  using assms ring_full_iff [OF assms(1)] by (simp add: try_push_def Let_def)

lemma try_pop_some:
  assumes "ring_inv r" and "0 < ring_size r"
  shows "try_pop moved r = (Some (rg_buffer r ! unat (rg_tail r)),
      r\<lparr>rg_buffer := (rg_buffer r)[unat (rg_tail r) := moved (rg_buffer r ! unat (rg_tail r))],
        rg_tail := (rg_tail r + 1) AND kMask r\<rparr>)"
  using assms ring_empty_iff [OF assms(1)] by (simp add: try_pop_def Let_def)

lemma try_pop_contents:
  assumes "ring_inv r" and "0 < ring_size r" and "try_pop moved r = (v, r')"
  shows "ring_inv r' \<and> Capacity r' = Capacity r \<and> v = Some (hd (ring_contents r)) \<and>
         ring_contents r = hd (ring_contents r) # ring_contents r'"
proof -
  have v: "v = Some (rg_buffer r ! unat (rg_tail r))"
    and r': "r' = r\<lparr>rg_buffer := (rg_buffer r)[unat (rg_tail r) := moved (rg_buffer r ! unat (rg_tail r))],
        rg_tail := (rg_tail r + 1) AND kMask r\<rparr>"
    using assms(3) by (simp_all add: try_pop_some [OF assms(1,2)])
  have "ring_inv r' \<and> Capacity r' = Capacity r \<and>
      ring_contents r = rg_buffer r ! unat (rg_tail r) # ring_contents r'"
    using assms(1,2) _ _ r' by (rule pop_contents) (simp_all add: Capacity_def)
  with v show ?thesis by auto
qed

interpretation ring: bounded_fifo ring_inv ring_contents ring_capacity try_push "try_pop moved"
  for moved
proof
  fix r r' :: "'a SPSCRing" and x b
  assume inv: "ring_inv r" and p: "try_push x r = (b, r')"
  show "ring_inv r' \<and> ring_capacity r' = ring_capacity r"
  proof (cases "ring_size r = ring_capacity r")
    case True
    with p inv show ?thesis by (simp add: try_push_full)
  next
    case False
    with ring_size_le [OF inv] have "ring_size r < ring_capacity r" by simp
    with p inv push_contents [OF inv this refl, of x] show ?thesis
      by (auto simp: try_push_room ring_capacity_def)
  qed
  show "b \<and> ring_contents r' = ring_contents r @ [x]" if "length (ring_contents r) < ring_capacity r"
    using that p inv push_contents [OF inv _ refl, of x] by (auto simp: try_push_room)
next
  fix r r' :: "'a SPSCRing" and v
  assume inv: "ring_inv r" and p: "try_pop moved r = (v, r')"
  show "ring_inv r' \<and> ring_capacity r' = ring_capacity r"
  proof (cases "ring_size r = 0")
    case True
    with p inv show ?thesis by (simp add: try_pop_def ring_empty_iff)
  next
    case False
    with try_pop_contents [OF inv _ p] show ?thesis by (simp add: ring_capacity_def)
  qed
  show "v = Some x \<and> ring_contents r' = xs" if "ring_contents r = x # xs" for x xs
  proof -
    have "0 < ring_size r" using arg_cong [OF that, of length] by simp
    with try_pop_contents [OF inv _ p] that show ?thesis by auto
  qed
next
  fix r :: "'a SPSCRing"
  assume inv: "ring_inv r"
  show "length (ring_contents r) \<le> ring_capacity r" using inv by (simp add: ring_size_le)
  show "\<not> b \<and> ring_contents r' = ring_contents r"
    if "length (ring_contents r) = ring_capacity r" "try_push x r = (b, r')" for x b r'
    using that inv by (simp add: try_push_full)
  show "v = None \<and> ring_contents r' = []" if "ring_contents r = []" "try_pop moved r = (v, r')" for v r'
  proof -
    have "ring_size r = 0" using arg_cong [OF that(1), of length] by simp
    with that inv show ?thesis by (simp add: try_pop_def ring_empty_iff)
  qed
qed

lemma ring_init_inv:
  assumes "ring_static_asserts n"
  shows "ring_inv (ring_init n d)" and "ring_contents (ring_init n d) = []"
    and "Capacity (ring_init n d) = n"
  using assms by (auto simp: ring_inv_def ring_init_def Capacity_def ring_contents_def ring_size_def
      ring_static_asserts_def)

lemma overwrite_contents:
  assumes inv: "ring_inv r" and f: "force_push_overwrite x r = (b, r')"
  shows "b \<and> ring_inv r' \<and> Capacity r' = Capacity r \<and> ring_contents r' =
    (if length (ring_contents r) = ring_capacity r then tl (ring_contents r) else ring_contents r) @ [x]"
proof (cases "ring_size r = ring_capacity r")
  case False
  with ring_size_le [OF inv] have lt: "ring_size r < ring_capacity r" by simp
  with f False inv push_contents [OF inv lt refl, of x] show ?thesis
    by (auto simp: force_push_overwrite_def try_push_room)
next
  case True
  define r1 where "r1 = r\<lparr>rg_buffer := rg_buffer r, rg_tail := (rg_tail r + 1) AND kMask r\<rparr>"
  have pos: "0 < ring_size r"
    using True ring_inv_bounds [OF inv] by (simp add: ring_capacity_def)
  have c: "ring_inv r1 \<and> Capacity r1 = Capacity r \<and>
      ring_contents r = rg_buffer r ! unat (rg_tail r) # ring_contents r1"
    using inv pos _ _ r1_def by (rule pop_contents) (simp_all add: Capacity_def)
  have e: "Suc (ring_size r1) = ring_size r"
    using c length_ring_contents by (metis length_Cons)
  with True c have lt: "ring_size r1 < ring_capacity r1" by (simp add: ring_capacity_def)
  have "try_push x r1 = (b, r')"
    using f True inv by (simp add: force_push_overwrite_def try_push_full r1_def)
  with c e lt push_contents [OF _ lt refl, of x] True show ?thesis
    by (auto simp: try_push_room)
qed

lemma ring_size_approx:
  assumes inv: "ring_inv r"
  shows "unat (size_approx r) = length (ring_contents r) \<and> (empty_approx r \<longleftrightarrow> ring_contents r = [])"
proof -
  from inv obtain k where k: "Capacity r = 2 ^ k" "k < 64"
    unfolding ring_inv_def by (blast elim: static_asserts_pow2)
  have dvd: "(2 :: int) ^ k dvd 2 ^ 64" using k by (intro le_imp_power_dvd) simp
  have "int (unat (size_approx r)) = (uint (rg_head r - rg_tail r)) mod 2 ^ k"
    using inv by (simp add: size_approx_def kMask_mod k of_nat_mod)
  also have "uint (rg_head r - rg_tail r) = (uint (rg_head r) - uint (rg_tail r)) mod 2 ^ 64"
    by (simp add: uint_word_ariths)
  also have "(\<dots>) mod 2 ^ k = (uint (rg_head r) - uint (rg_tail r)) mod 2 ^ k"
    using dvd by (rule mod_mod_cancel)
  also have "\<dots> = (uint (rg_head r) + 2 ^ k - uint (rg_tail r)) mod 2 ^ k"
    by (simp add: algebra_simps flip: mod_add_self2 [of "uint (rg_head r) - uint (rg_tail r)"])
  also have "\<dots> = int (ring_size r)"
    using ring_inv_bounds [OF inv] by (simp add: ring_size_def k of_nat_mod of_nat_diff)
  finally have sz: "unat (size_approx r) = ring_size r" by (simp only: of_nat_eq_iff)
  then have "empty_approx r \<longleftrightarrow> ring_size r = 0"
    by (simp add: empty_approx_def unat_eq_0 flip: sz)
  with sz show ?thesis by (auto simp: ring_contents_def)
qed

subsection \<open>Properties\<close>



text \<open>\<^verbatim>\<open>force_push_overwrite\<close> always stores the new item and returns true; it drops the oldest item
  exactly when the ring was full, and keeps the others in order.\<close>

theorem force_push_keeps_newest:
  assumes inv: "ring_inv r" and f: "force_push_overwrite x r = (b, r')"
  shows "b \<and> ring_inv r' \<and> Capacity r' = Capacity r \<and> ring_contents r' =
    (if length (ring_contents r) = ring_capacity r then tl (ring_contents r) else ring_contents r) @ [x]"
  using assms by (rule overwrite_contents)

theorem force_push_keeps_newest_witness:
  "\<exists>r'. force_push_overwrite 9 (\<lparr>rg_head = 1, rg_tail = 2, rg_buffer = [8, 0, 6, 7 :: nat]\<rparr>) = (True, r')
     \<and> ring_contents r' = [7, 8, 9]"
proof -
  let ?r = "\<lparr>rg_head = 1, rg_tail = 2, rg_buffer = [8, 0, 6, 7 :: nat]\<rparr>"
  have inv: "ring_inv ?r" by (simp add: ring_inv_def ring_static_asserts_def Capacity_def)
  have "ring_contents ?r = [6, 7, 8]" and "ring_capacity ?r = 3" and "ring_size ?r = 3"
    by (simp_all add: ring_contents_def ring_size_def Capacity_def ring_capacity_def upt_rec)
  with force_push_keeps_newest [OF inv, of 9] show ?thesis
    by (cases "force_push_overwrite 9 ?r") simp
qed

text \<open>With no concurrent access \<^verbatim>\<open>size_approx\<close> is the number of queued items, also when the 64-bit
  difference of the indices wraps around, and \<^verbatim>\<open>empty_approx\<close> says whether the ring is empty.\<close>

theorem size_approx_exact:
  assumes inv: "ring_inv r"
  shows "unat (size_approx r) = length (ring_contents r) \<and> (empty_approx r \<longleftrightarrow> ring_contents r = [])"
  using assms by (rule ring_size_approx)

theorem size_approx_exact_witness:
  "unat (size_approx (\<lparr>rg_head = 1, rg_tail = 2, rg_buffer = [8, 0, 6, 7 :: nat]\<rparr>)) = 3"
proof -
  let ?r = "\<lparr>rg_head = 1, rg_tail = 2, rg_buffer = [8, 0, 6, 7 :: nat]\<rparr>"
  have "ring_inv ?r" by (simp add: ring_inv_def ring_static_asserts_def Capacity_def)
  then show ?thesis using size_approx_exact [of ?r]
    by (simp add: ring_size_def Capacity_def)
qed

text \<open>The move overload stores the same item and touches its argument only when it does.\<close>

lemma try_push_move_eq:
  "try_push_move moved x r = (case try_push x r of (b, r') \<Rightarrow> (b, if b then moved x else x, r'))"
  by (simp add: try_push_move_def try_push_def Let_def)

end
