(* ===== verification/Backpressure.thy ===== *)
theory Backpressure
  imports Spsc_Ring Frame_Codec
begin

text \<open>
  The per-sensor backpressure policies (\<^verbatim>\<open>include/sensorforge/core/backpressure_policy.hpp\<close>): what
  happens to an arriving item when the ring of its stream is full. \<open>apply_policy\<close> returns
  \<^term>\<open>None\<close> when the call never returns, which only the blocking policy can do; \<open>pops k\<close> is the number
  of \<^verbatim>\<open>try_pop\<close> calls the consumer completes before the producer's \<open>k\<close>-th retry.
\<close>

subsection \<open>Definitions\<close>

datatype BackpressurePolicy = kOverwriteOldest | kDropNewest | kBatchAccumulate | kNeverDropBlock

definition default_policy_for :: "SensorType \<Rightarrow> BackpressurePolicy" where
  "default_policy_for t =
     (if t = kCamera then kOverwriteOldest
      else if t = kLidar then kDropNewest
      else if t = kImu then kBatchAccumulate
      else if t = kGps then kDropNewest
      else if t = kCan then kNeverDropBlock
      else kDropNewest)"

datatype PushResult = kEnqueued | kDroppedNewest | kOverwrote | kBlockedThenEnqueued

definition consumer_pops :: "('a \<Rightarrow> 'a) \<Rightarrow> nat \<Rightarrow> 'a SPSCRing \<Rightarrow> 'a SPSCRing" where
  "consumer_pops moved n r = ((\<lambda>r. snd (try_pop moved r)) ^^ n) r"

text \<open>The retry loop of the blocking policy, from its \<open>k\<close>-th iteration on.\<close>

partial_function (option) block_until_pushed :: "('a \<Rightarrow> 'a) \<Rightarrow> (nat \<Rightarrow> nat) \<Rightarrow> nat \<Rightarrow> 'a \<Rightarrow> 'a SPSCRing
    \<Rightarrow> (PushResult \<times> 'a SPSCRing) option" where
  "block_until_pushed moved pops k item r =
     (case try_push item (consumer_pops moved (pops k) r) of (b, r) \<Rightarrow>
        if b then Some (kBlockedThenEnqueued, r) else block_until_pushed moved pops (Suc k) item r)"

definition apply_policy :: "('a \<Rightarrow> 'a) \<Rightarrow> (nat \<Rightarrow> nat) \<Rightarrow> 'a SPSCRing \<Rightarrow> 'a \<Rightarrow> BackpressurePolicy
    \<Rightarrow> (PushResult \<times> 'a SPSCRing) option" where
  "apply_policy moved pops r item policy =
     (case policy of
        kOverwriteOldest \<Rightarrow>
          (case try_push item r of (b, r) \<Rightarrow>
             if b then Some (kEnqueued, r)
             else case force_push_overwrite item r of (_, r) \<Rightarrow> Some (kOverwrote, r))
      | kNeverDropBlock \<Rightarrow>
          (case try_push item r of (b, r) \<Rightarrow>
             if b then Some (kEnqueued, r) else block_until_pushed moved pops 0 item r)
      | _ \<Rightarrow>
          (case try_push item r of (b, r) \<Rightarrow> Some (if b then kEnqueued else kDroppedNewest, r)))"

subsection \<open>Lemmas\<close>

lemma consumer_pops_contents:
  "ring_inv r \<Longrightarrow> ring_inv (consumer_pops moved n r) \<and> Capacity (consumer_pops moved n r) = Capacity r \<and>
     ring_contents (consumer_pops moved n r) = drop n (ring_contents r)"
proof (induction n)
  case 0
  then show ?case by (simp add: consumer_pops_def)
next
  case (Suc n)
  let ?r = "consumer_pops moved n r"
  obtain v r' where p: "try_pop moved ?r = (v, r')" by force
  then have n: "consumer_pops moved (Suc n) r = r'" by (simp add: consumer_pops_def)
  from Suc have inv: "ring_inv ?r" by simp
  show ?case
  proof (cases "ring_size ?r = 0")
    case True
    then have "r' = ?r" using p inv by (simp add: try_pop_def ring_empty_iff)
    moreover have "drop (Suc n) (ring_contents r) = drop n (ring_contents r)"
      using Suc True by (metis drop_Suc length_0_conv length_ring_contents list.sel(2) tl_drop)
    ultimately show ?thesis using Suc n by simp
  next
    case False
    with try_pop_contents [OF inv _ p] have "ring_inv r' \<and> Capacity r' = Capacity ?r \<and>
        ring_contents r' = tl (ring_contents ?r)" by (metis gr0I list.sel(3))
    with Suc n show ?thesis by (simp add: drop_Suc tl_drop)
  qed
qed

lemma try_push_room_contents:
  assumes "ring_inv r" and "length (ring_contents r) < ring_capacity r"
  obtains r' where "try_push x r = (True, r')" "ring_inv r'" "Capacity r' = Capacity r"
    "ring_contents r' = ring_contents r @ [x]"
  using assms push_contents [OF assms(1) _ refl, of x] by (auto simp: try_push_room)

lemma block_until_returns:
  assumes "ring_inv r" and "length (ring_contents r) = ring_capacity r"
    and "\<forall>j<k. pops (i + j) = 0" and "0 < pops (i + k)"
  shows "\<exists>r'. block_until_pushed moved pops i x r = Some (kBlockedThenEnqueued, r') \<and> ring_inv r' \<and>
     Capacity r' = Capacity r \<and> ring_contents r' = drop (pops (i + k)) (ring_contents r) @ [x]"
  using assms(3,4)
proof (induction k arbitrary: i)
  case 0
  let ?r = "consumer_pops moved (pops i) r"
  have c: "ring_inv ?r" "Capacity ?r = Capacity r" "ring_contents ?r = drop (pops i) (ring_contents r)"
    using consumer_pops_contents [OF assms(1)] by simp_all
  have "0 < ring_capacity r" using ring_inv_bounds [OF assms(1)] by (simp add: ring_capacity_def)
  with c 0 assms(2) have "length (ring_contents ?r) < ring_capacity ?r"
    by (simp add: ring_capacity_def del: length_ring_contents)
  with c(1) obtain r' where "try_push x ?r = (True, r')" "ring_inv r'" "Capacity r' = Capacity ?r"
    "ring_contents r' = ring_contents ?r @ [x]" by (rule try_push_room_contents)
  with c show ?case by (simp add: block_until_pushed.simps [of _ _ i])
next
  case (Suc k)
  have "pops i = 0" using Suc.prems(1) by force
  then have "try_push x (consumer_pops moved (pops i) r) = (False, r)"
    using assms(1,2) by (simp add: consumer_pops_def try_push_full)
  moreover have "\<forall>j<k. pops (Suc i + j) = 0" using Suc.prems(1) by (auto dest: spec [of _ "Suc _"])
  ultimately show ?case using Suc.IH [of "Suc i"] Suc.prems(2)
    by (simp add: block_until_pushed.simps [of _ _ i])
qed

text \<open>Without a pop by the consumer the blocking loop does not return.\<close>

lemma block_until_needs_pop:
  assumes "block_until_pushed moved pops i x r = Some y" and "ring_inv r"
    and "length (ring_contents r) = ring_capacity r"
  shows "\<exists>k. 0 < pops k"
proof -
  let ?P = "\<lambda>moved pops (i :: nat) x r y. ring_inv r \<longrightarrow> length (ring_contents r) = ring_capacity r \<longrightarrow> (\<exists>k. 0 < pops k)"
  have "?P moved pops i x r y"
  proof (rule block_until_pushed.raw_induct [where P = ?P, OF _ assms(1)])
    fix f moved pops k x r y
    assume IH: "\<And>moved pops k x r y. f moved pops k x r = Some y \<Longrightarrow> ?P moved pops k x r y"
      and eq: "(case try_push x (consumer_pops moved (pops k) r) of (b, r) \<Rightarrow>
        if b then Some (kBlockedThenEnqueued, r) else f moved pops (Suc k) x r) = Some y"
    show "?P moved pops k x r y"
    proof (intro impI, cases "pops k = 0")
      assume r: "ring_inv r" "length (ring_contents r) = ring_capacity r" and z: "pops k = 0"
      then have "try_push x (consumer_pops moved (pops k) r) = (False, r)"
        by (simp add: consumer_pops_def try_push_full)
      with eq have "f moved pops (Suc k) x r = Some y" by simp
      from IH [OF this] r show "\<exists>k. 0 < pops k" by blast
    qed auto
  qed
  with assms(2,3) show ?thesis by blast
qed

lemma policy_effect:
  assumes inv: "ring_inv r" and first: "\<forall>j<k. pops j = 0" and pop: "0 < pops k"
  shows "\<exists>res r'. apply_policy moved pops r x policy = Some (res, r') \<and> ring_inv r' \<and> Capacity r' = Capacity r \<and>
    (if length (ring_contents r) < ring_capacity r
     then res = kEnqueued \<and> ring_contents r' = ring_contents r @ [x]
     else case policy of
        kOverwriteOldest \<Rightarrow> res = kOverwrote \<and> ring_contents r' = tl (ring_contents r) @ [x]
      | kNeverDropBlock \<Rightarrow> res = kBlockedThenEnqueued \<and> ring_contents r' = drop (pops k) (ring_contents r) @ [x]
      | _ \<Rightarrow> res = kDroppedNewest \<and> ring_contents r' = ring_contents r)"
proof (cases "length (ring_contents r) < ring_capacity r")
  case True
  with inv obtain r' where "try_push x r = (True, r')" "ring_inv r'" "Capacity r' = Capacity r"
      "ring_contents r' = ring_contents r @ [x]"
    by (rule try_push_room_contents)
  with True show ?thesis by (simp add: apply_policy_def split: BackpressurePolicy.split)
next
  case False
  then have full: "length (ring_contents r) = ring_capacity r"
    using ring_size_le [OF inv] by simp
  have f: "try_push x r = (False, r)" using inv full by (simp add: try_push_full)
  show ?thesis
  proof (cases policy)
    case kOverwriteOldest
    obtain b r' where o: "force_push_overwrite x r = (b, r')" by force
    with overwrite_contents [OF inv o] full f kOverwriteOldest show ?thesis
      by (simp add: apply_policy_def)
  next
    case kNeverDropBlock
    with block_until_returns [OF inv full, of k pops 0 moved x] first pop f full show ?thesis
      by (auto simp: apply_policy_def)
  qed (use f full inv in \<open>simp_all add: apply_policy_def\<close>)
qed

lemma apply_policy_nonblocking:
  assumes "policy \<noteq> kNeverDropBlock"
  obtains res r' where "apply_policy moved pops r x policy = Some (res, r')"
proof -
  have "apply_policy moved pops r x policy \<noteq> None"
    using assms by (cases policy) (simp_all add: apply_policy_def split: prod.splits)
  with that show thesis by auto
qed

lemma apply_policy_result:
  assumes inv: "ring_inv r" and a: "apply_policy moved pops r x policy = Some (res, r')"
  shows "ring_inv r' \<and> Capacity r' = Capacity r"
proof (cases "\<exists>k. 0 < pops k")
  case True
  define k where "k = (LEAST k. 0 < pops k)"
  have "0 < pops k" and "\<forall>j<k. pops j = 0"
    using True LeastI_ex [OF True] not_less_Least by (auto simp: k_def)
  with policy_effect [OF inv, of k pops moved x policy] a show ?thesis by auto
next
  case False
  \<comment> \<open>the result does not depend on the consumer unless the blocking loop ran\<close>
  have "apply_policy moved (\<lambda>_. 1) r x policy = Some (res, r')"
  proof (cases "fst (try_push x r) \<or> policy \<noteq> kNeverDropBlock")
    case True
    with a show ?thesis
      by (cases "try_push x r"; cases policy) (auto simp: apply_policy_def)
  next
    case blocked: False
    then have "length (ring_contents r) = ring_capacity r"
      using inv ring_size_le [OF inv] by (cases "ring_size r = ring_capacity r") (auto simp: try_push_room)
    with a blocked inv False block_until_needs_pop [of moved pops 0 x r] show ?thesis
      by (auto simp: apply_policy_def try_push_full)
  qed
  with policy_effect [OF inv, of 0 "\<lambda>_. 1" moved x policy] show ?thesis by auto
qed

subsection \<open>Properties\<close>

text \<open>The effect of every policy on a full and on a non-full ring: with room the item is always
  enqueued; on a full ring the overwriting policy drops exactly the oldest item, the dropping and
  batching policies drop exactly the arriving item, and the blocking policy returns after the first
  pop of the consumer, having lost nothing.\<close>

theorem apply_policy_effect:
  assumes inv: "ring_inv r" and first: "\<forall>j<k. pops j = 0" and pop: "0 < pops k"
  shows "\<exists>res r'. apply_policy moved pops r x policy = Some (res, r') \<and> ring_inv r' \<and> Capacity r' = Capacity r \<and>
    (if length (ring_contents r) < ring_capacity r
     then res = kEnqueued \<and> ring_contents r' = ring_contents r @ [x]
     else case policy of
        kOverwriteOldest \<Rightarrow> res = kOverwrote \<and> ring_contents r' = tl (ring_contents r) @ [x]
      | kNeverDropBlock \<Rightarrow> res = kBlockedThenEnqueued \<and> ring_contents r' = drop (pops k) (ring_contents r) @ [x]
      | _ \<Rightarrow> res = kDroppedNewest \<and> ring_contents r' = ring_contents r)"
  using assms by (rule policy_effect)

theorem apply_policy_effect_witness:
  "\<exists>res r'. apply_policy id (\<lambda>k. if k = 3 then 2 else 0) (\<lparr>rg_head = 3, rg_tail = 0, rg_buffer = [6, 7, 8, 0 :: nat]\<rparr>)
      9 kNeverDropBlock = Some (res, r') \<and> res = kBlockedThenEnqueued \<and> ring_contents r' = [8, 9]"
proof -
  let ?r = "\<lparr>rg_head = 3, rg_tail = 0, rg_buffer = [6, 7, 8, 0 :: nat]\<rparr>"
  have inv: "ring_inv ?r" by (simp add: ring_inv_def ring_static_asserts_def Capacity_def)
  have "ring_contents ?r = [6, 7, 8]" and "ring_capacity ?r = 3" and "ring_size ?r = 3"
    by (simp_all add: ring_contents_def ring_size_def Capacity_def ring_capacity_def upt_rec)
  with apply_policy_effect [OF inv, of 3 "\<lambda>k. if k = 3 then 2 else 0" id 9 kNeverDropBlock]
  show ?thesis by auto
qed

text \<open>C39: The producer call returns for every policy but the blocking one; the blocking policy returns
  exactly when the ring has room or the consumer pops at least once. CAN is the only sensor type
  that may block, and the only ones that overwrite queued data are cameras.\<close>

theorem apply_policy_returns_iff:
  assumes inv: "ring_inv r"
  shows "(\<exists>res. apply_policy moved pops r x (default_policy_for t) = Some res) \<longleftrightarrow>
     t \<noteq> kCan \<or> length (ring_contents r) < ring_capacity r \<or> (\<exists>k. 0 < pops k)"
proof (cases "\<exists>k. 0 < pops k")
  case True
  define k where "k = (LEAST k. 0 < pops k)"
  have "0 < pops k" and "\<forall>j<k. pops j = 0"
    using True LeastI_ex [OF True] not_less_Least by (auto simp: k_def)
  with policy_effect [OF inv, of k pops moved x "default_policy_for t"] True show ?thesis by auto
next
  case False
  have c: "default_policy_for t = kNeverDropBlock \<longleftrightarrow> t = kCan"
    by (auto simp: default_policy_for_def sensor_type_defs)
  show ?thesis
  proof (cases "length (ring_contents r) < ring_capacity r")
    case True
    with inv obtain r' where "try_push x r = (True, r')" by (rule try_push_room_contents)
    with True show ?thesis by (simp add: apply_policy_def split: BackpressurePolicy.split)
  next
    case room: False
    then have full: "length (ring_contents r) = ring_capacity r"
      using ring_size_le [OF inv] by simp
    have f: "try_push x r = (False, r)" using inv full by (simp add: try_push_full)
    have "block_until_pushed moved pops 0 x r = None"
      using block_until_needs_pop [OF _ inv full] False by (metis option.exhaust)
    with f False room c show ?thesis
      by (cases "default_policy_for t") (simp_all add: apply_policy_def split: prod.splits)
  qed
qed

theorem apply_policy_returns_iff_witness:
  "apply_policy id (\<lambda>_. 0) (\<lparr>rg_head = 3, rg_tail = 0, rg_buffer = [6, 7, 8, 0 :: nat]\<rparr>) 9
     (default_policy_for kCan) = None"
proof -
  let ?r = "\<lparr>rg_head = 3, rg_tail = 0, rg_buffer = [6, 7, 8, 0 :: nat]\<rparr>"
  have inv: "ring_inv ?r" by (simp add: ring_inv_def ring_static_asserts_def Capacity_def)
  have "ring_capacity ?r = 3" and "ring_size ?r = 3"
    by (simp_all add: ring_size_def Capacity_def ring_capacity_def)
  with apply_policy_returns_iff [OF inv, of id "\<lambda>_. 0" 9 kCan] show ?thesis
    by (cases "apply_policy id (\<lambda>_. 0) ?r 9 (default_policy_for kCan)") simp_all
qed

end
