(* ===== verification/Subscription_Manager.thy ===== *)
theory Subscription_Manager
  imports Backpressure
begin

text \<open>
  The subscription manager of the bridge (\<^verbatim>\<open>include/network_bridge/subscription_manager.hpp\<close>,
  \<^verbatim>\<open>src/subscription_manager.cpp\<close>): the ROS callback is the producer of the ring of one topic, the
  send timer its consumer. Log output is not modelled.

  Parameters: \<open>moved\<close>, the value a moved-from frame holds; \<open>pops\<close>, the consumer's progress while the
  callback blocks (see \<open>apply_policy\<close>); the ROS graph, as the topics with their types and the
  publishers of a topic with their QoS profiles.
\<close>

subsection \<open>Data\<close>

record SensorFrame =
  sf_data :: bytes
  sf_sequence :: u64
  sf_timestamp_ns :: u64

definition SensorFrame_init :: SensorFrame where
  "SensorFrame_init = \<lparr>sf_data = [], sf_sequence = 0, sf_timestamp_ns = 0\<rparr>"

text \<open>The fields of a QoS profile that the code copies; \<open>qos_history\<close> stands for the fields that
  \<^verbatim>\<open>QoSInitialization::from_rmw\<close> takes over.\<close>

record 'h QoS =
  qos_history :: 'h
  qos_durability :: nat
  qos_reliability :: nat
  qos_deadline :: "nat \<times> nat"
  qos_liveliness :: nat
  qos_lease :: "nat \<times> nat"

record 'h SubscriptionManager =
  sm_msg_type :: string
  sm_topic :: string
  sm_subscribe_namespace :: string
  sm_zstd_compression_level :: int
  sm_topic_found :: bool
  sm_received_msg :: bool
  sm_is_stale :: bool
  sm_publish_stale_data :: bool
  sm_subscriber :: "(string \<times> string \<times> 'h QoS) option"
  sm_ring :: "SensorFrame SPSCRing"
  sm_current_frame :: SensorFrame
  sm_capture_sequence :: u64
  sm_sensor_type :: SensorType
  sm_policy :: BackpressurePolicy
  sm_enqueued_count :: u64
  sm_dropped_count :: u64
  sm_overwritten_count :: u64

definition kRingCapacity :: nat where "kRingCapacity = 1024"

subsection \<open>Operations\<close>

definition set_sensor_type :: "SensorType \<Rightarrow> 'h SubscriptionManager \<Rightarrow> 'h SubscriptionManager" where
  "set_sensor_type t m = m\<lparr>sm_sensor_type := t, sm_policy := default_policy_for t\<rparr>"

definition SubscriptionManager_new :: "string \<Rightarrow> string \<Rightarrow> int \<Rightarrow> bool \<Rightarrow> 'h SubscriptionManager" where
  "SubscriptionManager_new topic subscribe_namespace zstd_compression_level publish_stale_data =
     set_sensor_type kControl
       \<lparr>sm_msg_type = [], sm_topic = topic, sm_subscribe_namespace = subscribe_namespace,
        sm_zstd_compression_level = zstd_compression_level, sm_topic_found = True,
        sm_received_msg = False, sm_is_stale = True, sm_publish_stale_data = publish_stale_data,
        sm_subscriber = None, sm_ring = ring_init kRingCapacity SensorFrame_init,
        sm_current_frame = SensorFrame_init, sm_capture_sequence = 0, sm_sensor_type = kControl,
        sm_policy = kDropNewest, sm_enqueued_count = 0, sm_dropped_count = 0, sm_overwritten_count = 0\<rparr>"

definition create_subscription :: "string \<Rightarrow> string \<Rightarrow> 'h QoS \<Rightarrow> 'h SubscriptionManager \<Rightarrow> 'h SubscriptionManager" where
  "create_subscription topic msg_type qos m = m\<lparr>sm_subscriber := Some (topic, msg_type, qos)\<rparr>"

text \<open>The QoS of the new subscriber: \<open>base\<close> is the profile that \<^verbatim>\<open>from_rmw\<close> builds for the candidate.\<close>

definition subscriber_qos :: "('h QoS \<Rightarrow> 'h QoS) \<Rightarrow> 'h QoS \<Rightarrow> 'h QoS" where
  "subscriber_qos from_rmw cand =
     (let q = (from_rmw cand)\<lparr>qos_durability := qos_durability cand, qos_reliability := qos_reliability cand\<rparr>;
          q = (if fst (qos_deadline cand) < 10000 then q\<lparr>qos_deadline := qos_deadline cand\<rparr> else q);
          q = q\<lparr>qos_liveliness := qos_liveliness cand\<rparr>
      in if fst (qos_lease cand) < 10000 then q\<lparr>qos_lease := qos_lease cand\<rparr> else q)"

text \<open>\<^term>\<open>None\<close> stands for the out-of-range access on a topic listed without a type; \<open>create\<close> is the virtual
  \<^verbatim>\<open>create_subscription\<close>.\<close>

definition setup_subscription ::
    "(string \<Rightarrow> string \<Rightarrow> 'h QoS \<Rightarrow> 'm \<Rightarrow> 'm) \<Rightarrow> (('h SubscriptionManager \<Rightarrow> 'h SubscriptionManager) \<Rightarrow> 'm \<Rightarrow> 'm) \<Rightarrow>
     ('m \<Rightarrow> 'h SubscriptionManager) \<Rightarrow> ('h QoS \<Rightarrow> 'h QoS) \<Rightarrow> bool \<Rightarrow> (string \<rightharpoonup> string list) \<Rightarrow>
     (string \<Rightarrow> 'h QoS list) \<Rightarrow> 'm \<Rightarrow> 'm option" where
  "setup_subscription create upd base from_rmw ok topics publishers m =
     (if \<not> ok then Some m
      else let topic = sm_subscribe_namespace (base m) @ sm_topic (base m)
      in case topics topic of
           None \<Rightarrow> Some (upd (sm_topic_found_update (\<lambda>_. False)) m)
         | Some types \<Rightarrow>
             (case publishers topic of
                [] \<Rightarrow> Some (upd (sm_topic_found_update (\<lambda>_. False)) m)
              | cand # _ \<Rightarrow> do {
                  msg_type \<leftarrow> rd types 0;
                  Some (create topic msg_type (subscriber_qos from_rmw cand)
                    (upd (\<lambda>b. b\<lparr>sm_topic_found := True, sm_msg_type := msg_type\<rparr>) m)) }))"

definition setup_generic_subscription where
  "setup_generic_subscription = setup_subscription create_subscription id id"

definition check_subscription :: "('h QoS \<Rightarrow> 'h QoS) \<Rightarrow> bool \<Rightarrow> (string \<rightharpoonup> string list) \<Rightarrow> (string \<Rightarrow> 'h QoS list)
    \<Rightarrow> 'h SubscriptionManager \<Rightarrow> 'h SubscriptionManager option" where
  "check_subscription from_rmw ok topics publishers m =
     (if sm_subscriber m = None then setup_generic_subscription from_rmw ok topics publishers m else Some m)"

definition callback :: "(SensorFrame \<Rightarrow> SensorFrame) \<Rightarrow> (nat \<Rightarrow> nat) \<Rightarrow> u64 \<Rightarrow> bytes \<Rightarrow> 'h SubscriptionManager
    \<Rightarrow> 'h SubscriptionManager option" where
  "callback moved pops now_ns serialized_msg m =
     (let m = m\<lparr>sm_received_msg := True, sm_is_stale := False\<rparr>;
          frame = \<lparr>sf_data = serialized_msg, sf_sequence = sm_capture_sequence m, sf_timestamp_ns = now_ns\<rparr>;
          m = m\<lparr>sm_capture_sequence := sm_capture_sequence m + 1\<rparr>
      in do {
        (result, ring) \<leftarrow> apply_policy moved pops (sm_ring m) frame (sm_policy m);
        let m = m\<lparr>sm_ring := ring\<rparr>;
        Some (case result of
            kEnqueued \<Rightarrow> m\<lparr>sm_enqueued_count := sm_enqueued_count m + 1\<rparr>
          | kBlockedThenEnqueued \<Rightarrow> m\<lparr>sm_enqueued_count := sm_enqueued_count m + 1\<rparr>
          | kOverwrote \<Rightarrow> m\<lparr>sm_overwritten_count := sm_overwritten_count m + 1,
                            sm_enqueued_count := sm_enqueued_count m + 1\<rparr>
          | kDroppedNewest \<Rightarrow> m\<lparr>sm_dropped_count := sm_dropped_count m + 1\<rparr>) })"

definition has_data :: "'h SubscriptionManager \<Rightarrow> bool" where
  "has_data m =
     (if \<not> sm_received_msg m then False
      else if \<not> empty_approx (sm_ring m) then True
      else sm_publish_stale_data m)"

definition is_stale :: "'h SubscriptionManager \<Rightarrow> bool" where
  "is_stale m = sm_is_stale m"

definition ring_occupancy :: "'h SubscriptionManager \<Rightarrow> u64" where
  "ring_occupancy m = size_approx (sm_ring m)"

text \<open>\<open>get_data\<close> returns \<^verbatim>\<open>is_valid\<close>, the data and the manager.\<close>

definition get_data :: "(SensorFrame \<Rightarrow> SensorFrame) \<Rightarrow> 'h SubscriptionManager \<Rightarrow> bool \<times> bytes \<times> 'h SubscriptionManager" where
  "get_data moved m =
     (if \<not> sm_received_msg m then (False, sf_data (sm_current_frame m), m)
      else case try_pop moved (sm_ring m) of
        (Some popped, ring) \<Rightarrow>
          (let m = m\<lparr>sm_ring := ring, sm_current_frame := popped, sm_is_stale := empty_approx ring\<rparr>
           in (True, sf_data (sm_current_frame m), m))
      | (None, ring) \<Rightarrow>
          (let m = m\<lparr>sm_ring := ring\<rparr>
           in if sm_publish_stale_data m \<and> sf_data (sm_current_frame m) \<noteq> []
              then (True, sf_data (sm_current_frame m), m)
              else (False, sf_data (sm_current_frame m), m\<lparr>sm_is_stale := True\<rparr>)))"

subsection \<open>Invariant\<close>

text \<open>The counters account for every callback, and frames are queued only after a message came in.\<close>

definition manager_inv :: "'h SubscriptionManager \<Rightarrow> bool" where
  "manager_inv m \<longleftrightarrow> ring_inv (sm_ring m) \<and> Capacity (sm_ring m) = kRingCapacity \<and>
     sm_enqueued_count m + sm_dropped_count m = sm_capture_sequence m \<and>
     sm_policy m = default_policy_for (sm_sensor_type m) \<and>
     (ring_contents (sm_ring m) \<noteq> [] \<longrightarrow> sm_received_msg m)"

lemma kRingCapacity_ok: "ring_static_asserts kRingCapacity"
  by (simp add: ring_static_asserts_def kRingCapacity_def)

lemma manager_new_inv: "manager_inv (SubscriptionManager_new t ns z p)"
  by (simp add: manager_inv_def SubscriptionManager_new_def set_sensor_type_def
      ring_init_inv [OF kRingCapacity_ok])

lemma manager_inv_ring: "manager_inv m \<Longrightarrow> ring_inv (sm_ring m)"
  by (simp add: manager_inv_def)

lemma try_pop_cases:
  assumes "ring_inv r"
  obtains (empty) "ring_contents r = []" "try_pop moved r = (None, r)"
  | (item) x r' where "try_pop moved r = (Some x, r')" "ring_contents r = x # ring_contents r'"
      "ring_inv r'" "Capacity r' = Capacity r"
proof (cases "ring_size r = 0")
  case True
  with assms empty show thesis by (simp add: try_pop_def ring_empty_iff ring_contents_def)
next
  case False
  obtain v r' where p: "try_pop moved r = (v, r')" by force
  with try_pop_contents [OF assms _ p] False item show thesis by blast
qed

lemma empty_approx_iff: "ring_inv r \<Longrightarrow> empty_approx r \<longleftrightarrow> ring_contents r = []"
  using ring_size_approx [of r] by simp

lemma callback_inv:
  assumes "manager_inv m" and "callback moved pops now msg m = Some m'"
  shows "manager_inv m' \<and> sm_capture_sequence m' = sm_capture_sequence m + 1 \<and>
    sm_sensor_type m' = sm_sensor_type m \<and> sm_publish_stale_data m' = sm_publish_stale_data m"
proof -
  let ?f = "\<lparr>sf_data = msg, sf_sequence = sm_capture_sequence m, sf_timestamp_ns = now\<rparr>"
  obtain res r where a: "apply_policy moved pops (sm_ring m) ?f (sm_policy m) = Some (res, r)"
    using assms(2) by (auto simp: callback_def Let_def bind_eq_Some_conv)
  from apply_policy_result [OF manager_inv_ring [OF assms(1)] a] assms a show ?thesis
    by (cases res) (auto simp: callback_def Let_def manager_inv_def algebra_simps)
qed

lemma get_data_inv:
  assumes "manager_inv m" and "get_data moved m = (v, d, m')"
  shows "manager_inv m' \<and> sm_capture_sequence m' = sm_capture_sequence m \<and>
    sm_sensor_type m' = sm_sensor_type m \<and> sm_publish_stale_data m' = sm_publish_stale_data m"
  using assms
  by (cases rule: try_pop_cases [OF manager_inv_ring [OF assms(1)], of moved])
    (auto simp: get_data_def manager_inv_def Let_def split: if_splits)

subsection \<open>The manager as a queue\<close>

text \<open>A stream whose policy does not overwrite or block, and that does not resend stale data, is a
  bounded queue of time-stamped messages: the callback pushes, the send timer pops.\<close>

definition queue_inv :: "'h SubscriptionManager \<Rightarrow> bool" where
  "queue_inv m \<longleftrightarrow> manager_inv m \<and> sm_policy m \<in> {kDropNewest, kBatchAccumulate} \<and> \<not> sm_publish_stale_data m"

definition queue_contents :: "'h SubscriptionManager \<Rightarrow> (u64 \<times> bytes) list" where
  "queue_contents m = map (\<lambda>f. (sf_timestamp_ns f, sf_data f)) (ring_contents (sm_ring m))"

definition queue_push :: "(SensorFrame \<Rightarrow> SensorFrame) \<Rightarrow> u64 \<times> bytes \<Rightarrow> 'h SubscriptionManager \<Rightarrow> bool \<times> 'h SubscriptionManager" where
  "queue_push moved x m = (case callback moved (\<lambda>_. 0) (fst x) (snd x) m of
      None \<Rightarrow> (False, m)
    | Some m' \<Rightarrow> (sm_dropped_count m' = sm_dropped_count m, m'))"

definition queue_pop :: "(SensorFrame \<Rightarrow> SensorFrame) \<Rightarrow> 'h SubscriptionManager \<Rightarrow> (u64 \<times> bytes) option \<times> 'h SubscriptionManager" where
  "queue_pop moved m = (case get_data moved m of (valid, data, m') \<Rightarrow>
      (if valid then Some (sf_timestamp_ns (sm_current_frame m'), data) else None, m'))"

lemma callback_drop_policy:
  assumes "manager_inv m" and "sm_policy m \<in> {kDropNewest, kBatchAccumulate}"
  obtains (stored) m' where "callback moved pops now msg m = Some m'" "sm_dropped_count m' = sm_dropped_count m"
      "queue_contents m' = queue_contents m @ [(now, msg)]" "ring_size (sm_ring m) < ring_capacity (sm_ring m)"
      "sm_policy m' = sm_policy m"
  | (dropped) m' where "callback moved pops now msg m = Some m'" "sm_dropped_count m' = sm_dropped_count m + 1"
      "queue_contents m' = queue_contents m" "ring_size (sm_ring m) = ring_capacity (sm_ring m)"
      "sm_policy m' = sm_policy m"
proof -
  let ?f = "\<lparr>sf_data = msg, sf_sequence = sm_capture_sequence m, sf_timestamp_ns = now\<rparr>"
  note inv = manager_inv_ring [OF assms(1)]
  have ap: "apply_policy moved pops (sm_ring m) ?f (sm_policy m)
      = (case try_push ?f (sm_ring m) of (b, r) \<Rightarrow> Some (if b then kEnqueued else kDroppedNewest, r))"
    using assms(2) by (auto simp: apply_policy_def)
  show thesis
  proof (cases "ring_size (sm_ring m) = ring_capacity (sm_ring m)")
    case True
    with ap inv dropped show ?thesis by (simp add: try_push_full callback_def Let_def queue_contents_def)
  next
    case False
    with ring_size_le [OF inv] have lt: "length (ring_contents (sm_ring m)) < ring_capacity (sm_ring m)" by simp
    from inv lt obtain r where "try_push ?f (sm_ring m) = (True, r)" "ring_contents r = ring_contents (sm_ring m) @ [?f]"
      by (rule try_push_room_contents)
    with ap lt stored show ?thesis by (simp add: callback_def Let_def queue_contents_def)
  qed
qed

lemma get_data_fresh_only:
  assumes "manager_inv m" and "\<not> sm_publish_stale_data m"
  obtains (fresh) m' x where "get_data moved m = (True, snd x, m')" "queue_contents m = x # queue_contents m'"
      "sf_timestamp_ns (sm_current_frame m') = fst x" "sm_policy m' = sm_policy m"
  | (nothing) d m' where "get_data moved m = (False, d, m')" "queue_contents m = []" "queue_contents m' = []"
      "sm_policy m' = sm_policy m"
proof (cases rule: try_pop_cases [OF manager_inv_ring [OF assms(1)], of moved])
  case 1
  with assms(2) have "get_data moved m = (False, sf_data (sm_current_frame m),
      if sm_received_msg m then m\<lparr>sm_ring := sm_ring m, sm_is_stale := True\<rparr> else m)"
    by (simp add: get_data_def)
  then show ?thesis by (rule nothing) (use 1 in \<open>simp_all add: queue_contents_def\<close>)
next
  case (2 x r)
  with assms(1) have "sm_received_msg m" by (simp add: manager_inv_def)
  with 2 have "get_data moved m = (True, snd (sf_timestamp_ns x, sf_data x),
      m\<lparr>sm_ring := r, sm_current_frame := x, sm_is_stale := empty_approx r\<rparr>)"
    by (simp add: get_data_def Let_def)
  then show ?thesis by (rule fresh) (use 2 in \<open>simp_all add: queue_contents_def\<close>)
qed

lemma queue_capacity: "queue_inv m \<Longrightarrow> ring_capacity (sm_ring m) = kRingCapacity - 1"
  by (simp add: queue_inv_def manager_inv_def ring_capacity_def)

interpretation topic_queue: bounded_fifo queue_inv queue_contents "\<lambda>_. kRingCapacity - 1"
    "queue_push moved" "queue_pop moved" for moved
proof
  fix m m' :: "'h SubscriptionManager" and x b
  assume inv: "queue_inv m" and p: "queue_push moved x m = (b, m')"
  then have i: "manager_inv m" "sm_policy m \<in> {kDropNewest, kBatchAccumulate}" by (simp_all add: queue_inv_def)
  note cb = callback_drop_policy [OF i, of moved "\<lambda>_. 0" "fst x" "snd x"]
  show "queue_inv m' \<and> kRingCapacity - 1 = kRingCapacity - 1"
    using p inv callback_inv [OF i(1)]
    by (cases rule: cb) (auto simp: queue_push_def queue_inv_def)
  show "\<not> b \<and> queue_contents m' = queue_contents m" if "length (queue_contents m) = kRingCapacity - 1"
    using p that queue_capacity [OF inv]
    by (cases rule: cb) (auto simp: queue_push_def queue_contents_def)
  show "b \<and> queue_contents m' = queue_contents m @ [x]" if "length (queue_contents m) < kRingCapacity - 1"
    using p that queue_capacity [OF inv]
    by (cases rule: cb) (auto simp: queue_push_def queue_contents_def)
next
  fix m m' :: "'h SubscriptionManager" and v
  assume inv: "queue_inv m" and p: "queue_pop moved m = (v, m')"
  then have i: "manager_inv m" "\<not> sm_publish_stale_data m" by (simp_all add: queue_inv_def)
  note gd = get_data_fresh_only [OF i, of moved]
  show "queue_inv m' \<and> kRingCapacity - 1 = kRingCapacity - 1"
    using p inv get_data_inv [OF i(1)]
    by (cases rule: gd) (auto simp: queue_pop_def queue_inv_def)
  show "v = None \<and> queue_contents m' = []" if "queue_contents m = []"
    using p that by (cases rule: gd) (auto simp: queue_pop_def)
  show "v = Some x \<and> queue_contents m' = xs" if "queue_contents m = x # xs" for x xs
    using p that by (cases rule: gd) (auto simp: queue_pop_def)
next
  fix m :: "'h SubscriptionManager"
  assume inv: "queue_inv m"
  then have "ring_inv (sm_ring m)" by (simp add: queue_inv_def manager_inv_ring)
  then show "length (queue_contents m) \<le> kRingCapacity - 1"
    using ring_size_le [of "sm_ring m"] queue_capacity [OF inv] by (simp add: queue_contents_def)
qed

subsection \<open>Runs with every policy\<close>

datatype manager_event = Message "nat \<Rightarrow> nat" u64 bytes | SendTimer

fun manager_run :: "(SensorFrame \<Rightarrow> SensorFrame) \<Rightarrow> manager_event list \<Rightarrow> 'h SubscriptionManager
    \<Rightarrow> 'h SubscriptionManager option" where
  "manager_run moved [] m = Some m"
| "manager_run moved (Message pops now msg # evs) m =
     do { m \<leftarrow> callback moved pops now msg m; manager_run moved evs m }"
| "manager_run moved (SendTimer # evs) m = (case get_data moved m of (_, _, m) \<Rightarrow> manager_run moved evs m)"

fun is_message :: "manager_event \<Rightarrow> bool" where
  "is_message (Message _ _ _) = True"
| "is_message SendTimer = False"

lemma manager_run_inv:
  "manager_inv m \<Longrightarrow> manager_run moved evs m = Some m' \<Longrightarrow>
     manager_inv m' \<and> sm_capture_sequence m' = sm_capture_sequence m + word_of_nat (length (filter is_message evs))"
proof (induction evs arbitrary: m)
  case Nil
  then show ?case by simp
next
  case (Cons e evs)
  show ?case
  proof (cases e)
    case (Message pops now msg)
    then obtain m1 where m1: "callback moved pops now msg m = Some m1" "manager_run moved evs m1 = Some m'"
      using Cons.prems by (auto simp: bind_eq_Some_conv)
    from callback_inv [OF Cons.prems(1) m1(1)] Cons.IH [OF _ m1(2)] show ?thesis
      by (simp add: Message)
  next
    case SendTimer
    obtain v d m1 where m1: "get_data moved m = (v, d, m1)" by (cases "get_data moved m")
    from get_data_inv [OF Cons.prems(1) m1] Cons.IH [of m1] Cons.prems(2) show ?thesis
      by (simp add: SendTimer m1)
  qed
qed

lemma manager_run_returns:
  "manager_inv m \<Longrightarrow> sm_sensor_type m \<noteq> kCan \<Longrightarrow> \<exists>m'. manager_run moved evs m = Some m'"
proof (induction evs arbitrary: m)
  case Nil
  then show ?case by simp
next
  case (Cons e evs)
  show ?case
  proof (cases e)
    case (Message pops now msg)
    have "sm_policy m \<noteq> kNeverDropBlock"
      using Cons.prems by (auto simp: manager_inv_def default_policy_for_def split: if_splits)
    then obtain res r where "apply_policy moved pops (sm_ring m)
        \<lparr>sf_data = msg, sf_sequence = sm_capture_sequence m, sf_timestamp_ns = now\<rparr> (sm_policy m) = Some (res, r)"
      by (rule apply_policy_nonblocking)
    then obtain m1 where m1: "callback moved pops now msg m = Some m1"
      by (simp add: callback_def Let_def)
    from callback_inv [OF Cons.prems(1) m1] Cons.IH [of m1] Cons.prems(2) show ?thesis
      by (simp add: Message m1)
  next
    case SendTimer
    obtain v d m1 where m1: "get_data moved m = (v, d, m1)" by (cases "get_data moved m")
    from get_data_inv [OF Cons.prems(1) m1] Cons.IH [of m1] Cons.prems(2) show ?thesis
      by (simp add: SendTimer m1)
  qed
qed

subsection \<open>Properties\<close>

text \<open>C13: A bridge topic without stale resending delivers its messages exactly once and in order: over any
  sequence of subscription callbacks and send-timer reads, the accepted messages with their capture
  times are those delivered followed by those still queued, at most 1023 of them.\<close>

theorem topic_delivers_in_order:
  assumes "fifo_run (queue_push moved) (queue_pop moved) (SubscriptionManager_new t ns z False :: 'h SubscriptionManager) ops
      = (acc, out, m)"
  shows "acc = out @ queue_contents m \<and> length (queue_contents m) \<le> 1023"
proof -
  let ?m = "SubscriptionManager_new t ns z False :: 'h SubscriptionManager"
  have inv: "queue_inv ?m"
    using manager_new_inv [of t ns z False]
    by (simp add: queue_inv_def SubscriptionManager_new_def set_sensor_type_def default_policy_for_def sensor_type_defs)
  have "queue_contents ?m = []"
    by (simp add: queue_contents_def SubscriptionManager_new_def set_sensor_type_def
        ring_init_inv [OF kRingCapacity_ok])
  with topic_queue.run_fifo [OF inv assms] topic_queue.bounded [of m] show ?thesis
    by (simp add: kRingCapacity_def)
qed

theorem topic_delivers_in_order_witness:
  "\<exists>m. fifo_run (queue_push id) (queue_pop id) (SubscriptionManager_new ''/a'' [] 3 False :: unit SubscriptionManager)
      [Pop, Push (7, [1, 2]), Pop] = ([(7, [1, 2])], [(7, [1, 2])], m) \<and> queue_contents m = []"
proof -
  obtain m where m: "fifo_run (queue_push id) (queue_pop id) (SubscriptionManager_new ''/a'' [] 3 False :: unit SubscriptionManager)
      [Pop, Push (7, [1, 2]), Pop] = ([(7, [1, 2])], [(7, [1, 2])], m)"
    by (simp add: queue_pop_def get_data_def SubscriptionManager_new_def set_sensor_type_def default_policy_for_def
        sensor_type_defs queue_push_def callback_def apply_policy_def try_push_def try_pop_def kMask_def Capacity_def
        ring_init_def kRingCapacity_def Let_def)
  from topic_delivers_in_order [OF m] m show ?thesis by auto
qed

text \<open>C14: The metrics of a stream that cannot block account for every message: any run of callbacks and
  send-timer reads returns, and the enqueued and dropped counters add up to the number of callbacks
  (modulo \<open>2\<^sup>6\<^sup>4\<close>).\<close>

theorem manager_accounts_for_all:
  assumes "st \<noteq> kCan"
  shows "\<exists>m. manager_run moved evs (set_sensor_type st (SubscriptionManager_new t ns z p :: 'h SubscriptionManager)) = Some m \<and>
     sm_enqueued_count m + sm_dropped_count m = word_of_nat (length (filter is_message evs))"
proof -
  let ?m = "set_sensor_type st (SubscriptionManager_new t ns z p) :: 'h SubscriptionManager"
  have inv: "manager_inv ?m" and "sm_sensor_type ?m = st" and c: "sm_capture_sequence ?m = 0"
    using manager_new_inv [of t ns z p]
    by (simp_all add: manager_inv_def set_sensor_type_def SubscriptionManager_new_def)
  then obtain m where "manager_run moved evs ?m = Some m"
    using manager_run_returns [OF inv] assms by auto
  with manager_run_inv [OF inv this] c show ?thesis by (auto simp: manager_inv_def)
qed

theorem manager_accounts_for_all_witness:
  "\<exists>m. manager_run id [SendTimer, Message (\<lambda>_. 0) 5 [1], Message (\<lambda>_. 0) 6 []]
       (set_sensor_type kCamera (SubscriptionManager_new ''/cam'' [] 3 True) :: unit SubscriptionManager) = Some m \<and>
     sm_enqueued_count m + sm_dropped_count m = 2"
  using manager_accounts_for_all [of kCamera id "[SendTimer, Message (\<lambda>_. 0) 5 [1], Message (\<lambda>_. 0) 6 []]" "''/cam''" "[]" 3 True]
  by (simp add: sensor_type_defs)

text \<open>\<^verbatim>\<open>has_data\<close> tells the send timer the truth: when it is false \<^verbatim>\<open>get_data\<close> has nothing valid to send;
  when it is true \<^verbatim>\<open>get_data\<close> returns the oldest queued message, or,
  with an empty ring, the frame sent last if that frame is not empty.\<close>

theorem has_data_sound:
  assumes inv: "manager_inv m" and g: "get_data moved m = (valid, data, m')"
  shows "(\<not> has_data m \<longrightarrow> \<not> valid) \<and>
    (has_data m \<longrightarrow>
      (case ring_contents (sm_ring m) of
         f # fs \<Rightarrow> valid \<and> data = sf_data f \<and> ring_contents (sm_ring m') = fs \<and> sm_current_frame m' = f \<and>
                   (is_stale m' \<longleftrightarrow> fs = [])
       | [] \<Rightarrow> sm_publish_stale_data m \<and> data = sf_data (sm_current_frame m) \<and> (valid \<longleftrightarrow> data \<noteq> [])))"
proof (cases rule: try_pop_cases [OF manager_inv_ring [OF inv], of moved])
  case 1
  with g empty_approx_iff [OF manager_inv_ring [OF inv]] show ?thesis
    by (auto simp: get_data_def has_data_def Let_def split: if_splits)
next
  case (2 x r)
  with inv have "sm_received_msg m" by (simp add: manager_inv_def)
  with 2 g empty_approx_iff [of r] empty_approx_iff [OF manager_inv_ring [OF inv]] show ?thesis
    by (auto simp: get_data_def has_data_def Let_def is_stale_def)
qed

theorem has_data_sound_witness:
  "\<exists>v d m'. get_data id (SubscriptionManager_new ''/a'' [] 3 False :: unit SubscriptionManager) = (v, d, m') \<and> \<not> v"
proof -
  let ?m = "SubscriptionManager_new ''/a'' [] 3 False :: unit SubscriptionManager"
  obtain v d m' where g: "get_data id ?m = (v, d, m')" by (cases "get_data id ?m")
  have "\<not> has_data ?m" by (simp add: has_data_def SubscriptionManager_new_def set_sensor_type_def)
  with has_data_sound [OF manager_new_inv g] g show ?thesis by blast
qed

text \<open>A subscriber is created exactly when the context is up, the namespaced topic is known and has a
  publisher; it takes its type from the topic list and its durability, reliability and liveliness
  from the first publisher, so that the two are compatible. Nothing but the subscription changes.\<close>

theorem setup_subscription_creates_iff:
  assumes "setup_generic_subscription from_rmw ok topics publishers m = Some m'" and "sm_subscriber m = None"
  shows "(sm_subscriber m' \<noteq> None \<longleftrightarrow>
      ok \<and> sm_subscribe_namespace m @ sm_topic m \<in> dom topics \<and> publishers (sm_subscribe_namespace m @ sm_topic m) \<noteq> []) \<and>
    (\<forall>topic ty q. sm_subscriber m' = Some (topic, ty, q) \<longrightarrow>
       topic = sm_subscribe_namespace m @ sm_topic m \<and> sm_msg_type m' = ty \<and> sm_topic_found m' \<and>
       ty = hd (the (topics topic)) \<and>
       qos_durability q = qos_durability (hd (publishers topic)) \<and>
       qos_reliability q = qos_reliability (hd (publishers topic)) \<and>
       qos_liveliness q = qos_liveliness (hd (publishers topic))) \<and>
    sm_ring m' = sm_ring m \<and> sm_current_frame m' = sm_current_frame m"
  using assms
  by (auto simp: setup_generic_subscription_def setup_subscription_def create_subscription_def subscriber_qos_def Let_def
      bind_eq_Some_conv rd_def hd_conv_nth split: if_splits option.splits list.splits)

theorem setup_subscription_creates_iff_witness:
  "\<exists>m'. setup_generic_subscription id True [''/ns/a'' \<mapsto> [''std_msgs/String'']]
        (\<lambda>_. [\<lparr>qos_history = (), qos_durability = 1, qos_reliability = 2, qos_deadline = (0, 0), qos_liveliness = 0, qos_lease = (0, 0)\<rparr>])
        (SubscriptionManager_new ''/a'' ''/ns'' 3 False) = Some m' \<and> sm_subscriber m' \<noteq> None"
proof -
  let ?p = "\<lambda>_ :: string. [\<lparr>qos_history = (), qos_durability = 1, qos_reliability = 2, qos_deadline = (0, 0), qos_liveliness = 0, qos_lease = (0, 0)\<rparr>]"
  let ?m = "SubscriptionManager_new ''/a'' ''/ns'' 3 False :: unit SubscriptionManager"
  have f: "sm_subscriber ?m = None" "sm_subscribe_namespace ?m @ sm_topic ?m = ''/ns/a''"
    by (simp_all add: SubscriptionManager_new_def set_sensor_type_def)
  then obtain m' where m': "setup_generic_subscription id True [''/ns/a'' \<mapsto> [''std_msgs/String'']] ?p ?m = Some m'"
    by (simp add: setup_generic_subscription_def setup_subscription_def rd_def)
  from setup_subscription_creates_iff [OF m' f(1)] have "sm_subscriber m' \<noteq> None"
    unfolding f(2) by simp
  with m' show ?thesis by blast
qed

end
