(* ===== verification/Subscription_Manager_TF.thy ===== *)
theory Subscription_Manager_TF
  imports Subscription_Manager
begin

text \<open>
  The transform subscription (\<^verbatim>\<open>include/network_bridge/subscription_manager_tf.hpp\<close>,
  \<^verbatim>\<open>src/subscription_manager_tf.cpp\<close>): it accumulates the latest transform of every frame pair and
  forwards the whole buffer with each message. Parameters: \<open>compile\<close> and \<open>regex_match\<close>, the regular
  expressions (\<^term>\<open>None\<close> where the constructor throws), and \<open>serialize\<close>, the ROS serialisation of the buffer.
\<close>

subsection \<open>Data and operations\<close>

record 'b TransformStamped =
  tf_frame_id :: string
  tf_child_frame_id :: string
  tf_stamp :: "u32 \<times> u32"
  tf_transform :: 'b

record ('h, 'b, 'rx) SubscriptionManagerTF =
  tm_base :: "'h SubscriptionManager"
  tm_tf2_subscriber :: "(string \<times> bool) option"
  tm_tf_id :: "string \<times> string \<rightharpoonup> nat"
  tm_tfs :: "'b TransformStamped list"
  tm_static_tf :: bool
  tm_include_pattern :: "'rx list"
  tm_exclude_pattern :: "'rx list"

definition SubscriptionManagerTF_new :: "string \<Rightarrow> string \<Rightarrow> int \<Rightarrow> bool \<Rightarrow> bool \<Rightarrow> ('h, 'b, 'rx) SubscriptionManagerTF" where
  "SubscriptionManagerTF_new topic subscribe_namespace zstd_compression_level publish_stale_data static_tf =
     \<lparr>tm_base = SubscriptionManager_new topic subscribe_namespace zstd_compression_level publish_stale_data,
      tm_tf2_subscriber = None, tm_tf_id = Map.empty, tm_tfs = [], tm_static_tf = static_tf,
      tm_include_pattern = [], tm_exclude_pattern = []\<rparr>"

text \<open>The TF subscriber ignores the type and the profile found; the flag is the static or dynamic QoS.\<close>

definition create_subscription_tf :: "string \<Rightarrow> string \<Rightarrow> 'h QoS \<Rightarrow> ('h, 'b, 'rx) SubscriptionManagerTF
    \<Rightarrow> ('h, 'b, 'rx) SubscriptionManagerTF" where
  "create_subscription_tf topic msg_type qos m = m\<lparr>tm_tf2_subscriber := Some (topic, tm_static_tf m)\<rparr>"

definition check_subscription_tf :: "('h QoS \<Rightarrow> 'h QoS) \<Rightarrow> bool \<Rightarrow> (string \<rightharpoonup> string list) \<Rightarrow> (string \<Rightarrow> 'h QoS list)
    \<Rightarrow> ('h, 'b, 'rx) SubscriptionManagerTF \<Rightarrow> ('h, 'b, 'rx) SubscriptionManagerTF option" where
  "check_subscription_tf from_rmw ok topics publishers m =
     (if tm_tf2_subscriber m = None
      then setup_subscription create_subscription_tf tm_base_update tm_base from_rmw ok topics publishers m
      else Some m)"

definition is_stale_tf :: "('h, 'b, 'rx) SubscriptionManagerTF \<Rightarrow> bool" where
  "is_stale_tf m = (if tm_static_tf m then False else is_stale (tm_base m))"

fun compile_all :: "(string \<Rightarrow> 'rx option) \<Rightarrow> string list \<Rightarrow> 'rx list \<Rightarrow> 'rx list option" where
  "compile_all compile [] acc = Some acc"
| "compile_all compile (v # vs) acc = do { r \<leftarrow> compile v; compile_all compile vs (acc @ [r]) }"

definition set_include_pattern :: "(string \<Rightarrow> 'rx option) \<Rightarrow> string list \<Rightarrow> ('h, 'b, 'rx) SubscriptionManagerTF
    \<Rightarrow> ('h, 'b, 'rx) SubscriptionManagerTF option" where
  "set_include_pattern compile pattern m = do {
     ps \<leftarrow> compile_all compile pattern (tm_include_pattern m);
     Some (m\<lparr>tm_include_pattern := ps\<rparr>) }"

definition set_exclude_pattern :: "(string \<Rightarrow> 'rx option) \<Rightarrow> string list \<Rightarrow> ('h, 'b, 'rx) SubscriptionManagerTF
    \<Rightarrow> ('h, 'b, 'rx) SubscriptionManagerTF option" where
  "set_exclude_pattern compile pattern m = do {
     ps \<leftarrow> compile_all compile pattern (tm_exclude_pattern m);
     Some (m\<lparr>tm_exclude_pattern := ps\<rparr>) }"

fun pattern_matched :: "('rx \<Rightarrow> string \<Rightarrow> bool) \<Rightarrow> 'rx list \<Rightarrow> 'b TransformStamped \<Rightarrow> bool" where
  "pattern_matched regex_match [] t = False"
| "pattern_matched regex_match (v # vs) t =
     (if regex_match v (tf_frame_id t) then True
      else if regex_match v (tf_child_frame_id t) then True
      else pattern_matched regex_match vs t)"

text \<open>The loop of \<^verbatim>\<open>tf2_callback\<close>. The result says whether the buffer was reset by an inverted pair (the
  callback then returns at once), and carries \<^verbatim>\<open>new_tf\<close>.\<close>

fun tf2_loop :: "('rx \<Rightarrow> string \<Rightarrow> bool) \<Rightarrow> 'b TransformStamped list \<Rightarrow> bool \<Rightarrow> ('h, 'b, 'rx) SubscriptionManagerTF
    \<Rightarrow> bool \<times> bool \<times> ('h, 'b, 'rx) SubscriptionManagerTF" where
  "tf2_loop regex_match [] new_tf m = (False, new_tf, m)"
| "tf2_loop regex_match (t # ts) new_tf m =
     (if tm_exclude_pattern m \<noteq> [] \<and> pattern_matched regex_match (tm_exclude_pattern m) t
      then tf2_loop regex_match ts new_tf m
      else if tm_include_pattern m \<noteq> [] \<and> \<not> pattern_matched regex_match (tm_include_pattern m) t
      then tf2_loop regex_match ts new_tf m
      else case tm_tf_id m (tf_frame_id t, tf_child_frame_id t) of
        None \<Rightarrow>
          (case tm_tf_id m (tf_child_frame_id t, tf_frame_id t) of
             Some _ \<Rightarrow> (True, new_tf, m\<lparr>tm_tf_id := Map.empty, tm_tfs := [], tm_tf2_subscriber := None\<rparr>)
           | None \<Rightarrow> tf2_loop regex_match ts True
               (m\<lparr>tm_tf_id := (tm_tf_id m)((tf_frame_id t, tf_child_frame_id t) \<mapsto> length (tm_tfs m)),
                  tm_tfs := tm_tfs m @ [t]\<rparr>))
      | Some i \<Rightarrow> tf2_loop regex_match ts new_tf (m\<lparr>tm_tfs := (tm_tfs m)[i := t]\<rparr>))"

definition tf2_callback :: "('rx \<Rightarrow> string \<Rightarrow> bool) \<Rightarrow> ('b TransformStamped list \<Rightarrow> bytes) \<Rightarrow> (SensorFrame \<Rightarrow> SensorFrame)
    \<Rightarrow> (nat \<Rightarrow> nat) \<Rightarrow> u64 \<Rightarrow> 'b TransformStamped list \<Rightarrow> ('h, 'b, 'rx) SubscriptionManagerTF
    \<Rightarrow> ('h, 'b, 'rx) SubscriptionManagerTF option" where
  "tf2_callback regex_match serialize moved pops now_ns tfmsg m =
     (case tf2_loop regex_match tfmsg False m of
        (True, _, m) \<Rightarrow> Some m
      | (False, new_tf, m) \<Rightarrow>
          (let m = (if tm_static_tf m then m\<lparr>tm_tfs := map (\<lambda>t. t\<lparr>tf_stamp := (0, 0)\<rparr>) (tm_tfs m)\<rparr> else m)
           in do {
             base \<leftarrow> callback moved pops now_ns (serialize (tm_tfs m)) (tm_base m);
             Some (m\<lparr>tm_base := base\<rparr>) }))"

subsection \<open>Invariant and abstraction\<close>

definition tf_key :: "'b TransformStamped \<Rightarrow> string \<times> string" where
  "tf_key t = (tf_frame_id t, tf_child_frame_id t)"

text \<open>The index is exactly the positions of the buffer, and no frame pair occurs in both directions.\<close>

definition tf_inv :: "('h, 'b, 'rx) SubscriptionManagerTF \<Rightarrow> bool" where
  "tf_inv m \<longleftrightarrow> (\<forall>k i. tm_tf_id m k = Some i \<longleftrightarrow> i < length (tm_tfs m) \<and> tf_key (tm_tfs m ! i) = k) \<and>
     (\<forall>a b. (a, b) \<in> dom (tm_tf_id m) \<longrightarrow> (b, a) \<in> dom (tm_tf_id m) \<longrightarrow> a = b)"

definition latest_tf :: "('h, 'b, 'rx) SubscriptionManagerTF \<Rightarrow> string \<times> string \<rightharpoonup> 'b TransformStamped" where
  "latest_tf m k = map_option (\<lambda>i. tm_tfs m ! i) (tm_tf_id m k)"

definition tf_accepted :: "('rx \<Rightarrow> string \<Rightarrow> bool) \<Rightarrow> ('h, 'b, 'rx) SubscriptionManagerTF \<Rightarrow> 'b TransformStamped \<Rightarrow> bool" where
  "tf_accepted regex_match m t \<longleftrightarrow> \<not> pattern_matched regex_match (tm_exclude_pattern m) t \<and>
     (tm_include_pattern m = [] \<or> pattern_matched regex_match (tm_include_pattern m) t)"

lemma tf_inv_new: "tf_inv (SubscriptionManagerTF_new t ns z p s)"
  by (simp add: tf_inv_def SubscriptionManagerTF_new_def)

definition store_tf :: "(string \<times> string \<rightharpoonup> 'b TransformStamped) \<Rightarrow> 'b TransformStamped
    \<Rightarrow> (string \<times> string \<rightharpoonup> 'b TransformStamped)" where
  "store_tf f t = f(tf_key t \<mapsto> t)"

lemma tf_index: "tf_inv m \<Longrightarrow> tm_tf_id m k = Some i \<longleftrightarrow> i < length (tm_tfs m) \<and> tf_key (tm_tfs m ! i) = k"
  unfolding tf_inv_def by blast

lemma tf_index_lt: "tf_inv m \<Longrightarrow> tm_tf_id m k = Some i \<Longrightarrow> i < length (tm_tfs m)"
  by (simp add: tf_index)

lemma tf_inv_add:
  assumes inv: "tf_inv m" and n: "tm_tf_id m (a, b) = None" "tm_tf_id m (b, a) = None" and k: "tf_key t = (a, b)"
    and m': "m' = m\<lparr>tm_tf_id := (tm_tf_id m)((a, b) \<mapsto> length (tm_tfs m)), tm_tfs := tm_tfs m @ [t]\<rparr>"
  shows "tf_inv m'" and "latest_tf m' = store_tf (latest_tf m) t"
proof -
  have index: "tm_tf_id m x = Some i \<longleftrightarrow> i < length (tm_tfs m) \<and> tf_key (tm_tfs m ! i) = x" for x i
    using inv by (rule tf_index)
  have "\<not> (i < length (tm_tfs m) \<and> tf_key (tm_tfs m ! i) = (a, b))" for i
    using n(1) index [of "(a, b)" i] by simp
  then have "tm_tf_id m' x = Some i \<longleftrightarrow> i < length (tm_tfs m') \<and> tf_key (tm_tfs m' ! i) = x" for x i
    using index [of x i] k by (auto simp: m' nth_append less_Suc_eq)
  moreover have "x = y" if "(x, y) \<in> dom (tm_tf_id m')" "(y, x) \<in> dom (tm_tf_id m')" for x y
  proof -
    have d: "dom (tm_tf_id m') = insert (a, b) (dom (tm_tf_id m))" by (simp add: m')
    have "\<And>x y. (x, y) \<in> dom (tm_tf_id m) \<Longrightarrow> (y, x) \<in> dom (tm_tf_id m) \<Longrightarrow> x = y"
      using inv unfolding tf_inv_def by blast
    moreover have "(b, a) \<notin> dom (tm_tf_id m)" using n(2) by blast
    ultimately show ?thesis using that unfolding d by blast
  qed
  ultimately show "tf_inv m'" unfolding tf_inv_def by blast
  show "latest_tf m' = store_tf (latest_tf m) t"
  proof
    fix x
    show "latest_tf m' x = store_tf (latest_tf m) t x"
      using k tf_index_lt [OF inv, of x]
      by (cases "tm_tf_id m x") (simp_all add: latest_tf_def store_tf_def m' nth_append)
  qed
qed

lemma tf_inv_update:
  assumes inv: "tf_inv m" and i: "tm_tf_id m (tf_key t) = Some i" and m': "m' = m\<lparr>tm_tfs := (tm_tfs m)[i := t]\<rparr>"
  shows "tf_inv m'" and "latest_tf m' = store_tf (latest_tf m) t"
proof -
  have lt: "i < length (tm_tfs m)" and key: "tf_key (tm_tfs m ! i) = tf_key t"
    using inv i by (simp_all add: tf_index)
  have "map tf_key (tm_tfs m') = map tf_key (tm_tfs m)"
    using lt key by (simp add: m' map_update list_update_same_conv [THEN iffD2])
  then have "j < length (tm_tfs m) \<Longrightarrow> tf_key (tm_tfs m' ! j) = tf_key (tm_tfs m ! j)" for j
    by (metis length_map nth_map)
  with inv show "tf_inv m'" by (auto simp: tf_inv_def m')
  have only: "tm_tf_id m x = Some i \<longleftrightarrow> x = tf_key t" for x
    using lt key by (auto simp: tf_index [OF inv])
  show "latest_tf m' = store_tf (latest_tf m) t"
  proof
    fix x
    show "latest_tf m' x = store_tf (latest_tf m) t x"
      using lt i only [of x]
      by (cases "tm_tf_id m x") (auto simp: latest_tf_def store_tf_def m' nth_list_update)
  qed
qed

lemma tf_accepted_iff:
  "tf_accepted regex_match m t \<longleftrightarrow>
     \<not> (tm_exclude_pattern m \<noteq> [] \<and> pattern_matched regex_match (tm_exclude_pattern m) t) \<and>
     \<not> (tm_include_pattern m \<noteq> [] \<and> \<not> pattern_matched regex_match (tm_include_pattern m) t)"
  by (auto simp: tf_accepted_def)

lemma tf_accepted_frame:
  "tf_accepted regex_match (m\<lparr>tm_tfs := ts\<rparr>) = tf_accepted regex_match m"
  "tf_accepted regex_match (m\<lparr>tm_tf_id := ids\<rparr>) = tf_accepted regex_match m"
  by (simp_all add: tf_accepted_def fun_eq_iff)

text \<open>A turn of the loop over a frame pair that is known, over one that is known the other way round, and over a new one.\<close>

lemma tf2_loop_known:
  assumes "tf_accepted regex_match m t" and "tm_tf_id m (tf_key t) = Some i"
  shows "tf2_loop regex_match (t # ts) new_tf m = tf2_loop regex_match ts new_tf (m\<lparr>tm_tfs := (tm_tfs m)[i := t]\<rparr>)"
  using assms by (auto simp: tf_accepted_iff tf_key_def)

lemma tf2_loop_inverse:
  assumes "tf_accepted regex_match m t" and "tm_tf_id m (tf_key t) = None"
    and "tm_tf_id m (tf_child_frame_id t, tf_frame_id t) = Some j"
  shows "tf2_loop regex_match (t # ts) new_tf m =
      (True, new_tf, m\<lparr>tm_tf_id := Map.empty, tm_tfs := [], tm_tf2_subscriber := None\<rparr>)"
  using assms by (auto simp: tf_accepted_iff tf_key_def)

lemma tf2_loop_new:
  assumes "tf_accepted regex_match m t" and "tm_tf_id m (tf_key t) = None"
    and "tm_tf_id m (tf_child_frame_id t, tf_frame_id t) = None"
  shows "tf2_loop regex_match (t # ts) new_tf m = tf2_loop regex_match ts True
      (m\<lparr>tm_tf_id := (tm_tf_id m)(tf_key t \<mapsto> length (tm_tfs m)), tm_tfs := tm_tfs m @ [t]\<rparr>)"
  using assms by (auto simp: tf_accepted_iff tf_key_def)

text \<open>The loop refines updating a map from frame pairs to their latest transform.\<close>

lemma tf2_loop_spec:
  assumes "tf_inv m" and "tf2_loop regex_match ts new_tf m = (reset, new_tf', m')"
  shows "tf_inv m' \<and> tm_base m' = tm_base m \<and> tm_static_tf m' = tm_static_tf m \<and>
    (reset \<longrightarrow> tm_tfs m' = [] \<and> tm_tf2_subscriber m' = None) \<and>
    (\<not> reset \<longrightarrow> tm_tf2_subscriber m' = tm_tf2_subscriber m \<and>
       latest_tf m' = foldl store_tf (latest_tf m) (filter (tf_accepted regex_match m) ts))"
  using assms
proof (induction ts arbitrary: new_tf m)
  case Nil
  then show ?case by simp
next
  case (Cons t ts)
  have key: "tf_key t = (tf_frame_id t, tf_child_frame_id t)" by (simp add: tf_key_def)
  consider "\<not> tf_accepted regex_match m t"
    | (known) i where "tf_accepted regex_match m t" "tm_tf_id m (tf_key t) = Some i"
    | (inverse) j where "tf_accepted regex_match m t" "tm_tf_id m (tf_key t) = None"
        "tm_tf_id m (tf_child_frame_id t, tf_frame_id t) = Some j"
    | (new) "tf_accepted regex_match m t" "tm_tf_id m (tf_key t) = None"
        "tm_tf_id m (tf_child_frame_id t, tf_frame_id t) = None"
    by (cases "tm_tf_id m (tf_key t)"; cases "tm_tf_id m (tf_child_frame_id t, tf_frame_id t)") auto
  then show ?case
  proof cases
    case 1
    with Cons.prems have "tf2_loop regex_match ts new_tf m = (reset, new_tf', m')"
      by (auto simp: tf_accepted_iff split: if_splits)
    from Cons.IH [OF Cons.prems(1) this] 1 show ?thesis by simp
  next
    case known
    note loop = Cons.prems(2) [unfolded tf2_loop_known [OF known]]
    from Cons.IH [OF _ loop] tf_inv_update [OF Cons.prems(1) known(2) refl] known(1) show ?thesis
      by (simp add: tf_accepted_frame)
  next
    case inverse
    from Cons.prems(2) [unfolded tf2_loop_inverse [OF inverse]] Cons.prems(1) show ?thesis by (auto simp: tf_inv_def)
  next
    case new
    note loop = Cons.prems(2) [unfolded tf2_loop_new [OF new]]
    from Cons.IH [OF _ loop] tf_inv_add [OF Cons.prems(1) _ new(3) key refl] new show ?thesis
      by (simp add: tf_accepted_frame key)
  qed
qed

lemma tf_inv_stamp:
  assumes "tf_inv m"
  shows "tf_inv (m\<lparr>tm_tfs := map (tf_stamp_update f) (tm_tfs m)\<rparr>)"
  using assms by (auto simp: tf_inv_def tf_key_def)

lemma tf2_callback_cases:
  fixes m m' :: "('h, 'b, 'rx) SubscriptionManagerTF"
  assumes inv: "tf_inv m" and c: "tf2_callback regex_match serialize moved pops now ts m = Some m'"
  obtains (reset) "tm_tfs m' = []" "tm_tf2_subscriber m' = None" "tm_base m' = tm_base m" "tf_inv m'"
  | (stored) m1 :: "('h, 'b, 'rx) SubscriptionManagerTF" where "tf_inv m1" "tf_inv m'" "tm_tf_id m' = tm_tf_id m1"
      "latest_tf m1 = foldl store_tf (latest_tf m) (filter (tf_accepted regex_match m) ts)"
      "tm_tfs m' = (if tm_static_tf m then map (tf_stamp_update (\<lambda>_. (0, 0))) (tm_tfs m1) else tm_tfs m1)"
      "callback moved pops now (serialize (tm_tfs m')) (tm_base m) = Some (tm_base m')"
proof -
  obtain rs nw m1 where l: "tf2_loop regex_match ts False m = (rs, nw, m1)"
    by (cases "tf2_loop regex_match ts False m")
  note spec = tf2_loop_spec [OF inv l]
  show thesis
  proof (cases rs)
    case True
    with c l spec reset show ?thesis by (simp add: tf2_callback_def)
  next
    case False
    let ?m2 = "if tm_static_tf m1 then m1\<lparr>tm_tfs := map (\<lambda>t. t\<lparr>tf_stamp := (0, 0)\<rparr>) (tm_tfs m1)\<rparr> else m1"
    obtain b where b: "callback moved pops now (serialize (tm_tfs ?m2)) (tm_base ?m2) = Some b"
      and m': "m' = ?m2\<lparr>tm_base := b\<rparr>"
      using c l False by (auto simp: tf2_callback_def Let_def bind_eq_Some_conv)
    have "tf_inv ?m2" using spec tf_inv_stamp by auto
    then have "tf_inv m'" by (simp add: m' tf_inv_def)
    with spec False b m' show ?thesis
      by (intro stored [of m1]) (auto split: if_splits)
  qed
qed

subsection \<open>Properties\<close>

text \<open>The transform buffer is well formed after every TF message: its index maps a frame pair to its
  only entry, and no pair of distinct frames is buffered in both directions.\<close>

theorem tf_buffer_consistent:
  assumes "tf_inv m" and "tf2_callback regex_match serialize moved pops now ts m = Some m'"
  shows "distinct (map tf_key (tm_tfs m')) \<and>
    (\<forall>t \<in> set (tm_tfs m'). \<forall>u \<in> set (tm_tfs m'). tf_key u = prod.swap (tf_key t) \<longrightarrow> tf_frame_id t = tf_child_frame_id t) \<and>
    tf_inv m'"
proof -
  have inv: "tf_inv m'" using assms by (rule tf2_callback_cases)
  have "i = j" if "i < length (tm_tfs m')" "j < length (tm_tfs m')" "tf_key (tm_tfs m' ! i) = tf_key (tm_tfs m' ! j)" for i j
    using tf_index [OF inv, of "tf_key (tm_tfs m' ! j)" i] tf_index [OF inv, of "tf_key (tm_tfs m' ! j)" j] that by simp
  then have "distinct (map tf_key (tm_tfs m'))" by (auto simp: distinct_conv_nth)
  moreover have "tf_key t \<in> dom (tm_tf_id m')" if t: "t \<in> set (tm_tfs m')" for t
  proof -
    obtain i where "i < length (tm_tfs m')" "tm_tfs m' ! i = t" using t by (auto simp: in_set_conv_nth)
    then have "tm_tf_id m' (tf_key t) = Some i" by (simp add: tf_index [OF inv])
    then show ?thesis by (rule domI)
  qed
  moreover have "\<And>a b. (a, b) \<in> dom (tm_tf_id m') \<Longrightarrow> (b, a) \<in> dom (tm_tf_id m') \<Longrightarrow> a = b"
    using inv unfolding tf_inv_def by blast
  ultimately show ?thesis using inv by (fastforce simp: tf_key_def)
qed

text \<open>A TF message that does not invert a known pair updates exactly the transforms that pass the
  exclude and include patterns, the last one of each pair winning, keeps all others, and forwards the
  whole buffer to the ring; static transforms are forwarded with zero stamps.\<close>

theorem tf_callback_keeps_latest:
  assumes "tf_inv m" and "tf2_callback regex_match serialize moved pops now ts m = Some m'" and "tm_tfs m' \<noteq> []"
  shows "map_option tf_transform (latest_tf m' k)
      = map_option tf_transform (foldl store_tf (latest_tf m) (filter (tf_accepted regex_match m) ts) k) \<and>
    (\<not> tm_static_tf m \<longrightarrow> latest_tf m' = foldl store_tf (latest_tf m) (filter (tf_accepted regex_match m) ts)) \<and>
    (tm_static_tf m \<longrightarrow> (\<forall>t \<in> set (tm_tfs m'). tf_stamp t = (0, 0))) \<and>
    callback moved pops now (serialize (tm_tfs m')) (tm_base m) = Some (tm_base m')"
  using assms(1,2)
proof (cases rule: tf2_callback_cases)
  case reset
  with assms(3) show ?thesis by simp
next
  case (stored m1)
  have "map_option tf_transform (latest_tf m' k) = map_option tf_transform (latest_tf m1 k)"
    using tf_index_lt [OF stored(1), of k] stored(3,5)
    by (cases "tm_tf_id m1 k") (simp_all add: latest_tf_def)
  moreover have "latest_tf m' = latest_tf m1" if "\<not> tm_static_tf m"
    using that by (intro ext) (simp add: latest_tf_def stored(3,5))
  moreover have "\<forall>t \<in> set (tm_tfs m'). tf_stamp t = (0, 0)" if "tm_static_tf m"
    using that stored(5) by auto
  ultimately show ?thesis using stored(4,6) by simp
qed

text \<open>Concrete transforms for the witnesses: \<open>b\<close> is excluded, the second \<open>map\<close> to \<open>odom\<close> transform wins.\<close>

definition tf_sample :: "nat TransformStamped list" where
  "tf_sample =
     [\<lparr>tf_frame_id = ''map'', tf_child_frame_id = ''odom'', tf_stamp = (1, 0), tf_transform = 1\<rparr>,
      \<lparr>tf_frame_id = ''map'', tf_child_frame_id = ''b'', tf_stamp = (1, 0), tf_transform = 2\<rparr>,
      \<lparr>tf_frame_id = ''map'', tf_child_frame_id = ''odom'', tf_stamp = (2, 0), tf_transform = 3\<rparr>]"

definition tf_sample_manager :: "(unit, nat, string) SubscriptionManagerTF" where
  "tf_sample_manager = (SubscriptionManagerTF_new ''/tf'' [] 3 False False)\<lparr>tm_exclude_pattern := [''b'']\<rparr>"

lemma tf_sample_run:
  obtains m' where "tf2_callback (=) (\<lambda>_. []) id (\<lambda>_. 0) 5 tf_sample tf_sample_manager = Some m'"
    "tm_tfs m' = [tf_sample ! 2]"
proof -
  obtain b where b: "callback id (\<lambda>_. 0) 5 [] (SubscriptionManager_new ''/tf'' [] 3 False :: unit SubscriptionManager) = Some b"
    by (rule callback_drop_policy [OF manager_new_inv, of "''/tf''" "[]" 3 False])
      (auto simp: SubscriptionManager_new_def set_sensor_type_def default_policy_for_def sensor_type_defs)
  then have "\<exists>m'. tf2_callback (=) (\<lambda>_. []) id (\<lambda>_. 0) 5 tf_sample tf_sample_manager = Some m' \<and> tm_tfs m' = [tf_sample ! 2]"
    by (simp add: tf2_callback_def tf_sample_def tf_sample_manager_def SubscriptionManagerTF_new_def)
  with that show thesis by blast
qed

lemma tf_sample_manager_inv: "tf_inv tf_sample_manager"
  by (simp add: tf_inv_def tf_sample_manager_def SubscriptionManagerTF_new_def)

theorem tf_buffer_consistent_witness:
  "\<exists>m'. tf2_callback (=) (\<lambda>_. []) id (\<lambda>_. 0) 5 tf_sample tf_sample_manager = Some m' \<and> distinct (map tf_key (tm_tfs m'))"
proof -
  obtain m' where "tf2_callback (=) (\<lambda>_. []) id (\<lambda>_. 0) 5 tf_sample tf_sample_manager = Some m'"
    by (rule tf_sample_run)
  with tf_buffer_consistent [OF tf_sample_manager_inv this] show ?thesis by blast
qed

theorem tf_callback_keeps_latest_witness:
  "\<exists>m'. tf2_callback (=) (\<lambda>_. []) id (\<lambda>_. 0) 5 tf_sample tf_sample_manager = Some m' \<and>
     map_option tf_transform (latest_tf m' (''map'', ''odom'')) = Some 3 \<and> latest_tf m' (''map'', ''b'') = None"
proof -
  obtain m' where m': "tf2_callback (=) (\<lambda>_. []) id (\<lambda>_. 0) 5 tf_sample tf_sample_manager = Some m'"
    and ne: "tm_tfs m' = [tf_sample ! 2]"
    by (rule tf_sample_run)
  from ne have "tm_tfs m' \<noteq> []" by simp
  note keeps = tf_callback_keeps_latest [OF tf_sample_manager_inv m' this]
  have s: "filter (tf_accepted (=) tf_sample_manager) tf_sample = [tf_sample ! 0, tf_sample ! 2]"
    by (simp add: tf_sample_def tf_sample_manager_def SubscriptionManagerTF_new_def tf_accepted_def)
  have "foldl store_tf (latest_tf tf_sample_manager) [tf_sample ! 0, tf_sample ! 2] = [(''map'', ''odom'') \<mapsto> tf_sample ! 2]"
    by (simp add: store_tf_def latest_tf_def fun_eq_iff tf_sample_def tf_sample_manager_def SubscriptionManagerTF_new_def tf_key_def)
  with keeps [of "(''map'', ''odom'')"] keeps [of "(''map'', ''b'')"] m' show ?thesis
    by (simp add: s tf_sample_def [THEN arg_cong, of "\<lambda>x. x ! 2"])
qed

end
