(* ===== verification/Network_Bridge.thy ===== *)
theory Network_Bridge
  imports Bridge_Header Link_Interface Fault_Engine Wal_Writer Subscription_Manager_TF
begin

text \<open>
  The bridge node (\<^verbatim>\<open>network_bridge.hpp\<close>, \<^verbatim>\<open>network_bridge.cpp\<close>): sending the newest message of a topic
  through compression, framing, the replay log and the fault engine to the transport, and
  publishing what the transport receives. The transport is given by its virtual functions
  (\<open>Link_Interface\<close>), a subscription manager by the virtual functions the bridge calls. Zstd and
  the ROS client library are parameters: the record \<open>Zstd\<close>, and whether a generic publisher can be
  created. The publications are recorded in \<open>nb_published\<close>. The outer option is \<^term>\<open>None\<close> for undefined
  behaviour (an access out of bounds, a null interface), \<^term>\<open>Inl e\<close> an exception that leaves the function.
\<close>

subsection \<open>Compression\<close>

datatype content_size = CONTENTSIZE_ERROR | CONTENTSIZE_UNKNOWN | ContentSize nat

record Zstd =
  ZSTD_compressBound :: "nat \<Rightarrow> nat"
  ZSTD_compress :: "nat \<Rightarrow> bytes \<Rightarrow> int \<Rightarrow> bytes option"
  ZSTD_getFrameContentSize :: "bytes \<Rightarrow> content_size"
  ZSTD_decompress :: "nat \<Rightarrow> bytes \<Rightarrow> bytes option"

text \<open>The documented behaviour: a frame of the one-pass compressor stores the size of its content and
  decompresses to it.\<close>

definition zstd_ok :: "Zstd \<Rightarrow> bool" where
  "zstd_ok Z \<longleftrightarrow> (\<forall>capacity data level c. ZSTD_compress Z capacity data level = Some c \<longrightarrow>
     ZSTD_getFrameContentSize Z c = ContentSize (length data) \<and> ZSTD_decompress Z (length data) c = Some data)"

definition bridge_compress :: "Zstd \<Rightarrow> bytes \<Rightarrow> int \<Rightarrow> cpp_exception + bytes" where
  "bridge_compress Z data zstd_compression_level =
     (let compressedCapacity = ZSTD_compressBound Z (length data)
      in case ZSTD_compress Z compressedCapacity data zstd_compression_level of
           None \<Rightarrow> Inl (runtime_error ''ZSTD_getErrorName'')
         | Some compressed_data \<Rightarrow> Inr compressed_data)"

text \<open>\<open>can_resize n\<close>: the vector can be resized to \<open>n\<close> bytes.\<close>

definition bridge_decompress :: "Zstd \<Rightarrow> (nat \<Rightarrow> bool) \<Rightarrow> bytes \<Rightarrow> cpp_exception + bytes" where
  "bridge_decompress Z can_resize compressed_data =
     (case ZSTD_getFrameContentSize Z compressed_data of
        CONTENTSIZE_ERROR \<Rightarrow> Inl (runtime_error ''Not compressed by Zstd'')
      | CONTENTSIZE_UNKNOWN \<Rightarrow> Inl (runtime_error ''Original size unknown'')
      | ContentSize decompressed_size \<Rightarrow>
          if \<not> can_resize decompressed_size then Inl (length_error ''vector::_M_default_append'')
          else case ZSTD_decompress Z decompressed_size compressed_data of
              None \<Rightarrow> Inl (runtime_error ''ZSTD_getErrorName'')
            | Some out \<Rightarrow> Inr (take decompressed_size (out @ replicate decompressed_size 0)))"

subsection \<open>State\<close>

record ('n, 'g) NetworkBridge =
  nb_network_interface :: "'n option"
  nb_publishers :: "string \<rightharpoonup> string \<times> string"
  nb_publish_namespace :: string
  nb_tx_sequence :: u64
  nb_frame_decoder :: FrameDecoder
  nb_frame_reject_count :: u64
  nb_crc_failure_count :: u64
  nb_wal_writer :: "WalWriter option"
  nb_fault_engine :: "'g FaultEngine option"
  nb_published :: "(string \<times> bytes) list"

definition NetworkBridge_new :: "('n, 'g) NetworkBridge" where
  "NetworkBridge_new = \<lparr>nb_network_interface = None, nb_publishers = Map.empty, nb_publish_namespace = [],
     nb_tx_sequence = 0, nb_frame_decoder = Map.empty, nb_frame_reject_count = 0, nb_crc_failure_count = 0,
     nb_wal_writer = None, nb_fault_engine = None, nb_published = []\<rparr>"

subsection \<open>Receiving\<close>

definition count_reject :: "FrameError \<Rightarrow> ('n, 'g) NetworkBridge \<Rightarrow> ('n, 'g) NetworkBridge" where
  "count_reject err b =
     (let b = b\<lparr>nb_frame_reject_count := nb_frame_reject_count b + 1\<rparr>
      in if err = FrameError.kHeaderCrcMismatch \<or> err = FrameError.kPayloadCrcMismatch
         then b\<lparr>nb_crc_failure_count := nb_crc_failure_count b + 1\<rparr> else b)"

text \<open>The publisher of the topic, created at the first message, and the publication; \<open>ok2\<close> is the second
  \<^verbatim>\<open>rclcpp::ok()\<close>.\<close>

definition publish_message :: "(string \<Rightarrow> string \<Rightarrow> bool) \<Rightarrow> bool \<Rightarrow> string \<Rightarrow> string \<Rightarrow> bytes
    \<Rightarrow> ('n, 'g) NetworkBridge \<Rightarrow> cpp_exception + ('n, 'g) NetworkBridge" where
  "publish_message create_ok ok2 topic type payload b =
     (let publish = (\<lambda>name b. if ok2 then b\<lparr>nb_published := nb_published b @ [(name, payload)]\<rparr> else b)
      in case nb_publishers b topic of
           Some (name, _) \<Rightarrow> Inr (publish name b)
         | None \<Rightarrow>
             let name = nb_publish_namespace b @ topic
             in if create_ok name type
                then Inr (publish name (b\<lparr>nb_publishers := (nb_publishers b)(topic \<mapsto> (name, type))\<rparr>))
                else Inl (runtime_error ''create_generic_publisher''))"

definition receive_data :: "Zstd \<Rightarrow> (nat \<Rightarrow> bool) \<Rightarrow> (string \<Rightarrow> string \<Rightarrow> bool) \<Rightarrow> bool \<Rightarrow> bool \<Rightarrow> bytes
    \<Rightarrow> ('n, 'g) NetworkBridge \<Rightarrow> (cpp_exception + ('n, 'g) NetworkBridge) option" where
  "receive_data Z can_resize create_ok ok1 ok2 data b =
     (if \<not> ok1 then Some (Inr b) else do {
        (err, fh, dec) \<leftarrow> frame_decode (nb_frame_decoder b) (Some data) 0 FrameHeader_init;
        let b = b\<lparr>nb_frame_decoder := dec\<rparr>;
        if err \<noteq> FrameError.kOk then Some (Inr (count_reject err b)) else do {
        frame_payload \<leftarrow> sub (payload_ptr data) 0 (unat (fh_payload_size fh));
        case bridge_decompress Z can_resize frame_payload of
          Inl e \<Rightarrow> Some (Inr b)
        | Inr decompressed_data \<Rightarrow> do {
            (topic, type) \<leftarrow> parse_header decompressed_data [] [];
            if topic = [] \<or> type = [] then Some (Inr b) else do {
            let header_length = length topic + 1 + length type + 1;
            if header_length > length decompressed_data then Some (Inr b) else do {
            payload \<leftarrow> sub decompressed_data header_length (length decompressed_data - header_length);
            Some (publish_message create_ok ok2 topic type payload b) }}}}})"

subsection \<open>Sending\<close>

text \<open>The callback of the fault engine: the frames that it writes go to the interface, if there is one.\<close>

definition fault_callback :: "'n NetworkInterface \<Rightarrow> bytes list \<Rightarrow> 'n option \<Rightarrow> 'n option option" where
  "fault_callback ops frames n = (case n of None \<Rightarrow> Some None | Some n \<Rightarrow> map_option Some (write_all ops frames n))"

definition with_fault_engine :: "'n NetworkInterface \<Rightarrow> ('g FaultEngine \<Rightarrow> 'g FaultEngine) \<Rightarrow> 'g FaultEngine
    \<Rightarrow> ('n, 'g) NetworkBridge \<Rightarrow> ('n, 'g) NetworkBridge option" where
  "with_fault_engine ops f e b = do {
     let e' = f e;
     n \<leftarrow> fault_callback ops (drop (length (fe_writes e)) (fe_writes e')) (nb_network_interface b);
     Some (b\<lparr>nb_fault_engine := Some e', nb_network_interface := n\<rparr>) }"

definition record_frame :: "(string \<Rightarrow> bool) \<Rightarrow> nat option \<Rightarrow> u64 \<Rightarrow> bytes \<Rightarrow> ('n, 'g) NetworkBridge \<Rightarrow> ('n, 'g) NetworkBridge" where
  "record_frame can_open failed timestamp_ns compressed_data b = (case nb_wal_writer b of
     None \<Rightarrow> b
   | Some w \<Rightarrow> b\<lparr>nb_wal_writer :=
       Some (snd (wal_append can_open failed timestamp_ns kControl (nb_tx_sequence b - 1) compressed_data w))\<rparr>)"

text \<open>\<^verbatim>\<open>send_data\<close> after the data was taken from the manager: \<open>timestamp_ns\<close> and \<open>t_s\<close> are the clock readings.\<close>

definition send_message :: "Zstd \<Rightarrow> 'n NetworkInterface \<Rightarrow> 'g Env \<Rightarrow> (string \<Rightarrow> bool) \<Rightarrow> nat option \<Rightarrow> u64 \<Rightarrow> dbl
    \<Rightarrow> string \<Rightarrow> string \<Rightarrow> int \<Rightarrow> bytes \<Rightarrow> ('n, 'g) NetworkBridge \<Rightarrow> ('n, 'g) NetworkBridge option" where
  "send_message Z ops E can_open wal_failed timestamp_ns t_s topic type level data b =
     (let header = create_header topic type;
          message = header @ data
      in case bridge_compress Z message level of
           Inl e \<Rightarrow> Some b
         | Inr compressed_data \<Rightarrow> do {
             let seq = nb_tx_sequence b;
             let b = b\<lparr>nb_tx_sequence := seq + 1\<rparr>;
             r \<leftarrow> encode_frame kControl seq timestamp_ns kFlagCompressed compressed_data;
             case r of
               Inl e \<Rightarrow> Some b
             | Inr frame \<Rightarrow> do {
                 let b = record_frame can_open wal_failed timestamp_ns compressed_data b;
                 case nb_fault_engine b of
                   Some e \<Rightarrow> with_fault_engine ops (process E frame t_s topic) e b
                 | None \<Rightarrow> (case nb_network_interface b of
                     None \<Rightarrow> None
                   | Some n \<Rightarrow> do { n \<leftarrow> ni_write ops frame n; Some (b\<lparr>nb_network_interface := Some n\<rparr>) }) }})"

text \<open>The virtual functions and the fields of a subscription manager that the bridge uses.\<close>

record 'm ManagerOps =
  mo_check_subscription :: "'m \<Rightarrow> 'm option"
  mo_has_data :: "'m \<Rightarrow> bool"
  mo_get_data :: "'m \<Rightarrow> bool \<times> bytes \<times> 'm"
  mo_topic :: "'m \<Rightarrow> string"
  mo_msg_type :: "'m \<Rightarrow> string"
  mo_zstd_level :: "'m \<Rightarrow> int"

definition generic_ops :: "('h QoS \<Rightarrow> 'h QoS) \<Rightarrow> bool \<Rightarrow> (string \<rightharpoonup> string list) \<Rightarrow> (string \<Rightarrow> 'h QoS list)
    \<Rightarrow> (SensorFrame \<Rightarrow> SensorFrame) \<Rightarrow> 'h SubscriptionManager ManagerOps" where
  "generic_ops from_rmw ok topics publishers moved =
     \<lparr>mo_check_subscription = check_subscription from_rmw ok topics publishers, mo_has_data = has_data,
      mo_get_data = get_data moved, mo_topic = sm_topic, mo_msg_type = sm_msg_type, mo_zstd_level = sm_zstd_compression_level\<rparr>"

definition tf_ops :: "('h QoS \<Rightarrow> 'h QoS) \<Rightarrow> bool \<Rightarrow> (string \<rightharpoonup> string list) \<Rightarrow> (string \<Rightarrow> 'h QoS list)
    \<Rightarrow> (SensorFrame \<Rightarrow> SensorFrame) \<Rightarrow> ('h, 'b, 'rx) SubscriptionManagerTF ManagerOps" where
  "tf_ops from_rmw ok topics publishers moved =
     \<lparr>mo_check_subscription = check_subscription_tf from_rmw ok topics publishers, mo_has_data = has_data \<circ> tm_base,
      mo_get_data = (\<lambda>m. case get_data moved (tm_base m) of (valid, data, base) \<Rightarrow> (valid, data, m\<lparr>tm_base := base\<rparr>)),
      mo_topic = sm_topic \<circ> tm_base, mo_msg_type = sm_msg_type \<circ> tm_base,
      mo_zstd_level = sm_zstd_compression_level \<circ> tm_base\<rparr>"

definition send_data :: "Zstd \<Rightarrow> 'n NetworkInterface \<Rightarrow> 'm ManagerOps \<Rightarrow> 'g Env \<Rightarrow> (string \<Rightarrow> bool) \<Rightarrow> nat option \<Rightarrow> u64 \<Rightarrow> dbl
    \<Rightarrow> ('n, 'g) NetworkBridge \<times> 'm \<Rightarrow> (('n, 'g) NetworkBridge \<times> 'm) option" where
  "send_data Z ops mops E can_open wal_failed timestamp_ns t_s s = (case s of (b, m) \<Rightarrow> do {
     m \<leftarrow> mo_check_subscription mops m;
     if \<not> mo_has_data mops m then Some (b, m)
     else case nb_network_interface b of
         None \<Rightarrow> None
       | Some n \<Rightarrow>
           if \<not> ni_is_ready ops n then Some (b, m)
           else case mo_get_data mops m of (is_data_valid, data, m) \<Rightarrow>
             if data = [] \<or> \<not> is_data_valid then Some (b, m)
             else do {
               b \<leftarrow> send_message Z ops E can_open wal_failed timestamp_ns t_s (mo_topic mops m) (mo_msg_type mops m)
                      (mo_zstd_level mops m) data b;
               Some (b, m) } })"

subsection \<open>Health check and shutdown\<close>

text \<open>Without an interface the node initialises again: \<open>initialize\<close> stands for that call.\<close>

definition check_network_health :: "'n NetworkInterface \<Rightarrow> (('n, 'g) NetworkBridge \<Rightarrow> ('n, 'g) NetworkBridge option)
    \<Rightarrow> ('n, 'g) NetworkBridge \<Rightarrow> ('n, 'g) NetworkBridge option" where
  "check_network_health ops initialize b = (case nb_network_interface b of
     None \<Rightarrow> initialize b
   | Some n \<Rightarrow>
       if ni_has_failed ops n
       then do { n \<leftarrow> ni_open ops (ni_close ops n); Some (b\<lparr>nb_network_interface := Some n\<rparr>) }
       else Some b)"

text \<open>The objects that a shutdown releases, in the state in which they are destroyed.\<close>

record ('n, 'g) released =
  rel_interface :: "'n option"
  rel_fault_engine :: "'g FaultEngine option"
  rel_wal_writer :: "WalWriter option"

definition bridge_shutdown :: "'n NetworkInterface \<Rightarrow> ('n, 'g) NetworkBridge \<Rightarrow> (('n, 'g) NetworkBridge \<times> ('n, 'g) released) option" where
  "bridge_shutdown ops b = do {
     let closed = map_option (ni_close ops) (nb_network_interface b);
     let b = b\<lparr>nb_network_interface := None, nb_publishers := Map.empty\<rparr>;
     b \<leftarrow> (case nb_fault_engine b of None \<Rightarrow> Some b | Some e \<Rightarrow> with_fault_engine ops engine_flush e b);
     let r = \<lparr>rel_interface = closed, rel_fault_engine = map_option engine_stop (nb_fault_engine b),
              rel_wal_writer = map_option wal_close (nb_wal_writer b)\<rparr>;
     Some (b\<lparr>nb_fault_engine := None, nb_wal_writer := None\<rparr>, r) }"

subsection \<open>Receiving is safe\<close>

lemma decoded_payload:
  assumes "frame_decode dec (Some data) k out = Some (FrameError.kOk, fh, dec')"
  obtains payload where "sub (payload_ptr data) 0 (unat (fh_payload_size fh)) = Some payload"
    "\<exists>rest. data = frame_image fh payload @ rest" "frame_ok fh payload"
proof -
  obtain payload rest where p: "data = frame_image fh payload @ rest" "frame_ok fh payload"
    using frame_decode_ok(1) [OF assms] decode_header_ok_iff by blast
  have "payload_ptr data = payload @ rest"
    by (simp add: p(1) payload_ptr_def kFrameOverhead_def kHeaderSize_def frame_image_def)
  moreover have "unat (fh_payload_size fh) = length payload" using p(2) by (simp add: frame_ok_def)
  ultimately have "sub (payload_ptr data) 0 (unat (fh_payload_size fh)) = Some payload" by (simp add: sub_def)
  with p that show thesis by blast
qed

text \<open>What an arbitrary datagram can do to the bridge: nothing, one count of a rejection, or one publication of the
  tail of a decompressed, well-formed message.\<close>

definition rejected :: "bytes \<Rightarrow> ('n, 'g) NetworkBridge \<Rightarrow> bool" where
  "rejected data b \<longleftrightarrow> (\<exists>err h dec. frame_decode (nb_frame_decoder b) (Some data) 0 FrameHeader_init = Some (err, h, dec) \<and> err \<noteq> FrameError.kOk)"

lemma frame_decode_ok_or_rejected:
  obtains (reject) err h where "frame_decode (nb_frame_decoder b) (Some data) 0 FrameHeader_init = Some (err, h, nb_frame_decoder b)"
      "err \<noteq> FrameError.kOk" "rejected data b"
  | (accept) h dec where "frame_decode (nb_frame_decoder b) (Some data) 0 FrameHeader_init = Some (FrameError.kOk, h, dec)"
      "\<not> rejected data b"
proof -
  obtain e h l where d: "frame_decode (nb_frame_decoder b) (Some data) 0 FrameHeader_init = Some (e, h, l)"
    using frame_decode_returns by blast
  show thesis
  proof (cases "e = FrameError.kOk")
    case True
    with d show thesis by (intro accept [of h l]) (auto simp: rejected_def)
  next
    case False
    with d frame_decode_reject [OF d False] show thesis by (intro reject [of e h]) (auto simp: rejected_def)
  qed
qed

lemma receive_rejected:
  assumes "frame_decode (nb_frame_decoder b) (Some data) 0 FrameHeader_init = Some (err, h, nb_frame_decoder b)"
    and "err \<noteq> FrameError.kOk"
  shows "receive_data Z can_resize create_ok True ok2 data b = Some (Inr (count_reject err b))"
  using assms by (simp add: receive_data_def)

lemma publish_message_result:
  assumes "publish_message create_ok ok2 topic type payload b = Inr b'"
  shows "nb_published b' = nb_published b \<or> (\<exists>name. nb_published b' = nb_published b @ [(name, payload)])"
    "nb_frame_reject_count b' = nb_frame_reject_count b" "nb_frame_decoder b' = nb_frame_decoder b"
  using assms by (auto simp: publish_message_def Let_def split: option.splits if_splits)

lemma receive_accepted:
  assumes "frame_decode (nb_frame_decoder b) (Some data) 0 FrameHeader_init = Some (FrameError.kOk, h, dec)"
  obtains (dropped) "receive_data Z can_resize create_ok True ok2 data b = Some (Inr (b\<lparr>nb_frame_decoder := dec\<rparr>))"
  | (published) c topic type payload where "\<exists>rest. data = frame_image h c @ rest" "frame_ok h c"
      "bridge_decompress Z can_resize c = Inr (create_header topic type @ payload)" "topic \<noteq> []" "type \<noteq> []"
      "receive_data Z can_resize create_ok True ok2 data b
        = Some (publish_message create_ok ok2 topic type payload (b\<lparr>nb_frame_decoder := dec\<rparr>))"
proof -
  let ?b = "b\<lparr>nb_frame_decoder := dec\<rparr>"
  obtain c where c: "sub (payload_ptr data) 0 (unat (fh_payload_size h)) = Some c" "\<exists>rest. data = frame_image h c @ rest" "frame_ok h c"
    using decoded_payload [OF assms] .
  show thesis
  proof (cases "bridge_decompress Z can_resize c")
    case (Inl e)
    with assms c(1) show thesis by (intro dropped) (simp add: receive_data_def)
  next
    case (Inr d)
    obtain topic type where ph: "parse_header d [] [] = Some (topic, type)" using parse_header_total by blast
    show thesis
    proof (cases "topic = [] \<or> type = []")
      case True
      with assms c(1) Inr ph show thesis by (intro dropped) (auto simp: receive_data_def)
    next
      case False
      then obtain payload where d: "d = create_header topic type @ payload" using parse_accepts [OF ph] by blast
      have l: "length (create_header topic type) = length topic + 1 + length type + 1" by (simp add: create_header_def)
      then have "sub d (length topic + 1 + length type + 1) (length d - (length topic + 1 + length type + 1)) = Some payload"
        using d by (simp add: sub_def flip: l)
      moreover have "\<not> length topic + 1 + length type + 1 > length d" using d l by simp
      ultimately show thesis
        using assms c Inr ph False d
        by (intro published [of c topic type payload]) (auto simp: receive_data_def Let_def)
    qed
  qed
qed

end
