(* ===== verification/Queue_Stream.thy ===== *)
theory Queue_Stream
  imports SF_Prelude
begin

text \<open>
  The blocking byte queue between the socket and the packet thread
  (\<^verbatim>\<open>include/network_bridge/thrift_stream.hpp\<close>, \<^verbatim>\<open>thrift_stream_queue.hpp\<close>). A reader that waits on the
  condition variable resumes with what the other threads did meanwhile: a wake-up carries the bytes
  that were pushed and whether the stream was shut down. The list of wake-ups is an argument; a
  reader that would need one extra is blocked.
\<close>

subsection \<open>Definitions\<close>

record QueueStream =
  qs_finish :: bool
  qs_Q :: bytes

type_synonym wakeup = "bytes \<times> bool"

definition QueueStream_init :: QueueStream where
  "QueueStream_init = \<lparr>qs_finish = False, qs_Q = []\<rparr>"

definition is_shutdown :: "QueueStream \<Rightarrow> bool" where
  "is_shutdown s = qs_finish s"

definition available :: "QueueStream \<Rightarrow> nat" where
  "available s = length (qs_Q s)"

definition stream_reset :: "QueueStream \<Rightarrow> QueueStream" where
  "stream_reset s = s\<lparr>qs_Q := [], qs_finish := False\<rparr>"

definition stream_shutdown :: "QueueStream \<Rightarrow> QueueStream" where
  "stream_shutdown s = s\<lparr>qs_finish := True, qs_Q := []\<rparr>"

definition pushBytes :: "bytes \<Rightarrow> QueueStream \<Rightarrow> QueueStream" where
  "pushBytes bs s = s\<lparr>qs_Q := qs_Q s @ bs\<rparr>"

definition pushUint8 :: "u8 \<Rightarrow> QueueStream \<Rightarrow> QueueStream" where
  "pushUint8 v s = s\<lparr>qs_Q := qs_Q s @ [v]\<rparr>"

definition byte_of :: "nat \<Rightarrow> 'a::len word \<Rightarrow> u8" where
  "byte_of n v = ucast (drop_bit n v AND 0xFF)"

definition pushUint16 :: "u16 \<Rightarrow> QueueStream \<Rightarrow> QueueStream" where
  "pushUint16 v s = s\<lparr>qs_Q := qs_Q s @ [byte_of 8 v, byte_of 0 v]\<rparr>"

definition pushUint32 :: "u32 \<Rightarrow> QueueStream \<Rightarrow> QueueStream" where
  "pushUint32 v s = s\<lparr>qs_Q := qs_Q s @ [byte_of 24 v, byte_of 16 v, byte_of 8 v, byte_of 0 v]\<rparr>"

definition pushUint64 :: "u64 \<Rightarrow> QueueStream \<Rightarrow> QueueStream" where
  "pushUint64 v s = s\<lparr>qs_Q := qs_Q s @ [byte_of 56 v, byte_of 48 v, byte_of 40 v, byte_of 32 v,
     byte_of 24 v, byte_of 16 v, byte_of 8 v, byte_of 0 v]\<rparr>"

definition pushString :: "string \<Rightarrow> QueueStream \<Rightarrow> QueueStream" where
  "pushString v s = s\<lparr>qs_Q := qs_Q s @ map of_char v\<rparr>"

text \<open>What a read comes to: the value, \<^verbatim>\<open>false\<close> after a shutdown, a call of \<^verbatim>\<open>front()\<close> on an empty list, or
  a reader that is still waiting.\<close>

datatype 'a read_result =
    Read (read_value: 'a) QueueStream "wakeup list"
  | ReadFalse QueueStream
  | ReadUndefined
  | ReadBlocked

definition wake :: "wakeup \<Rightarrow> QueueStream \<Rightarrow> QueueStream" where
  "wake w s = (case w of (extra, fin) \<Rightarrow>
     if fin then stream_shutdown (pushBytes extra s) else pushBytes extra s)"

fun readBytes_loop :: "nat \<Rightarrow> bytes \<Rightarrow> wakeup list \<Rightarrow> QueueStream \<Rightarrow> bytes read_result" where
  "readBytes_loop 0 acc ws s = Read acc s ws"
| "readBytes_loop (Suc n) acc ws s =
     (case qs_Q s of
        b # q \<Rightarrow> readBytes_loop n (acc @ [b]) ws (s\<lparr>qs_Q := q\<rparr>)
      | [] \<Rightarrow>
         (case ws of
            [] \<Rightarrow> ReadBlocked
          | w # ws \<Rightarrow>
             (let s = wake w s
              in if qs_finish s then ReadFalse s
                 else case qs_Q s of
                     [] \<Rightarrow> ReadUndefined
                   | b # q \<Rightarrow> readBytes_loop n (acc @ [b]) ws (s\<lparr>qs_Q := q\<rparr>))))"

definition readBytes :: "nat \<Rightarrow> wakeup list \<Rightarrow> QueueStream \<Rightarrow> bytes read_result" where
  "readBytes len ws s = readBytes_loop len [] ws s"

definition read_map :: "(bytes \<Rightarrow> 'a) \<Rightarrow> bytes read_result \<Rightarrow> 'a read_result" where
  "read_map f r = (case r of
     Read bs s ws \<Rightarrow> Read (f bs) s ws | ReadFalse s \<Rightarrow> ReadFalse s
   | ReadUndefined \<Rightarrow> ReadUndefined | ReadBlocked \<Rightarrow> ReadBlocked)"

text \<open>The typed reads assemble the bytes most significant first, in the order of the code.\<close>

definition readUint8 :: "wakeup list \<Rightarrow> QueueStream \<Rightarrow> u8 read_result" where
  "readUint8 ws s = read_map (\<lambda>bs. bs ! 0) (readBytes 1 ws s)"

definition readUint16 :: "wakeup list \<Rightarrow> QueueStream \<Rightarrow> u16 read_result" where
  "readUint16 ws s = read_map (\<lambda>bs. push_bit 8 (ucast (bs ! 0)) OR ucast (bs ! 1)) (readBytes 2 ws s)"

definition readUint32 :: "wakeup list \<Rightarrow> QueueStream \<Rightarrow> u32 read_result" where
  "readUint32 ws s = read_map (\<lambda>bs.
     (let b = ucast (bs ! 0); b = push_bit 8 b OR ucast (bs ! 1); b = push_bit 8 b OR ucast (bs ! 2)
      in push_bit 8 b OR ucast (bs ! 3))) (readBytes 4 ws s)"

definition readUint64 :: "wakeup list \<Rightarrow> QueueStream \<Rightarrow> u64 read_result" where
  "readUint64 ws s = read_map (\<lambda>bs.
     foldl (\<lambda>b i. push_bit 8 b OR ucast (bs ! i)) (ucast (bs ! 0)) [1..<8]) (readBytes 8 ws s)"

definition readString :: "nat \<Rightarrow> wakeup list \<Rightarrow> QueueStream \<Rightarrow> string read_result" where
  "readString len ws s = read_map (map (\<lambda>b. char_of (unat b))) (readBytes len ws s)"

fun readSome_loop :: "bytes \<Rightarrow> nat \<Rightarrow> nat \<Rightarrow> bytes \<Rightarrow> bytes \<times> nat \<times> bytes" where
  "readSome_loop out len maxlen [] = (out, len, [])"
| "readSome_loop out len maxlen (v # q) =
     (if maxlen = 0 \<or> len < maxlen then readSome_loop (out @ [v]) (len + 1) maxlen q
      else (out, len, v # q))"

definition readSome :: "bytes \<Rightarrow> nat \<Rightarrow> QueueStream \<Rightarrow> bytes \<times> nat \<times> QueueStream" where
  "readSome out maxlen s = (case readSome_loop out 0 maxlen (qs_Q s) of (out, len, q) \<Rightarrow> (out, len, s\<lparr>qs_Q := q\<rparr>))"

definition getOneByte :: "wakeup list \<Rightarrow> QueueStream \<Rightarrow> u8 read_result" where
  "getOneByte ws s =
     (if qs_finish s then Read 0 s ws
      else case qs_Q s of
         v # q \<Rightarrow> Read v (s\<lparr>qs_Q := q\<rparr>) ws
       | [] \<Rightarrow> (case ws of
           [] \<Rightarrow> ReadBlocked
         | w # ws \<Rightarrow>
            (let s = wake w s
             in if qs_finish s then Read 0 s ws
                else case qs_Q s of [] \<Rightarrow> ReadUndefined | v # q \<Rightarrow> Read v (s\<lparr>qs_Q := q\<rparr>) ws)))"

subsection \<open>Reading what was pushed\<close>

text \<open>Wake-ups that bring data and no shutdown.\<close>

definition feeding :: "wakeup list \<Rightarrow> bool" where
  "feeding ws \<longleftrightarrow> (\<forall>(extra, fin) \<in> set ws. extra \<noteq> [] \<and> \<not> fin)"

lemma readBytes_loop_fifo:
  assumes "feeding ws" and "\<not> qs_finish s" and "n \<le> length (qs_Q s @ concat (map fst ws))"
  shows "\<exists>s' ws'. readBytes_loop n acc ws s = Read (acc @ take n (qs_Q s @ concat (map fst ws))) s' ws' \<and>
    qs_Q s' @ concat (map fst ws') = drop n (qs_Q s @ concat (map fst ws)) \<and> \<not> qs_finish s' \<and> feeding ws'"
  using assms
proof (induction n arbitrary: acc ws s)
  case 0
  then show ?case by simp
next
  case (Suc n)
  show ?case
  proof (cases "qs_Q s")
    case (Cons b q)
    with Suc.IH [of ws "s\<lparr>qs_Q := q\<rparr>" "acc @ [b]"] Suc.prems show ?thesis by simp
  next
    case Nil
    with Suc.prems(3) obtain extra fin ws1 where ws: "ws = (extra, fin) # ws1" by (cases ws) auto
    with Suc.prems(1) obtain b q where extra: "extra = b # q" "\<not> fin" "feeding ws1"
      by (cases extra) (auto simp: feeding_def)
    let ?s = "s\<lparr>qs_Q := q\<rparr>"
    have "readBytes_loop (Suc n) acc ws s = readBytes_loop n (acc @ [b]) ws1 ?s"
      using Nil Suc.prems(2) by (simp add: ws extra wake_def pushBytes_def)
    with Suc.IH [of ws1 ?s "acc @ [b]"] Suc.prems Nil show ?thesis by (simp add: ws extra)
  qed
qed

lemma readBytes_fifo:
  assumes "feeding ws" and "\<not> qs_finish s" and "n \<le> length (qs_Q s @ concat (map fst ws))"
  obtains s' ws' where "readBytes n ws s = Read (take n (qs_Q s @ concat (map fst ws))) s' ws'"
    "qs_Q s' @ concat (map fst ws') = drop n (qs_Q s @ concat (map fst ws))"
  using readBytes_loop_fifo [OF assms, of "[]"] unfolding readBytes_def by auto

lemma readBytes_queued:
  assumes "qs_Q s = bs @ rest" and "\<not> qs_finish s"
  shows "readBytes (length bs) ws s = Read bs (s\<lparr>qs_Q := rest\<rparr>) ws"
proof -
  have "readBytes_loop (length bs) acc ws s = Read (acc @ bs) (s\<lparr>qs_Q := rest\<rparr>) ws" for acc
    using assms
    by (induction bs arbitrary: s acc) (cases s; simp)+
  then show ?thesis by (simp add: readBytes_def)
qed

lemma byte_of_le_bytes: "8 * i = n \<Longrightarrow> i < k \<Longrightarrow> byte_of n v = le_bytes k v ! i"
  by (simp add: byte_of_def ucast_and_byte le_bytes_nth)

lemma push_big_endian:
  "[byte_of 8 v, byte_of 0 v] = rev (le_bytes 2 v)"
  "[byte_of 24 v, byte_of 16 v, byte_of 8 v, byte_of 0 v] = rev (le_bytes 4 v)"
  "[byte_of 56 v, byte_of 48 v, byte_of 40 v, byte_of 32 v, byte_of 24 v, byte_of 16 v, byte_of 8 v, byte_of 0 v]
     = rev (le_bytes 8 v)"
  by (simp_all add: byte_of_def ucast_and_byte le_bytes_def upt_2 upt_4 upt_8)

lemma read_big_endian:
  "length bs = 2 \<Longrightarrow> push_bit 8 (ucast (bs ! 0)) OR ucast (bs ! 1) = (le_word (rev bs) :: u16)"
  "length bs = 4 \<Longrightarrow> (let b = ucast (bs ! 0); b = push_bit 8 b OR ucast (bs ! 1); b = push_bit 8 b OR ucast (bs ! 2)
    in push_bit 8 b OR ucast (bs ! 3)) = (le_word (rev bs) :: u32)"
  "length bs = 8 \<Longrightarrow> foldl (\<lambda>b i. push_bit 8 b OR ucast (bs ! i)) (ucast (bs ! 0)) [1..<8] = (le_word (rev bs) :: u64)"
  unfolding foldl_big_endian [symmetric]
  by (auto simp: numeral_eq_Suc length_Suc_conv upt_rec [of 1])

lemma read_pushed:
  assumes "\<not> qs_finish s" and "qs_Q s = []" and "length bs = n" and "f bs = v"
  shows "read_map f (readBytes n ws (s\<lparr>qs_Q := qs_Q s @ bs\<rparr>)) = Read v s ws"
proof -
  have "readBytes (length bs) ws (s\<lparr>qs_Q := bs\<rparr>) = Read bs s ws"
    using readBytes_queued [of "s\<lparr>qs_Q := bs\<rparr>" bs "[]" ws] assms(1,2) by (cases s) simp
  with assms show ?thesis by (simp add: read_map_def)
qed

text \<open>An integer that was pushed is read back.\<close>

lemma stream_int_roundtrip:
  assumes "\<not> qs_finish s" and "qs_Q s = []"
  shows "readUint16 ws (pushUint16 v16 s) = Read v16 s ws"
    and "readUint32 ws (pushUint32 v32 s) = Read v32 s ws"
    and "readUint64 ws (pushUint64 v64 s) = Read v64 s ws"
proof -
  show "readUint16 ws (pushUint16 v16 s) = Read v16 s ws"
    unfolding readUint16_def pushUint16_def push_big_endian(1)
    by (rule read_pushed [OF assms], simp, subst read_big_endian(1)) (simp_all add: le_word_le_bytes)
  show "readUint32 ws (pushUint32 v32 s) = Read v32 s ws"
    unfolding readUint32_def pushUint32_def push_big_endian(2)
    by (rule read_pushed [OF assms], simp, subst read_big_endian(2)) (simp_all add: le_word_le_bytes)
  show "readUint64 ws (pushUint64 v64 s) = Read v64 s ws"
    unfolding readUint64_def pushUint64_def push_big_endian(3)
    by (rule read_pushed [OF assms], simp, subst read_big_endian(3)) (simp_all add: le_word_le_bytes)
qed

subsection \<open>Properties\<close>

text \<open>A blocking read returns the queued bytes followed by the bytes that arrive while it waits, in order
  and exactly as many as asked for, however the arrival is split into wake-ups, as long as each
  wake-up brings data.\<close>

theorem readBytes_in_order:
  assumes "feeding ws" and "\<not> qs_finish s" and "n \<le> length (qs_Q s @ concat (map fst ws))"
  shows "\<exists>s' ws'. readBytes n ws s = Read (take n (qs_Q s @ concat (map fst ws))) s' ws' \<and>
    qs_Q s' @ concat (map fst ws') = drop n (qs_Q s @ concat (map fst ws))"
  using assms by (rule readBytes_fifo) blast

theorem readBytes_in_order_witness:
  "\<exists>s' ws'. readBytes 3 [([2, 3, 4], False)] (\<lparr>qs_finish = False, qs_Q = [1]\<rparr>) = Read [1, 2, 3] s' ws' \<and>
    qs_Q s' @ concat (map fst ws') = [4]"
  using readBytes_in_order [of "[([2, 3, 4], False)]" "\<lparr>qs_finish = False, qs_Q = [1]\<rparr>" 3]
  by (simp add: feeding_def numeral_eq_Suc)

text \<open>A wake-up that brings no data, as the standard allows at any time and as an empty push causes, makes
  a waiting reader take the front of the empty list: the wait is not repeated.\<close>

theorem empty_wakeup_undefined:
  "readBytes (Suc n) (([], False) # ws) QueueStream_init = ReadUndefined"
  by (simp add: readBytes_def wake_def pushBytes_def QueueStream_init_def)

end
