(* ===== verification/Framing_Interface.thy ===== *)
theory Framing_Interface
  imports SF_Prelude
begin

text \<open>
  The contract of a stream decoder as the bridge relies on it: it is fed the bytes of a connection
  in chunks and emits the payloads of complete frames. \<open>feed\<close> processes a chunk, \<open>idle\<close> holds between
  frames, and \<open>wire\<close> is what the sender puts on the connection for a payload it may send.
\<close>

fun feed_chunks :: "(bytes \<Rightarrow> 's \<Rightarrow> bytes list \<times> 's) \<Rightarrow> bytes list \<Rightarrow> 's \<Rightarrow> bytes list \<times> 's" where
  "feed_chunks feed [] s = ([], s)"
| "feed_chunks feed (c # cs) s =
     (case feed c s of (o1, s1) \<Rightarrow> case feed_chunks feed cs s1 of (o2, s2) \<Rightarrow> (o1 @ o2, s2))"

locale stream_framing =
  fixes feed :: "bytes \<Rightarrow> 's \<Rightarrow> bytes list \<times> 's"
    and idle :: "'s \<Rightarrow> bool"
    and sendable :: "bytes \<Rightarrow> bool"
    and wire :: "bytes \<Rightarrow> bytes"
  assumes feed_append: "feed (a @ b) s = (case feed a s of (o1, s1) \<Rightarrow> case feed b s1 of (o2, s2) \<Rightarrow> (o1 @ o2, s2))"
    and feed_frame: "\<lbrakk>idle s; sendable p\<rbrakk> \<Longrightarrow> \<exists>s'. feed (wire p) s = ([p], s') \<and> idle s'"
    and feed_nil: "idle s \<Longrightarrow> feed [] s = ([], s)"
begin

text \<open>How the connection splits the bytes does not matter.\<close>

lemma chunking: "cs \<noteq> [] \<Longrightarrow> feed_chunks feed cs s = feed (concat cs) s"
proof (induction cs arbitrary: s)
  case Nil
  then show ?case by simp
next
  case (Cons c cs)
  show ?case
  proof (cases "cs = []")
    case True
    then show ?thesis by (simp split: prod.split)
  next
    case False
    with Cons.IH show ?thesis by (simp add: feed_append)
  qed
qed

text \<open>All payloads arrive, in order, and nothing else.\<close>

lemma feed_frames: "idle s \<Longrightarrow> \<forall>p \<in> set ps. sendable p \<Longrightarrow> \<exists>s'. feed (concat (map wire ps)) s = (ps, s') \<and> idle s'"
proof (induction ps arbitrary: s)
  case Nil
  then show ?case by (simp add: feed_nil)
next
  case (Cons p ps)
  then obtain s1 where s1: "feed (wire p) s = ([p], s1)" "idle s1" using feed_frame by force
  with Cons.IH [OF s1(2)] Cons.prems show ?case by (auto simp: feed_append)
qed

lemma delivers_all:
  assumes "idle s" and "\<forall>p \<in> set ps. sendable p" and "concat cs = concat (map wire ps)" and "cs \<noteq> []"
  shows "\<exists>s'. feed_chunks feed cs s = (ps, s') \<and> idle s'"
  using feed_frames [OF assms(1,2)] chunking [OF assms(4)] assms(3) by simp

end

end
