(* ===== verification/Tcp_Reassembler.thy ===== *)
theory Tcp_Reassembler
  imports Framing_Interface
begin

text \<open>
  The byte-at-a-time reassembler of the TCP framing
  (\<^verbatim>\<open>include/sensorforge/transport/tcp_reassembler.hpp\<close>): start bytes, a big-endian length with a hard
  bound, the payload. The callback is modelled by the list of payloads it receives.
\<close>

subsection \<open>Definitions\<close>

record TcpReassembler =
  max_payload :: u32
  ra_state :: u8
  size_bytes :: bytes
  size_idx :: u8
  payload_size :: u32
  payload :: bytes
  payloads_emitted :: u64
  resyncs :: u64

definition TcpReassembler_new :: "u32 \<Rightarrow> TcpReassembler" where
  "TcpReassembler_new max_pl = \<lparr>max_payload = max_pl, ra_state = 0, size_bytes = [0, 0, 0, 0], size_idx = 0,
     payload_size = 0, payload = [], payloads_emitted = 0, resyncs = 0\<rparr>"

definition kDefaultMaxPayload :: u32 where "kDefaultMaxPayload = 8 * 1024 * 1024"

definition reassembler_reset :: "TcpReassembler \<Rightarrow> TcpReassembler" where
  "reassembler_reset r = r\<lparr>ra_state := 0, size_idx := 0, payload_size := 0, payload := []\<rparr>"

definition feed_byte :: "u8 \<Rightarrow> TcpReassembler \<Rightarrow> bytes list \<times> TcpReassembler" where
  "feed_byte b r =
     (if ra_state r = 0 then
        (if b = 0xAB then ([], r\<lparr>ra_state := 1\<rparr>) else ([], r))
      else if ra_state r = 1 then
        (if b = 0xCD then ([], r\<lparr>ra_state := 2, size_idx := 0\<rparr>)
         else if b = 0xAB then ([], r\<lparr>ra_state := 1\<rparr>)
         else ([], r\<lparr>ra_state := 0, resyncs := resyncs r + 1\<rparr>))
      else if ra_state r = 2 then
        (let r = r\<lparr>size_bytes := (size_bytes r)[unat (size_idx r) := b], size_idx := size_idx r + 1\<rparr>
         in if size_idx r = 4 then
              (let sz = push_bit 24 (ucast (size_bytes r ! 0)) OR push_bit 16 (ucast (size_bytes r ! 1)) OR
                        push_bit 8 (ucast (size_bytes r ! 2)) OR ucast (size_bytes r ! 3);
                   r = r\<lparr>size_idx := 0, payload_size := sz\<rparr>
               in if payload_size r > max_payload r
                  then ([], r\<lparr>ra_state := 0, payload_size := 0, resyncs := resyncs r + 1\<rparr>)
                  else if payload_size r = 0
                  then ([[]], r\<lparr>payloads_emitted := payloads_emitted r + 1, ra_state := 0\<rparr>)
                  else ([], r\<lparr>payload := [], ra_state := 3\<rparr>))
            else ([], r))
      else if ra_state r = 3 then
        (let r = r\<lparr>payload := payload r @ [b]\<rparr>
         in if length (payload r) = unat (payload_size r)
            then ([payload r], r\<lparr>payloads_emitted := payloads_emitted r + 1, payload := [], ra_state := 0\<rparr>)
            else ([], r))
      else ([], r\<lparr>ra_state := 0\<rparr>))"

fun reassembler_feed :: "bytes \<Rightarrow> TcpReassembler \<Rightarrow> bytes list \<times> TcpReassembler" where
  "reassembler_feed [] r = ([], r)"
| "reassembler_feed (b # bs) r =
     (case feed_byte b r of (o1, r1) \<Rightarrow> case reassembler_feed bs r1 of (o2, r2) \<Rightarrow> (o1 @ o2, r2))"

text \<open>The framing the header of the file describes.\<close>

definition be_wire :: "bytes \<Rightarrow> bytes" where
  "be_wire p = [0xAB, 0xCD] @ rev (le_bytes 4 (word_of_nat (length p) :: u32)) @ p"

subsection \<open>Invariant\<close>

text \<open>The array index stays in bounds, and the payload buffer below the bound.\<close>

definition reassembler_inv :: "TcpReassembler \<Rightarrow> bool" where
  "reassembler_inv r \<longleftrightarrow> ra_state r \<le> 3 \<and> length (size_bytes r) = 4 \<and> size_idx r < 4 \<and>
     (ra_state r = 3 \<longrightarrow> length (payload r) < unat (payload_size r) \<and> payload_size r \<le> max_payload r) \<and>
     (ra_state r \<noteq> 3 \<longrightarrow> payload r = [])"

lemma reassembler_new_inv: "reassembler_inv (TcpReassembler_new m)"
  by (simp add: reassembler_inv_def TcpReassembler_new_def)

lemma reassembler_states: "(x :: u8) \<le> 3 \<Longrightarrow> x = 0 \<or> x = 1 \<or> x = 2 \<or> x = 3"
  by (simp add: word_le_nat_alt word_unat_eq_iff) linarith

lemma feed_byte_inv:
  assumes "reassembler_inv r" and "feed_byte b r = (out, r')"
  shows "reassembler_inv r' \<and> max_payload r' = max_payload r \<and>
    (\<forall>p \<in> set out. length p \<le> unat (max_payload r)) \<and>
    payloads_emitted r' = payloads_emitted r + word_of_nat (length out)"
proof -
  consider "ra_state r = 0" | "ra_state r = 1" | "ra_state r = 2" | "ra_state r = 3"
    using assms(1) unfolding reassembler_inv_def by (metis reassembler_states)
  then show ?thesis
  proof cases
    case 1
    with assms show ?thesis by (auto simp: feed_byte_def reassembler_inv_def split: if_splits)
  next
    case 2
    with assms show ?thesis by (auto simp: feed_byte_def reassembler_inv_def split: if_splits)
  next
    case 3
    have "size_idx r + 1 < 4" if "size_idx r + 1 \<noteq> 4"
      using assms(1) that unfolding reassembler_inv_def by unat_arith
    with 3 assms show ?thesis
      by (auto simp: feed_byte_def reassembler_inv_def Let_def unat_gt_0 not_less split: if_splits)
  next
    case 4
    with assms show ?thesis
      by (auto simp: feed_byte_def reassembler_inv_def Let_def word_le_nat_alt split: if_splits)
  qed
qed

lemma reassembler_feed_inv:
  "reassembler_inv r \<Longrightarrow> reassembler_feed bs r = (out, r') \<Longrightarrow> reassembler_inv r' \<and> max_payload r' = max_payload r \<and>
    (\<forall>p \<in> set out. length p \<le> unat (max_payload r)) \<and>
    payloads_emitted r' = payloads_emitted r + word_of_nat (length out)"
proof (induction bs arbitrary: r out)
  case Nil
  then show ?case by simp
next
  case (Cons b bs)
  obtain o1 r1 o2 where s: "feed_byte b r = (o1, r1)" "reassembler_feed bs r1 = (o2, r')" "out = o1 @ o2"
    using Cons.prems(2) by (auto split: prod.splits)
  from feed_byte_inv [OF Cons.prems(1) s(1)] Cons.IH [OF _ s(2)] s(3) show ?case by auto
qed

subsection \<open>A whole frame\<close>

lemma big_endian_size:
  "push_bit 24 (ucast b0) OR push_bit 16 (ucast b1) OR push_bit 8 (ucast b2) OR ucast b3
     = (le_word [b3, b2, b1, b0] :: u32)"
  by (simp add: push_bit_or ac_simps)

lemma feed_size:
  assumes "ra_state r = 2" and "size_idx r = 0" and "length (size_bytes r) = 4"
    and sz: "le_word [b3, b2, b1, b0] = sz" and "sz \<le> max_payload r"
  shows "reassembler_feed [b0, b1, b2, b3] r =
    (if sz = 0 then [[]] else [],
     if sz = 0 then r\<lparr>size_bytes := [b0, b1, b2, b3], size_idx := 0, payload_size := 0, payloads_emitted := payloads_emitted r + 1, ra_state := 0\<rparr>
     else r\<lparr>size_bytes := [b0, b1, b2, b3], size_idx := 0, payload_size := sz, payload := [], ra_state := 3\<rparr>)"
proof -
  obtain x0 x1 x2 x3 where x: "size_bytes r = [x0, x1, x2, x3]"
    using assms(3) by (auto simp: numeral_eq_Suc length_Suc_conv)
  show ?thesis
    using assms(1,2,5) by (simp add: feed_byte_def Let_def x big_endian_size sz not_less del: le_word.simps)
qed

lemma feed_size_large:
  assumes "ra_state r = 2" and "size_idx r = 0" and "length (size_bytes r) = 4"
    and sz: "le_word [b3, b2, b1, b0] > max_payload r"
  shows "reassembler_feed [b0, b1, b2, b3] r =
    ([], r\<lparr>ra_state := 0, size_bytes := [b0, b1, b2, b3], size_idx := 0, payload_size := 0, resyncs := resyncs r + 1\<rparr>)"
proof -
  obtain x0 x1 x2 x3 where x: "size_bytes r = [x0, x1, x2, x3]"
    using assms(3) by (auto simp: numeral_eq_Suc length_Suc_conv)
  show ?thesis
    using assms(1,2) sz x by (cases r) (simp add: feed_byte_def Let_def big_endian_size del: le_word.simps)
qed

lemma feed_payload:
  "ra_state r = 3 \<Longrightarrow> bs \<noteq> [] \<Longrightarrow> length (payload r) + length bs = unat (payload_size r) \<Longrightarrow>
   reassembler_feed bs r =
     ([payload r @ bs], r\<lparr>payloads_emitted := payloads_emitted r + 1, payload := [], ra_state := 0\<rparr>)"
proof (induction bs arbitrary: r)
  case Nil
  then show ?case by simp
next
  case (Cons b bs)
  show ?case
  proof (cases "bs = []")
    case True
    with Cons.prems show ?thesis by (simp add: feed_byte_def Let_def)
  next
    case False
    let ?r = "r\<lparr>payload := payload r @ [b]\<rparr>"
    have "Suc (length (payload r)) \<noteq> unat (payload_size r)" using Cons.prems(3) False by (cases bs) auto
    then have "feed_byte b r = ([], ?r)" using Cons.prems by (simp add: feed_byte_def Let_def)
    with Cons.IH [of ?r] Cons.prems False show ?thesis by simp
  qed
qed

lemma reassembler_feed_append:
  "reassembler_feed (a @ b) r = (case reassembler_feed a r of (o1, r1) \<Rightarrow>
     case reassembler_feed b r1 of (o2, r2) \<Rightarrow> (o1 @ o2, r2))"
  by (induction a arbitrary: r) (auto split: prod.splits)

definition reassembler_idle :: "u32 \<Rightarrow> TcpReassembler \<Rightarrow> bool" where
  "reassembler_idle m r \<longleftrightarrow> reassembler_inv r \<and> ra_state r = 0 \<and> max_payload r = m"

lemma feed_frame:
  assumes idle: "reassembler_idle m r" and len: "length p \<le> unat m"
  shows "\<exists>r'. reassembler_feed (be_wire p) r = ([p], r') \<and> reassembler_idle m r'"
proof -
  let ?n = "word_of_nat (length p) :: u32"
  let ?r1 = "r\<lparr>ra_state := 2, size_idx := 0\<rparr>"
  have n: "unat ?n = length p" using len unsigned_less [of m, where 'a = nat] by (simp add: unat_of_nat)
  have le: "?n \<le> max_payload ?r1" using idle len n by (simp add: reassembler_idle_def word_le_nat_alt)
  have 1: "reassembler_feed [0xAB, 0xCD] r = ([], ?r1)"
    using idle by (simp add: reassembler_idle_def feed_byte_def)
  obtain b0 b1 b2 b3 where b: "le_bytes 4 ?n = [b3, b2, b1, b0]"
    by (simp add: le_bytes_def upt_4)
  have "le_word [b3, b2, b1, b0] = ?n" using le_word_le_bytes [of 4 ?n] by (simp add: b)
  then have 2: "reassembler_feed [b0, b1, b2, b3] ?r1 =
      (if ?n = 0 then [[]] else [],
       if ?n = 0 then ?r1\<lparr>size_bytes := [b0, b1, b2, b3], size_idx := 0, payload_size := 0, payloads_emitted := payloads_emitted ?r1 + 1, ra_state := 0\<rparr>
       else ?r1\<lparr>size_bytes := [b0, b1, b2, b3], size_idx := 0, payload_size := ?n, payload := [], ra_state := 3\<rparr>)"
    using idle le by (intro feed_size) (simp_all add: reassembler_idle_def reassembler_inv_def)
  have z: "?n = 0 \<longleftrightarrow> p = []" using n by (metis length_0_conv unat_0 unat_eq_0)
  have w: "be_wire p = [0xAB, 0xCD] @ [b0, b1, b2, b3] @ p" by (simp add: be_wire_def b)
  obtain r2 where feed: "reassembler_feed (be_wire p) r = ([p], r2)" and st: "ra_state r2 = 0"
  proof (cases "p = []")
    case True
    with that 2 z show thesis unfolding w reassembler_feed_append 1 by simp
  next
    case False
    let ?r3 = "?r1\<lparr>size_bytes := [b0, b1, b2, b3], size_idx := 0, payload_size := ?n, payload := [], ra_state := 3\<rparr>"
    have "reassembler_feed [b0, b1, b2, b3] ?r1 = ([], ?r3)" using 2 z False by simp
    moreover have "reassembler_feed p ?r3
        = ([p], ?r3\<lparr>payloads_emitted := payloads_emitted ?r3 + 1, payload := [], ra_state := 0\<rparr>)"
      using feed_payload [of ?r3 p] False n by simp
    ultimately show thesis using that unfolding w reassembler_feed_append 1 by simp
  qed
  have "reassembler_inv r" using idle by (simp add: reassembler_idle_def)
  from reassembler_feed_inv [OF this feed] idle feed st show ?thesis by (auto simp: reassembler_idle_def)
qed

interpretation reassembler: stream_framing reassembler_feed "reassembler_idle m" "\<lambda>p. length p \<le> unat m" be_wire for m
proof
  show "reassembler_feed (a @ b) r = (case reassembler_feed a r of (o1, r1) \<Rightarrow>
      case reassembler_feed b r1 of (o2, r2) \<Rightarrow> (o1 @ o2, r2))" for a b r
    by (rule reassembler_feed_append)
qed (simp_all add: feed_frame)

subsection \<open>Nothing is made up\<close>

text \<open>What the reassembler holds is the end of the bytes it was fed.\<close>

definition holds_tail :: "bytes \<Rightarrow> TcpReassembler \<Rightarrow> bool" where
  "holds_tail fed r \<longleftrightarrow>
     (ra_state r = 1 \<longrightarrow> (\<exists>pre. fed = pre @ [0xAB])) \<and>
     (ra_state r = 2 \<longrightarrow> (\<exists>pre. fed = pre @ [0xAB, 0xCD] @ take (unat (size_idx r)) (size_bytes r))) \<and>
     (ra_state r = 3 \<longrightarrow> size_bytes r = rev (le_bytes 4 (payload_size r)) \<and>
        (\<exists>pre. fed = pre @ [0xAB, 0xCD] @ size_bytes r @ payload r))"

lemma size_read:
  assumes "length xs = 4"
  shows "(push_bit 24 (ucast (xs ! 0)) OR push_bit 16 (ucast (xs ! 1)) OR push_bit 8 (ucast (xs ! 2)) OR ucast (xs ! 3) :: u32)
       = le_word (rev xs)"
proof -
  obtain x0 x1 x2 x3 where x: "xs = [x0, x1, x2, x3]"
    using assms by (auto simp: numeral_eq_Suc length_Suc_conv)
  show ?thesis using big_endian_size [of x0 x1 x2 x3] unfolding x by (simp del: le_word.simps)
qed

lemma rev_size_bytes:
  assumes "length xs = 4" shows "rev (le_bytes 4 (le_word (rev xs) :: u32)) = xs"
  using le_bytes_le_word_len [of "rev xs" 4, where 'a = 32] assms by simp

lemma take_update_next: "i < length xs \<Longrightarrow> take (Suc i) (xs[i := b]) = take i xs @ [b]"
  by (simp add: take_Suc_conv_app_nth)

lemma feed_size_tail:
  assumes inv: "reassembler_inv r" and tail: "holds_tail fed r" and step: "feed_byte b r = (out, r')" and st: "ra_state r = 2"
  shows "holds_tail (fed @ [b]) r' \<and> (\<forall>p\<in>set out. \<exists>pre. fed @ [b] = pre @ be_wire p)"
proof -
  obtain pre where fed: "fed = pre @ [0xAB, 0xCD] @ take (unat (size_idx r)) (size_bytes r)"
    using tail st by (auto simp: holds_tail_def)
  let ?xs = "(size_bytes r)[unat (size_idx r) := b]"
  have len: "length ?xs = 4" and i: "unat (size_idx r) < 4"
    using inv by (simp_all add: reassembler_inv_def word_less_nat_alt)
  have fed': "fed @ [b] = pre @ [0xAB, 0xCD] @ take (Suc (unat (size_idx r))) ?xs"
    using take_update_next [of "unat (size_idx r)" "size_bytes r" b] i len by (simp add: fed)
  have Suc: "unat (size_idx r + 1) = Suc (unat (size_idx r))" using i by (simp add: unat_word_ariths)
  show ?thesis
  proof (cases "size_idx r + 1 = 4")
    case False
    with step st fed' Suc show ?thesis by (auto simp: feed_byte_def holds_tail_def Let_def)
  next
    case True
    then have idx: "size_idx r = 3" by simp
    obtain xs where xs: "(size_bytes r)[3 := b] = xs" and len: "length xs = 4" using len idx by simp
    have all: "fed @ [b] = pre @ [0xAB, 0xCD] @ xs" using fed' len by (simp add: idx xs)
    have wire: "be_wire [] = [0xAB, 0xCD] @ xs" if "le_word (rev xs) = (0 :: u32)"
      using rev_size_bytes [OF len] that by (simp add: be_wire_def)
    show ?thesis
      using step st all wire rev_size_bytes [OF len]
      by (auto simp: feed_byte_def holds_tail_def Let_def idx xs size_read [OF len, simplified] split: if_splits)
  qed
qed

lemma feed_byte_tail:
  assumes inv: "reassembler_inv r" and tail: "holds_tail fed r" and step: "feed_byte b r = (out, r')"
  shows "holds_tail (fed @ [b]) r' \<and> (\<forall>p\<in>set out. \<exists>pre. fed @ [b] = pre @ be_wire p)"
proof -
  consider "ra_state r = 0" | "ra_state r = 1" | "ra_state r = 2" | "ra_state r = 3"
    using inv unfolding reassembler_inv_def by (metis reassembler_states)
  then show ?thesis
  proof cases
    case 1
    with step show ?thesis by (auto simp: feed_byte_def holds_tail_def split: if_splits)
  next
    case 2
    with step tail show ?thesis by (auto simp: feed_byte_def holds_tail_def split: if_splits)
  next
    case 3
    with inv tail step show ?thesis by (rule feed_size_tail)
  next
    case 4
    obtain pre where fed: "fed = pre @ [0xAB, 0xCD] @ size_bytes r @ payload r" and sz: "size_bytes r = rev (le_bytes 4 (payload_size r))"
      using tail 4 by (auto simp: holds_tail_def)
    have "fed @ [b] = pre @ be_wire (payload r @ [b])" if "Suc (length (payload r)) = unat (payload_size r)"
      using that by (simp add: fed sz be_wire_def)
    with 4 step fed sz show ?thesis by (auto simp: feed_byte_def holds_tail_def Let_def split: if_splits)
  qed
qed

text \<open>The payloads with the bytes before each: \<open>gaps\<close> are the bytes that belong to no frame.\<close>

definition framed :: "bytes list \<Rightarrow> bytes list \<Rightarrow> bytes" where
  "framed gaps ps = concat (map2 (\<lambda>g p. g @ be_wire p) gaps ps)"

lemma feed_byte_out: "feed_byte b r = (out, r') \<Longrightarrow> out = [] \<or> (\<exists>p. out = [p] \<and> ra_state r' = 0)"
  by (auto simp: feed_byte_def Let_def split: if_splits)

lemma feed_tail:
  "reassembler_inv r \<Longrightarrow> holds_tail fed r \<Longrightarrow> reassembler_feed bs r = (out, r') \<Longrightarrow>
     \<exists>gaps rest. length gaps = length out \<and> fed @ bs = framed gaps out @ rest"
proof (induction bs arbitrary: fed r out)
  case Nil
  then show ?case by (simp add: framed_def)
next
  case (Cons b bs)
  obtain o1 r1 o2 where s: "feed_byte b r = (o1, r1)" "reassembler_feed bs r1 = (o2, r')" "out = o1 @ o2"
    using Cons.prems(3) by (auto split: prod.splits)
  note one = feed_byte_tail [OF Cons.prems(1,2) s(1)]
  have inv: "reassembler_inv r1" using feed_byte_inv [OF Cons.prems(1) s(1)] by simp
  from feed_byte_out [OF s(1)] show ?case
  proof
    assume "o1 = []"
    with Cons.IH [OF inv _ s(2), of "fed @ [b]"] one s(3) show ?thesis by simp
  next
    assume "\<exists>p. o1 = [p] \<and> ra_state r1 = 0"
    then obtain p where p: "o1 = [p]" "holds_tail [] r1" by (auto simp: holds_tail_def)
    then obtain pre where pre: "fed @ [b] = pre @ be_wire p" using one by auto
    obtain gaps rest where g: "length gaps = length o2" "bs = framed gaps o2 @ rest"
      using Cons.IH [OF inv p(2) s(2)] by auto
    have "fed @ b # bs = framed (pre # gaps) out @ rest" using pre g by (simp add: framed_def s(3) p(1))
    with g(1) show ?thesis by (intro exI [of _ "pre # gaps"]) (auto simp: s(3) p(1))
  qed
qed

lemma holds_tail_new: "holds_tail [] (TcpReassembler_new m)"
  by (simp add: holds_tail_def TcpReassembler_new_def)

subsection \<open>Properties\<close>

text \<open>Payloads within the bound, sent in the documented framing and cut into chunks in any way, are all
  emitted, in order and unchanged, and nothing else is emitted.\<close>

theorem reassembler_delivers:
  assumes "reassembler_idle m r" and "\<forall>p \<in> set ps. length p \<le> unat m"
    and "concat chunks = concat (map be_wire ps)" and "chunks \<noteq> []"
  shows "\<exists>r'. feed_chunks reassembler_feed chunks r = (ps, r') \<and> reassembler_idle m r'"
  using assms by (rule reassembler.delivers_all)

theorem reassembler_delivers_witness:
  "\<exists>r'. feed_chunks reassembler_feed [[0xAB], [0xCD, 0, 0, 0], [2, 7], [], [9, 0xAB, 0xCD, 0, 0, 0, 0]]
      (TcpReassembler_new 8) = ([[7, 9], []], r')"
proof -
  have idle: "reassembler_idle 8 (TcpReassembler_new 8)"
    by (simp add: reassembler_idle_def reassembler_new_inv) (simp add: TcpReassembler_new_def)
  have "concat [[0xAB], [0xCD, 0, 0, 0], [2, 7], [], [9, 0xAB, 0xCD, 0, 0, 0, 0]] = concat (map be_wire [[7, 9], []])"
    by (simp add: be_wire_def le_bytes_def upt_4)
  from reassembler_delivers [OF idle _ this] show ?thesis by auto
qed

text \<open>C40: On arbitrary input, hostile lengths included, the reassembler stays in its four states, never indexes
  outside the length array, never buffers or emits more than the payload bound, and counts what it
  emits.\<close>

theorem reassembler_bounded:
  assumes "reassembler_feed bs (TcpReassembler_new m) = (out, r)"
  shows "reassembler_inv r \<and> unat (size_idx r) < length (size_bytes r) \<and> length (payload r) \<le> unat m \<and>
    (\<forall>p \<in> set out. length p \<le> unat m) \<and> payloads_emitted r = word_of_nat (length out)"
proof -
  have "reassembler_inv r \<and> max_payload r = m \<and> (\<forall>p \<in> set out. length p \<le> unat m) \<and>
      payloads_emitted r = word_of_nat (length out)"
    using reassembler_feed_inv [OF reassembler_new_inv assms] by (simp add: TcpReassembler_new_def)
  moreover from this have "unat (size_idx r) < length (size_bytes r)"
    by (simp add: reassembler_inv_def word_less_nat_alt)
  moreover from calculation have "length (payload r) \<le> unat m"
    by (cases "ra_state r = 3") (auto simp: reassembler_inv_def word_le_nat_alt)
  ultimately show ?thesis by blast
qed

theorem reassembler_bounded_witness:
  "\<exists>out r. reassembler_feed [0xAB, 0xCD, 0xFF, 0xFF, 0xFF, 0xFF] (TcpReassembler_new 8) = (out, r) \<and>
     reassembler_inv r \<and> length (payload r) \<le> 8"
proof -
  obtain out r where f: "reassembler_feed [0xAB, 0xCD, 0xFF, 0xFF, 0xFF, 0xFF] (TcpReassembler_new 8) = (out, r)"
    by force
  from reassembler_bounded [OF f] f show ?thesis by auto
qed


end
