(* ===== verification/Tcp_Interface.thy ===== *)
theory Tcp_Interface
  imports Queue_Stream Tcp_Reassembler Link_Interface
begin

text \<open>
  The TCP transport (\<^verbatim>\<open>include/network_interfaces/tcp_interface.hpp\<close>,
  \<^verbatim>\<open>src/network_interfaces/tcp_interface.cpp\<close>). Sockets are parameters: the error codes of the calls, the
  outcome of every connection attempt, and how many bytes a failing write got out. The packet thread
  is the loop \<open>receive_loop\<close> over the bytes queued so far; where the code blocks on the queue the loop
  returns, to be resumed when more bytes arrive. \<open>little\<close> says whether the host is little-endian.
\<close>

subsection \<open>The packet thread\<close>

record packet_thread =
  pt_state :: u8
  pt_payload_size :: u32
  pt_Q :: bytes

definition packet_thread_init :: packet_thread where
  "packet_thread_init = \<lparr>pt_state = 0, pt_payload_size = 0, pt_Q = []\<rparr>"

definition htonl :: "bool \<Rightarrow> u32 \<Rightarrow> u32" where
  "htonl little x = (if little then le_word (rev (le_bytes 4 x)) else x)"

function receive_loop :: "bool \<Rightarrow> packet_thread \<Rightarrow> bytes list \<times> packet_thread" where
  "receive_loop little t =
     (if pt_state t = 0 then
        (case pt_Q t of
           [] \<Rightarrow> ([], t)
         | start1 # q \<Rightarrow> receive_loop little (t\<lparr>pt_state := (if start1 = 0xAB then 1 else 0), pt_Q := q\<rparr>))
      else if pt_state t = 1 then
        (case pt_Q t of
           [] \<Rightarrow> ([], t)
         | start2 # q \<Rightarrow> receive_loop little
             (t\<lparr>pt_state := (if start2 = 0xCD then 2 else if start2 = 0xAB then 1 else 0), pt_Q := q\<rparr>))
      else if pt_state t = 2 then
        (if length (pt_Q t) < 4 then ([], t)
         else receive_loop little (t\<lparr>pt_state := 3,
           pt_payload_size := htonl little (le_word (rev (take 4 (pt_Q t)))), pt_Q := drop 4 (pt_Q t)\<rparr>))
      else if pt_state t = 3 then
        (if length (pt_Q t) < unat (pt_payload_size t) then ([], t)
         else case receive_loop little (t\<lparr>pt_state := 0, pt_Q := drop (unat (pt_payload_size t)) (pt_Q t)\<rparr>) of
             (out, t') \<Rightarrow> (take (unat (pt_payload_size t)) (pt_Q t) # out, t'))
      else receive_loop little (t\<lparr>pt_state := 0\<rparr>))"
  by pat_completeness auto
termination
  by (relation "measure (\<lambda>(little, t). 3 * length (pt_Q t) + (if pt_state t \<in> {0, 1, 2} then 0 else 1))") auto

declare receive_loop.simps [simp del]

text \<open>Bytes that \<^verbatim>\<open>receive\<close> pushed to the queue wake the packet thread up.\<close>

definition tcp_feed :: "bool \<Rightarrow> bytes \<Rightarrow> packet_thread \<Rightarrow> bytes list \<times> packet_thread" where
  "tcp_feed little chunk t = receive_loop little (t\<lparr>pt_Q := pt_Q t @ chunk\<rparr>)"

text \<open>What \<^verbatim>\<open>write\<close> puts on the connection: the size is copied from memory in host byte order.\<close>

definition host_bytes :: "bool \<Rightarrow> u32 \<Rightarrow> bytes" where
  "host_bytes little x = (if little then le_bytes 4 x else rev (le_bytes 4 x))"

definition tcp_wire :: "bool \<Rightarrow> bytes \<Rightarrow> bytes" where
  "tcp_wire little data =
     (let sz = word_of_nat (length data) :: u32
      in [0xAB, 0xCD] @ host_bytes little sz @ take (unat sz) data)"

subsection \<open>The interface\<close>

record TcpInterface =
  ti_role :: string
  ti_remote_address :: string
  ti_port :: int
  ti_ready :: bool
  ti_failed :: bool
  ti_shutting_down :: bool
  ti_acceptor :: bool
  ti_socket :: bool
  ti_receiving :: bool
  ti_stream :: QueueStream
  ti_wire_out :: bytes

definition tcp_load_parameters :: "(string \<rightharpoonup> string) \<Rightarrow> (string \<rightharpoonup> int) \<Rightarrow> TcpInterface \<Rightarrow> TcpInterface" where
  "tcp_load_parameters strings ints i =
     (let str = (\<lambda>p. case strings (''TcpInterface.'' @ p) of None \<Rightarrow> [] | Some v \<Rightarrow> v);
          num = (\<lambda>p. case ints (''TcpInterface.'' @ p) of None \<Rightarrow> 0 | Some v \<Rightarrow> v)
      in i\<lparr>ti_role := str ''role'', ti_remote_address := str ''remote_address'', ti_port := num ''port''\<rparr>)"

datatype process_exit = Exit1 | AddressException

text \<open>Results are \<^term>\<open>Inl Exit1\<close> when the process exits and \<^term>\<open>Inl AddressException\<close> when parsing the address throws.\<close>

definition tcp_error_handler :: "bool \<Rightarrow> bool \<Rightarrow> TcpInterface \<Rightarrow> process_exit + TcpInterface" where
  "tcp_error_handler ec fatal i = (if ec \<and> fatal \<and> \<not> ti_shutting_down i then Inl Exit1 else Inr i)"

definition tcp_is_ready :: "TcpInterface \<Rightarrow> bool" where
  "tcp_is_ready i = (ti_ready i \<and> \<not> ti_failed i)"

definition tcp_has_failed :: "TcpInterface \<Rightarrow> bool" where
  "tcp_has_failed i = ti_failed i"

definition tcp_start_receive :: "TcpInterface \<Rightarrow> TcpInterface" where
  "tcp_start_receive i = (if ti_socket i then i\<lparr>ti_receiving := True\<rparr> else i)"

text \<open>The four error codes are those of open, set\_option, bind and listen.\<close>

definition setup_server :: "bool \<times> bool \<times> bool \<times> bool \<Rightarrow> TcpInterface \<Rightarrow> process_exit + TcpInterface" where
  "setup_server ecs i = (case ecs of (ec_open, ec_option, ec_bind, ec_listen) \<Rightarrow>
     let fatal = (\<not> ti_shutting_down i);
         i = i\<lparr>ti_socket := True, ti_acceptor := True\<rparr>
     in case tcp_error_handler ec_open fatal i of Inl e \<Rightarrow> Inl e | Inr i \<Rightarrow>
        if ti_shutting_down i then Inr i
        else case tcp_error_handler ec_option fatal i of Inl e \<Rightarrow> Inl e | Inr i \<Rightarrow>
        if ti_shutting_down i then Inr i
        else case tcp_error_handler ec_bind fatal i of Inl e \<Rightarrow> Inl e | Inr i \<Rightarrow>
        if ti_shutting_down i then Inr i
        else tcp_error_handler ec_listen fatal i)"

text \<open>The completion handler of the accept.\<close>

definition on_accept :: "bool \<Rightarrow> TcpInterface \<Rightarrow> process_exit + TcpInterface" where
  "on_accept ec i = (case tcp_error_handler ec (\<not> ti_shutting_down i) i of
     Inl e \<Rightarrow> Inl e
   | Inr i \<Rightarrow> Inr (if \<not> ti_shutting_down i then tcp_start_receive (i\<lparr>ti_ready := True\<rparr>) else i))"

text \<open>The connection loop: \<open>ros_ok k\<close> and \<open>connects k\<close> are the answers at the \<open>k\<close>-th attempt.\<close>

partial_function (option) connect_loop :: "(nat \<Rightarrow> bool) \<Rightarrow> (nat \<Rightarrow> bool) \<Rightarrow> nat \<Rightarrow> TcpInterface \<Rightarrow> TcpInterface option" where
  "connect_loop ros_ok connects k i =
     (if ros_ok k
      then if connects k then Some (tcp_start_receive (i\<lparr>ti_ready := True\<rparr>))
           else connect_loop ros_ok connects (Suc k) (i\<lparr>ti_ready := False\<rparr>)
      else Some i)"

text \<open>The address is parsed by the overload that throws; the error code checked after it is never set.\<close>

definition setup_client :: "(string \<Rightarrow> bool) \<Rightarrow> (nat \<Rightarrow> bool) \<Rightarrow> (nat \<Rightarrow> bool) \<Rightarrow> TcpInterface
    \<Rightarrow> (process_exit + TcpInterface) option" where
  "setup_client address_ok ros_ok connects i =
     (if \<not> address_ok (ti_remote_address i) then Some (Inl AddressException)
      else map_option Inr (connect_loop ros_ok connects 0 (i\<lparr>ti_socket := True\<rparr>)))"

definition tcp_open :: "(string \<Rightarrow> bool) \<Rightarrow> bool \<times> bool \<times> bool \<times> bool \<Rightarrow> (nat \<Rightarrow> bool) \<Rightarrow> (nat \<Rightarrow> bool) \<Rightarrow> TcpInterface
    \<Rightarrow> (process_exit + TcpInterface) option" where
  "tcp_open address_ok ecs ros_ok connects i =
     (let i = i\<lparr>ti_shutting_down := False, ti_failed := False, ti_ready := False, ti_stream := stream_reset (ti_stream i)\<rparr>
      in if ti_role i = ''server'' then Some (setup_server ecs i)
         else if ti_role i = ''client'' then setup_client address_ok ros_ok connects i
         else Some (Inr i))"

definition tcp_close :: "TcpInterface \<Rightarrow> TcpInterface" where
  "tcp_close i = i\<lparr>ti_shutting_down := True, ti_acceptor := False, ti_socket := False, ti_receiving := False,
     ti_stream := stream_shutdown (ti_stream i)\<rparr>"

text \<open>The completion handler of a read: the bytes, or \<^term>\<open>None\<close> for an error.\<close>

definition tcp_receive :: "bytes option \<Rightarrow> TcpInterface \<Rightarrow> process_exit + TcpInterface" where
  "tcp_receive r i = (case r of
     Some bs \<Rightarrow> Inr (tcp_start_receive (i\<lparr>ti_stream := pushBytes bs (ti_stream i)\<rparr>))
   | None \<Rightarrow> tcp_error_handler True False (i\<lparr>ti_failed := True\<rparr>))"

text \<open>\<open>sent\<close> is \<^term>\<open>None\<close> if the three writes succeed, or the number of bytes that went out before the exception;
  the result is \<^term>\<open>None\<close> if there is no socket to dereference.\<close>

definition tcp_write :: "bool \<Rightarrow> nat option \<Rightarrow> bytes \<Rightarrow> TcpInterface \<Rightarrow> TcpInterface option" where
  "tcp_write little sent data i =
     (if \<not> ti_socket i then None
      else case sent of
          None \<Rightarrow> Some (i\<lparr>ti_wire_out := ti_wire_out i @ tcp_wire little data\<rparr>)
        | Some k \<Rightarrow> Some (i\<lparr>ti_wire_out := ti_wire_out i @ take k (tcp_wire little data), ti_failed := True\<rparr>))"

subsection \<open>Framing\<close>

lemma htonl_host: "htonl little (le_word (rev (host_bytes little x))) = x"
proof (cases little)
  case True
  have l: "length (rev (le_bytes 4 x)) = 4" by simp
  have "le_bytes 4 (le_word (rev (le_bytes 4 x)) :: u32) = rev (le_bytes 4 x)"
    by (rule le_bytes_le_word_len) simp_all
  with True show ?thesis by (simp add: htonl_def host_bytes_def le_word_le_bytes)
next
  case False
  then show ?thesis by (simp add: htonl_def host_bytes_def le_word_le_bytes)
qed

text \<open>A blocked thread continues with more bytes as if it had had them from the start.\<close>

lemma receive_loop_more:
  "receive_loop little (t\<lparr>pt_Q := pt_Q t @ b\<rparr>) = (case receive_loop little t of (o1, t1) \<Rightarrow>
     case receive_loop little (t1\<lparr>pt_Q := pt_Q t1 @ b\<rparr>) of (o2, t2) \<Rightarrow> (o1 @ o2, t2))"
proof (induction little t rule: receive_loop.induct)
  case (1 little t)
  note unf = receive_loop.simps [of little t] receive_loop.simps [of little "t\<lparr>pt_Q := pt_Q t @ b\<rparr>"]
  show ?case
  proof (cases "receive_loop little t = ([], t)")
    case True
    then show ?thesis by (simp split: prod.split)
  next
    case False
    consider "pt_state t = 0" | "pt_state t = 1" | "pt_state t = 2" | "pt_state t = 3"
      | (other) "pt_state t \<notin> {0, 1, 2, 3}" by blast
    then show ?thesis
    proof cases
      case one: 1
      with False obtain x q where q: "pt_Q t = x # q" by (cases "pt_Q t") (auto simp: unf)
      from "1.IH"(1) [OF one q] show ?thesis unfolding unf using one q by simp
    next
      case two: 2
      with False obtain x q where q: "pt_Q t = x # q" by (cases "pt_Q t") (auto simp: unf)
      from "1.IH"(2) [OF _ two q] two show ?thesis unfolding unf using q by simp
    next
      case three: 3
      with False have len: "\<not> length (pt_Q t) < 4" by (auto simp: unf)
      from "1.IH"(3) [OF _ _ three len] three show ?thesis unfolding unf using len by simp
    next
      case four: 4
      with False have len: "\<not> length (pt_Q t) < unat (pt_payload_size t)" by (auto simp: unf)
      from "1.IH"(4) [OF _ _ _ four len] four show ?thesis unfolding unf using len by (simp split: prod.splits)
    next
      case other
      then have "receive_loop little t = receive_loop little (t\<lparr>pt_state := 0\<rparr>)" unfolding unf(1) by simp
      moreover have "receive_loop little (t\<lparr>pt_Q := pt_Q t @ b\<rparr>) = receive_loop little (t\<lparr>pt_state := 0, pt_Q := pt_Q t @ b\<rparr>)"
        using other unfolding unf(2) by (cases t) simp
      ultimately show ?thesis using other "1.IH"(5) by simp
    qed
  qed
qed

lemma tcp_feed_append:
  "tcp_feed little (a @ b) t = (case tcp_feed little a t of (o1, t1) \<Rightarrow>
     case tcp_feed little b t1 of (o2, t2) \<Rightarrow> (o1 @ o2, t2))"
  using receive_loop_more [of little "t\<lparr>pt_Q := pt_Q t @ a\<rparr>" b] by (simp add: tcp_feed_def)

definition tcp_idle :: "packet_thread \<Rightarrow> bool" where
  "tcp_idle t \<longleftrightarrow> pt_state t = 0 \<and> pt_Q t = []"

lemma tcp_feed_nil: "tcp_idle t \<Longrightarrow> tcp_feed little [] t = ([], t)"
  by (cases t) (simp add: tcp_feed_def tcp_idle_def receive_loop.simps)

lemma tcp_feed_frame:
  assumes idle: "tcp_idle t" and len: "length p < 2 ^ 32"
  shows "\<exists>t'. tcp_feed little (tcp_wire little p) t = ([p], t') \<and> tcp_idle t'"
proof -
  let ?n = "word_of_nat (length p) :: u32"
  let ?sz = "host_bytes little ?n"
  have n: "unat ?n = length p" using len by (simp add: unat_of_nat)
  have l: "length ?sz = 4" by (simp add: host_bytes_def)
  let ?t1 = "t\<lparr>pt_state := 1, pt_Q := 0xCD # ?sz @ p\<rparr>" and ?t2 = "t\<lparr>pt_state := 2, pt_Q := ?sz @ p\<rparr>"
  let ?t3 = "t\<lparr>pt_state := 3, pt_payload_size := ?n, pt_Q := p\<rparr>"
  let ?t4 = "t\<lparr>pt_payload_size := ?n, pt_state := 0, pt_Q := []\<rparr>"
  have "tcp_feed little (tcp_wire little p) t = receive_loop little (t\<lparr>pt_Q := 0xAB # 0xCD # ?sz @ p\<rparr>)"
    using idle by (simp add: tcp_feed_def tcp_wire_def tcp_idle_def n)
  also have "\<dots> = receive_loop little ?t1"
    using idle by (subst receive_loop.simps) (simp add: tcp_idle_def)
  also have "\<dots> = receive_loop little ?t2" by (subst receive_loop.simps) simp
  also have "\<dots> = receive_loop little ?t3" by (subst receive_loop.simps) (simp add: l htonl_host)
  also have "\<dots> = (case receive_loop little ?t4 of (out, t') \<Rightarrow> (p # out, t'))"
    by (subst receive_loop.simps) (simp add: n)
  also have "receive_loop little ?t4 = ([], ?t4)" by (subst receive_loop.simps) simp
  finally show ?thesis by (simp add: tcp_idle_def)
qed

interpretation tcp: stream_framing "tcp_feed little" tcp_idle "\<lambda>p. length p < 2 ^ 32" "tcp_wire little" for little
proof
  show "tcp_feed little (a @ b) t = (case tcp_feed little a t of (o1, t1) \<Rightarrow>
      case tcp_feed little b t1 of (o2, t2) \<Rightarrow> (o1 @ o2, t2))" for a b t
    by (rule tcp_feed_append)
  show "tcp_feed little [] t = ([], t)" if "tcp_idle t" for t
    using that by (rule tcp_feed_nil)
  show "\<exists>t'. tcp_feed little (tcp_wire little p) t = ([p], t') \<and> tcp_idle t'" if "tcp_idle t" "length p < 2 ^ 32" for t p
    using that by (rule tcp_feed_frame)
qed

text \<open>The virtual functions as the bridge calls them; the process exit and a connection loop that does not end have
  no state to continue with.\<close>

definition tcp_ops :: "bool \<Rightarrow> nat option \<Rightarrow> (string \<Rightarrow> bool) \<Rightarrow> bool \<times> bool \<times> bool \<times> bool \<Rightarrow> (nat \<Rightarrow> bool) \<Rightarrow> (nat \<Rightarrow> bool) \<Rightarrow> TcpInterface NetworkInterface" where
  "tcp_ops little sent address_ok ecs ros_ok connects =
     \<lparr>ni_open = (\<lambda>i. case tcp_open address_ok ecs ros_ok connects i of Some (Inr i) \<Rightarrow> Some i | _ \<Rightarrow> None),
      ni_close = tcp_close, ni_is_ready = tcp_is_ready, ni_has_failed = tcp_has_failed, ni_write = tcp_write little sent\<rparr>"

interpretation tcp_link: message_link "tcp_ops little None address_ok ecs ros_ok connects" ti_socket ti_wire_out "tcp_wire little" "\<lambda>_. True"
  for little address_ok ecs ros_ok connects
  by unfold_locales (simp add: tcp_ops_def tcp_write_def tcp_is_ready_def)

lemma bit_imp_exp_le: "bit (x :: 'a::len word) k \<Longrightarrow> 2 ^ k \<le> unat x"
proof -
  assume "bit x k"
  then have "odd (unat x div 2 ^ k)" by (simp add: bit_unsigned_iff flip: bit_iff_odd)
  then have "unat x div 2 ^ k \<noteq> 0" by (metis even_zero)
  then show ?thesis by (simp add: div_eq_0_iff)
qed

lemma swapped_size_large:
  assumes "b0 \<noteq> 0"
  shows "le_word [b3, b2, b1, b0] > kDefaultMaxPayload"
proof -
  from assms obtain k where k: "bit b0 k" using bit_eq_iff [of b0 0] by auto
  then have k8: "k < 8" using bit_imp_le_length [of b0 k] by simp
  then have "(24 + k) div 8 = 3" and "(24 + k) mod 8 = k" by presburger+
  then have "bit (le_word [b3, b2, b1, b0] :: u32) (24 + k)"
    unfolding bit_le_word using k k8 by simp
  then have "2 ^ (24 + k) \<le> unat (le_word [b3, b2, b1, b0] :: u32)" by (rule bit_imp_exp_le)
  moreover have "(2 :: nat) ^ 24 \<le> 2 ^ (24 + k)" by (rule power_increasing) simp_all
  ultimately have "2 ^ 24 \<le> unat (le_word [b3, b2, b1, b0] :: u32)" by (rule order_trans [rotated])
  then show ?thesis by (simp add: word_less_nat_alt kDefaultMaxPayload_def del: le_word.simps)
qed

lemma low_byte_zero_iff: "(ucast (word_of_nat n :: u32) :: u8) = 0 \<longleftrightarrow> n mod 256 = 0"
proof -
  have "unat (ucast (word_of_nat n :: u32) :: u8) = n mod 2 ^ 32 mod 2 ^ 8"
    by (simp add: unsigned_ucast_eq take_bit_eq_mod unat_of_nat)
  also have "\<dots> = n mod 2 ^ 8" by (rule mod_mod_cancel) (simp add: le_imp_power_dvd)
  finally show ?thesis by (simp add: word_unat_eq_iff)
qed

lemma connect_loop_keeps:
  assumes "connect_loop ros_ok connects k i = Some i'"
  shows "ti_failed i' = ti_failed i \<and> ti_stream i' = ti_stream i"
proof -
  let ?P = "\<lambda>ros_ok connects (k :: nat) i i'. ti_failed i' = ti_failed i \<and> ti_stream i' = ti_stream i"
  show ?thesis
  proof (rule connect_loop.raw_induct [where P = ?P, OF _ assms])
    fix f ros_ok connects k i i'
    assume IH: "\<And>ros_ok connects k i i'. f ros_ok connects k i = Some i' \<Longrightarrow> ?P ros_ok connects k i i'"
      and eq: "(if ros_ok k then if connects k then Some (tcp_start_receive (i\<lparr>ti_ready := True\<rparr>))
           else f ros_ok connects (Suc k) (i\<lparr>ti_ready := False\<rparr>) else Some i) = Some i'"
    show "?P ros_ok connects k i i'"
      using eq IH [of ros_ok connects "Suc k" "i\<lparr>ti_ready := False\<rparr>" i']
      by (auto simp: tcp_start_receive_def split: if_splits)
  qed
qed

subsection \<open>Properties\<close>

text \<open>Between two hosts of the same byte order, messages below 4 GiB that \<^verbatim>\<open>write\<close> puts on a TCP connection
  are all handed to the receive callback, in order and unchanged, however the connection splits the
  bytes into reads.\<close>

theorem tcp_delivers:
  assumes "\<forall>p \<in> set ps. length p < 2 ^ 32" and "concat reads = concat (map (tcp_wire little) ps)" and "reads \<noteq> []"
  shows "\<exists>t. feed_chunks (tcp_feed little) reads packet_thread_init = (ps, t) \<and> tcp_idle t"
  by (rule tcp.delivers_all [OF _ assms]) (simp add: tcp_idle_def packet_thread_init_def)

theorem tcp_delivers_witness:
  "\<exists>t. feed_chunks (tcp_feed True) [[0xAB, 0xCD, 1], [0, 0, 0, 7, 0xAB], [0xCD, 0, 0, 0, 0]] packet_thread_init
      = ([[7], []], t) \<and> tcp_idle t"
proof -
  have "concat [[0xAB, 0xCD, 1], [0, 0, 0, 7, 0xAB], [0xCD, 0, 0, 0, 0]] = concat (map (tcp_wire True) [[7], []])"
    by (simp add: tcp_wire_def host_bytes_def le_bytes_def upt_4)
  from tcp_delivers [OF _ this] show ?thesis by auto
qed

text \<open>The stand-alone reassembler does not read what \<^verbatim>\<open>TcpInterface::write\<close> sends on a little-endian host: for
  every message whose length is not a multiple of 256 it takes the length for an impossible one and
  resynchronises instead of emitting the payload.\<close>

theorem reassembler_misreads_tcp:
  assumes "reassembler_idle kDefaultMaxPayload r" and "length p < 2 ^ 32" and "length p mod 256 \<noteq> 0"
  shows "reassembler_feed (take 6 (tcp_wire True p)) r
    = ([], r\<lparr>ra_state := 0, size_bytes := le_bytes 4 (word_of_nat (length p) :: u32), size_idx := 0, payload_size := 0,
           resyncs := resyncs r + 1\<rparr>)"
proof -
  let ?n = "word_of_nat (length p) :: u32"
  let ?r1 = "r\<lparr>ra_state := 2, size_idx := 0\<rparr>"
  obtain b0 b1 b2 b3 where b: "le_bytes 4 ?n = [b0, b1, b2, b3]" and b0: "b0 = ucast ?n"
    by (simp add: le_bytes_def upt_4)
  have w: "take 6 (tcp_wire True p) = [0xAB, 0xCD] @ [b0, b1, b2, b3]"
    by (simp add: tcp_wire_def host_bytes_def b)
  have 1: "reassembler_feed [0xAB, 0xCD] r = ([], ?r1)"
    using assms(1) by (simp add: reassembler_idle_def feed_byte_def)
  have "b0 \<noteq> 0" using assms(3) by (simp add: b0 low_byte_zero_iff)
  then have "le_word [b3, b2, b1, b0] > max_payload ?r1"
    using swapped_size_large assms(1) by (simp add: reassembler_idle_def del: le_word.simps)
  then have 2: "reassembler_feed [b0, b1, b2, b3] ?r1 =
      ([], ?r1\<lparr>ra_state := 0, size_bytes := [b0, b1, b2, b3], size_idx := 0, payload_size := 0, resyncs := resyncs ?r1 + 1\<rparr>)"
    using assms(1) by (intro feed_size_large) (simp_all add: reassembler_idle_def reassembler_inv_def)
  show ?thesis unfolding w reassembler_feed_append 1 prod.case 2 b by (cases r) simp
qed

theorem reassembler_misreads_tcp_witness:
  "fst (reassembler_feed (take 6 (tcp_wire True [7, 8])) (TcpReassembler_new kDefaultMaxPayload)) = [] \<and>
   resyncs (snd (reassembler_feed (take 6 (tcp_wire True [7, 8])) (TcpReassembler_new kDefaultMaxPayload))) = 1"
proof -
  have "reassembler_idle kDefaultMaxPayload (TcpReassembler_new kDefaultMaxPayload)"
    by (simp add: reassembler_idle_def reassembler_new_inv) (simp add: TcpReassembler_new_def)
  from reassembler_misreads_tcp [OF this, of "[7, 8]"] show ?thesis by (simp add: TcpReassembler_new_def)
qed

text \<open>A failed connection is reported and never taken for ready: after an error on a read or a write
  \<^verbatim>\<open>has_failed\<close> holds and \<^verbatim>\<open>is_ready\<close> does not, until \<^verbatim>\<open>open\<close> clears both; a set-up error of a server ends
  the process.\<close>

theorem tcp_failure_reported:
  "(\<forall>i'. tcp_receive None i = Inr i' \<longrightarrow> tcp_has_failed i' \<and> \<not> tcp_is_ready i') \<and> tcp_receive None i \<noteq> Inl Exit1 \<and>
   (\<forall>i'. tcp_write little (Some k) data i = Some i' \<longrightarrow> tcp_has_failed i' \<and> \<not> tcp_is_ready i') \<and>
   (\<forall>i'. tcp_open address_ok ecs ros_ok connects i = Some (Inr i') \<longrightarrow> \<not> tcp_has_failed i' \<and> qs_Q (ti_stream i') = []) \<and>
   (ti_role i = ''server'' \<longrightarrow>
      (tcp_open address_ok (e1, e2, e3, e4) ros_ok connects i = Some (Inl Exit1) \<longleftrightarrow> e1 \<or> e2 \<or> e3 \<or> e4))"
proof (intro conjI allI impI)
  fix i' assume "tcp_receive None i = Inr i'"
  then show "tcp_has_failed i'" "\<not> tcp_is_ready i'"
    by (auto simp: tcp_receive_def tcp_error_handler_def tcp_has_failed_def tcp_is_ready_def)
next
  show "tcp_receive None i \<noteq> Inl Exit1" by (simp add: tcp_receive_def tcp_error_handler_def)
next
  fix i' assume "tcp_write little (Some k) data i = Some i'"
  then show "tcp_has_failed i'" "\<not> tcp_is_ready i'"
    by (auto simp: tcp_write_def tcp_has_failed_def tcp_is_ready_def split: if_splits)
next
  fix i' assume "tcp_open address_ok ecs ros_ok connects i = Some (Inr i')"
  then show "\<not> tcp_has_failed i'" "qs_Q (ti_stream i') = []"
    by (auto simp: tcp_open_def setup_server_def setup_client_def tcp_error_handler_def tcp_has_failed_def Let_def
        stream_reset_def split: if_splits prod.splits dest!: connect_loop_keeps)
next
  assume "ti_role i = ''server''"
  then show "tcp_open address_ok (e1, e2, e3, e4) ros_ok connects i = Some (Inl Exit1) \<longleftrightarrow> e1 \<or> e2 \<or> e3 \<or> e4"
    by (auto simp: tcp_open_def setup_server_def tcp_error_handler_def Let_def split: if_splits)
qed

theorem tcp_failure_reported_witness:
  "\<exists>i'. tcp_write True (Some 1) [5] (\<lparr>ti_role = ''server'', ti_remote_address = [], ti_port = 5000, ti_ready = True,
       ti_failed = False, ti_shutting_down = False, ti_acceptor = True, ti_socket = True, ti_receiving = True,
       ti_stream = QueueStream_init, ti_wire_out = []\<rparr>) = Some i' \<and> tcp_has_failed i' \<and> \<not> tcp_is_ready i'"
proof -
  let ?i = "\<lparr>ti_role = ''server'', ti_remote_address = [], ti_port = 5000, ti_ready = True,
       ti_failed = False, ti_shutting_down = False, ti_acceptor = True, ti_socket = True, ti_receiving = True,
       ti_stream = QueueStream_init, ti_wire_out = []\<rparr>"
  obtain i' where w: "tcp_write True (Some 1) [5] ?i = Some i'" by (simp add: tcp_write_def)
  with tcp_failure_reported [of ?i True 1 "[5]"] show ?thesis by blast
qed

end
