(* ===== verification/Bridge_Session.thy ===== *)
theory Bridge_Session
  imports Network_Bridge Tcp_Interface
begin

text \<open>
  Sessions of the bridge: a node that sends a sequence of messages over a transport and a node that
  receives the frames of it, and what survives damage, a restart of the peer and a shutdown.
\<close>

subsection \<open>Sequences of messages\<close>

record bridge_message =
  bm_topic :: string
  bm_type :: string
  bm_level :: int
  bm_data :: bytes
  bm_time :: u64

definition compressed :: "Zstd \<Rightarrow> bridge_message \<Rightarrow> bytes" where
  "compressed Z m = (case bridge_compress Z (create_header (bm_topic m) (bm_type m) @ bm_data m) (bm_level m) of
     Inr c \<Rightarrow> c | Inl _ \<Rightarrow> [])"

definition sendable :: "Zstd \<Rightarrow> bridge_message \<Rightarrow> bool" where
  "sendable Z m \<longleftrightarrow> bm_topic m \<noteq> [] \<and> bm_type m \<noteq> [] \<and> CHR 0x00 \<notin> set (bm_topic m) \<and> CHR 0x00 \<notin> set (bm_type m) \<and>
     (case bridge_compress Z (create_header (bm_topic m) (bm_type m) @ bm_data m) (bm_level m) of
        Inl _ \<Rightarrow> False | Inr c \<Rightarrow> length c \<le> unat kMaxPayload)"

definition message_frame :: "Zstd \<Rightarrow> u64 \<Rightarrow> bridge_message \<Rightarrow> bytes" where
  "message_frame Z s m =
     frame_image (frame_header_for kControl s (bm_time m) kFlagCompressed (compressed Z m)) (compressed Z m)"

fun session_frames :: "Zstd \<Rightarrow> u64 \<Rightarrow> bridge_message list \<Rightarrow> bytes list" where
  "session_frames Z s [] = []"
| "session_frames Z s (m # ms) = message_frame Z s m # session_frames Z (s + 1) ms"

fun send_all :: "Zstd \<Rightarrow> 'n NetworkInterface \<Rightarrow> 'g Env \<Rightarrow> (string \<Rightarrow> bool) \<Rightarrow> nat option \<Rightarrow> dbl \<Rightarrow> bridge_message list
    \<Rightarrow> ('n, 'g) NetworkBridge \<Rightarrow> ('n, 'g) NetworkBridge option" where
  "send_all Z ops E can_open wfail t_s [] b = Some b"
| "send_all Z ops E can_open wfail t_s (m # ms) b = do {
     b \<leftarrow> send_message Z ops E can_open wfail (bm_time m) t_s (bm_topic m) (bm_type m) (bm_level m) (bm_data m) b;
     send_all Z ops E can_open wfail t_s ms b }"

fun receive_all :: "Zstd \<Rightarrow> (nat \<Rightarrow> bool) \<Rightarrow> (string \<Rightarrow> string \<Rightarrow> bool) \<Rightarrow> bytes list
    \<Rightarrow> ('n, 'g) NetworkBridge \<Rightarrow> (cpp_exception + ('n, 'g) NetworkBridge) option" where
  "receive_all Z can_resize create_ok [] b = Some (Inr b)"
| "receive_all Z can_resize create_ok (f # fs) b = (case receive_data Z can_resize create_ok True True f b of
     Some (Inr b) \<Rightarrow> receive_all Z can_resize create_ok fs b
   | r \<Rightarrow> r)"

lemma sendable_compress:
  "sendable Z m \<Longrightarrow> bridge_compress Z (create_header (bm_topic m) (bm_type m) @ bm_data m) (bm_level m) = Inr (compressed Z m)"
  "sendable Z m \<Longrightarrow> length (compressed Z m) \<le> unat kMaxPayload"
  by (auto simp: sendable_def compressed_def split: sum.splits)

lemma message_frame_length: "sendable Z m \<Longrightarrow> length (message_frame Z s m) \<le> 40 + unat kMaxPayload"
  using sendable_compress(2) by (simp add: message_frame_def)

lemma session_frames_length:
  "\<forall>m\<in>set ms. sendable Z m \<Longrightarrow> \<forall>f\<in>set (session_frames Z s ms). length f < 2 ^ 32"
proof (induction ms arbitrary: s)
  case (Cons m ms)
  have "length (message_frame Z s m) < 2 ^ 32"
    using message_frame_length [of Z m s] Cons.prems by (simp add: unat_kMaxPayload)
  with Cons show ?case by simp
qed simp

subsection \<open>The sender\<close>

lemma record_frame_keeps [simp]:
  "nb_network_interface (record_frame can_open wfail ts c b) = nb_network_interface b"
  "nb_fault_engine (record_frame can_open wfail ts c b) = nb_fault_engine b"
  "nb_tx_sequence (record_frame can_open wfail ts c b) = nb_tx_sequence b"
  by (simp_all add: record_frame_def split: option.split)

lemma send_message_writes:
  assumes "sendable Z m" "nb_fault_engine b = None" "nb_network_interface b = Some n"
    "ni_write ops (message_frame Z (nb_tx_sequence b) m) n = Some n'"
  shows "\<exists>b'. send_message Z ops E can_open wfail (bm_time m) t_s (bm_topic m) (bm_type m) (bm_level m) (bm_data m) b = Some b' \<and>
    nb_fault_engine b' = None \<and> nb_network_interface b' = Some n' \<and> nb_tx_sequence b' = nb_tx_sequence b + 1"
  using assms sendable_compress [OF assms(1)]
  by (simp add: send_message_def Let_def encode_frame_image message_frame_def)

lemma send_all_writes:
  assumes "\<forall>m\<in>set ms. sendable Z m" "nb_fault_engine b = None" "nb_network_interface b = Some n"
    "write_all ops (session_frames Z (nb_tx_sequence b) ms) n = Some n'"
  shows "\<exists>b'. send_all Z ops E can_open wfail t_s ms b = Some b' \<and> nb_network_interface b' = Some n' \<and> nb_fault_engine b' = None"
  using assms
proof (induction ms arbitrary: b n)
  case (Cons m ms)
  obtain n1 where n1: "ni_write ops (message_frame Z (nb_tx_sequence b) m) n = Some n1"
    "write_all ops (session_frames Z (nb_tx_sequence b + 1) ms) n1 = Some n'"
    using Cons.prems(4) by (auto simp: bind_eq_Some_conv)
  obtain b1 where b1: "send_message Z ops E can_open wfail (bm_time m) t_s (bm_topic m) (bm_type m) (bm_level m) (bm_data m) b = Some b1"
    "nb_fault_engine b1 = None" "nb_network_interface b1 = Some n1" "nb_tx_sequence b1 = nb_tx_sequence b + 1"
    using send_message_writes [OF _ Cons.prems(2,3) n1(1), of E can_open wfail t_s] Cons.prems(1) by auto
  then show ?case using Cons.IH [OF _ b1(2,3)] Cons.prems(1) n1(2) by simp
qed simp

subsection \<open>The receiver\<close>

text \<open>A publisher publishes under the namespace of the node.\<close>

definition publishers_ok :: "('n, 'g) NetworkBridge \<Rightarrow> bool" where
  "publishers_ok b \<longleftrightarrow> (\<forall>t name ty. nb_publishers b t = Some (name, ty) \<longrightarrow> name = nb_publish_namespace b @ t)"

definition decoder_below :: "u64 \<Rightarrow> u64 \<Rightarrow> FrameDecoder \<Rightarrow> bool" where
  "decoder_below s ts dec \<longleftrightarrow> (\<forall>st. dec 0 = Some st \<longrightarrow> last_sequence st \<le> s \<and> last_timestamp_ns st \<le> ts)"

lemma decompress_compressed:
  assumes "zstd_ok Z" "sendable Z m" "\<forall>n. can_resize n"
  shows "bridge_decompress Z can_resize (compressed Z m) = Inr (create_header (bm_topic m) (bm_type m) @ bm_data m)"
proof -
  let ?d = "create_header (bm_topic m) (bm_type m) @ bm_data m"
  have "ZSTD_compress Z (ZSTD_compressBound Z (length ?d)) ?d (bm_level m) = Some (compressed Z m)"
    using sendable_compress(1) [OF assms(2)] by (auto simp: bridge_compress_def Let_def split: option.splits)
  then have "ZSTD_getFrameContentSize Z (compressed Z m) = ContentSize (length ?d) \<and>
      ZSTD_decompress Z (length ?d) (compressed Z m) = Some ?d"
    using assms(1) unfolding zstd_ok_def by blast
  then show ?thesis using assms(3) by (simp add: bridge_decompress_def)
qed

lemma receive_message:
  assumes Z: "zstd_ok Z" and m: "sendable Z m" and "\<forall>n. can_resize n" "\<forall>n t. create_ok n t"
    and p: "publishers_ok b" and d: "decoder_below s (bm_time m) (nb_frame_decoder b)"
  shows "\<exists>b'. receive_data Z can_resize create_ok True True (message_frame Z s m) b = Some (Inr b') \<and>
    publishers_ok b' \<and> nb_publish_namespace b' = nb_publish_namespace b \<and>
    nb_published b' = nb_published b @ [(nb_publish_namespace b @ bm_topic m, bm_data m)] \<and>
    nb_frame_reject_count b' = nb_frame_reject_count b \<and>
    nb_frame_decoder b' 0 = Some \<lparr>last_sequence = s, last_timestamp_ns = bm_time m, seen = True\<rparr>"
proof -
  let ?c = "compressed Z m" and ?h = "frame_header_for kControl s (bm_time m) kFlagCompressed (compressed Z m)"
  let ?st = "\<lparr>last_sequence = s, last_timestamp_ns = bm_time m, seen = True\<rparr>"
  let ?b = "b\<lparr>nb_frame_decoder := (nb_frame_decoder b)(0 \<mapsto> ?st)\<rparr>"
  have ok: "frame_ok ?h ?c" by (rule frame_ok_header_for [OF sendable_compress(2) [OF m]])
  have dh: "decode_header (Some (message_frame Z s m)) FrameHeader_init = Some (FrameError.kOk, ?h)"
    using decode_image [OF ok, of "[]"] by (simp add: message_frame_def)
  have fd: "frame_decode (nb_frame_decoder b) (Some (message_frame Z s m)) 0 FrameHeader_init
      = Some (FrameError.kOk, ?h, (nb_frame_decoder b)(0 \<mapsto> ?st))"
    using frame_decode_accept [OF dh, of "nb_frame_decoder b" 0] d by (auto simp: decoder_below_def frame_header_for_def)
  have sub: "sub (payload_ptr (message_frame Z s m)) 0 (unat (fh_payload_size ?h)) = Some ?c"
    using ok by (simp add: message_frame_def payload_ptr_def kFrameOverhead_def kHeaderSize_def frame_image_def frame_ok_def sub_def)
  have ph: "parse_header (create_header (bm_topic m) (bm_type m) @ bm_data m) [] [] = Some (bm_topic m, bm_type m)"
    using m by (intro parse_create) (auto simp: sendable_def)
  have l: "length (create_header (bm_topic m) (bm_type m)) = Suc (Suc (length (bm_topic m) + length (bm_type m)))"
    by (simp add: create_header_def)
  have sub2: "sub (create_header (bm_topic m) (bm_type m) @ bm_data m) (Suc (Suc (length (bm_topic m) + length (bm_type m))))
      (length (bm_data m)) = Some (bm_data m)"
    by (simp add: sub_def l [symmetric])
  have ne: "bm_topic m \<noteq> []" "bm_type m \<noteq> []" using m by (auto simp: sendable_def)
  have "receive_data Z can_resize create_ok True True (message_frame Z s m) b
      = Some (publish_message create_ok True (bm_topic m) (bm_type m) (bm_data m) ?b)"
    by (simp add: receive_data_def fd sub decompress_compressed [OF Z m assms(3)] ph ne Let_def sub2 l)
  with p assms(4) show ?thesis
    by (auto simp: publish_message_def publishers_ok_def Let_def split: option.splits)
qed

lemma receive_session:
  assumes "zstd_ok Z" "\<forall>m\<in>set ms. sendable Z m" "\<forall>n. can_resize n" "\<forall>n t. create_ok n t"
    "publishers_ok b" "sorted (map bm_time ms)" "unat s + length ms \<le> 2 ^ 64"
    "ms \<noteq> [] \<Longrightarrow> decoder_below s (bm_time (hd ms)) (nb_frame_decoder b)"
  shows "\<exists>b'. receive_all Z can_resize create_ok (session_frames Z s ms) b = Some (Inr b') \<and>
    nb_published b' = nb_published b @ map (\<lambda>m. (nb_publish_namespace b @ bm_topic m, bm_data m)) ms \<and>
    nb_frame_reject_count b' = nb_frame_reject_count b"
  using assms(2,5-8)
proof (induction ms arbitrary: b s)
  case (Cons m ms)
  obtain b1 where b1: "receive_data Z can_resize create_ok True True (message_frame Z s m) b = Some (Inr b1)"
    "publishers_ok b1" "nb_publish_namespace b1 = nb_publish_namespace b"
    "nb_published b1 = nb_published b @ [(nb_publish_namespace b @ bm_topic m, bm_data m)]"
    "nb_frame_reject_count b1 = nb_frame_reject_count b"
    "nb_frame_decoder b1 0 = Some \<lparr>last_sequence = s, last_timestamp_ns = bm_time m, seen = True\<rparr>"
    using receive_message [OF assms(1) _ assms(3,4) Cons.prems(2), of m s] Cons.prems by auto
  have lim: "unat (s + 1) + length ms \<le> 2 ^ 64" "s \<le> s + 1" if "ms \<noteq> []"
  proof -
    have "unat s + 1 < 2 ^ 64" using Cons.prems(4) that by (cases ms) auto
    then have "unat (s + 1) = unat s + 1" by (simp add: unat_word_ariths)
    then show "unat (s + 1) + length ms \<le> 2 ^ 64" "s \<le> s + 1" using Cons.prems(4) by (auto simp: word_le_nat_alt)
  qed
  show ?case
  proof (cases "ms = []")
    case True
    with b1 show ?thesis by simp
  next
    case False
    have "decoder_below (s + 1) (bm_time (hd ms)) (nb_frame_decoder b1)"
      using Cons.prems(3) lim(2) [OF False] False b1(6) by (cases ms) (auto simp: decoder_below_def)
    with Cons.IH [OF _ b1(2) _ lim(1) [OF False]] Cons.prems(1,3) b1 False show ?thesis by auto
  qed
qed simp

subsection \<open>Failures\<close>

lemma rejected_regression:
  assumes "nb_frame_decoder b 0 = Some st" "seen st" "s < last_sequence st" "sendable Z m"
  shows "\<exists>b'. receive_data Z can_resize create_ok True True (message_frame Z s m) b = Some (Inr b') \<and>
    nb_published b' = nb_published b \<and> nb_frame_reject_count b' = nb_frame_reject_count b + 1 \<and>
    nb_frame_decoder b' 0 = Some st"
proof -
  let ?h = "frame_header_for kControl s (bm_time m) kFlagCompressed (compressed Z m)"
  have "decode_header (Some (message_frame Z s m)) FrameHeader_init = Some (FrameError.kOk, ?h)"
    using decode_image [OF frame_ok_header_for [OF sendable_compress(2) [OF assms(4)]], where rest = "[]"]
    by (simp add: message_frame_def)
  then have "frame_decode (nb_frame_decoder b) (Some (message_frame Z s m)) 0 FrameHeader_init
      = Some (kSequenceRegression, ?h, (nb_frame_decoder b)(0 \<mapsto> st))"
    using assms(1-3) by (simp add: frame_decode_def frame_header_for_def)
  then show ?thesis by (simp add: receive_data_def count_reject_def)
qed

lemma rejected_session:
  assumes "nb_frame_decoder b 0 = Some st" "seen st" "unat s + length ms \<le> unat (last_sequence st)" "\<forall>m\<in>set ms. sendable Z m"
  shows "\<exists>b'. receive_all Z can_resize create_ok (session_frames Z s ms) b = Some (Inr b') \<and>
    nb_published b' = nb_published b \<and> nb_frame_reject_count b' = nb_frame_reject_count b + word_of_nat (length ms)"
  using assms
proof (induction ms arbitrary: b s)
  case (Cons m ms)
  have "s < last_sequence st" using Cons.prems(3) by (simp add: word_less_nat_alt)
  then obtain b1 where b1: "receive_data Z can_resize create_ok True True (message_frame Z s m) b = Some (Inr b1)"
    "nb_published b1 = nb_published b" "nb_frame_reject_count b1 = nb_frame_reject_count b + 1" "nb_frame_decoder b1 0 = Some st"
    using rejected_regression [OF Cons.prems(1,2)] Cons.prems(4) by fastforce
  have "unat (last_sequence st) < 2 ^ 64" by (rule order_less_le_trans [OF unsigned_less]) simp
  then have "unat s + 1 < 2 ^ 64" using Cons.prems(3) by simp
  then have "unat (s + 1) = unat s + 1" by (simp add: unat_word_ariths)
  then show ?case using Cons.IH [OF b1(4) Cons.prems(2), of "s + 1"] Cons.prems(3,4) b1 by auto
qed simp

lemma flush_counts:
  "st_forwarded (fe_stats (engine_flush e)) = st_forwarded (fe_stats e) + word_of_nat (length (fe_delayed e)) \<and>
   fe_delayed (engine_flush e) = []"
proof (induction e rule: engine_flush.induct)
  case (1 e)
  show ?case
  proof (cases "delayed_pop (fe_delayed e)")
    case None
    then have "fe_delayed e = []" by (auto simp: delayed_pop_def split: list.splits)
    with None show ?thesis by (simp add: engine_flush.simps [of e])
  next
    case (Some x)
    obtain d rest where x: "x = (d, rest)" by force
    have "length (fe_delayed e) = Suc (length rest)"
      using delayed_pop_min(1) [of "fe_delayed e" d rest] Some x by (metis size_mset size_add_mset)
    with 1 [OF Some x [symmetric]] Some x show ?thesis
      by (simp add: engine_flush.simps [of e] emit_def)
  qed
qed

text \<open>An identity codec, for concrete sessions.\<close>

definition plain_zstd :: Zstd where
  "plain_zstd = \<lparr>ZSTD_compressBound = (\<lambda>n. n), ZSTD_compress = (\<lambda>cap d level. Some d),
     ZSTD_getFrameContentSize = (\<lambda>c. ContentSize (length c)), ZSTD_decompress = (\<lambda>n c. Some c)\<rparr>"

lemma plain_zstd_ok: "zstd_ok plain_zstd"
  by (simp add: zstd_ok_def plain_zstd_def)

definition sample_message :: "u64 \<Rightarrow> bridge_message" where
  "sample_message t = \<lparr>bm_topic = ''/scan'', bm_type = ''T'', bm_level = 3, bm_data = [1, 2, 3], bm_time = t\<rparr>"

lemma sample_sendable: "sendable plain_zstd (sample_message t)"
  by (simp add: sendable_def sample_message_def bridge_compress_def plain_zstd_def create_header_def unat_kMaxPayload)

text \<open>C17: No input makes the receive path of the bridge access memory out of bounds. A frame that
  the decoder rejects is counted and changes neither the publications nor the decoder; any other input
  leads to at most one publication, of the data that follows the header in the decompressed payload.\<close>

theorem receive_fails_closed:
  "\<exists>r. receive_data Z can_resize create_ok True ok2 data b = Some r \<and>
     (rejected data b \<longrightarrow> (\<exists>b'. r = Inr b' \<and> nb_published b' = nb_published b \<and> nb_frame_decoder b' = nb_frame_decoder b \<and>
        nb_frame_reject_count b' = nb_frame_reject_count b + 1)) \<and>
     (\<forall>b'. r = Inr b' \<longrightarrow> \<not> rejected data b \<longrightarrow> nb_frame_reject_count b' = nb_frame_reject_count b \<and>
        (nb_published b' = nb_published b \<or>
         (\<exists>name h c rest topic type payload. data = frame_image h c @ rest \<and> frame_ok h c \<and>
            bridge_decompress Z can_resize c = Inr (create_header topic type @ payload) \<and>
            nb_published b' = nb_published b @ [(name, payload)])))"
proof (cases data b rule: frame_decode_ok_or_rejected)
  case (reject err h)
  then show ?thesis
    using receive_rejected [OF reject(1,2)] by (auto simp: count_reject_def Let_def)
next
  case (accept h dec)
  show ?thesis
    using accept(1)
  proof (cases rule: receive_accepted [where Z = Z and can_resize = can_resize and create_ok = create_ok and ?ok2.0 = ok2])
    case dropped
    with accept(2) show ?thesis by auto
  next
    case (published c topic type payload)
    have "nb_frame_reject_count b' = nb_frame_reject_count b \<and>
        (nb_published b' = nb_published b \<or> (\<exists>name. nb_published b' = nb_published b @ [(name, payload)]))"
      if "publish_message create_ok ok2 topic type payload (b\<lparr>nb_frame_decoder := dec\<rparr>) = Inr b'" for b'
      using publish_message_result [OF that] by auto
    with published accept(2) show ?thesis by (intro exI conjI) (assumption, simp, blast)
  qed
qed

theorem receive_fails_closed_witness:
  "\<exists>b'. receive_data plain_zstd (\<lambda>_. True) (\<lambda>_ _. True) True True [1, 2, 3] (NetworkBridge_new :: (unit, unit) NetworkBridge)
      = Some (Inr b') \<and> nb_frame_reject_count b' = 1 \<and> nb_published b' = []"
proof -
  let ?b = "NetworkBridge_new :: (unit, unit) NetworkBridge"
  have "rejected [1, 2, 3] ?b"
    by (simp add: rejected_def frame_decode_def decode_header_def kFrameOverhead_def kHeaderSize_def)
  with receive_fails_closed [of plain_zstd "\<lambda>_. True" "\<lambda>_ _. True" True "[1, 2, 3]" ?b] show ?thesis
    by (auto simp: NetworkBridge_new_def)
qed

text \<open>The receiving bridge never forgets the last sequence number of the link, and a restarted peer counts from
  zero again: every message of the new session is rejected, with nothing published, until the new
  session has sent as many frames as the old one.\<close>

theorem restarted_peer_rejected:
  assumes "nb_frame_decoder b 0 = Some st" and "seen st" and "length ms \<le> unat (last_sequence st)"
    and "\<forall>m\<in>set ms. sendable Z m"
  shows "\<exists>b'. receive_all Z can_resize create_ok (session_frames Z (nb_tx_sequence (NetworkBridge_new :: ('n, 'g) NetworkBridge)) ms) b
      = Some (Inr b') \<and>
    nb_published b' = nb_published b \<and> nb_frame_reject_count b' = nb_frame_reject_count b + word_of_nat (length ms)"
  using rejected_session [OF assms(1,2) _ assms(4), of 0] assms(3) by (simp add: NetworkBridge_new_def)

theorem restarted_peer_rejected_witness:
  "\<exists>b'. receive_all plain_zstd (\<lambda>_. True) (\<lambda>_ _. True)
       (session_frames plain_zstd (nb_tx_sequence (NetworkBridge_new :: (unit, unit) NetworkBridge)) [sample_message 7, sample_message 8])
       ((NetworkBridge_new :: (unit, unit) NetworkBridge)\<lparr>nb_frame_decoder := [0 \<mapsto> \<lparr>last_sequence = 5, last_timestamp_ns = 3, seen = True\<rparr>]\<rparr>)
      = Some (Inr b') \<and> nb_published b' = [] \<and> nb_frame_reject_count b' = 2"
  using restarted_peer_rejected [where ms = "[sample_message 7, sample_message 8]" and Z = plain_zstd
      and b = "(NetworkBridge_new :: (unit, unit) NetworkBridge)\<lparr>nb_frame_decoder := [0 \<mapsto> \<lparr>last_sequence = 5, last_timestamp_ns = 3, seen = True\<rparr>]\<rparr>"
      and st = "\<lparr>last_sequence = 5, last_timestamp_ns = 3, seen = True\<rparr>" and can_resize = "\<lambda>_. True" and create_ok = "\<lambda>_ _. True"
      and ?'n = unit and ?'g = unit]
  by (simp add: sample_sendable NetworkBridge_new_def)

text \<open>Shutting the bridge down closes and releases the interface before the fault engine is flushed. The
  delayed frames are therefore counted as forwarded but none of them is written: the released interface is the
  closed one.\<close>

theorem shutdown_discards_delayed:
  assumes "nb_network_interface b = Some n" and "nb_fault_engine b = Some e"
  shows "\<exists>b' r e'. bridge_shutdown ops b = Some (b', r) \<and> rel_interface r = Some (ni_close ops n) \<and>
    rel_fault_engine r = Some e' \<and> fe_delayed e' = [] \<and>
    st_forwarded (fe_stats e') = st_forwarded (fe_stats e) + word_of_nat (length (fe_delayed e))"
  using assms flush_counts [of e]
  by (simp add: bridge_shutdown_def with_fault_engine_def fault_callback_def engine_stop_def Let_def)

theorem shutdown_discards_delayed_witness:
  "\<exists>b' r e'. bridge_shutdown (tcp_ops True None (\<lambda>_. True) (False, False, False, False) (\<lambda>_. True) (\<lambda>_. True))
       ((NetworkBridge_new :: (TcpInterface, unit) NetworkBridge)\<lparr>
          nb_network_interface := Some \<lparr>ti_role = ''client'', ti_remote_address = [], ti_port = 5000, ti_ready = True,
            ti_failed = False, ti_shutting_down = False, ti_acceptor = False, ti_socket = True, ti_receiving = True,
            ti_stream = QueueStream_init, ti_wire_out = []\<rparr>,
          nb_fault_engine := Some ((FaultEngine_new ())\<lparr>fe_delayed := [\<lparr>due_ns = 5, dl_data = [1]\<rparr>]\<rparr>)\<rparr>) = Some (b', r) \<and>
     map_option ti_wire_out (rel_interface r) = Some [] \<and> rel_fault_engine r = Some e' \<and> st_forwarded (fe_stats e') = 1"
proof -
  let ?i = "\<lparr>ti_role = ''client'', ti_remote_address = [], ti_port = 5000, ti_ready = True,
            ti_failed = False, ti_shutting_down = False, ti_acceptor = False, ti_socket = True, ti_receiving = True,
            ti_stream = QueueStream_init, ti_wire_out = []\<rparr>"
  let ?e = "(FaultEngine_new ())\<lparr>fe_delayed := [\<lparr>due_ns = 5, dl_data = [1]\<rparr>]\<rparr>"
  let ?b = "(NetworkBridge_new :: (TcpInterface, unit) NetworkBridge)\<lparr>nb_network_interface := Some ?i, nb_fault_engine := Some ?e\<rparr>"
  let ?o = "tcp_ops True None (\<lambda>_. True) (False, False, False, False) (\<lambda>_. True) (\<lambda>_. True)"
  obtain b' r e' where "bridge_shutdown ?o ?b = Some (b', r)" "rel_interface r = Some (ni_close ?o ?i)"
      "rel_fault_engine r = Some e'" "st_forwarded (fe_stats e') = st_forwarded (fe_stats ?e) + word_of_nat (length (fe_delayed ?e))"
    using shutdown_discards_delayed [of ?b ?i ?e ?o] by auto
  then show ?thesis
    by (intro exI [of _ b'] exI [of _ r] exI [of _ e'])
      (simp add: tcp_ops_def tcp_close_def FaultEngine_new_def FaultStats_init_def)
qed

end
