(* ===== verification/Bridge_Config.thy ===== *)
theory Bridge_Config
  imports Bridge_Session
begin

text \<open>
  Initialisation of the bridge node (\<^verbatim>\<open>network_bridge.cpp\<close>: \<^verbatim>\<open>initialize\<close>, \<^verbatim>\<open>load_parameters\<close>,
  \<^verbatim>\<open>load_network_interface\<close>). The node's parameters are the values given from outside, with the defaults of the
  code; declaring a parameter twice throws. The plugin loader, the regular expressions and the ROS graph are
  parameters. The outer option is \<^term>\<open>None\<close> for undefined behaviour, here the cast of a timer period that
  does not fit an \<^verbatim>\<open>int\<close>; \<^term>\<open>Inl e\<close> is an exception.
\<close>

subsection \<open>Single precision\<close>

definition rnd32 :: "real \<Rightarrow> dbl" where
  "rnd32 x = (if x = 0 then 0
     else let e = max (\<lfloor>log 2 \<bar>x\<bar>\<rfloor> - 23) (- 149) in of_int (round_even (x / 2 powi e)) * 2 powi e)"

subsection \<open>Parameters\<close>

record Parameters =
  pm_string :: "string \<rightharpoonup> string"
  pm_bool :: "string \<rightharpoonup> bool"
  pm_int :: "string \<rightharpoonup> int"
  pm_double :: "string \<rightharpoonup> dbl"
  pm_strings :: "string \<rightharpoonup> string list"

text \<open>\<^verbatim>\<open>declare_parameter\<close> followed by \<^verbatim>\<open>get_parameter\<close>; \<open>declared\<close> are the names declared before.\<close>

definition declare_get :: "(string \<rightharpoonup> 'a) \<Rightarrow> string \<Rightarrow> 'a \<Rightarrow> string list \<Rightarrow> cpp_exception + 'a \<times> string list" where
  "declare_get values name dflt declared =
     (if name \<in> set declared then Inl (runtime_error (''parameter '' @ name @ '' has already been declared''))
      else Inr (case values name of None \<Rightarrow> dflt | Some v \<Rightarrow> v, declared @ [name]))"

definition normalise_namespace :: "string \<Rightarrow> string" where
  "normalise_namespace s =
     (if s = [] then []
      else let s = (if hd s \<noteq> CHR ''/'' then CHR ''/'' # s else s)
           in if last s = CHR ''/'' then butlast s else s)"

text \<open>Sequencing where an exception and undefined behaviour are possible.\<close>

definition bindO :: "('e + 'a) option \<Rightarrow> ('a \<Rightarrow> ('e + 'b) option) \<Rightarrow> ('e + 'b) option" where
  "bindO r f = (case r of None \<Rightarrow> None | Some (Inl e) \<Rightarrow> Some (Inl e) | Some (Inr x) \<Rightarrow> f x)"

lemma bindO_simps [simp]: "bindO None f = None" "bindO (Some (Inl e)) f = Some (Inl e)" "bindO (Some (Inr x)) f = f x"
  by (simp_all add: bindO_def)

lemma bindO_eq_ok [simp]: "bindO r f = Some (Inr y) \<longleftrightarrow> (\<exists>x. r = Some (Inr x) \<and> f x = Some (Inr y))"
  by (auto simp: bindO_def split: option.split sum.split)

subsection \<open>State\<close>

datatype ('h, 'b, 'rx) TopicManager = Generic "'h SubscriptionManager" | Transform "('h, 'b, 'rx) SubscriptionManagerTF"

record ('n, 'g, 'h, 'b, 'rx) BridgeNode =
  bn_bridge :: "('n, 'g) NetworkBridge"
  bn_network_interface_name :: string
  bn_sub_mgrs :: "('h, 'b, 'rx) TopicManager list"
  bn_timers :: "int list"
  bn_network_check_timer :: bool
  bn_declared :: "string list"

definition BridgeNode_new :: "('n, 'g, 'h, 'b, 'rx) BridgeNode" where
  "BridgeNode_new = \<lparr>bn_bridge = NetworkBridge_new, bn_network_interface_name = [], bn_sub_mgrs = [], bn_timers = [],
     bn_network_check_timer = False, bn_declared = []\<rparr>"

text \<open>What the node is placed in.\<close>

record ('n, 'g, 'h, 'rx) Surroundings =
  su_params :: Parameters
  su_can_open :: "string \<Rightarrow> bool"
  su_wal_files :: "string \<rightharpoonup> bytes"
  su_random :: 'g
  su_compile :: "string \<Rightarrow> 'rx option"
  su_from_rmw :: "'h QoS \<Rightarrow> 'h QoS"
  su_ok :: bool
  su_topics :: "string \<rightharpoonup> string list"
  su_publishers :: "string \<Rightarrow> 'h QoS list"
  su_create :: "string \<Rightarrow> 'n option"
  su_ops :: "'n NetworkInterface"

subsection \<open>Optional parts\<close>

definition load_wal :: "('n, 'g, 'h, 'rx) Surroundings \<Rightarrow> string \<Rightarrow> ('n, 'g) NetworkBridge \<Rightarrow> ('n, 'g) NetworkBridge" where
  "load_wal S wal_record_dir b =
     (if wal_record_dir = [] then b
      else b\<lparr>nb_wal_writer := Some (WalWriter_open (su_can_open S) (su_wal_files S) kDefaultSegmentBytes)\<rparr>)"

definition load_fault :: "('n, 'g, 'h, 'rx) Surroundings \<Rightarrow> string \<Rightarrow> string list \<Rightarrow> ('n, 'g) NetworkBridge
    \<Rightarrow> cpp_exception + ('n, 'g) NetworkBridge \<times> string list" where
  "load_fault S fault_type declared b =
     (if fault_type = ''none'' \<or> fault_type = [] then Inr (b, declared)
      else let P = pm_double (su_params S) in
        bindE (declare_get P ''fault_start_s'' 0 declared) (\<lambda>(start, declared).
        bindE (declare_get P ''fault_duration_s'' (10 ^ 9) declared) (\<lambda>(duration, declared).
        bindE (declare_get P ''fault_delay_ms'' 0 declared) (\<lambda>(delay, declared).
        bindE (declare_get P ''fault_drop_rate'' 0 declared) (\<lambda>(drop_rate, declared).
        bindE (declare_get P ''fault_bandwidth_kbps'' 0 declared) (\<lambda>(kbps, declared).
          let rule = FaultRule_init\<lparr>fr_kind := fault_kind_from_string fault_type, fr_start_s := start, fr_duration_s := duration,
                       fr_delay_ms := delay, fr_drop_rate := drop_rate, fr_bandwidth_kbps := kbps\<rparr>
          in Inr (if fr_kind rule \<noteq> kNone then b\<lparr>nb_fault_engine := Some (add_rule rule (FaultEngine_new (su_random S)))\<rparr> else b,
                  declared)))))))"

subsection \<open>Topics\<close>

text \<open>\<^verbatim>\<open>static_cast<int>(1000.0 / rate)\<close>.\<close>

definition timer_period :: "dbl \<Rightarrow> int option" where
  "timer_period rate =
     (if rate = 0 then None
      else let q = trunc (fdiv 1000 rate) in if - (2 ^ 31) \<le> q \<and> q < 2 ^ 31 then Some q else None)"

definition load_generic :: "('n, 'g, 'h, 'rx) Surroundings \<Rightarrow> string \<Rightarrow> string \<Rightarrow> int \<Rightarrow> bool
    \<Rightarrow> (cpp_exception + ('h, 'b, 'rx) TopicManager) option" where
  "load_generic S topic ns level stale =
     (case setup_generic_subscription (su_from_rmw S) (su_ok S) (su_topics S) (su_publishers S)
        (SubscriptionManager_new topic ns level stale) of
        None \<Rightarrow> None
      | Some m \<Rightarrow> Some (Inr (Generic m)))"

definition load_transform :: "('n, 'g, 'h, 'rx) Surroundings \<Rightarrow> string \<Rightarrow> string \<Rightarrow> int \<Rightarrow> bool \<Rightarrow> bool \<Rightarrow> string list \<Rightarrow> string list
    \<Rightarrow> (cpp_exception + ('h, 'b, 'rx) TopicManager) option" where
  "load_transform S topic ns level stale static include exclude =
     (let m = SubscriptionManagerTF_new topic ns level stale static
      in case (if include \<noteq> [] then set_include_pattern (su_compile S) include m else Some m) of
           None \<Rightarrow> Some (Inl (runtime_error ''regex_error''))
         | Some m \<Rightarrow> (case (if exclude \<noteq> [] then set_exclude_pattern (su_compile S) exclude m else Some m) of
             None \<Rightarrow> Some (Inl (runtime_error ''regex_error''))
           | Some m \<Rightarrow>
               (case setup_subscription create_subscription_tf tm_base_update tm_base (su_from_rmw S) (su_ok S) (su_topics S)
                  (su_publishers S) m of
                  None \<Rightarrow> None
                | Some m \<Rightarrow> Some (Inr (Transform m)))))"

text \<open>The manager is stored and its timer created.\<close>

definition add_manager :: "dbl \<Rightarrow> string list \<Rightarrow> ('n, 'g, 'h, 'b, 'rx) BridgeNode \<Rightarrow> ('h, 'b, 'rx) TopicManager
    \<Rightarrow> (cpp_exception + ('n, 'g, 'h, 'b, 'rx) BridgeNode) option" where
  "add_manager rate declared n m = (case timer_period rate of
     None \<Rightarrow> None
   | Some ms \<Rightarrow> Some (Inr (n\<lparr>bn_sub_mgrs := bn_sub_mgrs n @ [m], bn_timers := bn_timers n @ [ms], bn_declared := declared\<rparr>)))"

definition load_manager :: "('n, 'g, 'h, 'rx) Surroundings \<Rightarrow> bool \<Rightarrow> bool \<Rightarrow> dbl \<Rightarrow> int \<Rightarrow> bool \<Rightarrow> string \<Rightarrow> string \<Rightarrow> string list
    \<Rightarrow> ('n, 'g, 'h, 'b, 'rx) BridgeNode \<Rightarrow> (cpp_exception + ('n, 'g, 'h, 'b, 'rx) BridgeNode) option" where
  "load_manager S is_tf is_static_tf rate zstd_level publish_stale_data subscribe_namespace topic declared n =
     (let P = su_params S
      in if is_tf
         then bindO (Some (declare_get (pm_bool P) (topic @ ''.is_static_tf'') is_static_tf declared)) (\<lambda>(static, declared).
              bindO (Some (declare_get (pm_strings P) (topic @ ''.include'') [] declared)) (\<lambda>(include, declared).
              bindO (Some (declare_get (pm_strings P) (topic @ ''.exclude'') [] declared)) (\<lambda>(exclude, declared).
              bindO (load_transform S topic subscribe_namespace zstd_level publish_stale_data static include exclude)
                (add_manager rate declared n))))
         else bindO (load_generic S topic subscribe_namespace zstd_level publish_stale_data) (add_manager rate declared n))"

definition load_topic :: "('n, 'g, 'h, 'rx) Surroundings \<Rightarrow> dbl \<Rightarrow> int \<Rightarrow> bool \<Rightarrow> string \<Rightarrow> string
    \<Rightarrow> ('n, 'g, 'h, 'b, 'rx) BridgeNode \<Rightarrow> (cpp_exception + ('n, 'g, 'h, 'b, 'rx) BridgeNode) option" where
  "load_topic S default_rate default_zstd_level publish_stale_data subscribe_namespace topic n =
     (let P = su_params S;
          is_tf = (topic = ''/tf'' \<or> topic = ''tf'' \<or> topic = ''/tf_static'' \<or> topic = ''tf_static'');
          is_static_tf = (is_tf \<and> (topic = ''/tf_static'' \<or> topic = ''tf_static''))
      in bindO (Some (declare_get (pm_int P) (topic @ ''.zstd_level'') default_zstd_level (bn_declared n))) (\<lambda>(zstd_level, declared).
         bindO (Some (declare_get (pm_bool P) (topic @ ''.is_tf'') is_tf declared)) (\<lambda>(is_tf, declared).
         bindO (Some (declare_get (pm_double P) (topic @ ''.rate'') default_rate declared)) (\<lambda>(rate, declared).
           load_manager S is_tf is_static_tf (rnd32 rate) zstd_level publish_stale_data subscribe_namespace topic declared n))))"

fun load_topics :: "('n, 'g, 'h, 'rx) Surroundings \<Rightarrow> dbl \<Rightarrow> int \<Rightarrow> bool \<Rightarrow> string \<Rightarrow> string list
    \<Rightarrow> ('n, 'g, 'h, 'b, 'rx) BridgeNode \<Rightarrow> (cpp_exception + ('n, 'g, 'h, 'b, 'rx) BridgeNode) option" where
  "load_topics S rate level stale ns [] n = Some (Inr n)"
| "load_topics S rate level stale ns (t # ts) n = bindO (load_topic S rate level stale ns t n) (load_topics S rate level stale ns ts)"

subsection \<open>The node\<close>

definition load_parameters :: "('n, 'g, 'h, 'rx) Surroundings \<Rightarrow> ('n, 'g, 'h, 'b, 'rx) BridgeNode
    \<Rightarrow> (cpp_exception + ('n, 'g, 'h, 'b, 'rx) BridgeNode) option" where
  "load_parameters S n =
     (let P = su_params S
      in bindO (Some (declare_get (pm_string P) ''network_interface'' ''network_bridge::UdpInterface'' (bn_declared n))) (\<lambda>(name, declared).
         bindO (Some (declare_get (pm_bool P) ''publish_stale_data'' False declared)) (\<lambda>(stale, declared).
         bindO (Some (declare_get (pm_double P) ''default_rate'' 5 declared)) (\<lambda>(rate, declared).
         bindO (Some (declare_get (pm_int P) ''default_zstd_level'' 3 declared)) (\<lambda>(level, declared).
         bindO (Some (declare_get (pm_string P) ''wal_record_dir'' [] declared)) (\<lambda>(wal, declared).
         let b = load_wal S wal (bn_bridge n) in
         bindO (Some (declare_get (pm_string P) ''fault_type'' ''none'' declared)) (\<lambda>(fault_type, declared).
         bindO (Some (load_fault S fault_type declared b)) (\<lambda>(b, declared).
         bindO (Some (declare_get (pm_string P) ''publish_namespace'' [] declared)) (\<lambda>(pub_ns, declared).
         let b = b\<lparr>nb_publish_namespace := normalise_namespace pub_ns\<rparr> in
         bindO (Some (declare_get (pm_string P) ''subscribe_namespace'' [] declared)) (\<lambda>(sub_ns, declared).
         bindO (Some (declare_get (pm_strings P) ''topics'' [] declared)) (\<lambda>(topics, declared).
         bindO (load_topics S (rnd32 rate) level stale (normalise_namespace sub_ns) topics
                  (n\<lparr>bn_bridge := b, bn_network_interface_name := name, bn_declared := declared\<rparr>)) (\<lambda>n.
         Some (Inr (n\<lparr>bn_network_check_timer := True\<rparr>))))))))))))))"

text \<open>A plugin that cannot be loaded ends the process: \<^term>\<open>Inl e\<close>.\<close>

definition load_network_interface :: "('n, 'g, 'h, 'rx) Surroundings \<Rightarrow> ('n, 'g, 'h, 'b, 'rx) BridgeNode
    \<Rightarrow> cpp_exception + ('n, 'g, 'h, 'b, 'rx) BridgeNode" where
  "load_network_interface S n = (case su_create S (bn_network_interface_name n) of
     None \<Rightarrow> Inl (runtime_error ''exit'')
   | Some i \<Rightarrow> Inr (n\<lparr>bn_bridge := (bn_bridge n)\<lparr>nb_network_interface := Some i\<rparr>\<rparr>))"

definition bridge_initialize :: "('n, 'g, 'h, 'rx) Surroundings \<Rightarrow> ('n, 'g, 'h, 'b, 'rx) BridgeNode
    \<Rightarrow> (cpp_exception + ('n, 'g, 'h, 'b, 'rx) BridgeNode) option" where
  "bridge_initialize S n =
     bindO (load_parameters S n) (\<lambda>n.
     bindO (Some (load_network_interface S n)) (\<lambda>n.
       case nb_network_interface (bn_bridge n) of
         None \<Rightarrow> None
       | Some i \<Rightarrow> (case ni_open (su_ops S) i of
           None \<Rightarrow> None
         | Some i \<Rightarrow> Some (Inr (n\<lparr>bn_bridge := (bn_bridge n)\<lparr>nb_network_interface := Some i\<rparr>\<rparr>)))))"

subsection \<open>What an initialised node has\<close>

lemma declare_get_ok: "declare_get values name dflt declared = Inr (v, declared') \<longleftrightarrow>
    name \<notin> set declared \<and> v = (case values name of None \<Rightarrow> dflt | Some v \<Rightarrow> v) \<and> declared' = declared @ [name]"
  by (auto simp: declare_get_def)

lemma declare_get_again: "name \<in> set declared \<Longrightarrow> \<exists>e. declare_get values name dflt declared = Inl e"
  by (simp add: declare_get_def)

text \<open>A namespace is empty or starts with a slash.\<close>

lemma normalise_namespace_form: "normalise_namespace s = [] \<or> hd (normalise_namespace s) = CHR ''/''"
  by (cases s) (auto simp: normalise_namespace_def Let_def)

lemma normalise_namespace_plain: "s \<noteq> [] \<Longrightarrow> hd s = CHR ''/'' \<Longrightarrow> last s \<noteq> CHR ''/'' \<Longrightarrow> normalise_namespace s = s"
  by (simp add: normalise_namespace_def)

definition manager_topic :: "('h, 'b, 'rx) TopicManager \<Rightarrow> string" where
  "manager_topic m = (case m of Generic m \<Rightarrow> sm_topic m | Transform m \<Rightarrow> sm_topic (tm_base m))"

lemma load_generic_topic: "load_generic S topic ns level stale = Some (Inr m) \<Longrightarrow> manager_topic m = topic"
  by (auto simp: load_generic_def setup_generic_subscription_def setup_subscription_def manager_topic_def SubscriptionManager_new_def
      set_sensor_type_def create_subscription_def Let_def bind_eq_Some_conv split: option.splits if_splits list.splits)

lemma pattern_base:
  "set_include_pattern c ps m = Some m' \<Longrightarrow> tm_base m' = tm_base m"
  "set_exclude_pattern c ps m = Some m' \<Longrightarrow> tm_base m' = tm_base m"
  by (auto simp: set_include_pattern_def set_exclude_pattern_def bind_eq_Some_conv)

lemma setup_tf_topic:
  "setup_subscription create_subscription_tf tm_base_update tm_base f ok ts ps m = Some m' \<Longrightarrow> sm_topic (tm_base m') = sm_topic (tm_base m)"
  by (auto simp: setup_subscription_def create_subscription_tf_def Let_def bind_eq_Some_conv split: option.splits if_splits list.splits)

lemma load_transform_topic:
  assumes "load_transform S topic ns level stale static inc exc = Some (Inr m)"
  shows "manager_topic m = topic"
proof -
  obtain m1 m2 m3 where *: "(if inc \<noteq> [] then set_include_pattern (su_compile S) inc (SubscriptionManagerTF_new topic ns level stale static)
        else Some (SubscriptionManagerTF_new topic ns level stale static)) = Some m1"
    "(if exc \<noteq> [] then set_exclude_pattern (su_compile S) exc m1 else Some m1) = Some m2"
    "setup_subscription create_subscription_tf tm_base_update tm_base (su_from_rmw S) (su_ok S) (su_topics S) (su_publishers S) m2 = Some m3"
    "m = Transform m3"
    using assms by (simp add: load_transform_def Let_def split: option.splits)
  have "tm_base m2 = SubscriptionManager_new topic ns level stale"
    using *(1,2) pattern_base by (fastforce split: if_splits simp: SubscriptionManagerTF_new_def)
  then show ?thesis using setup_tf_topic [OF *(3)] *(4)
    by (simp add: manager_topic_def SubscriptionManager_new_def set_sensor_type_def)
qed

lemma add_manager_ok:
  "add_manager rate declared n m = Some (Inr n') \<longleftrightarrow> (\<exists>ms. timer_period rate = Some ms \<and>
     n' = n\<lparr>bn_sub_mgrs := bn_sub_mgrs n @ [m], bn_timers := bn_timers n @ [ms], bn_declared := declared\<rparr>)"
  by (auto simp: add_manager_def split: option.split)

lemma load_manager_added:
  assumes "load_manager S is_tf is_static rate level stale ns topic declared n = Some (Inr n')"
  shows "\<exists>m names. add_manager rate (declared @ names) n m = Some (Inr n') \<and> manager_topic m = topic"
proof (cases is_tf)
  case True
  obtain static inc exc m where "load_transform S topic ns level stale static inc exc = Some (Inr m)"
    "add_manager rate (((declared @ [topic @ ''.is_static_tf'']) @ [topic @ ''.include'']) @ [topic @ ''.exclude'']) n m = Some (Inr n')"
    using assms True by (auto simp: load_manager_def declare_get_ok Let_def simp del: append_assoc)
  then show ?thesis using load_transform_topic by (metis append_assoc)
next
  case False
  obtain m where "load_generic S topic ns level stale = Some (Inr m)" "add_manager rate declared n m = Some (Inr n')"
    using assms False by (auto simp: load_manager_def Let_def)
  then show ?thesis using load_generic_topic by (metis append_Nil2)
qed

lemma load_topic_added:
  assumes "load_topic S rate level stale ns topic n = Some (Inr n')"
  shows "\<exists>r m names. add_manager r (bn_declared n @ [topic @ ''.zstd_level''] @ names) n m = Some (Inr n') \<and> manager_topic m = topic \<and>
    topic @ ''.zstd_level'' \<notin> set (bn_declared n)"
proof -
  obtain a b r l where *: "topic @ ''.zstd_level'' \<notin> set (bn_declared n)"
    "load_manager S a b r l stale ns topic (((bn_declared n @ [topic @ ''.zstd_level'']) @ [topic @ ''.is_tf'']) @ [topic @ ''.rate'']) n = Some (Inr n')"
    using assms by (simp add: load_topic_def declare_get_ok Let_def split_beta del: append_assoc) (erule exE conjE, blast)+
  from load_manager_added [OF *(2)] *(1) show ?thesis by auto
qed

lemma load_topic_effect:
  assumes "load_topic S rate level stale ns topic n = Some (Inr n')"
  shows "\<exists>m ms. bn_sub_mgrs n' = bn_sub_mgrs n @ [m] \<and> manager_topic m = topic \<and> bn_timers n' = bn_timers n @ [ms] \<and>
    bn_bridge n' = bn_bridge n \<and> bn_network_interface_name n' = bn_network_interface_name n \<and>
    topic @ ''.zstd_level'' \<notin> set (bn_declared n) \<and> topic @ ''.zstd_level'' \<in> set (bn_declared n') \<and>
    set (bn_declared n) \<subseteq> set (bn_declared n')"
  using load_topic_added [OF assms] by (auto simp: add_manager_ok)

lemma load_topics_effect:
  assumes "load_topics S rate level stale ns ts n = Some (Inr n')"
  shows "map manager_topic (bn_sub_mgrs n') = map manager_topic (bn_sub_mgrs n) @ ts \<and>
    length (bn_timers n') = length (bn_timers n) + length ts \<and> bn_bridge n' = bn_bridge n \<and>
    bn_network_interface_name n' = bn_network_interface_name n \<and>
    distinct ts \<and> (\<forall>t\<in>set ts. t @ ''.zstd_level'' \<notin> set (bn_declared n)) \<and> set (bn_declared n) \<subseteq> set (bn_declared n')"
  using assms
proof (induction ts arbitrary: n)
  case (Cons t ts)
  then obtain n1 where n1: "load_topic S rate level stale ns t n = Some (Inr n1)" "load_topics S rate level stale ns ts n1 = Some (Inr n')"
    by auto
  from load_topic_effect [OF n1(1)] Cons.IH [OF n1(2)] show ?case by auto
qed simp

lemma load_fault_effect:
  "load_fault S fault_type declared b = Inr (b', declared') \<Longrightarrow>
     set declared \<subseteq> set declared' \<and> nb_network_interface b' = nb_network_interface b \<and> nb_tx_sequence b' = nb_tx_sequence b"
  by (auto simp: load_fault_def declare_get_ok Let_def split: if_splits)

lemma load_wal_frame [simp]:
  "nb_network_interface (load_wal S dir b) = nb_network_interface b" "nb_tx_sequence (load_wal S dir b) = nb_tx_sequence b"
  by (simp_all add: load_wal_def)

definition configured_topics :: "('n, 'g, 'h, 'rx) Surroundings \<Rightarrow> string list" where
  "configured_topics S = (case pm_strings (su_params S) ''topics'' of None \<Rightarrow> [] | Some ts \<Rightarrow> ts)"

definition configured_namespace :: "('n, 'g, 'h, 'rx) Surroundings \<Rightarrow> string" where
  "configured_namespace S = normalise_namespace (case pm_string (su_params S) ''publish_namespace'' of None \<Rightarrow> [] | Some ns \<Rightarrow> ns)"

lemma load_parameters_topics:
  assumes "load_parameters S n = Some (Inr n')"
  shows "\<exists>rate level stale ns b declared name n1. ''network_interface'' \<notin> set (bn_declared n) \<and> ''network_interface'' \<in> set declared \<and>
    load_topics S rate level stale ns (configured_topics S)
      (n\<lparr>bn_bridge := b, bn_network_interface_name := name, bn_declared := declared\<rparr>) = Some (Inr n1) \<and>
    n' = n1\<lparr>bn_network_check_timer := True\<rparr> \<and> nb_publish_namespace b = configured_namespace S \<and>
    nb_network_interface b = nb_network_interface (bn_bridge n) \<and> nb_tx_sequence b = nb_tx_sequence (bn_bridge n)"
proof -
  let ?d = "((((bn_declared n @ [''network_interface'']) @ [''publish_stale_data'']) @ [''default_rate'']) @ [''default_zstd_level'']) @ [''wal_record_dir'']"
  obtain name stale rate level wal fault_type b declared sub_ns n1 where *:
    "''network_interface'' \<notin> set (bn_declared n)"
    "load_fault S fault_type (?d @ [''fault_type'']) (load_wal S wal (bn_bridge n)) = Inr (b, declared)"
    "load_topics S rate level stale sub_ns (configured_topics S)
       (n\<lparr>bn_bridge := b\<lparr>nb_publish_namespace := configured_namespace S\<rparr>, bn_network_interface_name := name,
          bn_declared := ((declared @ [''publish_namespace'']) @ [''subscribe_namespace'']) @ [''topics'']\<rparr>) = Some (Inr n1)"
    "n' = n1\<lparr>bn_network_check_timer := True\<rparr>"
    using assms
    by (simp add: load_parameters_def declare_get_ok Let_def split_beta configured_topics_def configured_namespace_def del: append_assoc)
      (erule exE conjE, blast)+
  show ?thesis using * load_fault_effect [OF *(2)]
    by (intro exI [of _ rate] exI [of _ level] exI [of _ stale] exI [of _ sub_ns] exI [of _ "b\<lparr>nb_publish_namespace := configured_namespace S\<rparr>"]
        exI [of _ "((declared @ [''publish_namespace'']) @ [''subscribe_namespace'']) @ [''topics'']"] exI [of _ name] exI [of _ n1]) auto
qed

lemma initialize_again:
  assumes "''network_interface'' \<in> set (bn_declared n)"
  shows "\<exists>e. bridge_initialize S n = Some (Inl e)"
  using declare_get_again [OF assms, of "pm_string (su_params S)" "''network_bridge::UdpInterface''"]
  by (auto simp: bridge_initialize_def load_parameters_def Let_def)


lemma rnd32_5: "rnd32 5 = 5"
proof -
  have "\<lfloor>log 2 (5 :: real)\<rfloor> = 2"
    by (rule floor_unique) (simp_all add: le_log_iff log_less_iff powr_numeral)
  moreover have "(5 :: real) / 2 powi - 21 = of_int (5 * 2 ^ 21)" by (simp add: power_int_minus field_simps)
  then have "round_even (5 / 2 powi - 21) = 5 * 2 ^ 21" by (metis round_even_int)
  ultimately show ?thesis by (simp add: rnd32_def Let_def power_int_minus)
qed

definition one_topic :: "(nat, unit, unit, string) Surroundings" where
  "one_topic = \<lparr>su_params = \<lparr>pm_string = [''publish_namespace'' \<mapsto> ''car/''], pm_bool = Map.empty, pm_int = Map.empty, pm_double = Map.empty,
       pm_strings = [''topics'' \<mapsto> [''/scan'']]\<rparr>,
     su_can_open = (\<lambda>_. True), su_wal_files = Map.empty, su_random = (), su_compile = Some, su_from_rmw = id, su_ok = False,
     su_topics = Map.empty, su_publishers = (\<lambda>_. []), su_create = (\<lambda>_. Some 0),
     su_ops = \<lparr>ni_open = (\<lambda>i. Some (Suc i)), ni_close = id, ni_is_ready = (\<lambda>_. True), ni_has_failed = (\<lambda>_. False), ni_write = (\<lambda>_ i. Some i)\<rparr>\<rparr>"


end
