(* ===== verification/Udp_Interface.thy ===== *)
theory Udp_Interface
  imports Link_Interface
begin

text \<open>
  The UDP transport (\<^verbatim>\<open>udp_interface.hpp\<close>, \<^verbatim>\<open>udp_interface.cpp\<close>). A socket is modelled by whether it is
  open, the network by the datagrams that were sent and those passed to the receive callback.
  A pending asynchronous receive is a flag, completions of it are the arguments of \<open>udp_receive\<close>.
  The result \<^term>\<open>None\<close> is the exit of the process.
\<close>

record UdpInterface =
  ui_send_socket :: bool
  ui_receive_socket :: bool
  ui_send_endpoint :: "string \<times> int"
  ui_receive_endpoint :: "string \<times> int"
  ui_local_address :: string
  ui_receive_port :: int
  ui_remote_address :: string
  ui_send_port :: int
  ui_running :: bool
  ui_receiving :: bool
  ui_sent :: "bytes list"
  ui_received :: "bytes list"

text \<open>\<open>declared\<close> holds the values that the node's parameters override.\<close>

definition udp_load_parameters :: "(string \<rightharpoonup> string) \<Rightarrow> (string \<rightharpoonup> int) \<Rightarrow> UdpInterface \<Rightarrow> UdpInterface" where
  "udp_load_parameters strings ints i =
     (let str = (\<lambda>p. case strings (''UdpInterface.'' @ p) of None \<Rightarrow> [] | Some v \<Rightarrow> v);
          num = (\<lambda>p. case ints (''UdpInterface.'' @ p) of None \<Rightarrow> 0 | Some v \<Rightarrow> v)
      in i\<lparr>ui_local_address := str ''local_address'', ui_receive_port := num ''receive_port'',
           ui_remote_address := str ''remote_address'', ui_send_port := num ''send_port''\<rparr>)"

definition udp_error_handler :: "bool \<Rightarrow> bool \<Rightarrow> UdpInterface \<Rightarrow> UdpInterface option" where
  "udp_error_handler ec fatal i = (if ec \<and> fatal then None else Some i)"

definition udp_start_receive :: "UdpInterface \<Rightarrow> UdpInterface" where
  "udp_start_receive i = i\<lparr>ui_receiving := True\<rparr>"

text \<open>The error codes are those of the two opens, of the two addresses and of the bind.\<close>

definition setup_udp :: "bool \<Rightarrow> bool \<Rightarrow> bool \<Rightarrow> bool \<Rightarrow> bool \<Rightarrow> UdpInterface \<Rightarrow> UdpInterface option" where
  "setup_udp ec_send ec_remote ec_recv ec_local ec_bind i = do {
     i \<leftarrow> udp_error_handler ec_send True (i\<lparr>ui_send_socket := \<not> ec_send\<rparr>);
     i \<leftarrow> udp_error_handler ec_remote True (i\<lparr>ui_send_endpoint := (ui_remote_address i, ui_send_port i)\<rparr>);
     i \<leftarrow> udp_error_handler ec_recv True (i\<lparr>ui_receive_socket := \<not> ec_recv\<rparr>);
     i \<leftarrow> udp_error_handler ec_local True (i\<lparr>ui_receive_endpoint := (ui_local_address i, ui_receive_port i)\<rparr>);
     i \<leftarrow> udp_error_handler ec_bind True i;
     Some (udp_start_receive i) }"

definition udp_open :: "bool \<Rightarrow> bool \<Rightarrow> bool \<Rightarrow> bool \<Rightarrow> bool \<Rightarrow> UdpInterface \<Rightarrow> UdpInterface option" where
  "udp_open ec_send ec_remote ec_recv ec_local ec_bind i = do {
     i \<leftarrow> setup_udp ec_send ec_remote ec_recv ec_local ec_bind i;
     Some (i\<lparr>ui_running := True\<rparr>) }"

text \<open>Stopping the context and joining its thread leaves the sockets open.\<close>

definition udp_close :: "UdpInterface \<Rightarrow> UdpInterface" where
  "udp_close i = i\<lparr>ui_running := False\<rparr>"

definition udp_is_ready :: "UdpInterface \<Rightarrow> bool" where "udp_is_ready i = True"

definition udp_has_failed :: "UdpInterface \<Rightarrow> bool" where "udp_has_failed i = False"

text \<open>Completion of a receive with an error code and the bytes of the datagram; it consumes the pending receive.\<close>

definition udp_receive :: "bool \<Rightarrow> bytes \<Rightarrow> UdpInterface \<Rightarrow> UdpInterface" where
  "udp_receive ec bytes_recvd i =
     (let i = i\<lparr>ui_receiving := False\<rparr>
      in if bytes_recvd = [] then udp_start_receive i
         else if \<not> ec then udp_start_receive (i\<lparr>ui_received := ui_received i @ [bytes_recvd]\<rparr>)
         else i)"

text \<open>\<open>ec\<close> is the error code of \<^verbatim>\<open>send_to\<close>.\<close>

definition udp_write :: "bool \<Rightarrow> bytes \<Rightarrow> UdpInterface \<Rightarrow> UdpInterface option" where
  "udp_write ec data i =
     (if \<not> ui_send_socket i then Some i
      else udp_error_handler ec False (if ec then i else i\<lparr>ui_sent := ui_sent i @ [data]\<rparr>))"

definition udp_ops :: "bool \<Rightarrow> bool \<times> bool \<times> bool \<times> bool \<times> bool \<Rightarrow> UdpInterface NetworkInterface" where
  "udp_ops ec ecs = (case ecs of (e1, e2, e3, e4, e5) \<Rightarrow>
     \<lparr>ni_open = udp_open e1 e2 e3 e4 e5, ni_close = udp_close, ni_is_ready = udp_is_ready,
      ni_has_failed = udp_has_failed, ni_write = udp_write ec\<rparr>)"

interpretation udp_link: message_link "udp_ops False ecs" ui_send_socket ui_sent "\<lambda>d. [d]" "\<lambda>_. True"
  for ecs
  by unfold_locales (simp add: udp_ops_def udp_write_def udp_is_ready_def udp_error_handler_def split: prod.split)

text \<open>The completions are delivered in order until the first error on a non-empty datagram; nothing is
  received after that although the interface still reports that it has not failed.\<close>

fun udp_receive_loop :: "(bool \<times> bytes) list \<Rightarrow> UdpInterface \<Rightarrow> UdpInterface" where
  "udp_receive_loop [] i = i"
| "udp_receive_loop ((ec, d) # cs) i = (if ui_receiving i then udp_receive_loop cs (udp_receive ec d i) else i)"

definition udp_good :: "bool \<times> bytes \<Rightarrow> bool" where
  "udp_good c \<longleftrightarrow> \<not> fst c \<or> snd c = []"

lemma udp_receive_loop_delivers:
  "ui_receiving i \<Longrightarrow> ui_received (udp_receive_loop cs i) =
     ui_received i @ filter (\<lambda>d. d \<noteq> []) (map snd (takeWhile udp_good cs)) \<and>
   (ui_receiving (udp_receive_loop cs i) \<longleftrightarrow> list_all udp_good cs)"
proof (induction cs arbitrary: i)
  case (Cons c cs)
  obtain ec d where c: "c = (ec, d)" by force
  have stuck: "udp_receive_loop xs j = j" if "\<not> ui_receiving j" for xs j
    using that by (cases xs) auto
  from Cons c stuck show ?case
    by (auto simp: udp_receive_def udp_start_receive_def udp_good_def Let_def)
qed simp

lemma udp_open_ready:
  assumes "udp_open e1 e2 e3 e4 e5 i = Some i'"
  shows "ui_send_socket i' \<and> ui_receive_socket i' \<and> ui_receiving i' \<and> ui_running i' \<and>
    ui_send_endpoint i' = (ui_remote_address i, ui_send_port i) \<and> \<not> (e1 \<or> e2 \<or> e3 \<or> e4 \<or> e5)"
  using assms
  by (auto simp: udp_open_def setup_udp_def udp_error_handler_def udp_start_receive_def bind_eq_Some_conv split: if_splits)

text \<open>The UDP receive loop delivers the non-empty datagrams in order up to the first completion that
  reports an error together with bytes; after such a completion no receive is pending, so the interface is deaf
  for good while \<^verbatim>\<open>has_failed\<close> and \<^verbatim>\<open>is_ready\<close> still report a healthy link, so that the health check of the
  bridge does not reopen it.\<close>

theorem udp_deaf_after_error:
  assumes "ui_receiving i" and "list_all udp_good cs" and "d \<noteq> []"
  shows "let i' = udp_receive_loop (cs @ (True, d) # rest) i
    in ui_received i' = ui_received i @ filter (\<lambda>d. d \<noteq> []) (map snd cs) \<and> \<not> ui_receiving i' \<and>
       \<not> udp_has_failed i' \<and> udp_is_ready i'"
proof -
  have "takeWhile udp_good (cs @ (True, d) # rest) = cs"
    using assms(2,3) by (subst takeWhile_append2) (auto simp: udp_good_def list_all_iff)
  with udp_receive_loop_delivers [OF assms(1), of "cs @ (True, d) # rest"] assms(3) show ?thesis
    by (simp add: Let_def udp_has_failed_def udp_is_ready_def udp_good_def)
qed

theorem udp_deaf_after_error_witness:
  "\<exists>i'. udp_open False False False False False
       (udp_load_parameters [''UdpInterface.remote_address'' \<mapsto> ''10.0.0.2''] [''UdpInterface.send_port'' \<mapsto> 5001]
         \<lparr>ui_send_socket = False, ui_receive_socket = False, ui_send_endpoint = ([], 0), ui_receive_endpoint = ([], 0),
          ui_local_address = [], ui_receive_port = 0, ui_remote_address = [], ui_send_port = 0, ui_running = False,
          ui_receiving = False, ui_sent = [], ui_received = []\<rparr>) = Some i' \<and>
     ui_received (udp_receive_loop ([(False, [1]), (False, []), (False, [2, 3])] @ (True, [4]) # [(False, [5])]) i') = [[1], [2, 3]]"
proof -
  let ?i0 = "udp_load_parameters [''UdpInterface.remote_address'' \<mapsto> ''10.0.0.2''] [''UdpInterface.send_port'' \<mapsto> 5001]
         \<lparr>ui_send_socket = False, ui_receive_socket = False, ui_send_endpoint = ([], 0), ui_receive_endpoint = ([], 0),
          ui_local_address = [], ui_receive_port = 0, ui_remote_address = [], ui_send_port = 0, ui_running = False,
          ui_receiving = False, ui_sent = [], ui_received = []\<rparr>"
  obtain i' where i': "udp_open False False False False False ?i0 = Some i'" "ui_receiving i'" "ui_received i' = []"
    by (simp add: udp_open_def setup_udp_def udp_error_handler_def udp_start_receive_def udp_load_parameters_def)
  have "ui_received (udp_receive_loop ([(False, [1]), (False, []), (False, [2, 3])] @ (True, [4]) # [(False, [5])]) i') =
      ui_received i' @ filter (\<lambda>d. d \<noteq> []) (map snd [(False, [1]), (False, []), (False, [2, 3])])"
    using udp_deaf_after_error [of i' "[(False, [1]), (False, []), (False, [2, 3])]" "[4]" "[(False, [5])]"] i'(2)
    by (simp add: Let_def udp_good_def)
  with i' show ?thesis by (intro exI [of _ i']) simp
qed

end
