(* ===== verification/Bridge_Datagrams.thy ===== *)
theory Bridge_Datagrams
  imports Bridge_Session Udp_Interface
begin

text \<open>
  Two bridges over UDP: what arrives of a session when the network drops, repeats, reorders and damages
  datagrams. The sender is \<^verbatim>\<open>NetworkBridge::send_data\<close> over \<^verbatim>\<open>UdpInterface::write\<close>, one datagram per frame, the receiver
  \<^verbatim>\<open>UdpInterface::receive\<close> with \<^verbatim>\<open>NetworkBridge::receive_data\<close> as its callback. The frame decoder
  of the receiver decides alone what is published: it rejects damaged frames by their checksums and late frames by
  their sequence numbers, and it accepts a repeated frame again.
\<close>

subsection \<open>The network\<close>

text \<open>What arrives: the \<open>j\<close>th datagram that was sent, or a datagram damaged in up to four consecutive bytes.\<close>

datatype arrival = Intact nat | Damaged bytes

definition damage_of :: "bytes \<Rightarrow> bytes \<Rightarrow> bool" where
  "damage_of f d \<longleftrightarrow> (\<exists>p w w' q. f = p @ w @ q \<and> d = p @ w' @ q \<and> length w = length w' \<and> length w \<le> 4 \<and> w \<noteq> w')"

fun arrives :: "bytes list \<Rightarrow> arrival \<Rightarrow> bool" where
  "arrives sent (Intact j) = (j < length sent)"
| "arrives sent (Damaged d) = (\<exists>f\<in>set sent. damage_of f d)"

fun datagram :: "bytes list \<Rightarrow> arrival \<Rightarrow> bytes" where
  "datagram sent (Intact j) = sent ! j"
| "datagram sent (Damaged d) = d"

text \<open>The numbers of the messages that are published, given the number of the last one: those that arrive intact and not after
  a later one.\<close>

fun kept :: "nat option \<Rightarrow> arrival list \<Rightarrow> nat list" where
  "kept latest [] = []"
| "kept latest (Damaged d # as) = kept latest as"
| "kept latest (Intact j # as) =
     (if (case latest of None \<Rightarrow> True | Some k \<Rightarrow> k \<le> j) then j # kept (Some j) as else kept latest as)"

lemma kept_sorted: "sorted (kept latest as) \<and> (\<forall>k. latest = Some k \<longrightarrow> (\<forall>j\<in>set (kept latest as). k \<le> j))"
proof (induction latest "as" rule: kept.induct)
  case (3 latest j "as")
  then show ?case by (cases latest) (auto split: if_splits intro: order_trans)
qed simp_all

lemma kept_length: "length (kept latest as) \<le> length as"
  by (induction latest "as" rule: kept.induct) (simp_all add: le_SucI split: option.split)

text \<open>A network that loses datagrams but keeps their order and damages none costs nothing else.\<close>

lemma kept_in_order: "sorted js \<Longrightarrow> (\<And>k. latest = Some k \<Longrightarrow> \<forall>j\<in>set js. k \<le> j) \<Longrightarrow> kept latest (map Intact js) = js"
proof (induction js arbitrary: latest)
  case (Cons j js)
  have "kept (Some j) (map Intact js) = js" using Cons.prems(1) by (intro Cons.IH) auto
  with Cons.prems(2) show ?case by (auto split: option.split)
qed simp

subsection \<open>The receiver\<close>

lemma session_frames_nth: "j < length ms \<Longrightarrow> session_frames Z s ms ! j = message_frame Z (s + word_of_nat j) (ms ! j)"
  by (induction ms arbitrary: s j) (auto simp: nth_Cons' less_Suc_eq_0_disj add.assoc)

lemma session_frames_count [simp]: "length (session_frames Z s ms) = length ms"
  by (induction ms arbitrary: s) simp_all

text \<open>A datagram that the decoder does not accept changes the counters of the receiver only.\<close>

definition same_but_counts :: "('n, 'g) NetworkBridge \<Rightarrow> ('n, 'g) NetworkBridge \<Rightarrow> bool" where
  "same_but_counts b b' \<longleftrightarrow> nb_published b' = nb_published b \<and> nb_publish_namespace b' = nb_publish_namespace b \<and>
     nb_publishers b' = nb_publishers b \<and> nb_frame_decoder b' = nb_frame_decoder b \<and>
     nb_frame_reject_count b' = nb_frame_reject_count b + 1"

lemma receive_not_accepted:
  assumes "\<And>h dec. frame_decode (nb_frame_decoder b) (Some d) 0 FrameHeader_init \<noteq> Some (FrameError.kOk, h, dec)"
  shows "\<exists>b'. receive_data Z can_resize create_ok True True d b = Some (Inr b') \<and> same_but_counts b b'"
proof (cases d b rule: frame_decode_ok_or_rejected)
  case (reject err h)
  from receive_rejected [OF reject(1,2)] show ?thesis by (simp add: same_but_counts_def count_reject_def Let_def)
qed (use assms in blast)

lemma receive_damaged:
  assumes "sendable Z m" and "damage_of (message_frame Z s m) d"
  shows "\<exists>b'. receive_data Z can_resize create_ok True True d b = Some (Inr b') \<and> same_but_counts b b'"
proof (rule receive_not_accepted)
  obtain p w w' q where f: "message_frame Z s m = p @ w @ q" "d = p @ w' @ q" "length w = length w'" "length w \<le> 4" "w \<noteq> w'"
    using assms(2) unfolding damage_of_def by blast
  have ok: "frame_ok (frame_header_for kControl s (bm_time m) kFlagCompressed (compressed Z m)) (compressed Z m)"
    by (rule frame_ok_header_for [OF sendable_compress(2) [OF assms(1)]])
  have "decode_header (Some d) FrameHeader_init \<noteq> Some (FrameError.kOk, h)" for h
    using frame_burst [OF ok f(1) [unfolded message_frame_def] f(3-5), of FrameHeader_init h] f(2) by simp
  then show "frame_decode (nb_frame_decoder b) (Some d) 0 FrameHeader_init \<noteq> Some (FrameError.kOk, h, dec)" for h dec
    using frame_decode_ok(1) by blast
qed

lemma receive_late:
  assumes "sendable Z m" and "nb_frame_decoder b 0 = Some st" and "seen st" and "s < last_sequence st"
  shows "\<exists>b'. receive_data Z can_resize create_ok True True (message_frame Z s m) b = Some (Inr b') \<and> same_but_counts b b'"
proof (rule receive_not_accepted)
  let ?h = "frame_header_for kControl s (bm_time m) kFlagCompressed (compressed Z m)"
  have dh: "decode_header (Some (message_frame Z s m)) FrameHeader_init = Some (FrameError.kOk, ?h)"
    using decode_image [OF frame_ok_header_for [OF sendable_compress(2) [OF assms(1)]], where rest = "[]"]
    by (simp add: message_frame_def)
  show "frame_decode (nb_frame_decoder b) (Some (message_frame Z s m)) 0 FrameHeader_init \<noteq> Some (FrameError.kOk, h, dec)" for h dec
  proof
    assume a: "frame_decode (nb_frame_decoder b) (Some (message_frame Z s m)) 0 FrameHeader_init = Some (FrameError.kOk, h, dec)"
    from frame_decode_ok(1) [OF a] dh have "h = ?h" by simp
    with frame_decode_ok(3) [OF a assms(2,3)] have "latest_seq \<le> s" if "latest_seq = last_sequence st" for latest_seq
      using that by (simp add: frame_header_for_def)
    with assms(4) show False by (simp add: not_le [symmetric])
  qed
qed

text \<open>The decoder knows the last message that was published.\<close>

definition knows_last :: "u64 \<Rightarrow> bridge_message list \<Rightarrow> nat option \<Rightarrow> ('n, 'g) NetworkBridge \<Rightarrow> bool" where
  "knows_last s ms latest b \<longleftrightarrow> publishers_ok b \<and> nb_frame_decoder b 0 = map_option (\<lambda>k.
     \<lparr>last_sequence = s + word_of_nat k, last_timestamp_ns = bm_time (ms ! k), seen = True\<rparr>) latest"

lemma knows_last_same: "same_but_counts b b' \<Longrightarrow> knows_last s ms latest b \<Longrightarrow> knows_last s ms latest b'"
  by (simp add: knows_last_def same_but_counts_def publishers_ok_def)

lemma sequence_le_iff:
  assumes "unat s + n \<le> 2 ^ 64" and "j < n" and "k < n"
  shows "s + word_of_nat j \<le> (s + word_of_nat k :: u64) \<longleftrightarrow> j \<le> k"
proof -
  have "unat (s + word_of_nat i) = unat s + i" if "i < n" for i
    using assms(1) that by (simp add: unat_word_ariths unat_of_nat)
  then show ?thesis using assms(2,3) by (simp add: word_le_nat_alt)
qed

lemma receive_arrivals:
  assumes Z: "zstd_ok Z" "\<forall>m\<in>set ms. sendable Z m" "\<forall>n. can_resize n" "\<forall>n t. create_ok n t"
    and srt: "sorted (map bm_time ms)" and lim: "unat s + length ms \<le> 2 ^ 64"
    and "knows_last s ms latest b" "\<And>k. latest = Some k \<Longrightarrow> k < length ms"
    and "\<forall>a\<in>set as. arrives (session_frames Z s ms) a"
  shows "\<exists>b'. receive_all Z can_resize create_ok (map (datagram (session_frames Z s ms)) as) b = Some (Inr b') \<and>
    nb_published b' = nb_published b @ map (\<lambda>j. (nb_publish_namespace b @ bm_topic (ms ! j), bm_data (ms ! j))) (kept latest as) \<and>
    nb_frame_reject_count b' = nb_frame_reject_count b + word_of_nat (length as - length (kept latest as))"
  using assms(7-9)
proof (induction latest "as" arbitrary: b rule: kept.induct)
  case (2 latest d "as")
  then obtain i where i: "i < length ms" "damage_of (message_frame Z (s + word_of_nat i) (ms ! i)) d"
    by (auto simp: in_set_conv_nth session_frames_nth)
  then obtain b1 where b1: "receive_data Z can_resize create_ok True True d b = Some (Inr b1)" "same_but_counts b b1"
    using receive_damaged [OF _ i(2)] Z(2) nth_mem [OF i(1)] by blast
  have "length (kept latest as) \<le> length as" by (rule kept_length)
  with 2 b1 knows_last_same [OF b1(2)] show ?case by (fastforce simp: same_but_counts_def Suc_diff_le algebra_simps)
next
  case (3 latest j "as")
  have j: "j < length ms" using 3(5) by simp
  let ?s = "s + word_of_nat j" and ?m = "ms ! j"
  have m: "sendable Z ?m" and f: "session_frames Z s ms ! j = message_frame Z ?s ?m"
    using Z(2) j by (simp_all add: session_frames_nth)
  show ?case
  proof (cases "case latest of None \<Rightarrow> True | Some k \<Rightarrow> k \<le> j")
    case True
    have "decoder_below ?s (bm_time ?m) (nb_frame_decoder b)"
      using 3(3,4) True sequence_le_iff [OF lim _ j] sorted_nth_mono [OF srt, of _ j] j
      by (auto simp: decoder_below_def knows_last_def split: option.splits)
    moreover have "publishers_ok b" using 3(3) by (simp add: knows_last_def)
    ultimately obtain b1 where b1: "receive_data Z can_resize create_ok True True (message_frame Z ?s ?m) b = Some (Inr b1)"
      "publishers_ok b1" "nb_publish_namespace b1 = nb_publish_namespace b"
      "nb_published b1 = nb_published b @ [(nb_publish_namespace b @ bm_topic ?m, bm_data ?m)]"
      "nb_frame_reject_count b1 = nb_frame_reject_count b"
      "nb_frame_decoder b1 0 = Some \<lparr>last_sequence = ?s, last_timestamp_ns = bm_time ?m, seen = True\<rparr>"
      using receive_message [OF Z(1) m Z(3,4)] by blast
    then have "knows_last s ms (Some j) b1" by (simp add: knows_last_def)
    from 3(1) [OF True this] 3(5) j b1 True show ?thesis by (simp add: f)
  next
    case False
    then obtain k where k: "latest = Some k" "j < k" by (auto split: option.splits)
    then have "?s < s + word_of_nat k" using sequence_le_iff [OF lim _ j, of k] 3(4) by (simp add: not_le [symmetric])
    then obtain b1 where b1: "receive_data Z can_resize create_ok True True (message_frame Z ?s ?m) b = Some (Inr b1)" "same_but_counts b b1"
      using receive_late [OF m, of b _ ?s] 3(3) k(1) by (fastforce simp: knows_last_def)
    have "length (kept latest as) \<le> length as" by (rule kept_length)
    with 3(2) [OF False knows_last_same [OF b1(2) 3(3)] 3(4)] 3(5) b1 False show ?thesis
      by (fastforce simp: f same_but_counts_def Suc_diff_le algebra_simps)
  qed
qed simp

text \<open>The loop of the interface passes every datagram on.\<close>

lemma datagram_nonempty: "arrives (session_frames Z s ms) a \<Longrightarrow> datagram (session_frames Z s ms) a \<noteq> []"
proof -
  have "length (message_frame Z s m) = 40 + length (compressed Z m)" for s m by (simp add: message_frame_def)
  then have ne: "message_frame Z s m \<noteq> []" for s m by (metis add_eq_0_iff_both_eq_0 list.size(3) zero_neq_numeral)
  assume "arrives (session_frames Z s ms) a"
  then show ?thesis
  proof (cases a)
    case (Damaged d)
    with \<open>arrives _ a\<close> show ?thesis by (auto simp: damage_of_def)
  qed (simp add: session_frames_nth ne)
qed

lemma udp_passes_on:
  assumes "ui_receiving i" "ui_received i = []" "\<forall>d\<in>set ds. d \<noteq> []"
  shows "ui_received (udp_receive_loop (map (\<lambda>d. (False, d)) ds) i) = ds"
proof -
  have "takeWhile udp_good (map (\<lambda>d. (False, d)) ds) = map (\<lambda>d. (False, d)) ds"
    by (simp add: takeWhile_eq_all_conv udp_good_def)
  with udp_receive_loop_delivers [OF assms(1), of "map (\<lambda>d. (False, d)) ds"] assms(2,3) show ?thesis
    by (simp add: comp_def)
qed

subsection \<open>Property\<close>

text \<open>C2: End to end over UDP: a bridge sends messages, without fault injection, and a network delivers the datagrams in any order, any
  number of times or never, intact or damaged in up to four consecutive bytes. A fresh bridge at the other end, given what arrives,
  publishes exactly the messages that arrive intact and not after a later one, each time they do, so that what is published is in
  the order in which it was sent; every other datagram is rejected and counted. The hypotheses are those of \<open>bridge_over_tcp\<close>.\<close>

theorem bridge_over_udp:
  assumes "zstd_ok Z" "\<forall>n. can_resize n" "\<forall>n t. create_ok n t"
    and "\<forall>m\<in>set ms. sendable Z m" "sorted (map bm_time ms)" "unat (nb_tx_sequence tx) + length ms \<le> 2 ^ 64"
    and "nb_network_interface tx = Some i" "ui_send_socket i" "ui_sent i = []" "nb_fault_engine tx = None"
    and "nb_frame_decoder rx = Map.empty" "nb_publishers rx = Map.empty" "ui_receiving i2" "ui_received i2 = []"
  shows "\<exists>tx' i'. send_all Z (udp_ops False ecs) E can_open wfail t_s ms tx = Some tx' \<and> nb_network_interface tx' = Some i' \<and> length (ui_sent i') = length ms \<and>
    (\<forall>as. (\<forall>a\<in>set as. arrives (ui_sent i') a) \<longrightarrow>
      (\<exists>rx'. receive_all Z can_resize create_ok
           (ui_received (udp_receive_loop (map (\<lambda>a. (False, datagram (ui_sent i') a)) as) i2)) rx = Some (Inr rx') \<and>
         nb_published rx' = nb_published rx @
           map (\<lambda>j. (nb_publish_namespace rx @ bm_topic (ms ! j), bm_data (ms ! j))) (kept None as) \<and>
         sorted (kept None as) \<and>
         nb_frame_reject_count rx' = nb_frame_reject_count rx + word_of_nat (length as - length (kept None as))))"
proof -
  let ?ops = "udp_ops False ecs" and ?s = "nb_tx_sequence tx"
  let ?fs = "session_frames Z ?s ms"
  have "ni_is_ready ?ops i" by (simp add: udp_ops_def udp_is_ready_def split: prod.split)
  then obtain i' where i': "write_all ?ops ?fs i = Some i'" "ui_sent i' = ?fs"
    using udp_link.write_all_ok [OF assms(8), of ecs ?fs] assms(9) by auto
  obtain tx' where tx': "send_all Z ?ops E can_open wfail t_s ms tx = Some tx'" "nb_network_interface tx' = Some i'"
    using send_all_writes [OF assms(4,10,7) i'(1)] by blast
  have start: "knows_last ?s ms None rx" by (simp add: knows_last_def publishers_ok_def assms(11,12))
  have "ui_received (udp_receive_loop (map (\<lambda>a. (False, datagram ?fs a)) as) i2) = map (datagram ?fs) as"
    if "\<forall>a\<in>set as. arrives ?fs a" for as
    using udp_passes_on [OF assms(13,14), of "map (datagram ?fs) as"] that datagram_nonempty by (auto simp: comp_def)
  with receive_arrivals [OF assms(1,4,2,3,5,6) start] kept_sorted [of None] show ?thesis
    unfolding i'(2) [symmetric] by (intro exI [of _ tx'] exI [of _ i']) (auto simp: tx' i'(2))
qed

definition open_udp :: UdpInterface where
  "open_udp = \<lparr>ui_send_socket = True, ui_receive_socket = True, ui_send_endpoint = ([], 0), ui_receive_endpoint = ([], 0),
     ui_local_address = [], ui_receive_port = 0, ui_remote_address = [], ui_send_port = 0, ui_running = True, ui_receiving = True,
     ui_sent = [], ui_received = []\<rparr>"

theorem bridge_over_udp_witness:
  "\<exists>tx' i' rx'. send_all plain_zstd (udp_ops False (False, False, False, False, False)) (undefined :: unit Env) (\<lambda>_. True) None 0
      [sample_message 5, sample_message 9] (NetworkBridge_new\<lparr>nb_network_interface := Some open_udp\<rparr>) = Some tx' \<and>
    nb_network_interface tx' = Some i' \<and>
    receive_all plain_zstd (\<lambda>_. True) (\<lambda>_ _. True)
      (ui_received (udp_receive_loop (map (\<lambda>a. (False, datagram (ui_sent i') a)) [Intact 1, Intact 0, Intact 1]) open_udp))
      ((NetworkBridge_new :: (unit, unit) NetworkBridge)\<lparr>nb_publish_namespace := ''/car''\<rparr>) = Some (Inr rx') \<and>
    nb_published rx' = [(''/car/scan'', [1, 2, 3]), (''/car/scan'', [1, 2, 3])] \<and> nb_frame_reject_count rx' = 1"
proof -
  let ?tx = "NetworkBridge_new\<lparr>nb_network_interface := Some open_udp\<rparr> :: (UdpInterface, unit) NetworkBridge"
  let ?rx = "(NetworkBridge_new :: (unit, unit) NetworkBridge)\<lparr>nb_publish_namespace := ''/car''\<rparr>"
  let ?ms = "[sample_message 5, sample_message 9]" and ?as = "[Intact 1, Intact 0, Intact 1]"
  have pre: "\<forall>m\<in>set ?ms. sendable plain_zstd m" "sorted (map bm_time ?ms)" "unat (nb_tx_sequence ?tx) + length ?ms \<le> 2 ^ 64"
    "nb_network_interface ?tx = Some open_udp" "ui_send_socket open_udp" "ui_sent open_udp = []" "nb_fault_engine ?tx = None"
    "nb_frame_decoder ?rx = Map.empty" "nb_publishers ?rx = Map.empty" "ui_receiving open_udp" "ui_received open_udp = []"
    by (simp_all add: sample_sendable NetworkBridge_new_def open_udp_def) (simp add: sample_message_def)
  have all: "\<forall>n :: nat. (\<lambda>_. True) n" "\<forall>n t :: string. (\<lambda>_ _. True) n t" by simp_all
  from bridge_over_udp [OF plain_zstd_ok all pre, of "(False, False, False, False, False)" "undefined :: unit Env" "\<lambda>_. True" None 0]
  obtain tx' i' where s: "send_all plain_zstd (udp_ops False (False, False, False, False, False)) (undefined :: unit Env) (\<lambda>_. True) None 0
      ?ms ?tx = Some tx'" "nb_network_interface tx' = Some i'" "length (ui_sent i') = length ?ms"
    and r: "\<forall>as. (\<forall>a\<in>set as. arrives (ui_sent i') a) \<longrightarrow> (\<exists>rx'. receive_all plain_zstd (\<lambda>_. True) (\<lambda>_ _. True)
           (ui_received (udp_receive_loop (map (\<lambda>a. (False, datagram (ui_sent i') a)) as) open_udp)) ?rx = Some (Inr rx') \<and>
         nb_published rx' = nb_published ?rx @
           map (\<lambda>j. (nb_publish_namespace ?rx @ bm_topic (?ms ! j), bm_data (?ms ! j))) (kept None as) \<and>
         sorted (kept None as) \<and>
         nb_frame_reject_count rx' = nb_frame_reject_count ?rx + word_of_nat (length as - length (kept None as)))"
    by blast
  have "\<forall>a\<in>set ?as. arrives (ui_sent i') a" using s(3) by simp
  with r obtain rx' where rx': "receive_all plain_zstd (\<lambda>_. True) (\<lambda>_ _. True)
           (ui_received (udp_receive_loop (map (\<lambda>a. (False, datagram (ui_sent i') a)) ?as) open_udp)) ?rx = Some (Inr rx')"
    "nb_published rx' = nb_published ?rx @ map (\<lambda>j. (nb_publish_namespace ?rx @ bm_topic (?ms ! j), bm_data (?ms ! j))) (kept None ?as)"
    "nb_frame_reject_count rx' = nb_frame_reject_count ?rx + word_of_nat (length ?as - length (kept None ?as))"
    by blast
  have "nb_published rx' = [(''/car/scan'', [1, 2, 3]), (''/car/scan'', [1, 2, 3])]" "nb_frame_reject_count rx' = 1"
    unfolding rx'(2,3) by (simp_all add: NetworkBridge_new_def sample_message_def)
  with s(1,2) rx'(1) show ?thesis by blast
qed

end
