(* ===== verification/Bridge_Faults.thy ===== *)
theory Bridge_Faults
  imports Bridge_Datagrams
begin

text \<open>
  A bridge with fault injection over UDP: the sender passes every frame through its fault engine
  (\<^verbatim>\<open>NetworkBridge::send_data\<close>, \<^verbatim>\<open>FaultEngine::process\<close>, \<^verbatim>\<open>FaultEngine::worker_loop\<close>) and whatever the engine writes goes over
  the network of \<open>Bridge_Datagrams\<close> to a second bridge. The faults may drop, delay, repeat and
  reorder frames, by rules, random draws and clock readings that are not restricted.
\<close>

subsection \<open>What an engine without corruption writes\<close>

text \<open>Without a corruption rule, an engine that is given only frames with a property holds and writes only such frames.\<close>

definition engine_only :: "(bytes \<Rightarrow> bool) \<Rightarrow> 'g FaultEngine \<Rightarrow> bool" where
  "engine_only P e \<longleftrightarrow> list_all P (fe_writes e) \<and> list_all (P \<circ> dl_data) (fe_delayed e) \<and> (fe_has_held e \<longrightarrow> P (fe_held e)) \<and>
     (\<forall>r\<in>set (fe_rules e). fr_kind r \<noteq> kCorrupt)"

named_theorems only_intros

lemma only_emit [only_intros]: "engine_only P e \<Longrightarrow> P d \<Longrightarrow> engine_only P (emit d e)"
  by (simp add: engine_only_def emit_def)

lemma only_drop [only_intros]: "engine_only P e \<Longrightarrow> engine_only P (count_drop e)"
  by (simp add: engine_only_def count_drop_def)

lemma only_frame:
  "engine_only P (e\<lparr>fe_env := g\<rparr>) = engine_only P e" "engine_only P (e\<lparr>fe_restarted := xs\<rparr>) = engine_only P e"
  "engine_only P (e\<lparr>fe_stats := st\<rparr>) = engine_only P e"
  "engine_only P (e\<lparr>fe_env := g, fe_last_refill_ns := n, fe_tokens_bytes := t\<rparr>) = engine_only P e"
  "engine_only P e \<Longrightarrow> engine_only P (e\<lparr>fe_has_held := False, fe_held := []\<rparr>)"
  "engine_only P e \<Longrightarrow> P d \<Longrightarrow> engine_only P (e\<lparr>fe_has_held := True, fe_held := d\<rparr>)"
  by (simp_all add: engine_only_def)

lemma only_dispatch [only_intros]: "engine_only P e \<Longrightarrow> P d \<Longrightarrow> engine_only P (dispatch_or_delay E active d e)"
  by (auto simp: dispatch_or_delay_def Let_def only_emit split: prod.split) (simp add: engine_only_def)

lemma only_restart: "engine_only P (restart_loop stream rs e) = engine_only P e"
  by (simp add: engine_only_def)

lemma only_duplicate [only_intros]: "engine_only P e \<Longrightarrow> P d \<Longrightarrow> engine_only P (duplicate_loop E active rs d e)"
  by (induction rs arbitrary: e) (simp_all add: Let_def only_frame only_dispatch)

lemma only_process:
  assumes only: "engine_only P e" and d: "P d"
  shows "engine_only P (process E d t stream e)"
proof -
  let ?a = "active_rules e t stream"
  define e1 where "e1 = (let e = restart_loop stream ?a e
    in if ?a = [] then e\<lparr>fe_restarted := filter (\<lambda>s. s \<noteq> stream) (fe_restarted e)\<rparr> else e)"
  obtain dr g where dl: "drop_loop E ?a (fe_env e1) = (dr, g)" by force
  obtain ov e2 where bl: "bandwidth_loop E (length d) ?a (e1\<lparr>fe_env := g\<rparr>) = (ov, e2)" by force
  have cl: "corrupt_loop E ?a d e2 = (d, e2)"
    using only by (intro corrupt_loop_none) (auto simp: engine_only_def active_rules_def)
  have 1: "engine_only P e1" using only by (simp add: e1_def only_restart only_frame Let_def)
  have 2: "engine_only P e2" using bandwidth_loop_frame [OF bl] 1 by (auto simp: only_frame)
  have "fe_has_held e2 \<Longrightarrow> P (fe_held e2)" using 2 by (simp add: engine_only_def)
  with 1 2 d show ?thesis
    unfolding process_stages [OF e1_def dl bl cl refl] by (auto simp: only_frame Let_def intro!: only_intros)
qed

lemma only_worker: "engine_only P e \<Longrightarrow> engine_only P (worker_step E e)"
proof -
  assume only: "engine_only P e"
  have "engine_only P (emit (dl_data d) (e\<lparr>fe_env := g, fe_delayed := rest\<rparr>))" if "delayed_pop (fe_delayed e) = Some (d, rest)" for d rest g
  proof -
    have "set (fe_delayed e) = insert d (set rest)"
      using delayed_pop_min(1) [OF that] by (metis set_mset_add_mset_insert set_mset_mset)
    with only show ?thesis by (auto simp: engine_only_def emit_def list_all_iff)
  qed
  with only show ?thesis by (auto simp: worker_step_def Let_def only_frame split: option.split prod.split)
qed

text \<open>What happens to the sending bridge: messages, each with the time the engine sees, and turns of the worker.\<close>

datatype bridge_event = SendMessage bridge_message dbl | WorkerTurn

fun bridge_run :: "Zstd \<Rightarrow> 'n NetworkInterface \<Rightarrow> 'g Env \<Rightarrow> (string \<Rightarrow> bool) \<Rightarrow> nat option \<Rightarrow> bridge_event list
    \<Rightarrow> ('n, 'g) NetworkBridge \<Rightarrow> ('n, 'g) NetworkBridge option" where
  "bridge_run Z ops E can_open wfail [] b = Some b"
| "bridge_run Z ops E can_open wfail (SendMessage m t_s # evs) b = do {
     b \<leftarrow> send_message Z ops E can_open wfail (bm_time m) t_s (bm_topic m) (bm_type m) (bm_level m) (bm_data m) b;
     bridge_run Z ops E can_open wfail evs b }"
| "bridge_run Z ops E can_open wfail (WorkerTurn # evs) b = do {
     b \<leftarrow> (case nb_fault_engine b of None \<Rightarrow> Some b | Some e \<Rightarrow> with_fault_engine ops (worker_step E) e b);
     bridge_run Z ops E can_open wfail evs b }"

fun sent_messages :: "bridge_event list \<Rightarrow> bridge_message list" where
  "sent_messages [] = []"
| "sent_messages (SendMessage m t_s # evs) = m # sent_messages evs"
| "sent_messages (WorkerTurn # evs) = sent_messages evs"

subsection \<open>The sender\<close>

text \<open>Everything in the engine and on the network is a frame of the session.\<close>

definition sender_only :: "(bytes \<Rightarrow> bool) \<Rightarrow> (UdpInterface, 'g) NetworkBridge \<Rightarrow> bool" where
  "sender_only P b \<longleftrightarrow> (\<exists>e i. nb_fault_engine b = Some e \<and> engine_only P e \<and>
     nb_network_interface b = Some i \<and> ui_send_socket i \<and> list_all P (ui_sent i))"

lemma with_engine_only:
  assumes "sender_only P b" and "nb_fault_engine b = Some e" and "engine_only P (f e)"
  shows "\<exists>b'. with_fault_engine (udp_ops False ecs) f e b = Some b' \<and> sender_only P b' \<and> nb_tx_sequence b' = nb_tx_sequence b"
proof -
  let ?ws = "drop (length (fe_writes e)) (fe_writes (f e))"
  obtain i where i: "nb_network_interface b = Some i" "ui_send_socket i" "list_all P (ui_sent i)"
    using assms(1) by (auto simp: sender_only_def)
  have P: "list_all P ?ws" using assms(3) by (auto simp: engine_only_def list_all_iff dest: in_set_dropD)
  have "ni_is_ready (udp_ops False ecs) i" by (simp add: udp_ops_def udp_is_ready_def split: prod.split)
  then obtain i' where "write_all (udp_ops False ecs) ?ws i = Some i'" "ui_send_socket i'" "ui_sent i' = ui_sent i @ ?ws"
    using udp_link.write_all_ok [OF i(2), of ecs ?ws] by auto
  then show ?thesis
    using i P assms(3) by (simp add: with_fault_engine_def fault_callback_def sender_only_def)
qed

lemma send_message_only:
  assumes "sender_only P b" and "sendable Z m" and "P (message_frame Z (nb_tx_sequence b) m)"
  shows "\<exists>b'. send_message Z (udp_ops False ecs) E can_open wfail (bm_time m) t_s (bm_topic m) (bm_type m) (bm_level m) (bm_data m) b = Some b' \<and>
    sender_only P b' \<and> nb_tx_sequence b' = nb_tx_sequence b + 1"
proof -
  let ?f = "message_frame Z (nb_tx_sequence b) m"
  let ?b = "record_frame can_open wfail (bm_time m) (compressed Z m) (b\<lparr>nb_tx_sequence := nb_tx_sequence b + 1\<rparr>)"
  obtain e where e: "nb_fault_engine b = Some e" "engine_only P e" using assms(1) by (auto simp: sender_only_def)
  have "sender_only P ?b" using assms(1) by (simp add: sender_only_def)
  then obtain b' where "with_fault_engine (udp_ops False ecs) (process E ?f t_s (bm_topic m)) e ?b = Some b'" "sender_only P b'"
      "nb_tx_sequence b' = nb_tx_sequence b + 1"
    using with_engine_only [of P ?b e "process E ?f t_s (bm_topic m)" ecs] only_process [OF e(2) assms(3)] e(1) by auto
  then show ?thesis
    using e(1) sendable_compress [OF assms(2)] by (simp add: send_message_def Let_def encode_frame_image message_frame_def)
qed

lemma bridge_run_only:
  assumes "sender_only P b" and "\<forall>m\<in>set (sent_messages evs). sendable Z m"
    and "\<forall>f\<in>set (session_frames Z (nb_tx_sequence b) (sent_messages evs)). P f"
  shows "\<exists>b'. bridge_run Z (udp_ops False ecs) E can_open wfail evs b = Some b' \<and> sender_only P b'"
  using assms
proof (induction evs arbitrary: b rule: sent_messages.induct)
  case (2 m t_s evs)
  then obtain b1 where "send_message Z (udp_ops False ecs) E can_open wfail (bm_time m) t_s (bm_topic m) (bm_type m) (bm_level m) (bm_data m) b = Some b1"
    "sender_only P b1" "nb_tx_sequence b1 = nb_tx_sequence b + 1"
    using send_message_only [of P b Z m ecs E can_open wfail t_s] by auto
  with 2 show ?case by simp
next
  case (3 evs)
  obtain e where e: "nb_fault_engine b = Some e" "engine_only P e" using 3(2) by (auto simp: sender_only_def)
  obtain b1 where "with_fault_engine (udp_ops False ecs) (worker_step E) e b = Some b1" "sender_only P b1" "nb_tx_sequence b1 = nb_tx_sequence b"
    using with_engine_only [where f = "worker_step E", OF 3(2) e(1) only_worker [OF e(2)]] by blast
  with 3 e(1) show ?case by simp
qed simp

text \<open>Any selection of what was sent is a list of arrivals.\<close>

lemma as_arrivals:
  assumes "set ds \<subseteq> set fs"
  shows "\<exists>as. map (datagram fs) as = ds \<and> (\<forall>a\<in>set as. arrives fs a)"
  using assms
proof (induction ds)
  case (Cons d ds)
  then obtain "as" j where "map (datagram fs) as = ds" "\<forall>a\<in>set as. arrives fs a" "j < length fs" "fs ! j = d"
    by (auto simp: in_set_conv_nth)
  then show ?case by (intro exI [of _ "Intact j # as"]) simp
qed simp

lemma kept_subset: "\<forall>a\<in>set as. arrives fs a \<Longrightarrow> set (kept latest as) \<subseteq> {..<length fs}"
  by (induction latest "as" rule: kept.induct) (auto split: if_splits)

lemma only_new: "\<forall>r\<in>set rules. fr_kind r \<noteq> kCorrupt \<Longrightarrow> engine_only P (fold add_rule rules (FaultEngine_new g))"
proof -
  have "fold add_rule rules e = e\<lparr>fe_rules := fe_rules e @ rules\<rparr>" for e :: "'a FaultEngine"
    by (induction rules arbitrary: e) (simp_all add: add_rule_def)
  then show "\<forall>r\<in>set rules. fr_kind r \<noteq> kCorrupt \<Longrightarrow> engine_only P (fold add_rule rules (FaultEngine_new g))"
    by (simp add: engine_only_def FaultEngine_new_def)
qed

subsection \<open>Property\<close>

text \<open>C4: No fault but corruption can make the receiver publish anything that was not sent, or in another order: a bridge with a fault
  engine that has any rules but corruption, starting with an empty engine, sends messages over UDP, with turns of the engine's
  worker in between. Whatever of the datagrams that it puts on the network arrives, in any order and any number of times, a fresh bridge at
  the other end accepts it all without an error and publishes a sequence of the messages that were sent, in an order in
  which they were sent.\<close>

theorem faults_never_forge:
  assumes "zstd_ok Z" "\<forall>n. can_resize n" "\<forall>n t. create_ok n t"
    and "\<forall>m\<in>set (sent_messages evs). sendable Z m" "sorted (map bm_time (sent_messages evs))"
    and "unat (nb_tx_sequence tx) + length (sent_messages evs) \<le> 2 ^ 64"
    and "nb_network_interface tx = Some i" "ui_send_socket i" "ui_sent i = []"
    and "nb_fault_engine tx = Some (fold add_rule rules (FaultEngine_new g))" "\<forall>r\<in>set rules. fr_kind r \<noteq> kCorrupt"
    and "nb_frame_decoder rx = Map.empty" "nb_publishers rx = Map.empty"
  shows "\<exists>tx' i'. bridge_run Z (udp_ops False ecs) E can_open wfail evs tx = Some tx' \<and> nb_network_interface tx' = Some i' \<and>
    (\<forall>ds. set ds \<subseteq> set (ui_sent i') \<longrightarrow>
      (\<exists>js rx'. receive_all Z can_resize create_ok ds rx = Some (Inr rx') \<and> sorted js \<and> set js \<subseteq> {..<length (sent_messages evs)} \<and>
         nb_published rx' = nb_published rx @
           map (\<lambda>j. (nb_publish_namespace rx @ bm_topic (sent_messages evs ! j), bm_data (sent_messages evs ! j))) js))"
proof -
  let ?ms = "sent_messages evs" and ?s = "nb_tx_sequence tx"
  let ?fs = "session_frames Z ?s ?ms"
  have "engine_only (\<lambda>d. d \<in> set ?fs) (fold add_rule rules (FaultEngine_new g))"
    using assms(11) by (rule only_new)
  then have "sender_only (\<lambda>d. d \<in> set ?fs) tx" using assms(7-10) by (simp add: sender_only_def)
  then obtain tx' where tx': "bridge_run Z (udp_ops False ecs) E can_open wfail evs tx = Some tx'" "sender_only (\<lambda>d. d \<in> set ?fs) tx'"
    using bridge_run_only [OF _ assms(4)] by blast
  then obtain i' where i': "nb_network_interface tx' = Some i'" "set (ui_sent i') \<subseteq> set ?fs"
    by (auto simp: sender_only_def list_all_iff)
  have "\<exists>js rx'. receive_all Z can_resize create_ok ds rx = Some (Inr rx') \<and> sorted js \<and> set js \<subseteq> {..<length ?ms} \<and>
      nb_published rx' = nb_published rx @ map (\<lambda>j. (nb_publish_namespace rx @ bm_topic (?ms ! j), bm_data (?ms ! j))) js"
    if sub: "set ds \<subseteq> set (ui_sent i')" for ds
  proof -
    obtain as where as: "map (datagram ?fs) as = ds" "\<forall>a\<in>set as. arrives ?fs a"
      using as_arrivals [of ds ?fs] sub i'(2) by blast
    have "knows_last ?s ?ms None rx" by (simp add: knows_last_def publishers_ok_def assms(12,13))
    from receive_arrivals [OF assms(1,4,2,3,5,6) this _ as(2)] as kept_sorted [of None "as"] kept_subset [of "as" ?fs None] show ?thesis
      by (fastforce simp: session_frames_count)
  qed
  with tx'(1) i'(1) show ?thesis by blast
qed

text \<open>A session of two messages through a rule that swaps neighbours and one that repeats.\<close>

definition swap_and_repeat :: "FaultRule list" where
  "swap_and_repeat = [FaultRule_init\<lparr>fr_kind := kReorder, fr_duration_s := 5\<rparr>, FaultRule_init\<lparr>fr_kind := kDuplicate, fr_duration_s := 9\<rparr>]"

theorem faults_never_forge_witness:
  "\<exists>tx' i'. bridge_run plain_zstd (udp_ops False (False, False, False, False, False)) (undefined :: unit Env) (\<lambda>_. True) None
      [SendMessage (sample_message 5) 1, WorkerTurn, SendMessage (sample_message 9) 2]
      (NetworkBridge_new\<lparr>nb_network_interface := Some open_udp,
         nb_fault_engine := Some (fold add_rule swap_and_repeat (FaultEngine_new ()))\<rparr>) = Some tx' \<and>
    nb_network_interface tx' = Some i' \<and>
    (\<exists>(js :: nat list) rx'. receive_all plain_zstd (\<lambda>_. True) (\<lambda>_ _. True) (ui_sent i') (NetworkBridge_new :: (unit, unit) NetworkBridge) = Some (Inr rx') \<and>
       sorted js \<and> set js \<subseteq> {..<2} \<and> nb_published rx' = map (\<lambda>j. (''/scan'', [1, 2, 3])) js)"
proof -
  let ?tx = "NetworkBridge_new\<lparr>nb_network_interface := Some open_udp,
    nb_fault_engine := Some (fold add_rule swap_and_repeat (FaultEngine_new ()))\<rparr>"
  let ?rx = "NetworkBridge_new :: (unit, unit) NetworkBridge"
  let ?evs = "[SendMessage (sample_message 5) 1, WorkerTurn, SendMessage (sample_message 9) 2]"
  have pre: "\<forall>m\<in>set (sent_messages ?evs). sendable plain_zstd m" "sorted (map bm_time (sent_messages ?evs))"
    "unat (nb_tx_sequence ?tx) + length (sent_messages ?evs) \<le> 2 ^ 64" "nb_network_interface ?tx = Some open_udp"
    "ui_send_socket open_udp" "ui_sent open_udp = []" "nb_fault_engine ?tx = Some (fold add_rule swap_and_repeat (FaultEngine_new ()))"
    "\<forall>r\<in>set swap_and_repeat. fr_kind r \<noteq> kCorrupt" "nb_frame_decoder ?rx = Map.empty" "nb_publishers ?rx = Map.empty"
    by (simp_all add: sample_sendable NetworkBridge_new_def open_udp_def swap_and_repeat_def) (simp add: sample_message_def)
  have all: "\<forall>n :: nat. (\<lambda>_. True) n" "\<forall>n t :: string. (\<lambda>_ _. True) n t" by simp_all
  from faults_never_forge [OF plain_zstd_ok all pre, of "(False, False, False, False, False)" "undefined :: unit Env" "\<lambda>_. True" None]
  obtain tx' i' js rx' where r: "bridge_run plain_zstd (udp_ops False (False, False, False, False, False)) (undefined :: unit Env) (\<lambda>_. True) None
      ?evs ?tx = Some tx'" "nb_network_interface tx' = Some i'"
    "receive_all plain_zstd (\<lambda>_. True) (\<lambda>_ _. True) (ui_sent i') ?rx = Some (Inr rx')" "sorted js" "set js \<subseteq> {..<length (sent_messages ?evs)}"
    "nb_published rx' = nb_published ?rx @
      map (\<lambda>j. (nb_publish_namespace ?rx @ bm_topic (sent_messages ?evs ! j), bm_data (sent_messages ?evs ! j))) js"
    by blast
  have js: "set js \<subseteq> {..<2}" using r(5) by (simp add: numeral_2_eq_2)
  then have "j = 0 \<or> j = 1" if "j \<in> set js" for j using that by (auto dest: less_2_cases)
  then have "map (\<lambda>j. (nb_publish_namespace ?rx @ bm_topic (sent_messages ?evs ! j), bm_data (sent_messages ?evs ! j))) js
      = map (\<lambda>j. (''/scan'', [1, 2, 3])) js"
    by (intro map_cong refl) (fastforce simp: NetworkBridge_new_def sample_message_def)
  with r(6) have "nb_published rx' = map (\<lambda>j. (''/scan'', [1, 2, 3])) js" by (simp add: NetworkBridge_new_def)
  with r(1-4) js show ?thesis by blast
qed

end
