(* ===== verification/Bridge_Recording.thy ===== *)
theory Bridge_Recording
  imports Bridge_Session
begin

text \<open>
  The bridge as the client of the replay log: \<^verbatim>\<open>NetworkBridge::send_data\<close> (\<^verbatim>\<open>src/network_bridge.cpp\<close>) appends every
  frame that it encodes before it hands the frame to the fault engine or to the transport. The contract of the log towards
  the bridge is the locale \<open>journal\<close>, which the writer of \<open>Wal_Writer\<close> provides; with it, a recorded session can be
  read back and given to another bridge, whatever the faults did to the frames on the link.
\<close>

subsection \<open>The contract of the log\<close>

text \<open>\<open>holds is w\<close>: the items \<open>is\<close>, in this order, are in the log, which has room for \<open>limit\<close> items.\<close>

locale journal =
  fixes append_item :: "'i \<Rightarrow> 'w \<Rightarrow> bool \<times> 'w"
    and holds :: "'i list \<Rightarrow> 'w \<Rightarrow> bool"
    and fits :: "'i \<Rightarrow> bool"
    and limit :: nat
  assumes append_holds: "\<lbrakk>holds is w; fits i; length is < limit\<rbrakk>
      \<Longrightarrow> \<exists>w'. append_item i w = (True, w') \<and> holds (is @ [i]) w'"
begin

text \<open>A client that ignores the result of the append, as the bridge does.\<close>

lemma snd_append_holds: "\<lbrakk>holds is w; fits i; length is < limit\<rbrakk> \<Longrightarrow> holds (is @ [i]) (snd (append_item i w))"
  using append_holds by fastforce

lemma fold_append_holds:
  "\<lbrakk>holds is w; \<forall>i\<in>set js. fits i; length is + length js \<le> limit\<rbrakk>
    \<Longrightarrow> holds (is @ js) (fold (\<lambda>i w. snd (append_item i w)) js w)"
proof (induction js arbitrary: "is" w)
  case (Cons j js)
  then have "holds (is @ [j]) (snd (append_item j w))" by (intro snd_append_holds) simp_all
  from Cons.IH [OF this] Cons.prems show ?case by simp
qed simp

end

subsection \<open>The writer provides it\<close>

definition wal_append_item :: "(string \<Rightarrow> bool) \<Rightarrow> log_item \<Rightarrow> WalWriter \<Rightarrow> bool \<times> WalWriter" where
  "wal_append_item can_open i w =
     wal_append can_open None (li_timestamp_ns i) (li_sensor_type i) (li_sequence i) (li_payload i) w"

text \<open>There are never more segments than records, plus the one that \<^verbatim>\<open>WalWriter\<close> opens at once.\<close>

definition wal_holds :: "log_item list \<Rightarrow> WalWriter \<Rightarrow> bool" where
  "wal_holds is w \<longleftrightarrow> (\<exists>segs. log_is segs w \<and> concat segs = is \<and> length segs \<le> Suc (length is))"

definition wal_limit :: nat where "wal_limit = 2 ^ 32 - 2"

lemma wal_append_item_holds:
  assumes "\<And>p. can_open p" and "wal_holds is w" and "item_ok i" and "length is < wal_limit"
  shows "\<exists>w'. wal_append_item can_open i w = (True, w') \<and> wal_holds (is @ [i]) w'"
proof -
  obtain segs where s: "log_is segs w" "concat segs = is" "length segs \<le> Suc (length is)"
    using assms(2) by (auto simp: wal_holds_def)
  then have "length segs < 2 ^ 32 - 1" using assms(4) by (simp add: wal_limit_def)
  from wal_append_log [where can_open = can_open, OF s(1) assms(3) this assms(1)] s(2,3)
  show ?thesis unfolding wal_append_item_def wal_holds_def by fastforce
qed

interpretation wal_journal: journal "wal_append_item (\<lambda>_. True)" wal_holds item_ok wal_limit
  by unfold_locales (rule wal_append_item_holds, simp_all)

lemma wal_holds_open: "wal_holds [] (WalWriter_open (\<lambda>_. True) Map.empty n)"
  using log_is_open [of "\<lambda>_. True" n] by (force simp: wal_holds_def)

subsection \<open>What the bridge logs\<close>

definition message_item :: "Zstd \<Rightarrow> u64 \<Rightarrow> bridge_message \<Rightarrow> log_item" where
  "message_item Z s m = \<lparr>li_timestamp_ns = bm_time m, li_sensor_type = kControl, li_sequence = s, li_payload = compressed Z m\<rparr>"

fun session_items :: "Zstd \<Rightarrow> u64 \<Rightarrow> bridge_message list \<Rightarrow> log_item list" where
  "session_items Z s [] = []"
| "session_items Z s (m # ms) = message_item Z s m # session_items Z (s + 1) ms"

lemma session_items_length [simp]: "length (session_items Z s ms) = length ms"
  by (induction ms arbitrary: s) simp_all

lemma message_item_ok: "sendable Z m \<Longrightarrow> item_ok (message_item Z s m)"
  using sendable_compress(2) [of Z m] by (simp add: item_ok_def message_item_def unat_kMaxRecordPayload unat_kMaxPayload)

lemma record_frame_logs:
  "nb_wal_writer b = Some w \<Longrightarrow> nb_wal_writer (record_frame (\<lambda>_. True) None (bm_time m) (compressed Z m) b)
     = Some (snd (wal_append_item (\<lambda>_. True) (message_item Z (nb_tx_sequence b - 1) m) w))"
  by (simp add: record_frame_def wal_append_item_def message_item_def)

text \<open>A record of the log as the frame that it was recorded from.\<close>

definition record_to_frame :: "ReplayRecord \<Rightarrow> bytes" where
  "record_to_frame r = (case encode_frame kControl (rh_sequence (rr_header r)) (rh_timestamp_ns (rr_header r)) kFlagCompressed (rr_payload r)
     of Some (Inr frame) \<Rightarrow> frame | _ \<Rightarrow> [])"

lemma record_to_frame_item: "sendable Z m \<Longrightarrow> record_to_frame (item_replay (message_item Z s m)) = message_frame Z s m"
  using sendable_compress(2) [of Z m]
  by (simp add: record_to_frame_def item_replay_def item_record_def message_item_def record_header_for_def
      encode_frame_image message_frame_def)

lemma session_items_frames:
  "\<forall>m\<in>set ms. sendable Z m \<Longrightarrow> map record_to_frame (map item_replay (session_items Z s ms)) = session_frames Z s ms"
  by (induction ms arbitrary: s) (simp_all add: record_to_frame_item)

subsection \<open>A recorded session\<close>

text \<open>A transport on which every write returns, with or without a fault engine in front of it.\<close>

definition always_writes :: "'n NetworkInterface \<Rightarrow> ('n \<Rightarrow> bool) \<Rightarrow> bool" where
  "always_writes ops up \<longleftrightarrow> (\<forall>frames n. up n \<longrightarrow> (\<exists>n'. write_all ops frames n = Some n' \<and> up n'))"

lemma tcp_always_writes:
  "always_writes (tcp_ops little None address_ok ecs ros_ok connects) (\<lambda>i. ti_socket i \<and> tcp_is_ready i)"
proof -
  let ?ops = "tcp_ops little None address_ok ecs ros_ok connects"
  have "\<exists>i'. write_all ?ops frames i = Some i' \<and> ti_socket i' \<and> tcp_is_ready i'" if "ti_socket i" "tcp_is_ready i" for frames i
    using tcp_link.write_all_ok [OF that(1), of little address_ok ecs ros_ok connects frames] that(2) by (auto simp: tcp_ops_def)
  then show ?thesis by (auto simp: always_writes_def)
qed

lemma send_message_records:
  assumes ops: "always_writes ops up" and m: "sendable Z m" and i: "nb_network_interface b = Some i" "up i"
    and w: "nb_wal_writer b = Some w" "wal_holds is w" "length is < wal_limit"
  shows "\<exists>b' i' w'. send_message Z ops E (\<lambda>_. True) None (bm_time m) t_s (bm_topic m) (bm_type m) (bm_level m) (bm_data m) b = Some b' \<and>
    nb_network_interface b' = Some i' \<and> up i' \<and> nb_tx_sequence b' = nb_tx_sequence b + 1 \<and>
    nb_wal_writer b' = Some w' \<and> wal_holds (is @ [message_item Z (nb_tx_sequence b) m]) w'"
proof -
  let ?b = "b\<lparr>nb_tx_sequence := nb_tx_sequence b + 1\<rparr>"
  let ?r = "record_frame (\<lambda>_. True) None (bm_time m) (compressed Z m) ?b" and ?f = "message_frame Z (nb_tx_sequence b) m"
  let ?w' = "snd (wal_append_item (\<lambda>_. True) (message_item Z (nb_tx_sequence b) m) w)"
  have enc: "encode_frame kControl (nb_tx_sequence b) (bm_time m) kFlagCompressed (compressed Z m) = Some (Inr ?f)"
    using sendable_compress(2) [OF m] by (simp add: encode_frame_image message_frame_def)
  have log: "nb_wal_writer ?r = Some ?w'" using w(1) by (simp add: record_frame_logs)
  have holds: "wal_holds (is @ [message_item Z (nb_tx_sequence b) m]) ?w'"
    by (rule wal_journal.snd_append_holds [OF w(2) message_item_ok [OF m] w(3)])
  have sent: "\<exists>i'. write_all ops fs i = Some i' \<and> up i'" for fs
    using ops i(2) by (simp add: always_writes_def)
  show ?thesis
  proof (cases "nb_fault_engine b")
    case None
    obtain i' where "ni_write ops ?f i = Some i'" "up i'" using sent [of "[?f]"] by (auto simp: bind_eq_Some_conv)
    then show ?thesis
      using None enc log holds i(1) sendable_compress(1) [OF m] by (simp add: send_message_def Let_def)
  next
    case (Some e)
    let ?e' = "process E ?f t_s (bm_topic m) e"
    obtain i' where "write_all ops (drop (length (fe_writes e)) (fe_writes ?e')) i = Some i'" "up i'" using sent by blast
    then show ?thesis
      using Some enc log holds i(1) sendable_compress(1) [OF m]
      by (simp add: send_message_def with_fault_engine_def fault_callback_def Let_def)
  qed
qed

lemma send_all_records:
  assumes "always_writes ops up" "\<forall>m\<in>set ms. sendable Z m" "nb_network_interface b = Some i" "up i"
    "nb_wal_writer b = Some w" "wal_holds is w" "length is + length ms \<le> wal_limit"
  shows "\<exists>b' w'. send_all Z ops E (\<lambda>_. True) None t_s ms b = Some b' \<and> nb_wal_writer b' = Some w' \<and>
    wal_holds (is @ session_items Z (nb_tx_sequence b) ms) w'"
  using assms(2-7)
proof (induction ms arbitrary: b i w "is")
  case (Cons m ms)
  obtain b1 i1 w1 where b1: "send_message Z ops E (\<lambda>_. True) None (bm_time m) t_s (bm_topic m) (bm_type m) (bm_level m) (bm_data m) b = Some b1"
    "nb_network_interface b1 = Some i1" "up i1" "nb_tx_sequence b1 = nb_tx_sequence b + 1"
    "nb_wal_writer b1 = Some w1" "wal_holds (is @ [message_item Z (nb_tx_sequence b) m]) w1"
    using send_message_records [OF assms(1) _ Cons.prems(2-5), of Z m E t_s] Cons.prems(1,6) by auto
  show ?case
    using Cons.IH [OF _ b1(2,3,5,6)] Cons.prems(1,6) b1(1,4) by simp
qed simp

text \<open>The session is already in the order of the reader.\<close>

lemma session_items_sorted:
  assumes "sorted (map bm_time ms)" "unat s + length ms \<le> 2 ^ 64"
  shows "sorted (map replay_key (map item_replay (session_items Z s ms)))"
  using assms
proof (induction ms arbitrary: s)
  case (Cons m ms)
  have key: "replay_key (item_replay (message_item Z s m)) = (bm_time m, s)" for s m
    by (simp add: replay_key_def item_replay_def item_record_def message_item_def record_header_for_def)
  show ?case
  proof (cases ms)
    case (Cons m' ms')
    then have "unat s + 1 < 2 ^ 64" using Cons.prems(2) by simp
    then have u: "unat (s + 1) = unat s + 1" by (simp add: unat_word_ariths)
    then have "s \<le> s + 1" by (simp add: word_le_nat_alt)
    then have "(bm_time m, s) \<le> (bm_time m', s + 1)" using Cons.prems(1) Cons by auto
    moreover have "sorted (map replay_key (map item_replay (session_items Z (s + 1) ms)))"
      using Cons.prems u by (intro Cons.IH) simp_all
    ultimately show ?thesis
      unfolding Cons by (simp add: key sorted2 del: sorted_wrt.simps(2) less_eq_prod_simp)
  qed simp
qed simp

lemma session_log_loads:
  assumes "wal_holds (session_items Z s ms) w" "lists_dir (ww_files w) es" "sorted (map bm_time ms)" "unat s + length ms \<le> 2 ^ 64"
  shows "\<exists>r. load (Some es) = Some r \<and> wr_records r = map item_replay (session_items Z s ms)"
proof -
  obtain segs where s: "log_is segs w" "concat segs = session_items Z s ms" using assms(1) by (auto simp: wal_holds_def)
  then have "dir_is segs (ww_files w)" by (simp add: log_is_def)
  from load_log [OF this assms(2)] show ?thesis
    using sort_key_id_if_sorted [OF session_items_sorted [OF assms(3,4), of Z]] by (auto simp: s(2))
qed

text \<open>The directory of a log can be listed.\<close>

lemma log_listing:
  assumes "wal_holds is w"
  shows "\<exists>es. lists_dir (ww_files w) es"
proof -
  obtain segs where s: "log_is segs w" using assms by (auto simp: wal_holds_def)
  then have dir: "dir_is segs (ww_files w)" by (simp add: log_is_def)
  let ?es = "map (\<lambda>k. \<lparr>de_name = seg_name k, de_regular = True, de_contents = ww_files w (seg_name k)\<rparr>) [0..<length segs]"
  have "inj_on seg_name {..<length segs}"
    using dir by (auto simp: inj_on_def dir_is_def seg_name_inject)
  then have "lists_dir (ww_files w) ?es"
    using dir by (auto simp: lists_dir_def dir_is_def comp_def distinct_map atLeast0LessThan)
  then show ?thesis by blast
qed

lemma shutdown_closes_log:
  "\<exists>sd rel. bridge_shutdown ops b = Some (sd, rel) \<and> rel_wal_writer rel = map_option wal_close (nb_wal_writer b)"
  by (cases "nb_fault_engine b") (simp_all add: bridge_shutdown_def with_fault_engine_def fault_callback_def Let_def)

subsection \<open>Property\<close>

text \<open>C3: A recorded session can be replayed: a bridge that sends messages over an open TCP connection with recording on, and
  with any fault engine in front of the connection, sends them all, and after its shutdown the directory of the log
  can be listed and loaded. However the directory is listed, loading yields one record for each message, and a fresh bridge
  that is given the frames of these records publishes exactly the messages that were sent, in order: what the
  faults drop, delay or damage on the link is intact in the log.\<close>

theorem recorded_session_replays:
  assumes "zstd_ok Z" "\<forall>n. can_resize n" "\<forall>n t. create_ok n t"
    and "\<forall>m\<in>set ms. sendable Z m" "sorted (map bm_time ms)" "unat (nb_tx_sequence tx) + length ms \<le> 2 ^ 64" "length ms \<le> wal_limit"
    and "nb_network_interface tx = Some i" "ti_socket i" "tcp_is_ready i"
    and "nb_wal_writer tx = Some (WalWriter_open (\<lambda>_. True) Map.empty segment_bytes)"
    and "nb_frame_decoder rx = Map.empty" "nb_publishers rx = Map.empty"
  shows "\<exists>tx' sd rel w. send_all Z (tcp_ops little None address_ok ecs ros_ok connects) E (\<lambda>_. True) None t_s ms tx = Some tx' \<and>
    bridge_shutdown (tcp_ops little None address_ok ecs ros_ok connects) tx' = Some (sd, rel) \<and> rel_wal_writer rel = Some w \<and>
    (\<exists>es. lists_dir (ww_files w) es) \<and>
    (\<forall>es. lists_dir (ww_files w) es \<longrightarrow>
      (\<exists>r rx'. load (Some es) = Some r \<and> length (wr_records r) = length ms \<and>
         receive_all Z can_resize create_ok (map record_to_frame (wr_records r)) rx = Some (Inr rx') \<and>
         nb_published rx' = nb_published rx @ map (\<lambda>m. (nb_publish_namespace rx @ bm_topic m, bm_data m)) ms))"
proof -
  let ?ops = "tcp_ops little None address_ok ecs ros_ok connects" and ?s = "nb_tx_sequence tx"
  obtain tx' w where tx': "send_all Z ?ops E (\<lambda>_. True) None t_s ms tx = Some tx'" "nb_wal_writer tx' = Some w"
    and w: "wal_holds (session_items Z ?s ms) w"
    using send_all_records [OF tcp_always_writes assms(4,8) _ assms(11) wal_holds_open] assms(7,9,10) by fastforce
  obtain sd rel where sd: "bridge_shutdown ?ops tx' = Some (sd, rel)" "rel_wal_writer rel = Some (wal_close w)"
    using shutdown_closes_log [of ?ops tx'] tx'(2) by auto
  have files: "ww_files (wal_close w) = ww_files w" by (simp add: wal_close_def)
  have "publishers_ok rx" "ms \<noteq> [] \<Longrightarrow> decoder_below ?s (bm_time (hd ms)) (nb_frame_decoder rx)"
    by (simp_all add: publishers_ok_def decoder_below_def assms(12,13))
  then obtain rx' where rx': "receive_all Z can_resize create_ok (session_frames Z ?s ms) rx = Some (Inr rx')"
    "nb_published rx' = nb_published rx @ map (\<lambda>m. (nb_publish_namespace rx @ bm_topic m, bm_data m)) ms"
    using receive_session [OF assms(1,4,2,3) _ assms(5,6)] by blast
  have "\<exists>r. load (Some es) = Some r \<and> length (wr_records r) = length ms \<and> map record_to_frame (wr_records r) = session_frames Z ?s ms"
    if "lists_dir (ww_files w) es" for es
    using session_log_loads [OF w that assms(5,6)] session_items_frames [OF assms(4), of ?s] by auto
  then have "\<exists>r rx'. load (Some es) = Some r \<and> length (wr_records r) = length ms \<and>
       receive_all Z can_resize create_ok (map record_to_frame (wr_records r)) rx = Some (Inr rx') \<and>
       nb_published rx' = nb_published rx @ map (\<lambda>m. (nb_publish_namespace rx @ bm_topic m, bm_data m)) ms"
    if "lists_dir (ww_files w) es" for es
    using that rx' by fastforce
  then show ?thesis
    using log_listing [OF w] by (intro exI [of _ tx'] exI [of _ sd] exI [of _ rel] exI [of _ "wal_close w"]) (simp add: tx' sd files)
qed

theorem recorded_session_replays_witness:
  "\<exists>tx' sd rel w es r rx'. send_all plain_zstd (tcp_ops True None (\<lambda>_. True) (False, False, False, False) (\<lambda>_. True) (\<lambda>_. True))
      (undefined :: unit Env) (\<lambda>_. True) None 0 [sample_message 5, sample_message 9]
      (NetworkBridge_new\<lparr>nb_network_interface := Some \<lparr>ti_role = ''client'', ti_remote_address = [], ti_port = 5000, ti_ready = True,
            ti_failed = False, ti_shutting_down = False, ti_acceptor = False, ti_socket = True, ti_receiving = True,
            ti_stream = QueueStream_init, ti_wire_out = []\<rparr>,
          nb_wal_writer := Some (WalWriter_open (\<lambda>_. True) Map.empty 0), nb_fault_engine := Some (FaultEngine_new ())\<rparr>) = Some tx' \<and>
    bridge_shutdown (tcp_ops True None (\<lambda>_. True) (False, False, False, False) (\<lambda>_. True) (\<lambda>_. True)) tx' = Some (sd, rel) \<and>
    rel_wal_writer rel = Some w \<and> lists_dir (ww_files w) es \<and> load (Some es) = Some r \<and> length (wr_records r) = 2 \<and>
    receive_all plain_zstd (\<lambda>_. True) (\<lambda>_ _. True) (map record_to_frame (wr_records r))
      ((NetworkBridge_new :: (unit, unit) NetworkBridge)\<lparr>nb_publish_namespace := ''/car''\<rparr>) = Some (Inr rx') \<and>
    nb_published rx' = [(''/car/scan'', [1, 2, 3]), (''/car/scan'', [1, 2, 3])]"
proof -
  let ?i = "\<lparr>ti_role = ''client'', ti_remote_address = [], ti_port = 5000, ti_ready = True,
            ti_failed = False, ti_shutting_down = False, ti_acceptor = False, ti_socket = True, ti_receiving = True,
            ti_stream = QueueStream_init, ti_wire_out = []\<rparr>"
  let ?tx = "NetworkBridge_new\<lparr>nb_network_interface := Some ?i, nb_wal_writer := Some (WalWriter_open (\<lambda>_. True) Map.empty 0),
    nb_fault_engine := Some (FaultEngine_new ())\<rparr>"
  let ?rx = "(NetworkBridge_new :: (unit, unit) NetworkBridge)\<lparr>nb_publish_namespace := ''/car''\<rparr>"
  let ?ms = "[sample_message 5, sample_message 9]"
  have "map (\<lambda>m. (nb_publish_namespace ?rx @ bm_topic m, bm_data m)) ?ms = [(''/car/scan'', [1, 2, 3]), (''/car/scan'', [1, 2, 3])]"
    and "nb_published ?rx = []" by (simp_all add: NetworkBridge_new_def sample_message_def)
  moreover have "sorted (map bm_time ?ms)" by (simp add: sample_message_def)
  moreover have "\<forall>m\<in>set ?ms. sendable plain_zstd m" "unat (nb_tx_sequence ?tx) + length ?ms \<le> 2 ^ 64" "length ?ms \<le> wal_limit"
    "nb_network_interface ?tx = Some ?i" "ti_socket ?i" "tcp_is_ready ?i"
    "nb_wal_writer ?tx = Some (WalWriter_open (\<lambda>_. True) Map.empty 0)"
    "nb_frame_decoder ?rx = Map.empty" "nb_publishers ?rx = Map.empty"
    by (simp_all add: sample_sendable NetworkBridge_new_def tcp_is_ready_def wal_limit_def)
  ultimately show ?thesis
    using recorded_session_replays [OF plain_zstd_ok, of "\<lambda>_. True" "\<lambda>_ _. True" ?ms ?tx ?i 0 ?rx True "\<lambda>_. True"
        "(False, False, False, False)" "\<lambda>_. True" "\<lambda>_. True" "undefined :: unit Env" 0] by fastforce
qed

end
