(* ===== verification/Fault_Threads.thy ===== *)
theory Fault_Threads
  imports Fault_Engine
begin

text \<open>
  The delivery side of a fault engine at the grain of its two threads (\<^verbatim>\<open>emit\<close>, \<^verbatim>\<open>dispatch_or_delay\<close>,
  \<^verbatim>\<open>worker_loop\<close> and \<^verbatim>\<open>flush\<close> in \<^verbatim>\<open>faults/fault_engine.cpp\<close>) with the callback that the scenario runner installs,
  which counts into \<^verbatim>\<open>StreamMetrics\<close>. The delay queue and the statistics change under their mutexes, in one step
  each; the callback runs outside both, so that its \<^verbatim>\<open>++received_\<close> is a load and a store. \<open>Fault_Engine\<close> takes an
  emission as one step; this theory says what remains true without that.
\<close>

subsection \<open>Threads\<close>

text \<open>A thread in \<^verbatim>\<open>emit\<close>: it has its frame, it has loaded \<^verbatim>\<open>received_\<close>, or its callback has returned.\<close>

datatype emitting = NotEmitting | HasFrame bytes | LoadedCount bytes u64 | WroteFrame bytes

datatype flushing = Running | Flushing | FlushReturned

record fault_threads =
  ft_delayed :: "Delayed list"
  ft_received :: u64
  ft_forwarded :: u64
  ft_executor :: emitting
  ft_worker :: emitting
  ft_flush :: flushing
  ft_accepted :: "bytes list"
  ft_recorded :: "bytes list"

definition fault_threads_init :: fault_threads where
  "fault_threads_init = \<lparr>ft_delayed = [], ft_received = 0, ft_forwarded = 0, ft_executor = NotEmitting,
     ft_worker = NotEmitting, ft_flush = Running, ft_accepted = [], ft_recorded = []\<rparr>"

text \<open>The next step of an emission.\<close>

fun emit_next :: "emitting \<Rightarrow> fault_threads \<Rightarrow> emitting \<times> fault_threads" where
  "emit_next NotEmitting s = (NotEmitting, s)"
| "emit_next (HasFrame d) s = (LoadedCount d (ft_received s), s)"
| "emit_next (LoadedCount d n) s = (WroteFrame d, s\<lparr>ft_received := n + 1, ft_recorded := ft_recorded s @ [d]\<rparr>)"
| "emit_next (WroteFrame d) s = (NotEmitting, s\<lparr>ft_forwarded := ft_forwarded s + 1\<rparr>)"

inductive fault_thread_step :: "fault_threads \<Rightarrow> fault_threads \<Rightarrow> bool" where
  dispatches: "\<lbrakk>ft_flush s = Running; ft_executor s = NotEmitting\<rbrakk>
    \<Longrightarrow> fault_thread_step s (s\<lparr>ft_accepted := ft_accepted s @ [d], ft_executor := HasFrame d\<rparr>)"
| delays: "\<lbrakk>ft_flush s = Running; ft_executor s = NotEmitting\<rbrakk>
    \<Longrightarrow> fault_thread_step s (s\<lparr>ft_accepted := ft_accepted s @ [dl_data x], ft_delayed := ft_delayed s @ [x]\<rparr>)"
| executor_emits: "\<lbrakk>ft_executor s \<noteq> NotEmitting; emit_next (ft_executor s) s = (e, s')\<rbrakk>
    \<Longrightarrow> fault_thread_step s (s'\<lparr>ft_executor := e\<rparr>)"
| worker_takes: "\<lbrakk>ft_worker s = NotEmitting; delayed_pop (ft_delayed s) = Some (x, rest)\<rbrakk>
    \<Longrightarrow> fault_thread_step s (s\<lparr>ft_delayed := rest, ft_worker := HasFrame (dl_data x)\<rparr>)"
| worker_emits: "\<lbrakk>ft_worker s \<noteq> NotEmitting; emit_next (ft_worker s) s = (e, s')\<rbrakk>
    \<Longrightarrow> fault_thread_step s (s'\<lparr>ft_worker := e\<rparr>)"
| flush_begins: "\<lbrakk>ft_flush s = Running; ft_executor s = NotEmitting\<rbrakk> \<Longrightarrow> fault_thread_step s (s\<lparr>ft_flush := Flushing\<rparr>)"
| flush_takes: "\<lbrakk>ft_flush s = Flushing; ft_executor s = NotEmitting; delayed_pop (ft_delayed s) = Some (x, rest)\<rbrakk>
    \<Longrightarrow> fault_thread_step s (s\<lparr>ft_delayed := rest, ft_executor := HasFrame (dl_data x)\<rparr>)"
| flush_returns: "\<lbrakk>ft_flush s = Flushing; ft_executor s = NotEmitting; delayed_pop (ft_delayed s) = None\<rbrakk>
    \<Longrightarrow> fault_thread_step s (s\<lparr>ft_flush := FlushReturned\<rparr>)"

inductive_cases fault_thread_stepE: "fault_thread_step s s'"

subsection \<open>The invariant\<close>

text \<open>What a thread still has to record, and whether its frame is recorded but not yet counted as forwarded.\<close>

primrec unrecorded :: "emitting \<Rightarrow> bytes multiset" where
  "unrecorded NotEmitting = {#}" | "unrecorded (HasFrame d) = {#d#}" | "unrecorded (LoadedCount d n) = {#d#}"
| "unrecorded (WroteFrame d) = {#}"

primrec uncounted :: "emitting \<Rightarrow> nat" where
  "uncounted NotEmitting = 0" | "uncounted (HasFrame d) = 0" | "uncounted (LoadedCount d n) = 0"
| "uncounted (WroteFrame d) = 1"

primrec count_ok :: "nat \<Rightarrow> emitting \<Rightarrow> bool" where
  "count_ok k NotEmitting = True" | "count_ok k (HasFrame d) = True" | "count_ok k (LoadedCount d n) = (\<exists>j\<le>k. n = word_of_nat j)"
| "count_ok k (WroteFrame d) = True"

definition fault_threads_inv :: "fault_threads \<Rightarrow> bool" where
  "fault_threads_inv s \<longleftrightarrow>
     mset (ft_accepted s) = mset (map dl_data (ft_delayed s)) + mset (ft_recorded s) +
       unrecorded (ft_executor s) + unrecorded (ft_worker s) \<and>
     (\<exists>f. ft_forwarded s = word_of_nat f \<and> f + uncounted (ft_executor s) + uncounted (ft_worker s) = length (ft_recorded s)) \<and>
     (\<exists>j \<le> length (ft_recorded s). ft_received s = word_of_nat j) \<and>
     count_ok (length (ft_recorded s)) (ft_executor s) \<and> count_ok (length (ft_recorded s)) (ft_worker s) \<and>
     (ft_flush s = FlushReturned \<longrightarrow> ft_delayed s = [] \<and> ft_executor s = NotEmitting)"

lemma fault_threads_init_inv: "fault_threads_inv fault_threads_init"
  by (simp add: fault_threads_inv_def fault_threads_init_def)

lemma count_ok_mono: "count_ok k e \<Longrightarrow> k \<le> k' \<Longrightarrow> count_ok k' e"
  by (cases e) (auto intro: le_trans)

lemma delayed_pop_none: "delayed_pop q = None \<longleftrightarrow> q = []"
  by (simp add: delayed_pop_def split: list.split)

lemma delayed_pop_data:
  assumes "delayed_pop q = Some (x, rest)"
  shows "mset (map dl_data q) = add_mset (dl_data x) (mset (map dl_data rest))"
  using delayed_pop_min(1) [OF assms] by simp

lemma take_inv:
  assumes inv: "fault_threads_inv s" and pop: "delayed_pop (ft_delayed s) = Some (x, rest)"
  shows "ft_executor s = NotEmitting \<Longrightarrow> fault_threads_inv (s\<lparr>ft_delayed := rest, ft_executor := HasFrame (dl_data x)\<rparr>)"
    and "ft_worker s = NotEmitting \<Longrightarrow> fault_threads_inv (s\<lparr>ft_delayed := rest, ft_worker := HasFrame (dl_data x)\<rparr>)"
proof -
  have "ft_delayed s \<noteq> []" using pop by (auto simp: delayed_pop_def)
  then show "ft_executor s = NotEmitting \<Longrightarrow> fault_threads_inv (s\<lparr>ft_delayed := rest, ft_executor := HasFrame (dl_data x)\<rparr>)"
    and "ft_worker s = NotEmitting \<Longrightarrow> fault_threads_inv (s\<lparr>ft_delayed := rest, ft_worker := HasFrame (dl_data x)\<rparr>)"
    using inv delayed_pop_data [OF pop] by (simp_all add: fault_threads_inv_def)
qed

lemma executor_emit_inv:
  assumes "fault_threads_inv s" and "emit_next (ft_executor s) s = (e, s')" and "ft_executor s \<noteq> NotEmitting"
  shows "fault_threads_inv (s'\<lparr>ft_executor := e\<rparr>)"
  using assms
  by (cases "ft_executor s"; cases s)
    (auto simp: fault_threads_inv_def intro: count_ok_mono le_SucI exI [of _ "Suc _"])

lemma worker_emit_inv:
  assumes "fault_threads_inv s" and "emit_next (ft_worker s) s = (e, s')" and "ft_worker s \<noteq> NotEmitting"
  shows "fault_threads_inv (s'\<lparr>ft_worker := e\<rparr>)"
  using assms
  by (cases "ft_worker s"; cases s)
    (auto simp: fault_threads_inv_def intro: count_ok_mono le_SucI exI [of _ "Suc _"])

lemma fault_thread_step_inv:
  assumes "fault_thread_step s s'" and "fault_threads_inv s"
  shows "fault_threads_inv s'"
  using assms
proof (cases rule: fault_thread_step.cases)
  case (executor_emits e t)
  then show ?thesis using executor_emit_inv assms(2) by simp
next
  case (worker_takes x rest)
  then show ?thesis using take_inv(2) assms(2) by simp
next
  case (worker_emits e t)
  then show ?thesis using worker_emit_inv assms(2) by simp
next
  case (flush_takes x rest)
  then show ?thesis using take_inv(1) assms(2) by simp
qed (use assms(2) in \<open>simp_all add: fault_threads_inv_def delayed_pop_none\<close>)

lemma fault_threads_reachable_inv: "fault_thread_step\<^sup>*\<^sup>* fault_threads_init s \<Longrightarrow> fault_threads_inv s"
  by (induction rule: rtranclp_induct) (use fault_threads_init_inv fault_thread_step_inv in auto)

subsection \<open>What flush leaves behind\<close>

lemma unrecorded_size: "size (unrecorded e) \<le> 1"
  by (cases e) auto

lemma flush_returned_facts:
  assumes "fault_threads_inv s" and "ft_flush s = FlushReturned"
  shows "mset (ft_accepted s) = mset (ft_recorded s) + unrecorded (ft_worker s)"
    and "length (ft_accepted s) \<le> length (ft_recorded s) + 1"
    and "ft_worker s = NotEmitting \<Longrightarrow> ft_forwarded s = word_of_nat (length (ft_recorded s))"
proof -
  show acc: "mset (ft_accepted s) = mset (ft_recorded s) + unrecorded (ft_worker s)"
    using assms by (simp add: fault_threads_inv_def)
  then have "length (ft_accepted s) = length (ft_recorded s) + size (unrecorded (ft_worker s))"
    by (metis size_mset size_union)
  then show "length (ft_accepted s) \<le> length (ft_recorded s) + 1"
    using unrecorded_size [of "ft_worker s"] by simp
  show "ft_worker s = NotEmitting \<Longrightarrow> ft_forwarded s = word_of_nat (length (ft_recorded s))"
    using assms by (auto simp: fault_threads_inv_def)
qed

text \<open>C24: when \<^verbatim>\<open>flush\<close> has returned, whatever the interleaving with the worker, every frame the engine accepted
  has gone out exactly once except at most one, which the worker still holds; once the worker is idle, the frames
  that went out are exactly the accepted ones and \<^verbatim>\<open>forwarded\<close> counts them.\<close>

theorem flush_delivers:
  assumes "fault_thread_step\<^sup>*\<^sup>* fault_threads_init s" and "ft_flush s = FlushReturned"
  shows "mset (ft_accepted s) = mset (ft_recorded s) + unrecorded (ft_worker s) \<and>
    length (ft_accepted s) \<le> length (ft_recorded s) + 1 \<and>
    (ft_worker s = NotEmitting \<longrightarrow> mset (ft_accepted s) = mset (ft_recorded s) \<and>
       ft_forwarded s = word_of_nat (length (ft_accepted s)))"
proof -
  note facts = flush_returned_facts [OF fault_threads_reachable_inv [OF assms(1)] assms(2)]
  have "mset (ft_accepted s) = mset (ft_recorded s)" "length (ft_accepted s) = length (ft_recorded s)"
    if "ft_worker s = NotEmitting"
    using facts(1) that by (simp, metis facts(1) that add_0_right size_mset unrecorded.simps(1))
  then show ?thesis using facts by simp
qed

subsection \<open>Runs\<close>

definition one_delayed :: Delayed where
  "one_delayed = \<lparr>due_ns = 0, dl_data = [7]\<rparr>"

definition after_delay :: fault_threads where
  "after_delay = fault_threads_init\<lparr>ft_accepted := [[7]], ft_delayed := [one_delayed]\<rparr>"

definition worker_holds :: fault_threads where
  "worker_holds = after_delay\<lparr>ft_delayed := [], ft_worker := HasFrame [7]\<rparr>"

lemma worker_holds_reached: "fault_thread_step\<^sup>*\<^sup>* fault_threads_init worker_holds"
proof -
  have 1: "fault_thread_step fault_threads_init after_delay"
    using fault_thread_step.delays [of fault_threads_init one_delayed]
    by (simp add: fault_threads_init_def after_delay_def one_delayed_def)
  have 2: "fault_thread_step after_delay worker_holds"
    using fault_thread_step.worker_takes [of after_delay one_delayed "[]"]
    by (simp add: worker_holds_def after_delay_def fault_threads_init_def delayed_pop_def one_delayed_def)
  show ?thesis using 1 2 by (meson converse_rtranclp_into_rtranclp r_into_rtranclp)
qed

definition flush_returned :: fault_threads where
  "flush_returned = worker_holds\<lparr>ft_flush := FlushReturned\<rparr>"

lemma flush_returned_reached: "fault_thread_step\<^sup>*\<^sup>* fault_threads_init flush_returned"
proof -
  have 3: "fault_thread_step worker_holds (worker_holds\<lparr>ft_flush := Flushing\<rparr>)"
    by (rule fault_thread_step.flush_begins) (simp_all add: worker_holds_def after_delay_def fault_threads_init_def)
  have "fault_thread_step (worker_holds\<lparr>ft_flush := Flushing\<rparr>) ((worker_holds\<lparr>ft_flush := Flushing\<rparr>)\<lparr>ft_flush := FlushReturned\<rparr>)"
    by (rule fault_thread_step.flush_returns)
      (simp_all add: worker_holds_def after_delay_def fault_threads_init_def delayed_pop_def)
  then have 4: "fault_thread_step (worker_holds\<lparr>ft_flush := Flushing\<rparr>) flush_returned"
    by (simp add: flush_returned_def)
  show ?thesis using worker_holds_reached 3 4 by (meson rtranclp.rtrancl_into_rtrancl)
qed

theorem flush_delivers_witness:
  "mset (ft_accepted flush_returned) = mset (ft_recorded flush_returned) + unrecorded (ft_worker flush_returned)"
  using flush_delivers [OF flush_returned_reached] by (simp add: flush_returned_def)

text \<open>\<^verbatim>\<open>flush\<close> can return with a frame still unsent: the worker took it off the queue before, and \<^verbatim>\<open>flush\<close>
  only looks at the queue.\<close>

lemma flush_misses_in_flight:
  "\<exists>s. fault_thread_step\<^sup>*\<^sup>* fault_threads_init s \<and> ft_flush s = FlushReturned \<and> ft_accepted s = [[7]] \<and> ft_recorded s = []"
  by (rule exI [of _ flush_returned], rule conjI, rule flush_returned_reached)
    (simp add: flush_returned_def worker_holds_def after_delay_def fault_threads_init_def)

text \<open>The callback of the scenario runner counts arrivals without a lock: with the executor and the worker both in
  it, one of the two arrivals is lost from the count, although the engine counts both as forwarded.\<close>

definition both_hold :: fault_threads where
  "both_hold = worker_holds\<lparr>ft_accepted := [[7], [8]], ft_executor := HasFrame [8]\<rparr>"

definition both_loaded :: fault_threads where
  "both_loaded = both_hold\<lparr>ft_executor := LoadedCount [8] 0, ft_worker := LoadedCount [7] 0\<rparr>"

definition both_wrote :: fault_threads where
  "both_wrote = both_loaded\<lparr>ft_executor := WroteFrame [8], ft_worker := WroteFrame [7], ft_received := 1,
     ft_recorded := [[8], [7]]\<rparr>"

definition both_done :: fault_threads where
  "both_done = both_wrote\<lparr>ft_executor := NotEmitting, ft_worker := NotEmitting, ft_forwarded := 2\<rparr>"

lemmas fault_run_defs = both_done_def both_wrote_def both_loaded_def both_hold_def worker_holds_def after_delay_def
  fault_threads_init_def

lemma both_emit:
  assumes "ft_executor s \<noteq> NotEmitting" and "emit_next (ft_executor s) s = (e, t)"
    and "ft_worker t \<noteq> NotEmitting" and "emit_next (ft_worker t) (t\<lparr>ft_executor := e\<rparr>) = (w, u)"
  shows "fault_thread_step\<^sup>*\<^sup>* s (u\<lparr>ft_worker := w\<rparr>)"
proof -
  have "fault_thread_step s (t\<lparr>ft_executor := e\<rparr>)"
    using assms(1,2) by (rule fault_thread_step.executor_emits)
  moreover have "fault_thread_step (t\<lparr>ft_executor := e\<rparr>) (u\<lparr>ft_worker := w\<rparr>)"
    by (rule fault_thread_step.worker_emits) (use assms(3,4) in simp_all)
  ultimately show ?thesis by (meson converse_rtranclp_into_rtranclp r_into_rtranclp)
qed

lemma received_loses_update:
  "\<exists>s. fault_thread_step\<^sup>*\<^sup>* fault_threads_init s \<and> ft_executor s = NotEmitting \<and> ft_worker s = NotEmitting \<and>
     ft_recorded s = [[8], [7]] \<and> ft_forwarded s = 2 \<and> ft_received s = 1"
proof -
  have 1: "fault_thread_step worker_holds both_hold"
    using fault_thread_step.dispatches [of worker_holds "[8]"]
    by (simp add: fault_run_defs)
  have 2: "fault_thread_step\<^sup>*\<^sup>* both_hold both_loaded"
    using both_emit [of both_hold "LoadedCount [8] 0" both_hold "LoadedCount [7] 0" "both_hold\<lparr>ft_executor := LoadedCount [8] 0\<rparr>"]
    by (simp add: fault_run_defs)
  have 3: "fault_thread_step\<^sup>*\<^sup>* both_loaded both_wrote"
    using both_emit [of both_loaded "WroteFrame [8]" "both_loaded\<lparr>ft_received := 1, ft_recorded := [[8]]\<rparr>" "WroteFrame [7]"
        "both_loaded\<lparr>ft_executor := WroteFrame [8], ft_received := 1, ft_recorded := [[8], [7]]\<rparr>"]
    by (simp add: fault_run_defs)
  have 4: "fault_thread_step\<^sup>*\<^sup>* both_wrote both_done"
    using both_emit [of both_wrote NotEmitting "both_wrote\<lparr>ft_forwarded := 1\<rparr>" NotEmitting
        "both_wrote\<lparr>ft_executor := NotEmitting, ft_forwarded := 2\<rparr>"]
    by (simp add: fault_run_defs)
  have "fault_thread_step\<^sup>*\<^sup>* fault_threads_init both_done"
    using worker_holds_reached 1 2 3 4 by (meson rtranclp.rtrancl_into_rtrancl rtranclp_trans)
  then show ?thesis by (rule exI [of _ both_done, OF conjI]) (simp add: fault_run_defs)
qed

end
