(* ===== verification/Bridge_Threads.thy ===== *)
theory Bridge_Threads
  imports Fault_Threads
begin

text \<open>
  The shutdown of a bridge with fault injection at the grain of its two threads: the main thread in
  \<^verbatim>\<open>NetworkBridge::shutdown\<close> and \<^verbatim>\<open>FaultEngine::flush\<close>, and the worker of the engine, which may be inside the write
  callback that \<^verbatim>\<open>load_parameters\<close> installs (\<^verbatim>\<open>src/network_bridge.cpp\<close>, \<^verbatim>\<open>faults/fault_engine.cpp\<close>). The callback
  tests \<^verbatim>\<open>network_interface_\<close> and then calls \<^verbatim>\<open>write\<close> through it, without a lock, while \<^verbatim>\<open>shutdown\<close> closes the interface,
  clears the pointer and destroys the object. The delay queue changes under its mutex, in one step, and a delayed frame may be due at any time. Using a null pointer,
  a destroyed interface, or a closed one whose \<^verbatim>\<open>write\<close> does not allow that, is undefined behaviour.
\<close>

subsection \<open>Threads\<close>

datatype interface_object = Alive | ClosedObject | Destroyed

text \<open>The worker: waiting, before the test of the pointer, before the call through it, inside \<^verbatim>\<open>write\<close>, or ended.\<close>

datatype worker_at = WWaits | WTests bytes | WCalls bytes | WWrites bytes | WEnded

text \<open>The main thread: spinning, then the statements of \<^verbatim>\<open>shutdown\<close> and of the destructor of the engine; in
  \<^verbatim>\<open>MFlushTests\<close> it is inside the callback for a frame that \<^verbatim>\<open>flush\<close> took.\<close>

datatype main_at = MSpin | MClears | MDestroys | MFlushes | MFlushTests bytes | MStops | MJoins | MReturned

record bridge_threads =
  bt_pointer :: bool
  bt_object :: interface_object
  bt_delayed :: "Delayed list"
  bt_stop :: bool
  bt_worker :: worker_at
  bt_main :: main_at
  bt_accepted :: "bytes list"
  bt_written :: "bytes list"
  bt_lost :: "bytes list"
  bt_undefined :: bool

definition bridge_threads_init :: bridge_threads where
  "bridge_threads_init = \<lparr>bt_pointer = True, bt_object = Alive, bt_delayed = [], bt_stop = False, bt_worker = WWaits,
     bt_main = MSpin, bt_accepted = [], bt_written = [], bt_lost = [], bt_undefined = False\<rparr>"

text \<open>The worker. \<open>closed_ok\<close>: \<^verbatim>\<open>write\<close> on a closed interface still sends, as that of the UDP interface, whose \<^verbatim>\<open>close\<close> leaves the
  sockets open, rather than using the socket that was reset, as that of the TCP interface.\<close>

inductive shutdown_worker_step :: "bool \<Rightarrow> bridge_threads \<Rightarrow> bridge_threads \<Rightarrow> bool" for closed_ok where
  w_takes: "bt_worker s = WWaits \<Longrightarrow> \<not> bt_stop s \<Longrightarrow> delayed_pop (bt_delayed s) = Some (x, rest)
    \<Longrightarrow> shutdown_worker_step closed_ok s (s\<lparr>bt_delayed := rest, bt_worker := WTests (dl_data x)\<rparr>)"
| w_null: "bt_worker s = WTests d \<Longrightarrow> \<not> bt_pointer s
    \<Longrightarrow> shutdown_worker_step closed_ok s (s\<lparr>bt_worker := WWaits, bt_lost := bt_lost s @ [d]\<rparr>)"
| w_some: "bt_worker s = WTests d \<Longrightarrow> bt_pointer s \<Longrightarrow> shutdown_worker_step closed_ok s (s\<lparr>bt_worker := WCalls d\<rparr>)"
| w_call: "bt_worker s = WCalls d \<Longrightarrow> bt_pointer s \<Longrightarrow> shutdown_worker_step closed_ok s (s\<lparr>bt_worker := WWrites d\<rparr>)"
| w_call_null: "bt_worker s = WCalls d \<Longrightarrow> \<not> bt_pointer s \<Longrightarrow> shutdown_worker_step closed_ok s (s\<lparr>bt_undefined := True\<rparr>)"
| w_write: "bt_worker s = WWrites d \<Longrightarrow> bt_object s = Alive
    \<Longrightarrow> shutdown_worker_step closed_ok s (s\<lparr>bt_worker := WWaits, bt_written := bt_written s @ [d]\<rparr>)"
| w_write_closed: "bt_worker s = WWrites d \<Longrightarrow> bt_object s = ClosedObject \<Longrightarrow> closed_ok
    \<Longrightarrow> shutdown_worker_step closed_ok s (s\<lparr>bt_worker := WWaits, bt_written := bt_written s @ [d]\<rparr>)"
| w_write_gone: "bt_worker s = WWrites d \<Longrightarrow> bt_object s = Destroyed \<or> (bt_object s = ClosedObject \<and> \<not> closed_ok)
    \<Longrightarrow> shutdown_worker_step closed_ok s (s\<lparr>bt_undefined := True\<rparr>)"
| w_ends: "bt_worker s = WWaits \<Longrightarrow> bt_stop s \<Longrightarrow> shutdown_worker_step closed_ok s (s\<lparr>bt_worker := WEnded\<rparr>)"

text \<open>The main thread. \<open>delays\<close>: the engine has a rule that delays frames. The second test of \<^verbatim>\<open>network_interface_\<close> in \<^verbatim>\<open>flush\<close>
  is the one of the callback.\<close>

inductive shutdown_main_step :: "bool \<Rightarrow> bridge_threads \<Rightarrow> bridge_threads \<Rightarrow> bool" for delays where
  m_emits: "bt_main s = MSpin
    \<Longrightarrow> shutdown_main_step delays s (s\<lparr>bt_accepted := bt_accepted s @ [d], bt_written := bt_written s @ [d]\<rparr>)"
| m_delays: "bt_main s = MSpin \<Longrightarrow> delays
    \<Longrightarrow> shutdown_main_step delays s (s\<lparr>bt_accepted := bt_accepted s @ [dl_data x], bt_delayed := bt_delayed s @ [x]\<rparr>)"
| m_closes: "bt_main s = MSpin \<Longrightarrow> shutdown_main_step delays s (s\<lparr>bt_main := MClears, bt_object := ClosedObject\<rparr>)"
| m_clears: "bt_main s = MClears \<Longrightarrow> shutdown_main_step delays s (s\<lparr>bt_main := MDestroys, bt_pointer := False\<rparr>)"
| m_destroys: "bt_main s = MDestroys \<Longrightarrow> shutdown_main_step delays s (s\<lparr>bt_main := MFlushes, bt_object := Destroyed\<rparr>)"
| m_flush_takes: "bt_main s = MFlushes \<Longrightarrow> delayed_pop (bt_delayed s) = Some (x, rest)
    \<Longrightarrow> shutdown_main_step delays s (s\<lparr>bt_main := MFlushTests (dl_data x), bt_delayed := rest\<rparr>)"
| m_flush_null: "bt_main s = MFlushTests d \<Longrightarrow> \<not> bt_pointer s
    \<Longrightarrow> shutdown_main_step delays s (s\<lparr>bt_main := MFlushes, bt_lost := bt_lost s @ [d]\<rparr>)"
| m_flush_write: "bt_main s = MFlushTests d \<Longrightarrow> bt_pointer s
    \<Longrightarrow> shutdown_main_step delays s (s\<lparr>bt_main := MFlushes, bt_written := bt_written s @ [d]\<rparr>)"
| m_flushed: "bt_main s = MFlushes \<Longrightarrow> delayed_pop (bt_delayed s) = None \<Longrightarrow> shutdown_main_step delays s (s\<lparr>bt_main := MStops\<rparr>)"
| m_stops: "bt_main s = MStops \<Longrightarrow> shutdown_main_step delays s (s\<lparr>bt_main := MJoins, bt_stop := True\<rparr>)"
| m_joins: "bt_main s = MJoins \<Longrightarrow> bt_worker s = WEnded \<Longrightarrow> shutdown_main_step delays s (s\<lparr>bt_main := MReturned\<rparr>)"

text \<open>After undefined behaviour there is no further step.\<close>

definition shutdown_step :: "bool \<Rightarrow> bool \<Rightarrow> bridge_threads \<Rightarrow> bridge_threads \<Rightarrow> bool" where
  "shutdown_step closed_ok delays s s' \<longleftrightarrow> \<not> bt_undefined s \<and> (shutdown_worker_step closed_ok s s' \<or> shutdown_main_step delays s s')"

inductive_cases shutdown_worker_stepE: "shutdown_worker_step closed_ok s s'"
inductive_cases shutdown_main_stepE: "shutdown_main_step delays s s'"

subsection \<open>The invariants\<close>

text \<open>The frames that a thread holds.\<close>

primrec worker_holding :: "worker_at \<Rightarrow> bytes multiset" where
  "worker_holding WWaits = {#}" | "worker_holding (WTests d) = {#d#}" | "worker_holding (WCalls d) = {#d#}"
| "worker_holding (WWrites d) = {#d#}" | "worker_holding WEnded = {#}"

definition main_holding :: "main_at \<Rightarrow> bytes multiset" where
  "main_holding p = (case p of MFlushTests d \<Rightarrow> {#d#} | _ \<Rightarrow> {#})"

text \<open>Every accepted frame is in exactly one place.\<close>

definition frames_inv :: "bridge_threads \<Rightarrow> bool" where
  "frames_inv s \<longleftrightarrow> mset (bt_accepted s) = mset (bt_written s) + mset (bt_lost s) + mset (map dl_data (bt_delayed s)) +
     worker_holding (bt_worker s) + main_holding (bt_main s)"

text \<open>How far the shutdown has come.\<close>

fun phase_ok :: "main_at \<Rightarrow> bridge_threads \<Rightarrow> bool" where
  "phase_ok MSpin s = (bt_pointer s \<and> bt_object s = Alive \<and> \<not> bt_stop s)"
| "phase_ok MClears s = (bt_pointer s \<and> bt_object s = ClosedObject \<and> \<not> bt_stop s)"
| "phase_ok MDestroys s = (\<not> bt_pointer s \<and> bt_object s = ClosedObject \<and> \<not> bt_stop s)"
| "phase_ok MFlushes s = (\<not> bt_pointer s \<and> bt_object s = Destroyed \<and> \<not> bt_stop s)"
| "phase_ok (MFlushTests d) s = (\<not> bt_pointer s \<and> bt_object s = Destroyed \<and> \<not> bt_stop s)"
| "phase_ok MStops s = (\<not> bt_pointer s \<and> bt_object s = Destroyed \<and> \<not> bt_stop s \<and> bt_delayed s = [])"
| "phase_ok MJoins s = (\<not> bt_pointer s \<and> bt_object s = Destroyed \<and> bt_stop s \<and> bt_delayed s = [])"
| "phase_ok MReturned s = (\<not> bt_pointer s \<and> bt_object s = Destroyed \<and> bt_stop s \<and> bt_delayed s = [] \<and> bt_worker s = WEnded)"

definition phase_inv :: "bool \<Rightarrow> bridge_threads \<Rightarrow> bool" where
  "phase_inv delays s \<longleftrightarrow> phase_ok (bt_main s) s \<and> (bt_worker s = WEnded \<longrightarrow> bt_stop s) \<and>
     (\<not> delays \<longrightarrow> bt_delayed s = [] \<and> (bt_worker s = WWaits \<or> bt_worker s = WEnded) \<and> \<not> bt_undefined s)"

definition shutdown_inv :: "bool \<Rightarrow> bridge_threads \<Rightarrow> bool" where
  "shutdown_inv delays s \<longleftrightarrow> frames_inv s \<and> phase_inv delays s"

lemma shutdown_init_inv: "shutdown_inv delays bridge_threads_init"
  by (simp add: shutdown_inv_def frames_inv_def phase_inv_def bridge_threads_init_def main_holding_def)

lemma delayed_pop_some: "delayed_pop q = Some x \<Longrightarrow> q \<noteq> []"
  by (auto simp: delayed_pop_def)

lemma worker_step_frames: "shutdown_worker_step closed_ok s s' \<Longrightarrow> frames_inv s \<Longrightarrow> frames_inv s'"
  by (erule shutdown_worker_stepE) (auto simp: frames_inv_def dest: delayed_pop_data)

lemma main_step_frames: "shutdown_main_step delays s s' \<Longrightarrow> frames_inv s \<Longrightarrow> frames_inv s'"
  by (erule shutdown_main_stepE) (auto simp: frames_inv_def main_holding_def dest: delayed_pop_data)

lemma worker_step_phase:
  assumes "shutdown_worker_step closed_ok s s'" and "phase_inv delays s"
  shows "phase_inv delays s'"
  using assms(2) delayed_pop_some
  by (cases rule: shutdown_worker_step.cases [OF assms(1)]; cases "bt_main s") (auto simp: phase_inv_def)

lemma main_step_phase: "shutdown_main_step delays s s' \<Longrightarrow> phase_inv delays s \<Longrightarrow> phase_inv delays s'"
  by (erule shutdown_main_stepE) (auto simp: phase_inv_def delayed_pop_none dest: delayed_pop_some)

lemma shutdown_step_inv: "shutdown_step closed_ok delays s s' \<Longrightarrow> shutdown_inv delays s \<Longrightarrow> shutdown_inv delays s'"
  using worker_step_frames main_step_frames worker_step_phase main_step_phase
  by (auto simp: shutdown_step_def shutdown_inv_def)

lemma shutdown_reach_inv: "(shutdown_step closed_ok delays)\<^sup>*\<^sup>* bridge_threads_init s \<Longrightarrow> shutdown_inv delays s"
  by (induction rule: rtranclp_induct) (auto intro: shutdown_init_inv shutdown_step_inv)

subsection \<open>Shutdown returns\<close>

text \<open>The main thread gets to the join of the worker on its own.\<close>

fun main_left :: "main_at \<Rightarrow> nat" where
  "main_left MSpin = 6" | "main_left MClears = 5" | "main_left MDestroys = 4" | "main_left MFlushes = 2"
| "main_left (MFlushTests d) = 3" | "main_left MStops = 1" | "main_left MJoins = 0" | "main_left MReturned = 0"

definition to_join :: "bridge_threads \<Rightarrow> nat" where
  "to_join s = main_left (bt_main s) + 2 * length (bt_delayed s)"

lemma delayed_pop_total: "q \<noteq> [] \<Longrightarrow> \<exists>x rest. delayed_pop q = Some (x, rest) \<and> length q = Suc (length rest)"
proof -
  assume "q \<noteq> []"
  then obtain x rest where p: "delayed_pop q = Some (x, rest)" using delayed_pop_none [of q] by (cases "delayed_pop q") auto
  with delayed_pop_data [OF p] show ?thesis by (metis length_map size_add_mset size_mset)
qed

definition main_moves :: "bool \<Rightarrow> bridge_threads \<Rightarrow> bridge_threads \<Rightarrow> bool" where
  "main_moves delays s s' \<longleftrightarrow> shutdown_main_step delays s s' \<and> to_join s' < to_join s \<and>
     bt_worker s' = bt_worker s \<and> bt_undefined s' = bt_undefined s"

lemma main_progress:
  assumes "phase_ok (bt_main s) s" and "0 < main_left (bt_main s)"
  shows "\<exists>s'. main_moves delays s s'"
proof (cases "bt_main s")
  case MSpin
  show ?thesis
    unfolding main_moves_def by (intro exI conjI, rule m_closes [OF MSpin]) (simp_all add: MSpin to_join_def)
next
  case MClears
  show ?thesis
    unfolding main_moves_def by (intro exI conjI, rule m_clears [OF MClears]) (simp_all add: MClears to_join_def)
next
  case MDestroys
  show ?thesis
    unfolding main_moves_def by (intro exI conjI, rule m_destroys [OF MDestroys]) (simp_all add: MDestroys to_join_def)
next
  case MFlushes
  show ?thesis
  proof (cases "bt_delayed s = []")
    case True
    then have "delayed_pop (bt_delayed s) = None" by (simp add: delayed_pop_none)
    from m_flushed [OF MFlushes this] show ?thesis
      unfolding main_moves_def by (intro exI conjI) (assumption, simp_all add: MFlushes to_join_def)
  next
    case False
    then obtain x rest where p: "delayed_pop (bt_delayed s) = Some (x, rest)" "length (bt_delayed s) = Suc (length rest)"
      using delayed_pop_total by blast
    from m_flush_takes [OF MFlushes p(1)] p(2) show ?thesis
      unfolding main_moves_def by (intro exI conjI) (assumption, simp_all add: MFlushes to_join_def)
  qed
next
  case (MFlushTests d)
  then have "\<not> bt_pointer s" using assms(1) by simp
  from m_flush_null [OF MFlushTests this] show ?thesis
    unfolding main_moves_def by (intro exI conjI) (assumption, simp_all add: MFlushTests to_join_def)
next
  case MStops
  show ?thesis
    unfolding main_moves_def by (intro exI conjI, rule m_stops [OF MStops]) (simp_all add: MStops to_join_def)
qed (use assms in simp_all)

lemma main_reaches_join:
  assumes "phase_inv delays s" and "bt_main s \<noteq> MReturned" and "\<not> bt_undefined s"
  shows "\<exists>s'. (shutdown_step closed_ok delays)\<^sup>*\<^sup>* s s' \<and> bt_main s' = MJoins \<and> bt_worker s' = bt_worker s \<and>
    \<not> bt_undefined s' \<and> phase_inv delays s'"
  using assms
proof (induction "to_join s" arbitrary: s rule: less_induct)
  case less
  show ?case
  proof (cases "main_left (bt_main s) = 0")
    case True
    then have "bt_main s = MJoins" using less.prems(2) by (cases "bt_main s") simp_all
    with less.prems show ?thesis by blast
  next
    case False
    then obtain s1 where s1: "shutdown_main_step delays s s1" "to_join s1 < to_join s" "bt_worker s1 = bt_worker s" "bt_undefined s1 = bt_undefined s"
      using main_progress [of s delays] less.prems(1) by (auto simp: phase_inv_def main_moves_def)
    have "bt_main s1 \<noteq> MReturned" using s1(1) False by (auto elim!: shutdown_main_stepE)
    moreover have "shutdown_step closed_ok delays s s1" using s1(1) less.prems(3) by (simp add: shutdown_step_def)
    ultimately show ?thesis
      using less.hyps [OF s1(2) main_step_phase [OF s1(1) less.prems(1)]] s1(3,4) less.prems(3)
      by (metis converse_rtranclp_into_rtranclp)
  qed
qed

text \<open>A worker that has not passed the test of the pointer then ends, and the shutdown returns.\<close>

lemma shutdown_run:
  assumes "phase_inv delays s" and "\<not> bt_undefined s" and "\<forall>d. bt_worker s \<noteq> WCalls d \<and> bt_worker s \<noteq> WWrites d"
  shows "\<exists>s'. (shutdown_step closed_ok delays)\<^sup>*\<^sup>* s s' \<and> bt_main s' = MReturned \<and> \<not> bt_undefined s'"
proof (cases "bt_main s = MReturned")
  case False
  let ?R = "(shutdown_step closed_ok delays)\<^sup>*\<^sup>*"
  obtain s1 where s1: "?R s s1" "bt_main s1 = MJoins" "bt_worker s1 = bt_worker s" "\<not> bt_undefined s1" "phase_inv delays s1"
    using main_reaches_join [OF assms(1) False assms(2)] by blast
  have st: "\<not> bt_pointer s1" "bt_stop s1" using s1(2,5) by (simp_all add: phase_inv_def)
  obtain s2 where s2: "?R s1 s2" "bt_main s2 = MJoins" "bt_stop s2" "\<not> bt_undefined s2" "bt_worker s2 = WWaits \<or> bt_worker s2 = WEnded"
  proof (cases "bt_worker s1")
    case (WTests d)
    from w_null [OF WTests st(1)] s1(4) have "shutdown_step closed_ok delays s1 (s1\<lparr>bt_worker := WWaits, bt_lost := bt_lost s1 @ [d]\<rparr>)"
      by (simp add: shutdown_step_def)
    then show ?thesis
      using that [of "s1\<lparr>bt_worker := WWaits, bt_lost := bt_lost s1 @ [d]\<rparr>"] s1 st by (simp add: r_into_rtranclp)
  qed (use that [of s1] s1 st assms(3) in auto)
  obtain s3 where s3: "?R s2 s3" "bt_main s3 = MJoins" "\<not> bt_undefined s3" "bt_worker s3 = WEnded"
  proof (cases "bt_worker s2 = WEnded")
    case False
    then have "shutdown_step closed_ok delays s2 (s2\<lparr>bt_worker := WEnded\<rparr>)"
      using w_ends [of s2] s2 by (simp add: shutdown_step_def)
    then show ?thesis using that [of "s2\<lparr>bt_worker := WEnded\<rparr>"] s2 by (simp add: r_into_rtranclp)
  qed (use that [of s2] s2 in auto)
  have "shutdown_step closed_ok delays s3 (s3\<lparr>bt_main := MReturned\<rparr>)"
    using m_joins [OF s3(2,4)] s3(3) by (simp add: shutdown_step_def)
  with s1(1) s2(1) s3(1) have "?R s (s3\<lparr>bt_main := MReturned\<rparr>)" by (meson rtranclp.rtrancl_into_rtrancl rtranclp_trans)
  then show ?thesis using s3(3) by (intro exI conjI) (assumption, simp_all)
qed (use assms(2) in blast)

subsection \<open>The race\<close>

definition a_delayed :: Delayed where
  "a_delayed = \<lparr>due_ns = 0, dl_data = [7]\<rparr>"

text \<open>A delayed frame is inside \<^verbatim>\<open>write\<close> of the worker while the main thread destroys the interface.\<close>

definition in_write :: bridge_threads where
  "in_write = bridge_threads_init\<lparr>bt_accepted := [[7]], bt_worker := WWrites [7]\<rparr>"

lemma in_write_reached: "(shutdown_step closed_ok True)\<^sup>*\<^sup>* bridge_threads_init in_write"
proof -
  let ?s1 = "bridge_threads_init\<lparr>bt_accepted := [[7]], bt_delayed := [a_delayed]\<rparr>"
  let ?s2 = "bridge_threads_init\<lparr>bt_accepted := [[7]], bt_worker := WTests [7]\<rparr>"
  let ?s3 = "bridge_threads_init\<lparr>bt_accepted := [[7]], bt_worker := WCalls [7]\<rparr>"
  have "shutdown_main_step True bridge_threads_init ?s1"
    using m_delays [of bridge_threads_init True a_delayed] by (simp add: bridge_threads_init_def a_delayed_def)
  moreover have "shutdown_worker_step closed_ok ?s1 ?s2"
    using w_takes [of ?s1 a_delayed "[]" closed_ok] by (simp add: bridge_threads_init_def a_delayed_def delayed_pop_def)
  moreover have "shutdown_worker_step closed_ok ?s2 ?s3"
    using w_some [of ?s2 "[7]" closed_ok] by (simp add: bridge_threads_init_def)
  moreover have "shutdown_worker_step closed_ok ?s3 in_write"
    using w_call [of ?s3 "[7]" closed_ok] by (simp add: bridge_threads_init_def in_write_def)
  ultimately have "shutdown_step closed_ok True bridge_threads_init ?s1" "shutdown_step closed_ok True ?s1 ?s2"
    "shutdown_step closed_ok True ?s2 ?s3" "shutdown_step closed_ok True ?s3 in_write"
    by (simp_all add: shutdown_step_def bridge_threads_init_def)
  then show ?thesis by (meson rtranclp.rtrancl_into_rtrancl rtranclp.rtrancl_refl)
qed

lemma shutdown_race: "\<exists>s. (shutdown_step closed_ok True)\<^sup>*\<^sup>* bridge_threads_init s \<and> bt_undefined s"
proof -
  let ?s1 = "in_write\<lparr>bt_main := MClears, bt_object := ClosedObject\<rparr>"
  let ?s2 = "in_write\<lparr>bt_main := MDestroys, bt_object := ClosedObject, bt_pointer := False\<rparr>"
  let ?s3 = "in_write\<lparr>bt_main := MFlushes, bt_object := Destroyed, bt_pointer := False\<rparr>"
  have "shutdown_main_step True in_write ?s1"
    using m_closes [of in_write True] by (simp add: in_write_def bridge_threads_init_def)
  moreover have "shutdown_main_step True ?s1 ?s2"
    using m_clears [of ?s1 True] by (simp add: in_write_def bridge_threads_init_def)
  moreover have "shutdown_main_step True ?s2 ?s3"
    using m_destroys [of ?s2 True] by (simp add: in_write_def bridge_threads_init_def)
  moreover have "shutdown_worker_step closed_ok ?s3 (?s3\<lparr>bt_undefined := True\<rparr>)"
    using w_write_gone [of ?s3 "[7]" closed_ok] by (simp add: in_write_def)
  ultimately have "shutdown_step closed_ok True in_write ?s1" "shutdown_step closed_ok True ?s1 ?s2"
    "shutdown_step closed_ok True ?s2 ?s3" "shutdown_step closed_ok True ?s3 (?s3\<lparr>bt_undefined := True\<rparr>)"
    by (simp_all add: shutdown_step_def in_write_def bridge_threads_init_def)
  with in_write_reached [of closed_ok] have "(shutdown_step closed_ok True)\<^sup>*\<^sup>* bridge_threads_init (?s3\<lparr>bt_undefined := True\<rparr>)"
    by (meson rtranclp.rtrancl_into_rtrancl)
  then show ?thesis by (intro exI conjI) (assumption, simp)
qed

subsection \<open>Properties\<close>


text \<open>A shutdown accounts for the frames: when it has returned, the worker has ended, no frame is left in the queue, and every
  frame that the engine accepted was either written, once, or dropped by the callback for want of an interface. From every
  state in which nothing undefined has happened and the worker is not past the test of the pointer, the shutdown can return.\<close>

theorem shutdown_accounts:
  assumes "(shutdown_step closed_ok delays)\<^sup>*\<^sup>* bridge_threads_init s" and "\<not> bt_undefined s"
  shows "(bt_main s = MReturned \<longrightarrow> bt_worker s = WEnded \<and> bt_delayed s = [] \<and>
        mset (bt_accepted s) = mset (bt_written s) + mset (bt_lost s)) \<and>
    ((\<forall>d. bt_worker s \<noteq> WCalls d \<and> bt_worker s \<noteq> WWrites d) \<longrightarrow>
      (\<exists>s'. (shutdown_step closed_ok delays)\<^sup>*\<^sup>* s s' \<and> bt_main s' = MReturned \<and> \<not> bt_undefined s'))"
proof -
  have "frames_inv s" "phase_inv delays s" using shutdown_reach_inv [OF assms(1)] by (simp_all add: shutdown_inv_def)
  with shutdown_run [OF this(2) assms(2)] show ?thesis by (auto simp: phase_inv_def frames_inv_def main_holding_def)
qed

theorem shutdown_accounts_witness:
  "\<exists>s. (shutdown_step False True)\<^sup>*\<^sup>* bridge_threads_init s \<and> bt_main s = MReturned \<and> bt_delayed s = [] \<and>
     mset (bt_accepted s) = mset (bt_written s) + mset (bt_lost s)"
proof -
  have i: "\<not> bt_undefined bridge_threads_init" "bt_worker bridge_threads_init = WWaits" by (simp_all add: bridge_threads_init_def)
  then obtain s where s: "(shutdown_step False True)\<^sup>*\<^sup>* bridge_threads_init s" "bt_main s = MReturned" "\<not> bt_undefined s"
    using shutdown_accounts [of False True bridge_threads_init] by auto
  with shutdown_accounts [OF s(1,3)] show ?thesis by auto
qed

end
