(* ===== verification/Scenario_Model.thy ===== *)
theory Scenario_Model
  imports Fault_Engine
begin

text \<open>
  The scenario data model and its parser (\<^verbatim>\<open>scenario/scenario.hpp\<close>, \<^verbatim>\<open>scenario/scenario.cpp\<close>) and the
  assertion evaluator (\<^verbatim>\<open>scenario/assertion.hpp\<close>, \<^verbatim>\<open>scenario/assertion.cpp\<close>). The YAML library is a parameter:
  the record \<open>Yaml\<close> holds the node operations the parser calls, each of which may throw.
\<close>

subsection \<open>Data model\<close>

record StreamConfig =
  sc_name :: string
  sc_rate_hz :: dbl

datatype FaultType = kDelay | kDrop | kCorrupt | kReorder | kDuplicate | kBurstLoss | kBandwidthLimit
  | kEcuDisconnect | kProcessRestart | kUnknown

definition fault_type_from_string :: "string \<Rightarrow> FaultType" where
  "fault_type_from_string s =
     (if s = ''delay'' then FaultType.kDelay
      else if s = ''drop'' then FaultType.kDrop
      else if s = ''corrupt'' then FaultType.kCorrupt
      else if s = ''reorder'' then FaultType.kReorder
      else if s = ''duplicate'' then FaultType.kDuplicate
      else if s = ''burst'' \<or> s = ''burst_loss'' then FaultType.kBurstLoss
      else if s = ''bandwidth_limit'' then FaultType.kBandwidthLimit
      else if s = ''ecu_disconnect'' then FaultType.kEcuDisconnect
      else if s = ''process_restart'' then FaultType.kProcessRestart
      else FaultType.kUnknown)"

fun fault_type_to_string :: "FaultType \<Rightarrow> string" where
  "fault_type_to_string FaultType.kDelay = ''delay''"
| "fault_type_to_string FaultType.kDrop = ''drop''"
| "fault_type_to_string FaultType.kCorrupt = ''corrupt''"
| "fault_type_to_string FaultType.kReorder = ''reorder''"
| "fault_type_to_string FaultType.kDuplicate = ''duplicate''"
| "fault_type_to_string FaultType.kBurstLoss = ''burst_loss''"
| "fault_type_to_string FaultType.kBandwidthLimit = ''bandwidth_limit''"
| "fault_type_to_string FaultType.kEcuDisconnect = ''ecu_disconnect''"
| "fault_type_to_string FaultType.kProcessRestart = ''process_restart''"
| "fault_type_to_string FaultType.kUnknown = ''unknown''"

record FaultSpec =
  fs_stream :: string
  fs_start_seconds :: dbl
  fs_duration_seconds :: dbl
  fs_type :: FaultType
  fs_params :: "string \<rightharpoonup> dbl"

definition fault_param :: "FaultSpec \<Rightarrow> string \<Rightarrow> dbl \<Rightarrow> dbl" where
  "fault_param f key fallback = (case fs_params f key of None \<Rightarrow> fallback | Some v \<Rightarrow> v)"

datatype CompareOp = kLessThan | kGreaterThan | kEquals | kNotEquals | kUnknown

definition compare_op_from_string :: "string \<Rightarrow> CompareOp" where
  "compare_op_from_string s =
     (if s = ''less_than'' then kLessThan
      else if s = ''greater_than'' then kGreaterThan
      else if s = ''equals'' then kEquals
      else if s = ''not_equals'' then kNotEquals
      else CompareOp.kUnknown)"

fun compare_op_to_string :: "CompareOp \<Rightarrow> string" where
  "compare_op_to_string kLessThan = ''less_than''"
| "compare_op_to_string kGreaterThan = ''greater_than''"
| "compare_op_to_string kEquals = ''equals''"
| "compare_op_to_string kNotEquals = ''not_equals''"
| "compare_op_to_string CompareOp.kUnknown = ''unknown''"

record Assertion =
  as_metric :: string
  as_op :: CompareOp
  as_value :: dbl
  as_window_seconds :: "dbl option"

record Scenario =
  sn_name :: string
  sn_duration_seconds :: dbl
  sn_streams :: "StreamConfig list"
  sn_faults :: "FaultSpec list"
  sn_assertions :: "Assertion list"

subsection \<open>Parsing\<close>

record 'n Yaml =
  y_get :: "'n \<Rightarrow> string \<Rightarrow> cpp_exception + 'n option"
  y_string :: "'n \<Rightarrow> cpp_exception + string"
  y_double :: "'n \<Rightarrow> cpp_exception + dbl"
  y_pairs :: "'n \<Rightarrow> cpp_exception + ('n \<times> 'n) list"
  y_items :: "'n \<Rightarrow> cpp_exception + 'n list"

text \<open>\<^verbatim>\<open>n[key] ? n[key].as<T>() : fallback\<close>.\<close>

definition get_or :: "('n \<Rightarrow> cpp_exception + 'a) \<Rightarrow> 'n Yaml \<Rightarrow> 'n \<Rightarrow> string \<Rightarrow> 'a \<Rightarrow> cpp_exception + 'a" where
  "get_or conv Y n key fallback = bindE (y_get Y n key) (\<lambda>v. case v of None \<Rightarrow> Inr fallback | Some v \<Rightarrow> conv v)"

definition quoted :: "string \<Rightarrow> string" where
  "quoted s = [CHR 0x27] @ s @ [CHR 0x27]"

definition parse_stream :: "'n Yaml \<Rightarrow> 'n \<times> 'n \<Rightarrow> cpp_exception + StreamConfig" where
  "parse_stream Y kv =
     bindE (y_string Y (fst kv)) (\<lambda>name.
     bindE (get_or (y_double Y) Y (snd kv) ''rate_hz'' 0) (\<lambda>rate_hz.
       if rate_hz \<le> 0 then Inl (runtime_error (''scenario: stream '' @ quoted name @ '' rate_hz must be > 0''))
       else Inr \<lparr>sc_name = name, sc_rate_hz = rate_hz\<rparr>))"

fun parse_params :: "'n Yaml \<Rightarrow> ('n \<times> 'n) list \<Rightarrow> (string \<rightharpoonup> dbl) \<Rightarrow> cpp_exception + (string \<rightharpoonup> dbl)" where
  "parse_params Y [] params = Inr params"
| "parse_params Y (p # ps) params =
     bindE (y_string Y (fst p)) (\<lambda>key. bindE (y_double Y (snd p)) (\<lambda>v. parse_params Y ps (params(key \<mapsto> v))))"

fun parse_inline :: "'n Yaml \<Rightarrow> 'n \<Rightarrow> string list \<Rightarrow> (string \<rightharpoonup> dbl) \<Rightarrow> cpp_exception + (string \<rightharpoonup> dbl)" where
  "parse_inline Y f [] params = Inr params"
| "parse_inline Y f (key # keys) params =
     bindE (y_get Y f key) (\<lambda>v. case v of
        None \<Rightarrow> parse_inline Y f keys params
      | Some v \<Rightarrow> bindE (y_double Y v) (\<lambda>x. parse_inline Y f keys (params(key \<mapsto> x))))"

definition parse_fault :: "'n Yaml \<Rightarrow> 'n \<Rightarrow> cpp_exception + FaultSpec" where
  "parse_fault Y f =
     bindE (get_or (y_string Y) Y f ''stream'' []) (\<lambda>stream.
     bindE (get_or (y_double Y) Y f ''start_seconds'' 0) (\<lambda>start.
     bindE (get_or (y_double Y) Y f ''duration_seconds'' 0) (\<lambda>duration.
     bindE (get_or (y_string Y) Y f ''type'' []) (\<lambda>type_str.
     let type = fault_type_from_string type_str
     in if type = FaultType.kUnknown then Inl (runtime_error (''scenario: unknown fault type '' @ quoted type_str))
        else
     bindE (y_get Y f ''params'') (\<lambda>ps.
     bindE (case ps of None \<Rightarrow> Inr Map.empty | Some ps \<Rightarrow> bindE (y_pairs Y ps) (\<lambda>ps. parse_params Y ps Map.empty)) (\<lambda>params.
     bindE (parse_inline Y f [''delay_ms'', ''drop_rate'', ''bandwidth_kbps'', ''burst_ms''] params) (\<lambda>params.
       Inr \<lparr>fs_stream = stream, fs_start_seconds = start, fs_duration_seconds = duration, fs_type = type, fs_params = params\<rparr>)))))))"

definition parse_assertion :: "'n Yaml \<Rightarrow> 'n \<Rightarrow> cpp_exception + Assertion" where
  "parse_assertion Y a =
     bindE (get_or (y_string Y) Y a ''metric'' []) (\<lambda>metric.
     bindE (get_or (y_string Y) Y a ''operator'' []) (\<lambda>op_str.
     let op = compare_op_from_string op_str
     in if metric = [] \<or> op = CompareOp.kUnknown then Inl (runtime_error ''scenario: assertion needs metric + valid operator'')
        else
     bindE (get_or (y_double Y) Y a ''value'' 0) (\<lambda>value.
     bindE (y_get Y a ''window_seconds'') (\<lambda>w.
     bindE (case w of None \<Rightarrow> Inr None | Some w \<Rightarrow> bindE (y_double Y w) (\<lambda>w. Inr (Some w))) (\<lambda>w.
       Inr \<lparr>as_metric = metric, as_op = op, as_value = value, as_window_seconds = w\<rparr>)))))"

text \<open>The loop over the entries of an optional section.\<close>

fun parse_each :: "('a \<Rightarrow> cpp_exception + 'b) \<Rightarrow> 'a list \<Rightarrow> cpp_exception + 'b list" where
  "parse_each f [] = Inr []"
| "parse_each f (x # xs) = bindE (f x) (\<lambda>y. bindE (parse_each f xs) (\<lambda>ys. Inr (y # ys)))"

definition parse_section :: "'n Yaml \<Rightarrow> 'n \<Rightarrow> string \<Rightarrow> ('n \<Rightarrow> cpp_exception + 'a list) \<Rightarrow> ('a \<Rightarrow> cpp_exception + 'b) \<Rightarrow> cpp_exception + 'b list" where
  "parse_section Y doc key entries f = bindE (y_get Y doc key) (\<lambda>v. case v of
     None \<Rightarrow> Inr []
   | Some v \<Rightarrow> bindE (entries v) (parse_each f))"

definition parse_node :: "'n Yaml \<Rightarrow> 'n \<Rightarrow> cpp_exception + Scenario" where
  "parse_node Y doc =
     bindE (y_get Y doc ''name'') (\<lambda>v. case v of
       None \<Rightarrow> Inl (runtime_error (''scenario: missing required '' @ quoted ''name''))
     | Some v \<Rightarrow>
     bindE (y_string Y v) (\<lambda>name.
     bindE (get_or (y_double Y) Y doc ''duration_seconds'' 0) (\<lambda>duration.
     if duration \<le> 0 then Inl (runtime_error ''scenario: duration_seconds must be > 0'')
     else
     bindE (parse_section Y doc ''streams'' (y_pairs Y) (parse_stream Y)) (\<lambda>streams.
     bindE (parse_section Y doc ''faults'' (y_items Y) (parse_fault Y)) (\<lambda>faults.
     bindE (parse_section Y doc ''assertions'' (y_items Y) (parse_assertion Y)) (\<lambda>assertions.
       Inr \<lparr>sn_name = name, sn_duration_seconds = duration, sn_streams = streams, sn_faults = faults,
            sn_assertions = assertions\<rparr>))))))"

text \<open>Both entry points parse what the library loads.\<close>

definition parse_scenario :: "(string \<Rightarrow> cpp_exception + 'n) \<Rightarrow> 'n Yaml \<Rightarrow> string \<Rightarrow> cpp_exception + Scenario" where
  "parse_scenario yaml_load Y source = bindE (yaml_load source) (parse_node Y)"

subsection \<open>From scenario faults to fault rules (scenario\_runner.cpp)\<close>

definition to_fault_rule :: "FaultSpec \<Rightarrow> FaultRule" where
  "to_fault_rule f = FaultRule_init\<lparr>fr_kind := fault_kind_from_string (fault_type_to_string (fs_type f)),
     fr_stream := fs_stream f, fr_start_s := fs_start_seconds f, fr_duration_s := fs_duration_seconds f,
     fr_delay_ms := fault_param f ''delay_ms'' 0, fr_drop_rate := fault_param f ''drop_rate'' 0,
     fr_bandwidth_kbps := fault_param f ''bandwidth_kbps'' 0\<rparr>"

subsection \<open>Assertions\<close>

type_synonym MetricMap = "string \<rightharpoonup> dbl"

record AssertionResult =
  ar_metric :: string
  ar_op :: CompareOp
  ar_threshold :: dbl
  ar_actual :: dbl
  ar_found :: bool
  ar_passed :: bool

definition AssertionResult_init :: AssertionResult where
  "AssertionResult_init = \<lparr>ar_metric = [], ar_op = CompareOp.kUnknown, ar_threshold = 0, ar_actual = 0,
     ar_found = False, ar_passed = False\<rparr>"

definition kEpsilon :: dbl where "kEpsilon = rnd64 (1 / 10 ^ 9)"

definition compare :: "CompareOp \<Rightarrow> dbl \<Rightarrow> dbl \<Rightarrow> bool" where
  "compare op actual value = (case op of
     kLessThan \<Rightarrow> actual < value
   | kGreaterThan \<Rightarrow> actual > value
   | kEquals \<Rightarrow> \<bar>fsub actual value\<bar> \<le> kEpsilon
   | kNotEquals \<Rightarrow> \<bar>fsub actual value\<bar> > kEpsilon
   | CompareOp.kUnknown \<Rightarrow> False)"

definition evaluate :: "Assertion \<Rightarrow> MetricMap \<Rightarrow> AssertionResult" where
  "evaluate a metrics =
     (let r = AssertionResult_init\<lparr>ar_metric := as_metric a, ar_op := as_op a, ar_threshold := as_value a\<rparr>
      in case metrics (as_metric a) of
           None \<Rightarrow> r\<lparr>ar_found := False, ar_passed := False\<rparr>
         | Some v \<Rightarrow> r\<lparr>ar_actual := v, ar_found := True, ar_passed := compare (as_op a) v (as_value a)\<rparr>)"

record ScenarioResult =
  sr_scenario_name :: string
  sr_passed :: bool
  sr_assertions :: "AssertionResult list"

fun evaluate_loop :: "MetricMap \<Rightarrow> Assertion list \<Rightarrow> ScenarioResult \<Rightarrow> ScenarioResult" where
  "evaluate_loop metrics [] sr = sr"
| "evaluate_loop metrics (a # as) sr =
     (let r = evaluate a metrics
      in evaluate_loop metrics as (sr\<lparr>sr_passed := (if \<not> ar_passed r then False else sr_passed sr),
           sr_assertions := sr_assertions sr @ [r]\<rparr>))"

definition evaluate_all :: "string \<Rightarrow> Assertion list \<Rightarrow> MetricMap \<Rightarrow> ScenarioResult" where
  "evaluate_all scenario_name assertions metrics =
     evaluate_loop metrics assertions \<lparr>sr_scenario_name = scenario_name, sr_passed = True, sr_assertions = []\<rparr>"

subsection \<open>The tables\<close>

lemma fault_type_roundtrip: "fault_type_from_string (fault_type_to_string t) = t"
  by (cases t) (simp_all add: fault_type_from_string_def)

lemma compare_op_roundtrip: "compare_op_from_string (compare_op_to_string c) = c"
  by (cases c) (simp_all add: compare_op_from_string_def)

text \<open>The tables of the parser and of the fault engine know the same names.\<close>

lemma fault_tables_agree:
  "fault_kind_from_string (fault_type_to_string (fault_type_from_string s)) = fault_kind_from_string s"
  by (simp add: fault_type_from_string_def fault_kind_from_string_def)

lemma fault_rule_active: "fs_type f \<noteq> FaultType.kUnknown \<Longrightarrow> fr_kind (to_fault_rule f) \<noteq> kNone"
  by (cases "fs_type f") (simp_all add: to_fault_rule_def fault_kind_from_string_def)

subsection \<open>What the parser accepts\<close>

definition scenario_ok :: "Scenario \<Rightarrow> bool" where
  "scenario_ok s \<longleftrightarrow> 0 < sn_duration_seconds s \<and> (\<forall>c\<in>set (sn_streams s). 0 < sc_rate_hz c) \<and>
     (\<forall>f\<in>set (sn_faults s). fs_type f \<noteq> FaultType.kUnknown) \<and>
     (\<forall>a\<in>set (sn_assertions s). as_metric a \<noteq> [] \<and> as_op a \<noteq> CompareOp.kUnknown)"

lemma parse_each_mem: "parse_each f xs = Inr ys \<Longrightarrow> y \<in> set ys \<Longrightarrow> \<exists>x. f x = Inr y"
  by (induction xs arbitrary: ys) auto

lemma parse_section_mem: "parse_section Y n key es f = Inr ys \<Longrightarrow> y \<in> set ys \<Longrightarrow> \<exists>x. f x = Inr y"
  by (auto simp: parse_section_def split: option.splits dest: parse_each_mem)

lemma parse_stream_rate: "parse_stream Y kv = Inr c \<Longrightarrow> 0 < sc_rate_hz c"
  by (auto simp: parse_stream_def split: if_splits)

lemma parse_fault_known: "parse_fault Y n = Inr f \<Longrightarrow> fs_type f \<noteq> FaultType.kUnknown"
  by (auto simp: parse_fault_def Let_def split: if_splits)

lemma parse_assertion_valid: "parse_assertion Y n = Inr a \<Longrightarrow> as_metric a \<noteq> [] \<and> as_op a \<noteq> CompareOp.kUnknown"
  by (auto simp: parse_assertion_def Let_def split: if_splits)

lemma sections_valid:
  "parse_section Y n key es (parse_stream Y) = Inr cs \<Longrightarrow> \<forall>c\<in>set cs. 0 < sc_rate_hz c"
  "parse_section Y n key es' (parse_fault Y) = Inr fs \<Longrightarrow> \<forall>f\<in>set fs. fs_type f \<noteq> FaultType.kUnknown"
  "parse_section Y n key es' (parse_assertion Y) = Inr as \<Longrightarrow> \<forall>a\<in>set as. as_metric a \<noteq> [] \<and> as_op a \<noteq> CompareOp.kUnknown"
  by (blast dest: parse_section_mem parse_stream_rate parse_fault_known parse_assertion_valid)+

lemma parse_node_ok: "parse_node Y n = Inr s \<Longrightarrow> scenario_ok s"
  by (clarsimp simp: parse_node_def split: option.splits if_splits)
    (simp add: scenario_ok_def sections_valid)

subsection \<open>What an evaluation says\<close>

lemma evaluate_passed: "ar_passed (evaluate a m) \<longleftrightarrow> (\<exists>v. m (as_metric a) = Some v \<and> compare (as_op a) v (as_value a))"
  by (simp add: evaluate_def Let_def split: option.split)

lemma evaluate_loop_result:
  "evaluate_loop m as sr = \<lparr>sr_scenario_name = sr_scenario_name sr, sr_passed = (sr_passed sr \<and> (\<forall>a\<in>set as. ar_passed (evaluate a m))),
     sr_assertions = sr_assertions sr @ map (\<lambda>a. evaluate a m) as\<rparr>"
  by (induction as arbitrary: sr) (auto simp: Let_def)

text \<open>Exactly one of equals and not equals holds of a metric.\<close>

lemma compare_equals_complement: "compare kNotEquals x y \<longleftrightarrow> \<not> compare kEquals x y"
  by (auto simp: compare_def)


text \<open>A small document type, for concrete scenarios.\<close>

datatype document = Text string | Number dbl | Entries "(string \<times> document) list" | Items "document list"

definition document_yaml :: "document Yaml" where
  "document_yaml = \<lparr>
     y_get = (\<lambda>n key. case n of Entries es \<Rightarrow> Inr (map_of es key) | _ \<Rightarrow> Inl (runtime_error ''bad subscript'')),
     y_string = (\<lambda>n. case n of Text s \<Rightarrow> Inr s | _ \<Rightarrow> Inl (runtime_error ''bad conversion'')),
     y_double = (\<lambda>n. case n of Number x \<Rightarrow> Inr x | _ \<Rightarrow> Inl (runtime_error ''bad conversion'')),
     y_pairs = (\<lambda>n. case n of Entries es \<Rightarrow> Inr (map (\<lambda>(k, v). (Text k, v)) es) | _ \<Rightarrow> Inr []),
     y_items = (\<lambda>n. case n of Items ns \<Rightarrow> Inr ns | _ \<Rightarrow> Inr [])\<rparr>"


text \<open>A scenario passes exactly when every assertion names a metric that was collected and its comparison with
  the threshold holds, so that a missing metric or an unknown operator fails it; the results are one per assertion,
  in the order of the assertions.\<close>

theorem evaluate_all_exact:
  "(sr_passed (evaluate_all name as m) \<longleftrightarrow> list_all (\<lambda>a. \<exists>v. m (as_metric a) = Some v \<and> compare (as_op a) v (as_value a)) as) \<and>
   map (\<lambda>r. (ar_metric r, ar_op r, ar_threshold r)) (sr_assertions (evaluate_all name as m))
     = map (\<lambda>a. (as_metric a, as_op a, as_value a)) as \<and>
   (sr_passed (evaluate_all name as m) \<longleftrightarrow> list_all ar_passed (sr_assertions (evaluate_all name as m)))"
  by (auto simp: evaluate_all_def evaluate_loop_result evaluate_passed list_all_iff)
    (auto simp: evaluate_def Let_def split: option.split)

end
