(* ===== verification/Stream_Metrics.thy ===== *)
theory Stream_Metrics
  imports Scenario_Model
begin

text \<open>
  The per-stream metric accumulator (\<^verbatim>\<open>scenario/metrics.hpp\<close>). Reading the sorted samples goes through a
  bounds-checked access, so that an emission that returns a map has not read out of range.
\<close>

record StreamMetrics =
  mt_name :: string
  mt_expected_rate_hz :: dbl
  mt_duration_seconds :: dbl
  mt_latencies_ms :: "dbl list"
  mt_received :: u64
  mt_sequence_gaps :: u64
  mt_has_arrival :: bool
  mt_first_arrival_s :: dbl
  mt_last_arrival_s :: dbl

definition StreamMetrics_new :: "string \<Rightarrow> dbl \<Rightarrow> dbl \<Rightarrow> StreamMetrics" where
  "StreamMetrics_new name expected_rate_hz duration_seconds =
     \<lparr>mt_name = name, mt_expected_rate_hz = expected_rate_hz, mt_duration_seconds = duration_seconds,
      mt_latencies_ms = [], mt_received = 0, mt_sequence_gaps = 0, mt_has_arrival = False,
      mt_first_arrival_s = 0, mt_last_arrival_s = 0\<rparr>"

definition record_latency :: "dbl \<Rightarrow> bool \<Rightarrow> StreamMetrics \<Rightarrow> StreamMetrics" where
  "record_latency latency_ms gap_before m =
     (let m = m\<lparr>mt_latencies_ms := mt_latencies_ms m @ [latency_ms], mt_received := mt_received m + 1\<rparr>
      in if gap_before then m\<lparr>mt_sequence_gaps := mt_sequence_gaps m + 1\<rparr> else m)"

definition record_arrival :: "dbl \<Rightarrow> dbl \<Rightarrow> bool \<Rightarrow> StreamMetrics \<Rightarrow> StreamMetrics" where
  "record_arrival latency_ms arrival_s gap_before m =
     (let m = (if \<not> mt_has_arrival m then m\<lparr>mt_first_arrival_s := arrival_s, mt_has_arrival := True\<rparr> else m);
          m = m\<lparr>mt_last_arrival_s := arrival_s\<rparr>
      in record_latency latency_ms gap_before m)"

definition add_sequence_gaps :: "u64 \<Rightarrow> StreamMetrics \<Rightarrow> StreamMetrics" where
  "add_sequence_gaps n m = m\<lparr>mt_sequence_gaps := mt_sequence_gaps m + n\<rparr>"

definition pct_index :: "dbl \<Rightarrow> nat \<Rightarrow> nat" where
  "pct_index p n = nat (trunc (fmul p (of_integer (int n - 1))))"

definition pct :: "dbl \<Rightarrow> StreamMetrics \<Rightarrow> dbl option" where
  "pct p m =
     (if mt_latencies_ms m = [] then Some 0
      else let s = sort (mt_latencies_ms m) in rd s (pct_index p (length s)))"

definition msgs_per_sec :: "StreamMetrics \<Rightarrow> dbl" where
  "msgs_per_sec m = (if mt_duration_seconds m > 0 then fdiv (of_integer (uint (mt_received m))) (mt_duration_seconds m) else 0)"

definition drop_pct :: "dbl \<Rightarrow> dbl \<Rightarrow> dbl" where
  "drop_pct expected observed =
     (if expected \<le> 0 then 0
      else let dropped = fsub expected observed in fdiv (fmul 100 (if dropped > 0 then dropped else 0)) expected)"

definition drop_rate_pct :: "StreamMetrics \<Rightarrow> dbl" where
  "drop_rate_pct m =
     (let window = fsub (mt_last_arrival_s m) (mt_first_arrival_s m)
      in if mt_has_arrival m \<and> mt_received m \<ge> 2 \<and> window > 0
         then drop_pct (fmul (mt_expected_rate_hz m) window) (fsub (of_integer (uint (mt_received m))) 1)
         else drop_pct (fmul (mt_expected_rate_hz m) (mt_duration_seconds m)) (of_integer (uint (mt_received m))))"

definition p50 :: dbl where "p50 = rnd64 (1 / 2)"
definition p99 :: dbl where "p99 = rnd64 (99 / 100)"
definition p999 :: dbl where "p999 = rnd64 (999 / 1000)"

definition metrics_emit :: "StreamMetrics \<Rightarrow> MetricMap \<Rightarrow> MetricMap option" where
  "metrics_emit m out = do {
     let key = (\<lambda>suffix. mt_name m @ suffix);
     let out = out(key ''_msgs_per_sec'' \<mapsto> msgs_per_sec m);
     let out = out(key ''_drop_rate_pct'' \<mapsto> drop_rate_pct m);
     v \<leftarrow> pct p50 m;
     let out = out(key ''_latency_p50_ms'' \<mapsto> v);
     v \<leftarrow> pct p99 m;
     let out = out(key ''_latency_p99_ms'' \<mapsto> v);
     v \<leftarrow> pct p999 m;
     let out = out(key ''_latency_p999_ms'' \<mapsto> v);
     let out = out(key ''_sequence_gaps'' \<mapsto> of_integer (uint (mt_sequence_gaps m)));
     Some (out(key ''_received'' \<mapsto> of_integer (uint (mt_received m)))) }"

subsection \<open>Percentiles\<close>

lemma pct_index_mono:
  assumes "0 \<le> p" "p \<le> q" "0 < n"
  shows "pct_index p n \<le> pct_index q n"
proof -
  have "0 \<le> of_integer (int n - 1)" by (rule of_integer_nonneg) (use assms in simp)
  with assms have "fmul p (of_integer (int n - 1)) \<le> fmul q (of_integer (int n - 1))" "0 \<le> fmul p (of_integer (int n - 1))"
    by (auto simp: fmul_def intro!: rnd64_mono rnd64_nonneg mult_right_mono)
  then show ?thesis unfolding pct_index_def by (intro nat_mono trunc_mono)
qed

lemma pct_index_less:
  assumes "0 \<le> p" "p \<le> 1" "0 < n" "n < 2 ^ 53"
  shows "pct_index p n < n"
proof -
  have e: "of_integer (int n - 1) = of_int (int n - 1)" using assms by (intro of_integer_exact) auto
  have "fmul p (of_integer (int n - 1)) \<le> rnd64 (of_int (int n - 1))"
    unfolding fmul_def e using assms by (intro rnd64_mono mult_nonneg_nonneg) (auto intro!: mult_left_le_one_le)
  also have "\<dots> = of_int (int n - 1)" using assms by (intro rnd64_int) auto
  finally have le: "fmul p (of_integer (int n - 1)) \<le> of_int (int n - 1)" .
  have "0 \<le> fmul p (of_integer (int n - 1))"
    unfolding fmul_def e using assms by (intro rnd64_nonneg mult_nonneg_nonneg) auto
  from trunc_mono [OF this le] have "trunc (fmul p (of_integer (int n - 1))) \<le> int n - 1"
    using trunc_int [of "int n - 1"] by simp
  then show ?thesis using assms(3) by (simp add: pct_index_def)
qed

lemma percentile_constants: "0 \<le> p50" "p50 \<le> p99" "p99 \<le> p999" "p999 \<le> 1"
proof -
  show "0 \<le> p50" unfolding p50_def by (rule rnd64_nonneg) simp
  show "p50 \<le> p99" "p99 \<le> p999" unfolding p50_def p99_def p999_def by (rule rnd64_mono; simp)+
  have "p999 \<le> rnd64 (of_int 1)" unfolding p999_def by (rule rnd64_mono) simp_all
  then show "p999 \<le> 1" using rnd64_int [of 1] by simp
qed

lemma pct_value:
  assumes "0 \<le> p" "p \<le> 1" "length (mt_latencies_ms m) < 2 ^ 53"
  shows "pct p m = Some (if mt_latencies_ms m = [] then 0
    else sort (mt_latencies_ms m) ! pct_index p (length (mt_latencies_ms m)))"
  using pct_index_less [OF assms(1,2) _ assms(3)] by (simp add: pct_def rd_def)

subsection \<open>Rates\<close>

lemma drop_pct_nonneg: "0 \<le> drop_pct e r"
  by (auto simp: drop_pct_def Let_def fmul_def intro!: fdiv_nonneg rnd64_nonneg)

lemma drop_pct_none: "fsub e r \<le> 0 \<Longrightarrow> drop_pct e r = 0"
  by (simp add: drop_pct_def fmul_def fdiv_def)

lemma drop_rate_nonneg: "0 \<le> drop_rate_pct m"
  by (simp add: drop_rate_pct_def Let_def drop_pct_nonneg)

lemma drop_rate_complete: "mt_has_arrival m \<Longrightarrow> \<not> 2 \<le> mt_received m \<Longrightarrow>
    fsub (fmul (mt_expected_rate_hz m) (mt_duration_seconds m)) (of_integer (uint (mt_received m))) \<le> 0 \<Longrightarrow> drop_rate_pct m = 0"
  by (simp add: drop_rate_pct_def drop_pct_none)

subsection \<open>Runs\<close>

text \<open>Samples recorded with their arrival times and gap flags.\<close>

definition record_all :: "(dbl \<times> dbl \<times> bool) list \<Rightarrow> StreamMetrics \<Rightarrow> StreamMetrics" where
  "record_all samples m = foldl (\<lambda>m (l, t, g). record_arrival l t g m) m samples"

lemma record_arrival_fields [simp]:
  "mt_name (record_arrival l t g m) = mt_name m" "mt_expected_rate_hz (record_arrival l t g m) = mt_expected_rate_hz m"
  "mt_duration_seconds (record_arrival l t g m) = mt_duration_seconds m"
  "mt_latencies_ms (record_arrival l t g m) = mt_latencies_ms m @ [l]"
  "mt_received (record_arrival l t g m) = mt_received m + 1"
  "mt_sequence_gaps (record_arrival l t g m) = mt_sequence_gaps m + (if g then 1 else 0)"
  "mt_has_arrival (record_arrival l t g m)"
  "mt_first_arrival_s (record_arrival l t g m) = (if mt_has_arrival m then mt_first_arrival_s m else t)"
  "mt_last_arrival_s (record_arrival l t g m) = t"
  by (simp_all add: record_arrival_def record_latency_def Let_def)

lemma record_all_counts:
  "mt_latencies_ms (record_all ss m) = mt_latencies_ms m @ map fst ss \<and>
   mt_received (record_all ss m) = mt_received m + word_of_nat (length ss) \<and>
   mt_sequence_gaps (record_all ss m) = mt_sequence_gaps m + word_of_nat (length (filter (snd \<circ> snd) ss)) \<and>
   mt_name (record_all ss m) = mt_name m"
proof (induction ss rule: rev_induct)
  case (snoc s ss)
  then show ?case by (cases s) (simp add: record_all_def)
qed (simp add: record_all_def)

lemma metrics_emit_value:
  assumes "length (mt_latencies_ms m) < 2 ^ 53"
  shows "\<exists>a b c. pct p50 m = Some a \<and> pct p99 m = Some b \<and> pct p999 m = Some c \<and> a \<le> b \<and> b \<le> c"
proof -
  let ?l = "mt_latencies_ms m" and ?n = "length (mt_latencies_ms m)"
  have p: "0 \<le> p50" "p50 \<le> 1" "0 \<le> p99" "p99 \<le> 1" "0 \<le> p999" "p999 \<le> 1"
    using percentile_constants by linarith+
  have "sort ?l ! pct_index p50 ?n \<le> sort ?l ! pct_index p99 ?n" "sort ?l ! pct_index p99 ?n \<le> sort ?l ! pct_index p999 ?n"
    if "?l \<noteq> []"
    using that pct_index_less [OF p(3,4) _ assms] pct_index_less [OF p(5,6) _ assms] percentile_constants p
    by (auto intro!: sorted_nth_mono pct_index_mono)
  then show ?thesis
    using pct_value [OF p(1,2) assms] pct_value [OF p(3,4) assms] pct_value [OF p(5,6) assms] by auto
qed

text \<open>Whatever samples a stream records (fewer than \<open>2 ^ 53\<close>), emitting its metrics reads no sample out of range;
  the median, the 99th and the 99.9th percentile come out in that order and are recorded samples if there are any,
  the drop rate is not negative, and the counts are the numbers of samples and of gaps.\<close>

theorem metrics_emit_correct:
  assumes "length samples < 2 ^ 53"
  shows "\<exists>out' a b c. metrics_emit (record_all samples (StreamMetrics_new name rate duration)) out = Some out' \<and>
    out' (name @ ''_latency_p50_ms'') = Some a \<and> out' (name @ ''_latency_p99_ms'') = Some b \<and>
    out' (name @ ''_latency_p999_ms'') = Some c \<and> a \<le> b \<and> b \<le> c \<and>
    (samples \<noteq> [] \<longrightarrow> {a, b, c} \<subseteq> fst ` set samples) \<and>
    (\<exists>d. out' (name @ ''_drop_rate_pct'') = Some d \<and> 0 \<le> d) \<and>
    out' (name @ ''_received'') = Some (of_integer (int (length samples))) \<and>
    out' (name @ ''_sequence_gaps'') = Some (of_integer (int (length (filter (snd \<circ> snd) samples))))"
proof -
  let ?m = "record_all samples (StreamMetrics_new name rate duration)"
  have m: "mt_latencies_ms ?m = map fst samples" "mt_received ?m = word_of_nat (length samples)"
    "mt_sequence_gaps ?m = word_of_nat (length (filter (snd \<circ> snd) samples))" "mt_name ?m = name"
    using record_all_counts [of samples "StreamMetrics_new name rate duration"] by (simp_all add: StreamMetrics_new_def)
  have u: "uint (word_of_nat n :: u64) = int n" if "n < 2 ^ 53" for n
    using that by (simp add: unsigned_of_nat take_bit_nat_eq_self)
  have g: "length (filter (snd \<circ> snd) samples) < 2 ^ 53"
    using assms length_filter_le [of "snd \<circ> snd" samples] by linarith
  obtain a b c where abc: "pct p50 ?m = Some a" "pct p99 ?m = Some b" "pct p999 ?m = Some c" "a \<le> b" "b \<le> c"
    using metrics_emit_value [of ?m] m(1) assms by auto
  have mem: "v \<in> fst ` set samples" if "pct p ?m = Some v" "samples \<noteq> []" for p v
    using that m(1) nth_mem [of "pct_index p (length samples)" "sort (map fst samples)"]
    by (auto simp: pct_def rd_def Let_def split: if_splits)
  show ?thesis
    using abc m mem drop_rate_nonneg [of ?m] u [OF assms] u [OF g] by (simp add: metrics_emit_def Let_def)
qed

theorem metrics_emit_correct_witness:
  "\<exists>out' a. metrics_emit (record_all [(7, 1, False)] (StreamMetrics_new ''imu'' 100 10)) Map.empty = Some out' \<and>
     out' ''imu_latency_p99_ms'' = Some a \<and> a = 7"
  using metrics_emit_correct [of "[(7, 1, False)]" "''imu''" 100 10 Map.empty] by auto

end
