(* ===== verification/Can_Bus.thy ===== *)
theory Can_Bus
  imports Stream_Metrics
begin

text \<open>
  The CAN stream: the frames that the synthetic publisher writes (\<^verbatim>\<open>sensors/can_publisher.cpp\<close>) and the SocketCAN
  reader of the scenario runner that measures them (\<^verbatim>\<open>scenario_runner.cpp\<close>). The signal values, which
  are computed in \<open>Can_Socket\<close>, are parameters; the monotonic clock is a
  count of microseconds of which both sides use the low 32 bits.
\<close>

record can_frame =
  can_id :: u32
  can_dlc :: u8
  can_data :: bytes

record can_signals =
  sig_speed :: "u64 \<Rightarrow> u16"
  sig_angle :: "u64 \<Rightarrow> u16"
  sig_throttle :: "u64 \<Rightarrow> u8"

definition host16 :: "bool \<Rightarrow> u16 \<Rightarrow> bytes" where
  "host16 little v = (if little then le_bytes 2 v else rev (le_bytes 2 v))"

definition can_signal_frame :: "bool \<Rightarrow> can_signals \<Rightarrow> u64 \<Rightarrow> can_frame" where
  "can_signal_frame little S seq =
     (let zero = replicate 8 0; which = unat (seq mod 3)
      in if which = 0 then \<lparr>can_id = 0x100, can_dlc = 8, can_data = host16 little (sig_speed S seq) @ drop 2 zero\<rparr>
         else if which = 1 then \<lparr>can_id = 0x200, can_dlc = 4, can_data = host16 little (sig_angle S seq) @ drop 2 zero\<rparr>
         else \<lparr>can_id = 0x300, can_dlc = 2, can_data = zero[0 := sig_throttle S seq]\<rparr>)"

definition can_on_tick :: "bool \<Rightarrow> can_signals \<Rightarrow> u64 \<Rightarrow> nat \<Rightarrow> can_frame" where
  "can_on_tick little S seq now_us =
     (let frame = can_signal_frame little S seq;
          frame = frame\<lparr>can_dlc := 8\<rparr>;
          seq16 = ucast (seq AND 0xFFFF) :: u16;
          d = can_data frame;
          d = d[2 := ucast (seq16 AND 0xFF), 3 := ucast (drop_bit 8 seq16 AND 0xFF)];
          ts_us = word_of_nat now_us :: u32;
          d = d[4 := ucast (ts_us AND 0xFF), 5 := ucast (drop_bit 8 ts_us AND 0xFF),
                6 := ucast (drop_bit 16 ts_us AND 0xFF), 7 := ucast (drop_bit 24 ts_us AND 0xFF)]
      in frame\<lparr>can_data := d\<rparr>)"

text \<open>The local state of the reader loop, and what a read can return.\<close>

record can_reader =
  cr_have_prev_seq :: bool
  cr_prev_seq :: u16
  cr_frames :: u64
  cr_metrics :: StreamMetrics

datatype can_read = ReadRetry | ReadFailed | ShortRead | ReadFrame can_frame nat dbl

definition can_decode_seq :: "can_frame \<Rightarrow> u16" where
  "can_decode_seq f = ucast (can_data f ! 2) OR push_bit 8 (ucast (can_data f ! 3))"

definition can_decode_us :: "can_frame \<Rightarrow> u32" where
  "can_decode_us f = ucast (can_data f ! 4) OR push_bit 8 (ucast (can_data f ! 5)) OR
     push_bit 16 (ucast (can_data f ! 6)) OR push_bit 24 (ucast (can_data f ! 7))"

fun can_reader_step :: "can_read \<Rightarrow> can_reader \<Rightarrow> can_reader" where
  "can_reader_step ReadRetry r = r"
| "can_reader_step ReadFailed r = r"
| "can_reader_step ShortRead r = r"
| "can_reader_step (ReadFrame f now_us arrival_s) r =
     (let seq = can_decode_seq f;
          sent_us = can_decode_us f;
          latency_us = (word_of_nat now_us :: u32) - sent_us;
          latency_ms = fdiv (of_integer (uint latency_us)) 1000;
          gap = (cr_have_prev_seq r \<and> seq \<noteq> cr_prev_seq r + 1)
      in \<lparr>cr_have_prev_seq = True, cr_prev_seq = seq, cr_frames = cr_frames r + 1,
          cr_metrics = record_arrival latency_ms arrival_s gap (cr_metrics r)\<rparr>)"

definition can_reader_loop :: "can_read list \<Rightarrow> StreamMetrics \<Rightarrow> can_reader" where
  "can_reader_loop reads m =
     foldl (\<lambda>r x. can_reader_step x r) \<lparr>cr_have_prev_seq = False, cr_prev_seq = 0, cr_frames = 0, cr_metrics = m\<rparr> reads"

subsection \<open>Telemetry round trip\<close>

lemma can_signal_length [simp]: "length (can_data (can_signal_frame little S seq)) = 8"
  by (simp add: can_signal_frame_def host16_def Let_def)

lemma low16: "(ucast (seq AND 0xFFFF :: u64) :: u16) = ucast seq"
proof -
  have "seq AND 0xFFFF = take_bit 16 seq" by (simp add: take_bit_eq_mask mask_eq_exp_minus_1)
  then show ?thesis by (simp add: bit_word_eqI bit_simps)
qed

lemma ucast_add_one: "(ucast (x + 1 :: u64) :: u16) = ucast x + 1"
proof -
  have "unat (ucast (x + 1) :: u16) = unat (ucast x + 1 :: u16)"
    by (simp add: unsigned_ucast_eq take_bit_eq_mod unat_word_ariths mod_mod_cancel mod_Suc_eq)
  then show ?thesis by (simp add: word_unat_eq_iff)
qed

lemma can_seq_roundtrip: "can_decode_seq (can_on_tick little S seq now) = ucast seq"
proof -
  have "can_decode_seq (can_on_tick little S seq now) = le_word (le_bytes 2 (ucast (seq AND 0xFFFF) :: u16))"
    by (simp add: can_decode_seq_def can_on_tick_def Let_def le_bytes_def upt_2 ucast_and_byte)
  also have "\<dots> = ucast (seq AND 0xFFFF)" by (rule le_word_le_bytes) simp
  finally show ?thesis by (simp add: low16)
qed

lemma can_us_roundtrip: "can_decode_us (can_on_tick little S seq now) = word_of_nat now"
proof -
  have "can_decode_us (can_on_tick little S seq now) = le_word (le_bytes 4 (word_of_nat now :: u32))"
    by (simp add: can_decode_us_def can_on_tick_def Let_def le_bytes_def upt_4 ucast_and_byte or.assoc)
  also have "\<dots> = word_of_nat now" by (rule le_word_le_bytes) simp
  finally show ?thesis .
qed

lemma latency_exact:
  assumes "sent \<le> now" "now < sent + 2 ^ 32"
  shows "uint ((word_of_nat now :: u32) - word_of_nat sent) = int (now - sent)"
proof -
  have "(word_of_nat now :: u32) - word_of_nat sent = word_of_nat (now - sent)" using assms(1) by (simp add: of_nat_diff)
  moreover have "now - sent < 2 ^ 32" using assms by linarith
  ultimately show ?thesis by (simp add: unsigned_of_nat take_bit_nat_eq_self)
qed

subsection \<open>What the reader measures\<close>

text \<open>A tick that reached the reader: sequence number, time of sending and of receiving in microseconds, arrival in
  seconds.\<close>

record received_tick =
  rt_seq :: u64
  rt_sent_us :: nat
  rt_now_us :: nat
  rt_arrival :: dbl

definition tick_read :: "bool \<Rightarrow> can_signals \<Rightarrow> received_tick \<Rightarrow> can_read" where
  "tick_read little S t = ReadFrame (can_on_tick little S (rt_seq t) (rt_sent_us t)) (rt_now_us t) (rt_arrival t)"

text \<open>The samples the reader should record: exact latencies, and a gap where the 16-bit sequence number is not the
  successor of the one before.\<close>

fun tick_samples :: "u16 option \<Rightarrow> received_tick list \<Rightarrow> (dbl \<times> dbl \<times> bool) list" where
  "tick_samples prev [] = []"
| "tick_samples prev (t # ts) =
     (fdiv (of_integer (int (rt_now_us t - rt_sent_us t))) 1000, rt_arrival t,
      (case prev of None \<Rightarrow> False | Some p \<Rightarrow> ucast (rt_seq t) \<noteq> p + 1)) # tick_samples (Some (ucast (rt_seq t))) ts"

definition on_time :: "received_tick \<Rightarrow> bool" where
  "on_time t \<longleftrightarrow> rt_sent_us t \<le> rt_now_us t \<and> rt_now_us t < rt_sent_us t + 2 ^ 32"

fun is_tick :: "can_read \<Rightarrow> bool" where
  "is_tick (ReadFrame _ _ _) = True"
| "is_tick _ = False"

lemma reader_ticks:
  assumes "list_all on_time ts"
  shows "cr_metrics (foldl (\<lambda>r x. can_reader_step x r) r (map (tick_read little S) ts)) =
    record_all (tick_samples (if cr_have_prev_seq r then Some (cr_prev_seq r) else None) ts) (cr_metrics r)"
  using assms
proof (induction ts arbitrary: r)
  case (Cons t ts)
  let ?r = "can_reader_step (tick_read little S t) r"
  have r: "cr_have_prev_seq ?r" "cr_prev_seq ?r = ucast (rt_seq t)"
    "cr_metrics ?r = record_arrival (fdiv (of_integer (int (rt_now_us t - rt_sent_us t))) 1000) (rt_arrival t)
       (cr_have_prev_seq r \<and> ucast (rt_seq t) \<noteq> cr_prev_seq r + 1) (cr_metrics r)"
    using Cons.prems latency_exact [of "rt_sent_us t" "rt_now_us t"]
    by (simp_all add: tick_read_def Let_def can_seq_roundtrip can_us_roundtrip on_time_def)
  show ?case using Cons.IH [of ?r] Cons.prems r by (simp add: record_all_def)
qed (simp add: record_all_def)

lemma reader_skips: "can_reader_loop reads m = can_reader_loop (filter is_tick reads) m"
proof -
  have "foldl (\<lambda>r x. can_reader_step x r) r reads = foldl (\<lambda>r x. can_reader_step x r) r (filter is_tick reads)" for r
  proof (induction reads arbitrary: r)
    case (Cons x reads)
    then show ?case by (cases x) simp_all
  qed simp
  then show ?thesis by (simp add: can_reader_loop_def)
qed

text \<open>Consecutive sequence numbers show no gap, also across the wrap-around of the 16-bit number on the bus.\<close>

lemma tick_samples_no_gap:
  assumes "\<forall>i. Suc i < length ts \<longrightarrow> rt_seq (ts ! Suc i) = rt_seq (ts ! i) + 1"
    and "\<forall>p. prev = Some p \<longrightarrow> ts \<noteq> [] \<longrightarrow> ucast (rt_seq (hd ts)) = p + 1"
  shows "filter (snd \<circ> snd) (tick_samples prev ts) = []"
  using assms
proof (induction ts arbitrary: prev)
  case (Cons t ts)
  have step: "rt_seq (hd ts) = rt_seq t + 1" if "ts \<noteq> []"
    using Cons.prems(1) [rule_format, of 0] that by (cases ts) auto
  have "ucast (rt_seq (hd ts)) = (ucast (rt_seq t) :: u16) + 1" if "ts \<noteq> []"
    using step [OF that] by (simp add: ucast_add_one)
  moreover have "\<forall>i. Suc i < length ts \<longrightarrow> rt_seq (ts ! Suc i) = rt_seq (ts ! i) + 1"
    using Cons.prems(1) by (metis Suc_less_eq length_Cons nth_Cons_Suc)
  ultimately show ?case using Cons.IH [of "Some (ucast (rt_seq t))"] Cons.prems(2)
    by (auto split: option.splits)
qed simp

text \<open>The CAN reader measures what was sent: whatever retries, errors and short reads come between, it records for
  every frame of the publisher that reaches it within \<open>2 ^ 32\<close> microseconds the exact latency, also across the
  wrap-around of the 32-bit clock, and a gap exactly where the 16-bit sequence number is not the successor of
  the one before; a lossless run of the publisher shows no gap, also across the wrap-around of the number.\<close>

theorem can_reader_measures:
  assumes "filter is_tick reads = map (tick_read little S) ts" and "list_all on_time ts"
  shows "cr_metrics (can_reader_loop reads m) = record_all (tick_samples None ts) m \<and>
    ((\<forall>i. Suc i < length ts \<longrightarrow> rt_seq (ts ! Suc i) = rt_seq (ts ! i) + 1) \<longrightarrow>
       mt_sequence_gaps (cr_metrics (can_reader_loop reads m)) = mt_sequence_gaps m)"
proof -
  have r: "cr_metrics (can_reader_loop reads m) = record_all (tick_samples None ts) m"
    using reader_ticks [OF assms(2), of _ little S] unfolding reader_skips [of reads] assms(1)
    by (simp add: can_reader_loop_def)
  moreover have "mt_sequence_gaps (record_all (tick_samples None ts) m) = mt_sequence_gaps m"
    if "\<forall>i. Suc i < length ts \<longrightarrow> rt_seq (ts ! Suc i) = rt_seq (ts ! i) + 1"
    using tick_samples_no_gap [OF that, of None] record_all_counts [of "tick_samples None ts" m] by simp
  ultimately show ?thesis by simp
qed

theorem can_reader_measures_witness:
  "mt_sequence_gaps (cr_metrics (can_reader_loop
      [ReadRetry, ReadFrame (can_on_tick True \<lparr>sig_speed = \<lambda>_. 7, sig_angle = \<lambda>_. 8, sig_throttle = \<lambda>_. 9\<rparr> 65535 4294967290) 4294967299 1,
       ShortRead, ReadFrame (can_on_tick True \<lparr>sig_speed = \<lambda>_. 7, sig_angle = \<lambda>_. 8, sig_throttle = \<lambda>_. 9\<rparr> 65536 4294967300) 4294967399 2]
      (StreamMetrics_new ''can'' 100 10))) = 0"
proof -
  let ?S = "\<lparr>sig_speed = \<lambda>_. 7, sig_angle = \<lambda>_. 8, sig_throttle = \<lambda>_. 9\<rparr>"
  let ?ts = "[\<lparr>rt_seq = 65535, rt_sent_us = 4294967290, rt_now_us = 4294967299, rt_arrival = 1\<rparr>,
    \<lparr>rt_seq = 65536, rt_sent_us = 4294967300, rt_now_us = 4294967399, rt_arrival = 2\<rparr>]"
  let ?reads = "[ReadRetry, ReadFrame (can_on_tick True ?S 65535 4294967290) 4294967299 1,
       ShortRead, ReadFrame (can_on_tick True ?S 65536 4294967300) 4294967399 2]"
  have "filter is_tick ?reads = map (tick_read True ?S) ?ts" "list_all on_time ?ts"
    by (simp_all add: tick_read_def on_time_def)
  note t = can_reader_measures [OF this, of "StreamMetrics_new ''can'' 100 10"]
  have "\<forall>i. Suc i < length ?ts \<longrightarrow> rt_seq (?ts ! Suc i) = rt_seq (?ts ! i) + 1" by (simp add: less_Suc_eq)
  with t have "mt_sequence_gaps (cr_metrics (can_reader_loop ?reads (StreamMetrics_new ''can'' 100 10)))
      = mt_sequence_gaps (StreamMetrics_new ''can'' 100 10)" by blast
  then show ?thesis by (simp add: StreamMetrics_new_def)
qed

end
