(* ===== verification/Ordered_Map.thy ===== *)
theory Ordered_Map
  imports SF_Prelude "HOL-Library.List_Lexorder" "HOL-Library.Char_ord"
begin

text \<open>
  \<^verbatim>\<open>std::map\<close> where the order of iteration matters: an association list sorted by key. The interface is what the
  code relies on: \<^verbatim>\<open>operator[]\<close> with assignment changes one key only, and iteration visits every key once in
  ascending order.
\<close>

fun put :: "'k::linorder \<Rightarrow> 'v \<Rightarrow> ('k \<times> 'v) list \<Rightarrow> ('k \<times> 'v) list" where
  "put k v [] = [(k, v)]"
| "put k v ((k', v') # m) =
     (if k < k' then (k, v) # (k', v') # m else if k = k' then (k, v) # m else (k', v') # put k v m)"

definition map_ok :: "('k::linorder \<times> 'v) list \<Rightarrow> bool" where
  "map_ok m \<longleftrightarrow> sorted_wrt (<) (map fst m)"

text \<open>\<^verbatim>\<open>m[k]\<close> read with a default for a missing key.\<close>

definition get_default :: "'v \<Rightarrow> 'k \<Rightarrow> ('k \<times> 'v) list \<Rightarrow> 'v" where
  "get_default d k m = (case map_of m k of None \<Rightarrow> d | Some v \<Rightarrow> v)"

lemma set_put: "fst ` set (put k v m) = insert k (fst ` set m)"
  by (induction m rule: put.induct) auto

lemma put_ok: "map_ok m \<Longrightarrow> map_ok (put k v m)"
proof (induction m)
  case (Cons x m)
  obtain k' v' where x: "x = (k', v')" by force
  have "\<forall>y\<in>set (map fst (put k v m)). k' < y" if "\<not> k < k'" "k \<noteq> k'"
    using that Cons.prems x set_put [of k v m] by (auto simp: map_ok_def)
  with Cons x show ?case by (auto simp: map_ok_def)
qed (simp add: map_ok_def)

lemma lookup_put: "map_ok m \<Longrightarrow> map_of (put k v m) = (map_of m)(k \<mapsto> v)"
proof (induction m)
  case (Cons x m)
  obtain k' v' where x: "x = (k', v')" by force
  have "map_of m k = None" if "k < k'"
    using that Cons.prems x by (auto simp: map_ok_def map_of_eq_None_iff)
  with Cons x show ?case by (auto simp: map_ok_def fun_eq_iff)
qed simp

lemma map_ok_Nil [simp]: "map_ok []"
  by (simp add: map_ok_def)

locale ordered_map =
  fixes inv :: "'m \<Rightarrow> bool" and lookup :: "'m \<Rightarrow> 'k \<rightharpoonup> 'v" and update :: "'k \<Rightarrow> 'v \<Rightarrow> 'm \<Rightarrow> 'm" and empty :: 'm
  assumes inv_empty: "inv empty" and lookup_empty: "lookup empty = Map.empty"
    and inv_update: "inv m \<Longrightarrow> inv (update k v m)"
    and lookup_update: "inv m \<Longrightarrow> lookup (update k v m) = (lookup m)(k \<mapsto> v)"
begin

lemma update_all: "inv m \<Longrightarrow> inv (fold (\<lambda>(k, v). update k v) kvs m) \<and>
    lookup (fold (\<lambda>(k, v). update k v) kvs m) = lookup m ++ map_of (rev kvs)"
proof (induction kvs arbitrary: m)
  case (Cons kv kvs)
  then show ?case by (cases kv) (simp add: inv_update lookup_update map_add_def fun_eq_iff split: option.split)
qed simp

lemma build: "lookup (fold (\<lambda>(k, v). update k v) kvs empty) = map_of (rev kvs)"
  using update_all [OF inv_empty, of kvs] by (simp add: lookup_empty)

end

interpretation std_map: ordered_map map_ok map_of put "[]"
  by unfold_locales (simp_all add: put_ok lookup_put)

end
