(* ===== verification/Metrics_Registry.thy ===== *)
theory Metrics_Registry
  imports Ordered_Map Fp64 Segment_Name
begin

text \<open>
  The metric registry (\<^verbatim>\<open>metrics/registry.hpp\<close>) and the HTTP exporter that serves it
  (\<^verbatim>\<open>metrics/prometheus_exporter.cpp\<close>). The maps of the registry are association lists sorted by key
  (\<open>Ordered_Map\<close>), because the rendering iterates over them. The formatting of a \<^verbatim>\<open>double\<close> by an output stream is
  a parameter. Each operation runs under the mutex of the registry and is one step.
\<close>

subsection \<open>Registry\<close>

type_synonym Labels = "(string \<times> string) list"

record Series =
  se_labels :: Labels
  se_value :: dbl

definition Series_init :: Series where "Series_init = \<lparr>se_labels = [], se_value = 0\<rparr>"

record Family =
  fa_type :: string
  fa_help :: string
  fa_series :: "(string \<times> Series) list"

definition Family_init :: Family where "Family_init = \<lparr>fa_type = [], fa_help = [], fa_series = []\<rparr>"

type_synonym Registry = "(string \<times> Family) list"

definition label_key :: "Labels \<Rightarrow> string" where
  "label_key labels = concat (map (\<lambda>(n, v). n @ ''='' @ v @ '';'') labels)"

definition set_gauge :: "string \<Rightarrow> dbl \<Rightarrow> Labels \<Rightarrow> Registry \<Rightarrow> Registry" where
  "set_gauge name value labels r =
     (let fam = get_default Family_init name r
      in put name (fam\<lparr>fa_type := ''gauge'',
           fa_series := put (label_key labels) \<lparr>se_labels = labels, se_value = value\<rparr> (fa_series fam)\<rparr>) r)"

definition set_sensor_gauge :: "string \<Rightarrow> string \<Rightarrow> dbl \<Rightarrow> Registry \<Rightarrow> Registry" where
  "set_sensor_gauge name sensor value r = set_gauge name value [(''sensor'', sensor)] r"

definition add_counter :: "string \<Rightarrow> dbl \<Rightarrow> Labels \<Rightarrow> Registry \<Rightarrow> Registry" where
  "add_counter name delta labels r =
     (let fam = get_default Family_init name r;
          s = get_default Series_init (label_key labels) (fa_series fam)
      in put name (fam\<lparr>fa_type := ''counter'',
           fa_series := put (label_key labels) \<lparr>se_labels = labels, se_value = fadd (se_value s) delta\<rparr> (fa_series fam)\<rparr>) r)"

definition set_help :: "string \<Rightarrow> string \<Rightarrow> Registry \<Rightarrow> Registry" where
  "set_help name help r = put name ((get_default Family_init name r)\<lparr>fa_help := help\<rparr>) r"

fun escape :: "string \<Rightarrow> string" where
  "escape [] = []"
| "escape (c # cs) =
     (if c = CHR 0x0A then [CHR 0x5C, CHR ''n'']
      else if c = CHR 0x22 \<or> c = CHR 0x5C then [CHR 0x5C, c] else [c]) @ escape cs"

fun render_labels :: "bool \<Rightarrow> Labels \<Rightarrow> string" where
  "render_labels first [] = []"
| "render_labels first ((n, v) # ls) =
     (if first then [] else '','') @ n @ ''='' @ [CHR 0x22] @ escape v @ [CHR 0x22] @ render_labels False ls"

definition render_series :: "(dbl \<Rightarrow> string) \<Rightarrow> string \<Rightarrow> Series \<Rightarrow> string" where
  "render_series fmt name s =
     name @ (if se_labels s = [] then [] else ''{'' @ render_labels True (se_labels s) @ ''}'') @ '' '' @ fmt (se_value s) @ [CHR 0x0A]"

definition render_family :: "(dbl \<Rightarrow> string) \<Rightarrow> string \<Rightarrow> Family \<Rightarrow> string" where
  "render_family fmt name fam =
     (if fa_help fam = [] then [] else ''# HELP '' @ name @ '' '' @ fa_help fam @ [CHR 0x0A]) @
     ''# TYPE '' @ name @ '' '' @ (if fa_type fam = [] then ''gauge'' else fa_type fam) @ [CHR 0x0A] @
     concat (map (\<lambda>(k, s). render_series fmt name s) (fa_series fam))"

definition render :: "(dbl \<Rightarrow> string) \<Rightarrow> Registry \<Rightarrow> string" where
  "render fmt r = concat (map (\<lambda>(name, fam). render_family fmt name fam) r)"

subsection \<open>HTTP exporter\<close>

record PrometheusExporter =
  px_port :: u16
  px_listen_fd :: int
  px_running :: bool
  px_thread :: bool

definition PrometheusExporter_new :: "u16 \<Rightarrow> PrometheusExporter" where
  "PrometheusExporter_new port = \<lparr>px_port = port, px_listen_fd = -1, px_running = False, px_thread = False\<rparr>"

text \<open>The arguments are the results of the system calls.\<close>

definition exporter_start :: "int \<Rightarrow> int \<Rightarrow> int \<Rightarrow> PrometheusExporter \<Rightarrow> bool \<times> PrometheusExporter" where
  "exporter_start socket_fd bind_rc listen_rc e =
     (let e = e\<lparr>px_listen_fd := socket_fd\<rparr>
      in if px_listen_fd e < 0 then (False, e)
         else if bind_rc < 0 then (False, e\<lparr>px_listen_fd := -1\<rparr>)
         else if listen_rc < 0 then (False, e\<lparr>px_listen_fd := -1\<rparr>)
         else (True, e\<lparr>px_running := True, px_thread := True\<rparr>))"

definition exporter_stop :: "PrometheusExporter \<Rightarrow> PrometheusExporter" where
  "exporter_stop e =
     (if \<not> px_running e then e
      else let e = e\<lparr>px_running := False\<rparr>;
               e = (if px_listen_fd e \<ge> 0 then e\<lparr>px_listen_fd := -1\<rparr> else e)
           in e\<lparr>px_thread := False\<rparr>)"

text \<open>\<^verbatim>\<open>std::strchr\<close> for a blank: the text before and after it.\<close>

fun split_blank :: "string \<Rightarrow> (string \<times> string) option" where
  "split_blank [] = None"
| "split_blank (c # cs) = (if c = CHR '' '' then Some ([], cs) else map_option (\<lambda>(a, b). (c # a, b)) (split_blank cs))"

text \<open>The request as a C string: the received bytes up to the first NUL.\<close>

definition request_path :: "string \<Rightarrow> string" where
  "request_path received =
     (let buf = takeWhile (\<lambda>c. c \<noteq> CHR 0x00) received
      in case split_blank buf of
           None \<Rightarrow> ''/''
         | Some (_, rest) \<Rightarrow> (case split_blank rest of None \<Rightarrow> ''/'' | Some (path, _) \<Rightarrow> path))"

definition crlf :: string where "crlf = [CHR 0x0D, CHR 0x0A]"

definition http_response :: "(dbl \<Rightarrow> string) \<Rightarrow> Registry \<Rightarrow> string \<Rightarrow> string" where
  "http_response fmt r received =
     (let path = request_path received;
          ok = (path = ''/metrics'' \<or> path = ''/'');
          status = (if ok then ''200 OK'' else ''404 Not Found'');
          body = (if ok then render fmt r else ''not found'' @ [CHR 0x0A]);
          ctype = (if ok then ''text/plain; version=0.0.4; charset=utf-8'' else ''text/plain'')
      in ''HTTP/1.1 '' @ status @ crlf @ ''Content-Type: '' @ ctype @ crlf @
         ''Content-Length: '' @ decimal (length body) @ crlf @ ''Connection: close'' @ crlf @ crlf @ body)"

subsection \<open>Updates of the registry\<close>

definition registry_ok :: "Registry \<Rightarrow> bool" where
  "registry_ok r \<longleftrightarrow> map_ok r \<and> (\<forall>(n, f)\<in>set r. map_ok (fa_series f))"

definition series_value :: "string \<Rightarrow> Labels \<Rightarrow> Registry \<Rightarrow> dbl option" where
  "series_value name labels r =
     (case map_of r name of None \<Rightarrow> None | Some f \<Rightarrow> map_option se_value (map_of (fa_series f) (label_key labels)))"

lemma family_ok: "registry_ok r \<Longrightarrow> map_ok (fa_series (get_default Family_init n r))"
  by (auto simp: registry_ok_def get_default_def Family_init_def split: option.split dest!: map_of_SomeD)

lemma set_put_subset: "set (put k v m) \<subseteq> insert (k, v) (set m)"
  by (induction m rule: put.induct) auto

lemma put_family_ok: "registry_ok r \<Longrightarrow> map_ok (fa_series f) \<Longrightarrow> registry_ok (put n f r)"
  using set_put_subset [of n f r] by (auto simp: registry_ok_def put_ok)

lemma registry_ok_updates:
  assumes "registry_ok r"
  shows "registry_ok (set_gauge n v ls r)" "registry_ok (add_counter n v ls r)" "registry_ok (set_help n h r)"
  using family_ok [OF assms] assms by (auto simp: set_gauge_def add_counter_def set_help_def Let_def intro!: put_family_ok put_ok)

lemma series_value_gauge:
  assumes "registry_ok r"
  shows "series_value n' ls' (set_gauge n v ls r) =
    (if n' = n \<and> label_key ls' = label_key ls then Some v else series_value n' ls' r)"
  using assms family_ok [OF assms, of n] registry_ok_def [of r]
  by (auto simp: series_value_def set_gauge_def Let_def lookup_put get_default_def Family_init_def split: option.splits)

lemma series_value_counter:
  assumes "registry_ok r"
  shows "series_value n' ls' (add_counter n d ls r) =
    (if n' = n \<and> label_key ls' = label_key ls
     then Some (fadd (case series_value n ls r of None \<Rightarrow> 0 | Some v \<Rightarrow> v) d) else series_value n' ls' r)"
  using assms family_ok [OF assms, of n] registry_ok_def [of r]
  by (auto simp: series_value_def add_counter_def Let_def lookup_put get_default_def Family_init_def Series_init_def split: option.splits)

subsection \<open>Escaping\<close>

text \<open>How a scraper of the text format reads an escaped label value up to its closing quote.\<close>

fun unescape :: "string \<Rightarrow> (string \<times> string) option" where
  "unescape [] = None"
| "unescape (c # cs) =
     (if c = CHR 0x22 then Some ([], cs)
      else if c = CHR 0x5C
      then (case cs of
              [] \<Rightarrow> None
            | d # ds \<Rightarrow> map_option (\<lambda>(s, rest). ((if d = CHR ''n'' then CHR 0x0A else d) # s, rest)) (unescape ds))
      else map_option (\<lambda>(s, rest). (c # s, rest)) (unescape cs))"

lemma unescape_escape: "unescape (escape s @ CHR 0x22 # rest) = Some (s, rest)"
  by (induction s) auto

lemma escape_one_line: "CHR 0x0A \<notin> set (escape s)"
  by (induction s) auto

text \<open>The key of a label set concatenates names and values without escaping: distinct label sets can share it, and
  then share one series.\<close>

lemma label_keys_collide:
  "label_key [(''a'', ''1;b=2'')] = label_key [(''a'', ''1''), (''b'', ''2'')] \<and>
   series_value m [(''a'', ''1;b=2'')] (set_gauge m 5 [(''a'', ''1''), (''b'', ''2'')] (set_gauge m 3 [(''a'', ''1;b=2'')] [])) = Some 5"
proof -
  have k: "label_key [(''a'', ''1;b=2'')] = label_key [(''a'', ''1''), (''b'', ''2'')]" by (simp add: label_key_def)
  have "registry_ok []" by (simp add: registry_ok_def)
  with k show ?thesis by (simp add: series_value_gauge registry_ok_updates)
qed

lemma sensor_key_inj: "label_key [(''sensor'', a)] = label_key [(''sensor'', b)] \<longleftrightarrow> a = b"
  by (simp add: label_key_def)

text \<open>The per-sensor gauges do not interfere: in a well-formed registry, setting a gauge of a sensor is read back
  with its value, and every other gauge and sensor keeps its own; the registry stays well-formed, so the rendering
  lists every series once, in order.\<close>

theorem sensor_gauge_readback:
  assumes "registry_ok r"
  shows "registry_ok (set_sensor_gauge n s v r) \<and>
    series_value n' [(''sensor'', s')] (set_sensor_gauge n s v r) =
      (if n' = n \<and> s' = s then Some v else series_value n' [(''sensor'', s')] r)"
  using assms by (simp add: set_sensor_gauge_def series_value_gauge sensor_key_inj registry_ok_updates)

theorem sensor_gauge_readback_witness:
  "series_value ''rate'' [(''sensor'', ''imu'')] (set_sensor_gauge ''rate'' ''gps'' 10 (set_sensor_gauge ''rate'' ''imu'' 100 [])) = Some 100"
  using sensor_gauge_readback [of "[]" "''rate''" "''imu''" 100 "''rate''" "''imu''"]
    sensor_gauge_readback [of "set_sensor_gauge ''rate'' ''imu'' 100 []" "''rate''" "''gps''" 10 "''rate''" "''imu''"]
  by (simp add: registry_ok_def)

text \<open>A label value survives the text format: a reader that undoes the escapes up to the closing quote gets the value
  back and the rest of the line, whatever quotes, backslashes and line breaks it contains, and the escaped value has
  no line break.\<close>

theorem label_value_roundtrip:
  "unescape (escape s @ CHR 0x22 # rest) = Some (s, rest) \<and> CHR 0x0A \<notin> set (escape s)"
  by (simp add: unescape_escape escape_one_line)

subsection \<open>The exporter\<close>

lemma exporter_start_stop:
  "exporter_start fd b l e = (ok, e') \<Longrightarrow> px_running e = False \<Longrightarrow>
     (ok \<longleftrightarrow> 0 \<le> fd \<and> 0 \<le> b \<and> 0 \<le> l) \<and> (px_running e' \<longleftrightarrow> ok) \<and> (ok \<longrightarrow> px_listen_fd (exporter_stop e') = -1 \<and> \<not> px_running (exporter_stop e'))"
  by (auto simp: exporter_start_def exporter_stop_def Let_def split: if_splits)

lemma request_metrics: "request_path (''GET /metrics HTTP/1.1'' @ rest) = ''/metrics''"
  by (simp add: request_path_def)

end
