(* ===== verification/Scenario_Runner.thy ===== *)
theory Scenario_Runner
  imports Can_Bus Metrics_Registry
begin

text \<open>
  The scenario runner (\<^verbatim>\<open>scenario/scenario_runner.hpp\<close>, \<^verbatim>\<open>scenario/scenario_runner.cpp\<close>): streams with their metrics, the
  per-stream fault engines through which arrivals are routed, the child processes, and the evaluation at the
  end. Clock readings, the results of \<^verbatim>\<open>posix_spawnp\<close> and \<^verbatim>\<open>waitpid\<close> and the object representation of a \<^verbatim>\<open>double\<close> are
  parameters. The write callback of an engine records into the metrics of the stream it was built for, which
  are identified by their position.
\<close>

subsection \<open>Arrivals through a fault engine\<close>

text \<open>\<^verbatim>\<open>std::memcpy\<close> between a \<^verbatim>\<open>double\<close> and its eight bytes.\<close>

record Double_repr =
  double_bytes :: "dbl \<Rightarrow> bytes"
  bytes_double :: "bytes \<Rightarrow> dbl"

text \<open>A value that survives the copy out and back.\<close>

definition double_repr_ok :: "Double_repr \<Rightarrow> dbl \<Rightarrow> bool" where
  "double_repr_ok D x \<longleftrightarrow> length (double_bytes D x) = 8 \<and> bytes_double D (double_bytes D x) = x"

definition arrival_callback :: "Double_repr \<Rightarrow> bytes \<Rightarrow> StreamMetrics \<Rightarrow> StreamMetrics" where
  "arrival_callback D buf sm =
     (if length buf \<ge> 2 * 8
      then record_arrival (bytes_double D (take 8 buf)) (bytes_double D (take 8 (drop 8 buf))) False sm
      else sm)"

text \<open>An operation of the engine, with the callbacks it makes.\<close>

definition engine_step :: "Double_repr \<Rightarrow> ('g FaultEngine \<Rightarrow> 'g FaultEngine) \<Rightarrow> 'g FaultEngine \<times> StreamMetrics
    \<Rightarrow> 'g FaultEngine \<times> StreamMetrics" where
  "engine_step D f s = (case s of (e, sm) \<Rightarrow>
     (f e, fold (arrival_callback D) (drop (length (fe_writes e)) (fe_writes (f e))) sm))"

definition arrival_buffer :: "Double_repr \<Rightarrow> dbl \<Rightarrow> dbl \<Rightarrow> bytes" where
  "arrival_buffer D latency_ms now_s = double_bytes D latency_ms @ double_bytes D now_s"

subsection \<open>State\<close>

record 'g ScenarioRunner =
  ru_scenario :: Scenario
  ru_ns :: string
  ru_metrics :: "StreamMetrics list"
  ru_stream_faults :: "(string \<times> nat \<times> 'g FaultEngine) list"
  ru_subs :: "(string \<times> string) list"
  ru_can_reader :: "nat option"
  ru_child_pids :: "int list"
  ru_report_dir :: string
  ru_metrics_port :: u16
  ru_registry :: Registry
  ru_exporter :: bool

definition ScenarioRunner_new :: "Scenario \<Rightarrow> string \<Rightarrow> 'g ScenarioRunner" where
  "ScenarioRunner_new scenario ns = \<lparr>ru_scenario = scenario, ru_ns = ns, ru_metrics = [], ru_stream_faults = [],
     ru_subs = [], ru_can_reader = None, ru_child_pids = [], ru_report_dir = [], ru_metrics_port = 0,
     ru_registry = [], ru_exporter = False\<rparr>"

definition set_report_dir :: "string \<Rightarrow> 'g ScenarioRunner \<Rightarrow> 'g ScenarioRunner" where
  "set_report_dir dir r = r\<lparr>ru_report_dir := dir\<rparr>"

definition set_metrics_port :: "u16 \<Rightarrow> 'g ScenarioRunner \<Rightarrow> 'g ScenarioRunner" where
  "set_metrics_port port r = r\<lparr>ru_metrics_port := port\<rparr>"

subsection \<open>Starting\<close>

fun metrics_for :: "string \<Rightarrow> StreamMetrics list \<Rightarrow> nat option" where
  "metrics_for stream [] = None"
| "metrics_for stream (m # ms) = (if mt_name m = stream then Some 0 else map_option Suc (metrics_for stream ms))"

definition start_can_reader :: "string \<Rightarrow> string \<Rightarrow> 'g ScenarioRunner \<Rightarrow> 'g ScenarioRunner" where
  "start_can_reader stream ifname r = (case metrics_for stream (ru_metrics r) of
     None \<Rightarrow> r
   | Some i \<Rightarrow> r\<lparr>ru_can_reader := Some i\<rparr>)"

definition stop_can_reader :: "'g ScenarioRunner \<Rightarrow> 'g ScenarioRunner" where
  "stop_can_reader r = r\<lparr>ru_can_reader := None\<rparr>"

definition subscribe_stream :: "StreamConfig \<Rightarrow> 'g ScenarioRunner \<Rightarrow> 'g ScenarioRunner" where
  "subscribe_stream s r =
     (let topic = ru_ns r @ ''/'' @ sc_name s;
          sub = (\<lambda>type. r\<lparr>ru_subs := ru_subs r @ [(topic, type)]\<rparr>)
      in if sc_name s = ''lidar'' then sub ''PointCloud2''
         else if sc_name s = ''camera'' then sub ''Image''
         else if sc_name s = ''imu'' then sub ''Imu''
         else if sc_name s = ''gps'' then sub ''NavSatFix''
         else if sc_name s = ''can'' then start_can_reader (sc_name s) ''vcan0'' r
         else r)"

definition publisher_executable :: "string \<Rightarrow> string" where
  "publisher_executable stream = stream @ ''_publisher''"

definition publisher_args :: "(dbl \<Rightarrow> string) \<Rightarrow> string \<Rightarrow> StreamConfig \<Rightarrow> string list" where
  "publisher_args to_str ns s =
     (let topic = ns @ ''/'' @ sc_name s
      in [''ros2'', ''run'', ''network_bridge'', publisher_executable (sc_name s), ''--ros-args'',
          ''-p'', ''rate_hz:='' @ to_str (sc_rate_hz s), ''-p'', ''topic:='' @ topic, ''-r'', ''__ns:='' @ ns])"

text \<open>\<open>spawn\<close> is \<^verbatim>\<open>posix_spawnp\<close>: the process it creates, if it succeeds.\<close>

definition spawn_publisher :: "(string list \<Rightarrow> int option) \<Rightarrow> (dbl \<Rightarrow> string) \<Rightarrow> StreamConfig \<Rightarrow> 'g ScenarioRunner \<Rightarrow> 'g ScenarioRunner" where
  "spawn_publisher spawn to_str s r = (case spawn (publisher_args to_str (ru_ns r) s) of
     None \<Rightarrow> r
   | Some pid \<Rightarrow> r\<lparr>ru_child_pids := ru_child_pids r @ [pid]\<rparr>)"

definition stream_rules :: "Scenario \<Rightarrow> string \<Rightarrow> FaultRule list" where
  "stream_rules sn stream = map to_fault_rule (filter (\<lambda>f. fs_stream f = stream) (sn_faults sn))"

definition start_stream :: "'g \<Rightarrow> (string list \<Rightarrow> int option) \<Rightarrow> (dbl \<Rightarrow> string) \<Rightarrow> StreamConfig \<Rightarrow> 'g ScenarioRunner \<Rightarrow> 'g ScenarioRunner" where
  "start_stream g spawn to_str s r =
     (let sn = ru_scenario r;
          i = length (ru_metrics r);
          r = r\<lparr>ru_metrics := ru_metrics r @ [StreamMetrics_new (sc_name s) (sc_rate_hz s) (sn_duration_seconds sn)]\<rparr>;
          has_fault = list_ex (\<lambda>f. fs_stream f = sc_name s) (sn_faults sn);
          r = (if has_fault \<and> map_of (ru_stream_faults r) (sc_name s) = None
               then r\<lparr>ru_stream_faults := put (sc_name s) (i, fold add_rule (stream_rules sn (sc_name s)) (FaultEngine_new g)) (ru_stream_faults r)\<rparr>
               else r)
      in spawn_publisher spawn to_str s (subscribe_stream s r))"

definition start_exporter :: "bool \<Rightarrow> 'g ScenarioRunner \<Rightarrow> 'g ScenarioRunner" where
  "start_exporter exporter_ok r =
     (if ru_metrics_port r = 0 then r
      else let r = r\<lparr>ru_registry := set_help ''sensorforge_latency_p99_ms'' ''p99 end-to-end latency (ms) per sensor''
                       (set_help ''sensorforge_msgs_per_sec'' ''Messages per second per sensor'' (ru_registry r))\<rparr>
           in if exporter_ok then r\<lparr>ru_exporter := True\<rparr> else r\<lparr>ru_exporter := False\<rparr>)"

definition runner_start :: "'g \<Rightarrow> (string list \<Rightarrow> int option) \<Rightarrow> (dbl \<Rightarrow> string) \<Rightarrow> bool \<Rightarrow> 'g ScenarioRunner \<Rightarrow> 'g ScenarioRunner" where
  "runner_start g spawn to_str exporter_ok r =
     start_exporter exporter_ok (fold (start_stream g spawn to_str) (sn_streams (ru_scenario r)) r)"

subsection \<open>Recording\<close>

definition update_metrics :: "nat \<Rightarrow> (StreamMetrics \<Rightarrow> StreamMetrics) \<Rightarrow> 'g ScenarioRunner \<Rightarrow> 'g ScenarioRunner" where
  "update_metrics i f r = r\<lparr>ru_metrics := (ru_metrics r)[i := f (ru_metrics r ! i)]\<rparr>"

definition run_engine :: "Double_repr \<Rightarrow> ('g FaultEngine \<Rightarrow> 'g FaultEngine) \<Rightarrow> string \<Rightarrow> 'g ScenarioRunner \<Rightarrow> 'g ScenarioRunner" where
  "run_engine D f stream r = (case map_of (ru_stream_faults r) stream of
     None \<Rightarrow> r
   | Some (i, e) \<Rightarrow> (case engine_step D f (e, ru_metrics r ! i) of (e', sm) \<Rightarrow>
       r\<lparr>ru_metrics := (ru_metrics r)[i := sm], ru_stream_faults := put stream (i, e') (ru_stream_faults r)\<rparr>))"

definition record_direct :: "string \<Rightarrow> dbl \<Rightarrow> dbl \<Rightarrow> 'g ScenarioRunner \<Rightarrow> 'g ScenarioRunner" where
  "record_direct stream latency_ms arrival_s r = (case metrics_for stream (ru_metrics r) of
     None \<Rightarrow> r
   | Some i \<Rightarrow> update_metrics i (record_arrival latency_ms arrival_s False) r)"

definition runner_record :: "Double_repr \<Rightarrow> 'g Env \<Rightarrow> string \<Rightarrow> dbl \<Rightarrow> dbl \<Rightarrow> 'g ScenarioRunner \<Rightarrow> 'g ScenarioRunner" where
  "runner_record D E stream latency_ms now_s r = (case map_of (ru_stream_faults r) stream of
     Some _ \<Rightarrow> run_engine D (process E (arrival_buffer D latency_ms now_s) now_s stream) stream r
   | None \<Rightarrow> record_direct stream latency_ms now_s r)"

text \<open>A frame that the CAN reader received goes to the metrics directly.\<close>

definition can_record :: "dbl \<Rightarrow> dbl \<Rightarrow> bool \<Rightarrow> 'g ScenarioRunner \<Rightarrow> 'g ScenarioRunner" where
  "can_record latency_ms arrival_s gap r = (case ru_can_reader r of
     None \<Rightarrow> r
   | Some i \<Rightarrow> update_metrics i (record_arrival latency_ms arrival_s gap) r)"

subsection \<open>Child processes\<close>

datatype child_signal = SIGINT int | SIGKILL int

text \<open>One poll of the pending children; \<open>wait pid\<close> is the result of \<^verbatim>\<open>waitpid\<close> with \<^verbatim>\<open>WNOHANG\<close>.\<close>

definition poll_children :: "(int \<Rightarrow> int) \<Rightarrow> int list \<Rightarrow> int list" where
  "poll_children wait pending = map (\<lambda>pid. if pid \<le> 0 then pid else if wait pid = pid \<or> wait pid < 0 then -1 else pid) pending"

text \<open>The polls that fit before the deadline; the loop ends early once no child is left.\<close>

fun poll_loop :: "(int \<Rightarrow> int) list \<Rightarrow> int list \<Rightarrow> int list" where
  "poll_loop [] pending = pending"
| "poll_loop (w # ws) pending =
     (let pending = poll_children w pending
      in if list_ex (\<lambda>pid. pid > 0) pending then poll_loop ws pending else pending)"

definition reap_children :: "(int \<Rightarrow> int) list \<Rightarrow> 'g ScenarioRunner \<Rightarrow> child_signal list \<times> 'g ScenarioRunner" where
  "reap_children polls r =
     (if ru_child_pids r = [] then ([], r)
      else let pids = filter (\<lambda>pid. pid > 0) (ru_child_pids r);
               pending = poll_loop polls (ru_child_pids r)
           in (map SIGINT pids @ map SIGKILL (filter (\<lambda>pid. pid > 0) pending), r\<lparr>ru_child_pids := []\<rparr>))"

subsection \<open>Finishing\<close>

definition flush_engines :: "Double_repr \<Rightarrow> 'g ScenarioRunner \<Rightarrow> 'g ScenarioRunner" where
  "flush_engines D r = fold (run_engine D engine_flush) (map fst (ru_stream_faults r)) r"

fun emit_all :: "StreamMetrics list \<Rightarrow> MetricMap \<Rightarrow> MetricMap option" where
  "emit_all [] out = Some out"
| "emit_all (m # ms) out = do { out \<leftarrow> metrics_emit m out; emit_all ms out }"

definition update_stream_gauges :: "StreamMetrics \<Rightarrow> Registry \<Rightarrow> Registry option" where
  "update_stream_gauges m reg = do {
     mm \<leftarrow> metrics_emit m Map.empty;
     let s = mt_name m;
     let v = (\<lambda>suffix. case mm (s @ suffix) of None \<Rightarrow> 0 | Some x \<Rightarrow> x);
     Some (set_sensor_gauge ''sensorforge_sequence_gaps'' s (v ''_sequence_gaps'')
          (set_sensor_gauge ''sensorforge_queue_occupancy'' s (v ''_received'')
          (set_sensor_gauge ''sensorforge_latency_p99_ms'' s (v ''_latency_p99_ms'')
          (set_sensor_gauge ''sensorforge_latency_p50_ms'' s (v ''_latency_p50_ms'')
          (set_sensor_gauge ''sensorforge_drop_rate_pct'' s (v ''_drop_rate_pct'')
          (set_sensor_gauge ''sensorforge_msgs_per_sec'' s (v ''_msgs_per_sec'') reg)))))) }"

fun update_gauges :: "StreamMetrics list \<Rightarrow> Registry \<Rightarrow> Registry option" where
  "update_gauges [] reg = Some reg"
| "update_gauges (m # ms) reg = do { reg \<leftarrow> update_stream_gauges m reg; update_gauges ms reg }"

definition update_registry :: "'g ScenarioRunner \<Rightarrow> 'g ScenarioRunner option" where
  "update_registry r = do { reg \<leftarrow> update_gauges (ru_metrics r) (ru_registry r); Some (r\<lparr>ru_registry := reg\<rparr>) }"

text \<open>The result, the metric map it was computed from (for the report) and the runner.\<close>

definition runner_finish :: "Double_repr \<Rightarrow> (int \<Rightarrow> int) list \<Rightarrow> 'g ScenarioRunner
    \<Rightarrow> (ScenarioResult \<times> MetricMap \<times> 'g ScenarioRunner) option" where
  "runner_finish D polls r = do {
     let r = stop_can_reader r;
     let r = snd (reap_children polls r);
     let r = flush_engines D r;
     metrics \<leftarrow> emit_all (ru_metrics r) Map.empty;
     let result = evaluate_all (sn_name (ru_scenario r)) (sn_assertions (ru_scenario r)) metrics;
     r \<leftarrow> (if ru_exporter r
           then do {
             r \<leftarrow> update_registry r;
             Some (r\<lparr>ru_registry := add_counter
               (if sr_passed result then ''sensorforge_scenarios_passed_total'' else ''sensorforge_scenarios_failed_total'')
               1 [] (ru_registry r)\<rparr>) }
           else Some r);
     Some (result, metrics, r) }"

subsection \<open>Delays are not measured\<close>

definition delay_only :: "'g FaultEngine \<Rightarrow> bool" where
  "delay_only e \<longleftrightarrow> (\<forall>r\<in>set (fe_rules e). fr_kind r = FaultKind.kDelay)"

lemma restart_loop_delay: "\<forall>r\<in>set rs. fr_kind r = FaultKind.kDelay \<Longrightarrow> restart_loop stream rs e = e"
  by (induction rs) auto

lemma duplicate_loop_delay: "\<forall>r\<in>set rs. fr_kind r = FaultKind.kDelay \<Longrightarrow> duplicate_loop E active rs d e = e"
  by (induction rs) auto

lemma process_delay_only:
  assumes "delay_only e"
  shows "\<exists>xs. process E d t stream e = dispatch_or_delay E (active_rules e t stream) d (e\<lparr>fe_restarted := xs\<rparr>)"
proof -
  let ?a = "active_rules e t stream"
  have a: "\<forall>r\<in>set ?a. fr_kind r = FaultKind.kDelay" using assms by (auto simp: delay_only_def active_rules_def)
  then have l: "drop_loop E ?a g = (False, g)" "bandwidth_loop E n ?a e' = (False, e')" "corrupt_loop E ?a d e' = (d, e')"
    "\<not> list_ex (\<lambda>r. fr_kind r = FaultKind.kEcuDisconnect \<or> fr_kind r = FaultKind.kBurstLoss) ?a" "\<not> list_ex (\<lambda>r. fr_kind r = FaultKind.kReorder) ?a" for g n e'
    by (auto intro!: drop_loop_never bandwidth_loop_none corrupt_loop_none simp: list_ex_iff)
  have "process E d t stream e = dispatch_or_delay E ?a d
      (e\<lparr>fe_restarted := (if ?a = [] then filter (\<lambda>s. s \<noteq> stream) (fe_restarted e) else fe_restarted e)\<rparr>)"
    using l by (auto simp: process_def Let_def restart_loop_delay [OF a] duplicate_loop_delay [OF a])
  then show ?thesis by (rule exI)
qed

text \<open>An operation that only moves frames: what it writes and what stays queued is what was queued and what came in.\<close>

definition conserves :: "bytes multiset \<Rightarrow> 'g FaultEngine \<Rightarrow> 'g FaultEngine \<Rightarrow> bool" where
  "conserves new e e' \<longleftrightarrow> fe_rules e' = fe_rules e \<and>
     (\<exists>xs. fe_writes e' = fe_writes e @ xs \<and>
        mset xs + mset (map dl_data (fe_delayed e')) = mset (map dl_data (fe_delayed e)) + new)"

lemma process_conserves:
  assumes "delay_only e"
  shows "conserves {#d#} e (process E d t stream e)"
proof -
  obtain xs where p: "process E d t stream e = dispatch_or_delay E (active_rules e t stream) d (e\<lparr>fe_restarted := xs\<rparr>)"
    using process_delay_only [OF assms] by blast
  then show ?thesis
    by (auto simp: p conserves_def dispatch_or_delay_def emit_def Let_def split: prod.split)
qed

lemma release_conserves:
  assumes "delayed_pop (fe_delayed e) = Some (d, rest)"
  shows "conserves {#} e (emit (dl_data d) (e\<lparr>fe_env := g, fe_delayed := rest\<rparr>))"
proof -
  have "mset (map dl_data (fe_delayed e)) = add_mset (dl_data d) (mset (map dl_data rest))"
    using arg_cong [OF delayed_pop_min(1) [OF assms], of "image_mset dl_data"] by simp
  then show ?thesis by (simp add: conserves_def emit_def)
qed

lemma conserves_refl: "conserves {#} e e"
  by (auto simp: conserves_def)

lemma conserves_trans:
  assumes "conserves {#} e e1" "conserves {#} e1 e2"
  shows "conserves {#} e e2"
proof -
  obtain xs ys where *: "fe_writes e1 = fe_writes e @ xs" "fe_writes e2 = fe_writes e1 @ ys"
    "mset xs + mset (map dl_data (fe_delayed e1)) = mset (map dl_data (fe_delayed e))"
    "mset ys + mset (map dl_data (fe_delayed e2)) = mset (map dl_data (fe_delayed e1))"
    using assms by (auto simp: conserves_def)
  then have "mset (xs @ ys) + mset (map dl_data (fe_delayed e2)) = mset (map dl_data (fe_delayed e))"
    by (simp add: add.assoc)
  with * assms show ?thesis by (auto simp: conserves_def intro!: exI [of _ "xs @ ys"])
qed

lemma worker_conserves: "conserves {#} e (worker_step E e)"
  using release_conserves [of e]
  by (auto simp: worker_step_def Let_def conserves_refl split: option.split prod.split)
    (auto simp: conserves_def)

lemma flush_conserves: "conserves {#} e (engine_flush e)"
proof (induction e rule: engine_flush.induct)
  case (1 e)
  show ?case
  proof (cases "delayed_pop (fe_delayed e)")
    case None
    then show ?thesis by (simp add: engine_flush.simps [of e] conserves_refl)
  next
    case (Some x)
    obtain d rest where x: "x = (d, rest)" by force
    let ?e = "emit (dl_data d) (e\<lparr>fe_delayed := rest\<rparr>)"
    have "conserves {#} e ?e" using release_conserves [of e d rest "fe_env e"] Some x by simp
    moreover have "conserves {#} ?e (engine_flush ?e)" by (rule 1 [OF Some x [symmetric]])
    ultimately show ?thesis using Some x by (simp add: engine_flush.simps [of e] conserves_trans)
  qed
qed

text \<open>The latency that a buffer carries, and the callback over a list of buffers.\<close>

definition buffer_latency :: "Double_repr \<Rightarrow> bytes \<Rightarrow> dbl" where
  "buffer_latency D buf = bytes_double D (take 8 buf)"

lemma fold_callback_latencies:
  "\<forall>b\<in>set bufs. 16 \<le> length b \<Longrightarrow>
     mt_latencies_ms (fold (arrival_callback D) bufs sm) = mt_latencies_ms sm @ map (buffer_latency D) bufs"
  by (induction bufs arbitrary: sm) (auto simp: arrival_callback_def buffer_latency_def)

definition pending_latencies :: "Double_repr \<Rightarrow> 'g FaultEngine \<times> StreamMetrics \<Rightarrow> dbl multiset" where
  "pending_latencies D s = mset (mt_latencies_ms (snd s)) + image_mset (buffer_latency D) (mset (map dl_data (fe_delayed (fst s))))"

definition buffers_ok :: "'g FaultEngine \<Rightarrow> bool" where
  "buffers_ok e \<longleftrightarrow> (\<forall>d\<in>set (fe_delayed e). 16 \<le> length (dl_data d))"

lemma engine_step_conserves:
  assumes "conserves new e (f e)" "buffers_ok e" "\<forall>b\<in>#new. 16 \<le> length b" "delay_only e"
  shows "pending_latencies D (engine_step D f (e, sm)) = pending_latencies D (e, sm) + image_mset (buffer_latency D) new \<and>
    buffers_ok (f e) \<and> delay_only (f e)"
proof -
  obtain xs where xs: "fe_writes (f e) = fe_writes e @ xs" "fe_rules (f e) = fe_rules e"
    "mset xs + mset (map dl_data (fe_delayed (f e))) = mset (map dl_data (fe_delayed e)) + new"
    using assms(1) by (auto simp: conserves_def)
  have s: "set xs \<union> dl_data ` set (fe_delayed (f e)) = dl_data ` set (fe_delayed e) \<union> set_mset new"
    using arg_cong [OF xs(3), of set_mset] by simp
  have "\<forall>b\<in>set xs \<union> dl_data ` set (fe_delayed (f e)). 16 \<le> length b"
    unfolding s using assms(2,3) by (auto simp: buffers_ok_def)
  then have len: "\<forall>b\<in>set xs. 16 \<le> length b" "buffers_ok (f e)"
    by (auto simp: buffers_ok_def)
  have "image_mset (buffer_latency D) (mset xs) + image_mset (buffer_latency D) (mset (map dl_data (fe_delayed (f e)))) =
      image_mset (buffer_latency D) (mset (map dl_data (fe_delayed e))) + image_mset (buffer_latency D) new"
    using arg_cong [OF xs(3), of "image_mset (buffer_latency D)"] by simp
  then show ?thesis
    using len xs(1,2) assms(4) by (auto simp: pending_latencies_def engine_step_def fold_callback_latencies delay_only_def ac_simps)
qed

text \<open>Arrivals of a stream and turns of the worker, in any order.\<close>

datatype stream_event = Arrival dbl dbl | WorkerTurn

fun stream_step :: "Double_repr \<Rightarrow> 'g Env \<Rightarrow> string \<Rightarrow> 'g FaultEngine \<times> StreamMetrics \<Rightarrow> stream_event \<Rightarrow> 'g FaultEngine \<times> StreamMetrics" where
  "stream_step D E stream s (Arrival latency_ms now_s) =
     engine_step D (process E (arrival_buffer D latency_ms now_s) now_s stream) s"
| "stream_step D E stream s WorkerTurn = engine_step D (worker_step E) s"

fun arrived :: "stream_event list \<Rightarrow> dbl list" where
  "arrived [] = []"
| "arrived (Arrival l t # evs) = l # arrived evs"
| "arrived (WorkerTurn # evs) = arrived evs"

fun event_ok :: "Double_repr \<Rightarrow> stream_event \<Rightarrow> bool" where
  "event_ok D (Arrival l t) \<longleftrightarrow> double_repr_ok D l \<and> double_repr_ok D t"
| "event_ok D WorkerTurn \<longleftrightarrow> True"

lemma stream_step_conserves:
  assumes "event_ok D ev" "delay_only e" "buffers_ok e"
  shows "\<exists>e' sm'. stream_step D E stream (e, sm) ev = (e', sm') \<and> delay_only e' \<and> buffers_ok e' \<and>
    pending_latencies D (e', sm') = pending_latencies D (e, sm) + mset (arrived [ev])"
proof (cases ev)
  case (Arrival l t)
  let ?b = "arrival_buffer D l t" and ?f = "process E (arrival_buffer D l t) t stream"
  have b: "length ?b = 16" "buffer_latency D ?b = l"
    using assms(1) Arrival by (simp_all add: arrival_buffer_def buffer_latency_def double_repr_ok_def)
  show ?thesis
    using engine_step_conserves [where f = ?f and e = e and new = "{#?b#}" and D = D and sm = sm,
        OF process_conserves [OF assms(2)] assms(3) _ assms(2)] b Arrival
    by (auto simp: engine_step_def)
next
  case WorkerTurn
  show ?thesis
    using engine_step_conserves [where f = "worker_step E" and e = e and new = "{#}" and D = D and sm = sm,
        OF worker_conserves assms(3) _ assms(2)] WorkerTurn
    by (auto simp: engine_step_def)
qed

lemma arrived_Cons: "arrived (ev # evs) = arrived [ev] @ arrived evs"
  by (cases ev) simp_all

lemma stream_run_conserves:
  assumes "list_all (event_ok D) evs" "delay_only e" "buffers_ok e"
  shows "\<exists>e' sm'. foldl (stream_step D E stream) (e, sm) evs = (e', sm') \<and> delay_only e' \<and> buffers_ok e' \<and>
    pending_latencies D (e', sm') = pending_latencies D (e, sm) + mset (arrived evs)"
  using assms
proof (induction evs arbitrary: e sm)
  case (Cons ev evs)
  obtain e1 sm1 where 1: "stream_step D E stream (e, sm) ev = (e1, sm1)" "delay_only e1" "buffers_ok e1"
    "pending_latencies D (e1, sm1) = pending_latencies D (e, sm) + mset (arrived [ev])"
    using stream_step_conserves [of D ev e E stream sm] Cons.prems by auto
  obtain e2 sm2 where "foldl (stream_step D E stream) (e1, sm1) evs = (e2, sm2)" "delay_only e2" "buffers_ok e2"
    "pending_latencies D (e2, sm2) = pending_latencies D (e1, sm1) + mset (arrived evs)"
    using Cons.IH [of e1 sm1] Cons.prems 1 by auto
  then show ?case using 1 by (auto simp: arrived_Cons [of ev evs] add.assoc)
qed simp

lemma flush_empties: "fe_delayed (engine_flush e) = []"
  using flush_sorted by blast

text \<open>A stream whose faults are only delays measures none of them: whatever the arrivals, however long the engine
  holds each and whenever its worker runs, once the engine is flushed the recorded latencies are exactly the
  latencies the arrivals had before they entered the engine.\<close>

theorem delay_not_measured:
  assumes "list_all (event_ok D) evs" "delay_only e" "fe_delayed e = []"
  shows "mset (mt_latencies_ms (snd (engine_step D engine_flush
           (foldl (stream_step D E stream) (e, StreamMetrics_new stream rate duration) evs)))) = mset (arrived evs)"
proof -
  let ?sm = "StreamMetrics_new stream rate duration"
  have b: "buffers_ok e" using assms(3) by (simp add: buffers_ok_def)
  have z: "pending_latencies D (e, ?sm) = {#}" using assms(3) by (simp add: pending_latencies_def StreamMetrics_new_def)
  obtain e' sm' where run: "foldl (stream_step D E stream) (e, ?sm) evs = (e', sm')" "delay_only e'" "buffers_ok e'"
    "pending_latencies D (e', sm') = mset (arrived evs)"
    using stream_run_conserves [OF assms(1,2) b, of E stream ?sm] z by auto
  have "pending_latencies D (engine_step D engine_flush (e', sm')) = mset (arrived evs)"
    using engine_step_conserves [where f = engine_flush and D = D and sm = sm' and new = "{#}", OF flush_conserves run(3) _ run(2)] run(4)
    by simp
  then show ?thesis using run(1) by (simp add: pending_latencies_def engine_step_def flush_empties)
qed

text \<open>A representation of the numbers from 0 to 255, for concrete runs.\<close>

definition small_double :: Double_repr where
  "small_double = \<lparr>double_bytes = (\<lambda>x. replicate 8 (word_of_int \<lfloor>x\<rfloor>)), bytes_double = (\<lambda>bs. real_of_int (uint (hd bs)))\<rparr>"

definition one_second_rule :: FaultRule where
  "one_second_rule = to_fault_rule \<lparr>fs_stream = ''imu'', fs_start_seconds = 0, fs_duration_seconds = 100,
     fs_type = FaultType.kDelay, fs_params = [''delay_ms'' \<mapsto> 1000]\<rparr>"

definition still_env :: "unit Env" where
  "still_env = \<lparr>draw_real = (\<lambda>g. (0, g)), draw_index = (\<lambda>n g. (0, g)), draw_bit = (\<lambda>g. (0, g)), now_ns = (\<lambda>g. (0, g))\<rparr>"

theorem delay_not_measured_witness:
  "fr_kind one_second_rule = FaultKind.kDelay \<and> fr_delay_ms one_second_rule = 1000 \<and>
   mset (mt_latencies_ms (snd (engine_step small_double engine_flush
     (foldl (stream_step small_double still_env ''imu'') (add_rule one_second_rule (FaultEngine_new ()), StreamMetrics_new ''imu'' 100 10)
       [Arrival 3 0, WorkerTurn, Arrival 5 1])))) = {#3, 5#}"
proof -
  let ?e = "add_rule one_second_rule (FaultEngine_new ())"
  have k: "fr_kind one_second_rule = FaultKind.kDelay" "fr_delay_ms one_second_rule = 1000"
    by (simp_all add: one_second_rule_def to_fault_rule_def fault_kind_from_string_def fault_param_def)
  have "delay_only ?e" "fe_delayed ?e = []" using k by (simp_all add: delay_only_def add_rule_def FaultEngine_new_def)
  moreover have "list_all (event_ok small_double) [Arrival 3 0, WorkerTurn, Arrival 5 1]"
    by (simp add: double_repr_ok_def small_double_def)
  ultimately show ?thesis
    using k delay_not_measured [of small_double "[Arrival 3 0, WorkerTurn, Arrival 5 1]" ?e still_env "''imu''" 100 10] by simp
qed

subsection \<open>Collecting and judging\<close>

definition metric_suffixes :: "string list" where
  "metric_suffixes = [''_msgs_per_sec'', ''_drop_rate_pct'', ''_latency_p50_ms'', ''_latency_p99_ms'', ''_latency_p999_ms'',
     ''_sequence_gaps'', ''_received'']"

lemma metric_names_apart:
  assumes "n1 @ s1 = n2 @ s2" "s1 \<in> set metric_suffixes" "s2 \<in> set metric_suffixes"
  shows "n1 = n2"
proof -
  have "rev s1 @ rev n1 = rev s2 @ rev n2" using arg_cong [OF assms(1), of rev] by simp
  then have "rev n1 = rev n2" using assms(2,3) unfolding metric_suffixes_def by auto
  then show ?thesis by simp
qed

lemma metrics_emit_add:
  assumes "length (mt_latencies_ms m) < 2 ^ 53"
  shows "\<exists>v. (\<forall>out. metrics_emit m out = Some (out ++ v)) \<and> dom v = (\<lambda>s. mt_name m @ s) ` set metric_suffixes"
proof -
  obtain a b c where abc: "pct p50 m = Some a" "pct p99 m = Some b" "pct p999 m = Some c"
    using metrics_emit_value [OF assms] by blast
  let ?k = "\<lambda>s. mt_name m @ s"
  let ?v = "[?k ''_msgs_per_sec'' \<mapsto> msgs_per_sec m, ?k ''_drop_rate_pct'' \<mapsto> drop_rate_pct m, ?k ''_latency_p50_ms'' \<mapsto> a,
    ?k ''_latency_p99_ms'' \<mapsto> b, ?k ''_latency_p999_ms'' \<mapsto> c,
    ?k ''_sequence_gaps'' \<mapsto> of_integer (uint (mt_sequence_gaps m)), ?k ''_received'' \<mapsto> of_integer (uint (mt_received m))]"
  have "metrics_emit m out = Some (out ++ ?v)" for out
    by (simp add: metrics_emit_def abc Let_def map_add_upd)
  moreover have "dom ?v = ?k ` set metric_suffixes" by (auto simp: metric_suffixes_def)
  ultimately show ?thesis by blast
qed

lemma emit_all_correct:
  assumes "list_all (\<lambda>m. length (mt_latencies_ms m) < 2 ^ 53) ms" "distinct (map mt_name ms)"
  shows "\<exists>v. (\<forall>out. emit_all ms out = Some (out ++ v)) \<and>
    dom v \<subseteq> (\<Union>m\<in>set ms. (\<lambda>s. mt_name m @ s) ` set metric_suffixes) \<and>
    (\<forall>m\<in>set ms. \<exists>w. metrics_emit m Map.empty = Some w \<and> w \<subseteq>\<^sub>m v)"
  using assms
proof (induction ms)
  case (Cons m ms)
  obtain v where v: "\<forall>out. emit_all ms out = Some (out ++ v)"
    "dom v \<subseteq> (\<Union>m\<in>set ms. (\<lambda>s. mt_name m @ s) ` set metric_suffixes)"
    "\<forall>m\<in>set ms. \<exists>w. metrics_emit m Map.empty = Some w \<and> w \<subseteq>\<^sub>m v"
    using Cons by auto
  obtain u where u: "\<forall>out. metrics_emit m out = Some (out ++ u)" "dom u = (\<lambda>s. mt_name m @ s) ` set metric_suffixes"
    using metrics_emit_add [of m] Cons.prems by auto
  have disj: "dom u \<inter> dom v = {}"
    using u(2) v(2) Cons.prems(2) by (auto dest!: metric_names_apart)
  have "u \<subseteq>\<^sub>m u ++ v" using map_add_comm [OF disj] by (simp add: map_le_map_add)
  moreover have "w \<subseteq>\<^sub>m u ++ v" if "w \<subseteq>\<^sub>m v" for w using that map_le_map_add map_le_trans by blast
  ultimately have "\<forall>m'\<in>set (m # ms). \<exists>w. metrics_emit m' Map.empty = Some w \<and> w \<subseteq>\<^sub>m u ++ v"
    using u(1) v(3) by auto
  moreover have "\<forall>out. emit_all (m # ms) out = Some (out ++ (u ++ v))" using u v by simp
  moreover have "dom (u ++ v) \<subseteq> (\<Union>m\<in>set (m # ms). (\<lambda>s. mt_name m @ s) ` set metric_suffixes)" using u(2) v(2) by auto
  ultimately show ?case by blast
qed simp

lemma update_gauges_total:
  "list_all (\<lambda>m. length (mt_latencies_ms m) < 2 ^ 53) ms \<Longrightarrow> \<exists>reg'. update_gauges ms reg = Some reg'"
proof (induction ms arbitrary: reg)
  case (Cons m ms)
  then obtain v where "metrics_emit m Map.empty = Some v" using metrics_emit_add [of m] by auto
  then show ?case using Cons by (simp add: update_stream_gauges_def Let_def)
qed simp

text \<open>Polling forgets a child only when \<^verbatim>\<open>waitpid\<close> has reaped it or does not know it.\<close>

definition child_gone :: "(int \<Rightarrow> int) list \<Rightarrow> int \<Rightarrow> bool" where
  "child_gone polls pid \<longleftrightarrow> list_ex (\<lambda>w. w pid = pid \<or> w pid < 0) polls"

lemma poll_children_kept:
  "list_all2 (\<lambda>p q. p > 0 \<longrightarrow> q = p \<or> child_gone [w] p) ps (poll_children w ps)"
  by (simp add: poll_children_def list.rel_map list_all2_same child_gone_def)

lemma poll_loop_kept:
  "list_all2 (\<lambda>p q. p > 0 \<longrightarrow> q = p \<or> child_gone ws p) ps (poll_loop ws ps)"
proof (induction ws arbitrary: ps)
  case Nil
  then show ?case by (simp add: list_all2_same)
next
  case (Cons w ws)
  let ?qs = "poll_children w ps"
  have 1: "list_all2 (\<lambda>p q. p > 0 \<longrightarrow> q = p \<or> child_gone (w # ws) p) ps ?qs"
    by (rule list_all2_mono [OF poll_children_kept]) (auto simp: child_gone_def)
  have 2: "list_all2 (\<lambda>p q. p > 0 \<longrightarrow> q = p \<or> child_gone (w # ws) p) ps (poll_loop ws ?qs)"
    by (rule list_all2_trans [OF _ 1 Cons.IH [of ?qs]]) (auto simp: child_gone_def)
  show ?case using 1 2 by (simp add: Let_def)
qed

lemma reap_children_complete:
  assumes "pid \<in> set (ru_child_pids r)" "pid > 0"
  shows "SIGINT pid \<in> set (fst (reap_children polls r)) \<and>
    (SIGKILL pid \<in> set (fst (reap_children polls r)) \<or> child_gone polls pid)"
proof -
  obtain i where i: "i < length (ru_child_pids r)" "ru_child_pids r ! i = pid" using assms(1) by (auto simp: in_set_conv_nth)
  let ?q = "poll_loop polls (ru_child_pids r) ! i"
  have "?q = pid \<or> child_gone polls pid" "?q \<in> set (poll_loop polls (ru_child_pids r))"
    using list_all2_nthD [OF poll_loop_kept [where ws = polls] i(1)]
      list_all2_lengthD [OF poll_loop_kept [where ws = polls and ps = "ru_child_pids r"]] i assms(2) by auto
  then show ?thesis using assms by (auto simp: reap_children_def Let_def)
qed

text \<open>Stopping the reader and reaping the children leave the streams alone.\<close>

definition wind_down :: "(int \<Rightarrow> int) list \<Rightarrow> 'g ScenarioRunner \<Rightarrow> 'g ScenarioRunner" where
  "wind_down polls r = snd (reap_children polls (stop_can_reader r))"

lemma wind_down_eq: "wind_down polls r = r\<lparr>ru_can_reader := None, ru_child_pids := []\<rparr>"
  by (cases r) (auto simp: wind_down_def reap_children_def stop_can_reader_def Let_def)

lemma callback_name [simp]: "mt_name (fold (arrival_callback D) bufs sm) = mt_name sm"
  by (induction bufs arbitrary: sm) (simp_all add: arrival_callback_def)

lemma run_engine_frame:
  "run_engine D f s (r\<lparr>ru_can_reader := c, ru_child_pids := ps\<rparr>) = (run_engine D f s r)\<lparr>ru_can_reader := c, ru_child_pids := ps\<rparr>"
  "ru_scenario (run_engine D f s r) = ru_scenario r"
  "ru_exporter (run_engine D f s r) = ru_exporter r"
  "map mt_name (ru_metrics (run_engine D f s r)) = map mt_name (ru_metrics r)"
  by (auto simp: run_engine_def engine_step_def map_update split: option.split)
    (metis list_update_id map_update)

lemma fold_run_engine_frame:
  "fold (run_engine D f) ss (r\<lparr>ru_can_reader := c, ru_child_pids := ps\<rparr>) = (fold (run_engine D f) ss r)\<lparr>ru_can_reader := c, ru_child_pids := ps\<rparr>"
  "ru_scenario (fold (run_engine D f) ss r) = ru_scenario r"
  "ru_exporter (fold (run_engine D f) ss r) = ru_exporter r"
  "map mt_name (ru_metrics (fold (run_engine D f) ss r)) = map mt_name (ru_metrics r)"
  by (induction ss arbitrary: r) (simp_all add: run_engine_frame)

lemma run_engine_faults:
  assumes "map_ok (ru_stream_faults r)"
  shows "map_ok (ru_stream_faults (run_engine D f s r))"
    "map_of (ru_stream_faults (run_engine D f s r)) t =
      (if t = s then map_option (\<lambda>(i, e). (i, f e)) (map_of (ru_stream_faults r) t) else map_of (ru_stream_faults r) t)"
  using assms by (auto simp: run_engine_def engine_step_def put_ok lookup_put split: option.split)

lemma fold_run_engine_faults:
  assumes "map_ok (ru_stream_faults r)" "distinct ss"
  shows "map_of (ru_stream_faults (fold (run_engine D f) ss r)) t =
      (if t \<in> set ss then map_option (\<lambda>(i, e). (i, f e)) (map_of (ru_stream_faults r) t) else map_of (ru_stream_faults r) t)"
  using assms by (induction ss arbitrary: r) (auto simp: run_engine_faults)

lemma flush_engines_empty:
  assumes "map_ok (ru_stream_faults r)" "map_of (ru_stream_faults (flush_engines D r)) s = Some (i, e)"
  shows "fe_delayed e = []"
proof -
  have "distinct (map fst (ru_stream_faults r))" using assms(1) by (simp add: map_ok_def strict_sorted_iff)
  from fold_run_engine_faults [OF assms(1) this, of D engine_flush s] assms(2) show ?thesis
    by (auto simp: flush_engines_def flush_empties split: if_splits dest: map_of_SomeD) (force dest: map_of_SomeD)
qed

text \<open>What \<open>runner_start\<close> establishes and every step of a run keeps.\<close>

definition runner_ok :: "Scenario \<Rightarrow> 'g ScenarioRunner \<Rightarrow> bool" where
  "runner_ok sn r \<longleftrightarrow> map_ok (ru_stream_faults r) \<and> ru_scenario r = sn \<and> map mt_name (ru_metrics r) = map sc_name (sn_streams sn)"

lemma subscribe_frame [simp]:
  "ru_scenario (subscribe_stream s r) = ru_scenario r" "ru_metrics (subscribe_stream s r) = ru_metrics r"
  "ru_stream_faults (subscribe_stream s r) = ru_stream_faults r"
  by (simp_all add: subscribe_stream_def start_can_reader_def Let_def split: option.split)

lemma spawn_frame [simp]:
  "ru_scenario (spawn_publisher spawn to_str s r) = ru_scenario r" "ru_metrics (spawn_publisher spawn to_str s r) = ru_metrics r"
  "ru_stream_faults (spawn_publisher spawn to_str s r) = ru_stream_faults r"
  by (simp_all add: spawn_publisher_def split: option.split)

lemma start_stream_metrics:
  "ru_scenario (start_stream g spawn to_str s r) = ru_scenario r"
  "map mt_name (ru_metrics (start_stream g spawn to_str s r)) = map mt_name (ru_metrics r) @ [sc_name s]"
  "map_ok (ru_stream_faults r) \<Longrightarrow> map_ok (ru_stream_faults (start_stream g spawn to_str s r))"
  by (simp_all add: start_stream_def Let_def StreamMetrics_new_def put_ok)

lemma start_streams:
  "ru_scenario (fold (start_stream g spawn to_str) ss r) = ru_scenario r"
  "map mt_name (ru_metrics (fold (start_stream g spawn to_str) ss r)) = map mt_name (ru_metrics r) @ map sc_name ss"
  "map_ok (ru_stream_faults r) \<Longrightarrow> map_ok (ru_stream_faults (fold (start_stream g spawn to_str) ss r))"
  by (induction ss arbitrary: r) (simp_all add: start_stream_metrics)

lemma runner_start_ok:
  assumes "ru_scenario r = sn" "ru_metrics r = []" "ru_stream_faults r = []"
  shows "runner_ok sn (runner_start g spawn to_str exporter_ok r)"
  using assms start_streams [where g = g and spawn = spawn and to_str = to_str and ss = "sn_streams sn" and r = r]
  by (auto simp: runner_start_def start_exporter_def runner_ok_def Let_def)

text \<open>Steps of a run: a stamped message, a frame on the CAN bus, a worker turn, the gauge timer.\<close>

inductive runner_step :: "Double_repr \<Rightarrow> 'g Env \<Rightarrow> 'g ScenarioRunner \<Rightarrow> 'g ScenarioRunner \<Rightarrow> bool" for D E where
  message: "runner_step D E r (runner_record D E stream latency_ms now_s r)"
| can: "runner_step D E r (can_record latency_ms arrival_s gap r)"
| worker: "runner_step D E r (run_engine D (worker_step E) stream r)"
| refresh: "update_registry r = Some r' \<Longrightarrow> runner_step D E r r'"

lemma update_metrics_names: "map mt_name (ru_metrics (update_metrics i (record_arrival l t g) r)) = map mt_name (ru_metrics r)"
  by (simp add: update_metrics_def map_update) (metis list_update_id map_update list_update_beyond not_le nth_map)

lemma runner_step_ok: "runner_step D E r r' \<Longrightarrow> runner_ok sn r \<Longrightarrow> runner_ok sn r'"
proof (induction rule: runner_step.induct)
  case (message r stream l t)
  then show ?case
    by (auto simp: runner_ok_def runner_record_def record_direct_def run_engine_frame run_engine_faults update_metrics_names
        split: option.split) (auto simp: update_metrics_def)
next
  case (can r l t g)
  then show ?case
    by (auto simp: runner_ok_def can_record_def update_metrics_names split: option.split) (auto simp: update_metrics_def)
next
  case (worker r stream)
  then show ?case by (auto simp: runner_ok_def run_engine_frame run_engine_faults)
next
  case (refresh r r')
  then show ?case by (auto simp: runner_ok_def update_registry_def split: Option.bind_splits)
qed

lemma runner_reachable_ok: "(runner_step D E)\<^sup>*\<^sup>* r r' \<Longrightarrow> runner_ok sn r \<Longrightarrow> runner_ok sn r'"
  by (induction rule: rtranclp_induct) (auto intro: runner_step_ok)

lemma runner_finish_eq:
  assumes "runner_ok sn r" "distinct (map sc_name (sn_streams sn))" "list_all (\<lambda>m. length (mt_latencies_ms m) < 2 ^ 53) (ru_metrics (flush_engines D r))"
  shows "\<exists>metrics reg. emit_all (ru_metrics (flush_engines D r)) Map.empty = Some metrics \<and>
    runner_finish D polls r = Some (evaluate_all (sn_name (ru_scenario r)) (sn_assertions (ru_scenario r)) metrics, metrics,
      (flush_engines D r)\<lparr>ru_can_reader := None, ru_child_pids := [], ru_registry := reg\<rparr>)"
proof -
  let ?f = "flush_engines D r" and ?r = "(flush_engines D r)\<lparr>ru_can_reader := None, ru_child_pids := []\<rparr>"
  have w: "flush_engines D (snd (reap_children polls (stop_can_reader r))) = ?r"
    using wind_down_eq [of polls r] by (simp add: flush_engines_def fold_run_engine_frame(1) wind_down_def)
  have d: "distinct (map mt_name (ru_metrics ?f))"
    using assms(1,2) by (simp add: runner_ok_def flush_engines_def fold_run_engine_frame(4))
  obtain metrics where m: "emit_all (ru_metrics ?f) Map.empty = Some metrics"
    using emit_all_correct [OF assms(3) d] by auto
  obtain reg where reg: "update_gauges (ru_metrics ?f) (ru_registry ?f) = Some reg"
    using update_gauges_total [OF assms(3)] by blast
  have sc: "ru_scenario ?f = ru_scenario r" by (simp add: flush_engines_def fold_run_engine_frame(2))
  show ?thesis
  proof (cases "ru_exporter ?f")
    case True
    then show ?thesis using m reg sc by (auto simp: runner_finish_def w Let_def update_registry_def)
  next
    case False
    then show ?thesis using m sc
      by (auto simp: runner_finish_def w Let_def intro!: exI [of _ "ru_registry ?f"])
  qed
qed


definition one_stream :: Scenario where
  "one_stream = \<lparr>sn_name = ''demo'', sn_duration_seconds = 10, sn_streams = [\<lparr>sc_name = ''imu'', sc_rate_hz = 100\<rparr>], sn_faults = [],
     sn_assertions = []\<rparr>"


end
