(* ===== verification/Report.thy ===== *)
theory Report
  imports Scenario_Runner
begin

text \<open>
  Scenario reports (\<^verbatim>\<open>report/report_types.hpp\<close>, \<^verbatim>\<open>report/report_builder.cpp\<close>, \<^verbatim>\<open>report/json_report.cpp\<close>,
  \<^verbatim>\<open>report/html_report.cpp\<close>). The timestamp, the serialiser \<^verbatim>\<open>json::dump\<close> and the outcome of writing the file are
  parameters. Casting a \<^verbatim>\<open>double\<close> to \<^verbatim>\<open>uint64_t\<close> is undefined outside its range, so building a report is
  partial.
\<close>

subsection \<open>Data\<close>

record AssertionReport =
  rp_metric :: string
  rp_op :: string
  rp_threshold :: dbl
  rp_actual :: dbl
  rp_found :: bool
  rp_passed :: bool

record SensorMetrics =
  sm_msgs_sec :: dbl
  sm_drop_rate_pct :: dbl
  sm_latency_p50_ms :: dbl
  sm_latency_p99_ms :: dbl
  sm_latency_p999_ms :: dbl
  sm_sequence_gaps :: u64
  sm_received :: u64

record TransportMetrics =
  tm_bytes_sec :: dbl
  tm_crc_failures :: u64
  tm_sequence_gaps :: u64
  tm_retransmits :: u64

record ScenarioReport =
  sp_scenario :: string
  sp_timestamp :: string
  sp_duration_seconds :: dbl
  sp_passed :: bool
  sp_assertions :: "AssertionReport list"
  sp_per_sensor :: "(string \<times> SensorMetrics) list"
  sp_transport :: TransportMetrics
  sp_latency_histograms :: "(string \<times> (dbl \<times> u64) list) list"
  sp_replay_recovery_ms :: dbl

subsection \<open>Building\<close>

definition metric_or :: "MetricMap \<Rightarrow> string \<Rightarrow> dbl" where
  "metric_or m key = (case m key of None \<Rightarrow> 0 | Some v \<Rightarrow> v)"

text \<open>\<^verbatim>\<open>static_cast<uint64_t>\<close>; outside the range of the target the behaviour is undefined.\<close>

definition cast_u64 :: "dbl \<Rightarrow> u64 option" where
  "cast_u64 x = (if -1 < x \<and> x < 2 ^ 64 then Some (word_of_int (trunc x)) else None)"

definition assertion_report :: "AssertionResult \<Rightarrow> AssertionReport" where
  "assertion_report a = \<lparr>rp_metric = ar_metric a, rp_op = compare_op_to_string (ar_op a), rp_threshold = ar_threshold a,
     rp_actual = ar_actual a, rp_found = ar_found a, rp_passed = ar_passed a\<rparr>"

definition sensor_metrics :: "MetricMap \<Rightarrow> string \<Rightarrow> SensorMetrics option" where
  "sensor_metrics metrics s = do {
     gaps \<leftarrow> cast_u64 (metric_or metrics (s @ ''_sequence_gaps''));
     received \<leftarrow> cast_u64 (metric_or metrics (s @ ''_received''));
     Some \<lparr>sm_msgs_sec = metric_or metrics (s @ ''_msgs_per_sec''), sm_drop_rate_pct = metric_or metrics (s @ ''_drop_rate_pct''),
       sm_latency_p50_ms = metric_or metrics (s @ ''_latency_p50_ms''), sm_latency_p99_ms = metric_or metrics (s @ ''_latency_p99_ms''),
       sm_latency_p999_ms = metric_or metrics (s @ ''_latency_p999_ms''), sm_sequence_gaps = gaps, sm_received = received\<rparr> }"

fun per_sensor_loop :: "MetricMap \<Rightarrow> string list \<Rightarrow> (string \<times> SensorMetrics) list \<Rightarrow> (string \<times> SensorMetrics) list option" where
  "per_sensor_loop metrics [] acc = Some acc"
| "per_sensor_loop metrics (s # ss) acc = do { sm \<leftarrow> sensor_metrics metrics s; per_sensor_loop metrics ss (put s sm acc) }"

definition transport_metrics :: "MetricMap \<Rightarrow> TransportMetrics option" where
  "transport_metrics metrics = do {
     crc \<leftarrow> cast_u64 (metric_or metrics ''transport_crc_failures'');
     gaps \<leftarrow> cast_u64 (metric_or metrics ''transport_sequence_gaps'');
     retransmits \<leftarrow> cast_u64 (metric_or metrics ''transport_retransmits'');
     Some \<lparr>tm_bytes_sec = metric_or metrics ''transport_bytes_sec'', tm_crc_failures = crc, tm_sequence_gaps = gaps,
       tm_retransmits = retransmits\<rparr> }"

definition build_report :: "string \<Rightarrow> ScenarioResult \<Rightarrow> MetricMap \<Rightarrow> string list \<Rightarrow> dbl \<Rightarrow> ScenarioReport option" where
  "build_report now result metrics streams duration_seconds = do {
     per_sensor \<leftarrow> per_sensor_loop metrics streams [];
     transport \<leftarrow> transport_metrics metrics;
     Some \<lparr>sp_scenario = sr_scenario_name result, sp_timestamp = now, sp_duration_seconds = duration_seconds,
       sp_passed = sr_passed result, sp_assertions = map assertion_report (sr_assertions result), sp_per_sensor = per_sensor,
       sp_transport = transport, sp_latency_histograms = [], sp_replay_recovery_ms = metric_or metrics ''replay_recovery_ms''\<rparr> }"

subsection \<open>JSON\<close>

datatype Json = JString string | JDouble dbl | JUnsigned u64 | JBool bool | JArray "Json list" | JObject "(string \<times> Json) list"

text \<open>An initialiser list of key and value pairs; the members of an object are kept sorted.\<close>

definition json_object :: "(string \<times> Json) list \<Rightarrow> Json" where
  "json_object kvs = JObject (fold (\<lambda>(k, v). put k v) kvs [])"

definition verdict :: "bool \<Rightarrow> string" where
  "verdict passed = (if passed then ''PASS'' else ''FAIL'')"

definition assertion_json :: "AssertionReport \<Rightarrow> Json" where
  "assertion_json a = json_object [(''metric'', JString (rp_metric a)), (''operator'', JString (rp_op a)),
     (''threshold'', JDouble (rp_threshold a)), (''actual'', JDouble (rp_actual a)), (''found'', JBool (rp_found a)),
     (''result'', JString (verdict (rp_passed a)))]"

definition sensor_json :: "SensorMetrics \<Rightarrow> Json" where
  "sensor_json s = json_object [(''msgs_sec'', JDouble (sm_msgs_sec s)), (''drop_rate_pct'', JDouble (sm_drop_rate_pct s)),
     (''latency_p50_ms'', JDouble (sm_latency_p50_ms s)), (''latency_p99_ms'', JDouble (sm_latency_p99_ms s)),
     (''latency_p999_ms'', JDouble (sm_latency_p999_ms s)), (''sequence_gaps'', JUnsigned (sm_sequence_gaps s)),
     (''received'', JUnsigned (sm_received s))]"

definition transport_json :: "TransportMetrics \<Rightarrow> Json" where
  "transport_json t = json_object [(''bytes_sec'', JDouble (tm_bytes_sec t)), (''crc_failures'', JUnsigned (tm_crc_failures t)),
     (''sequence_gaps'', JUnsigned (tm_sequence_gaps t)), (''retransmits'', JUnsigned (tm_retransmits t))]"

definition histogram_json :: "(dbl \<times> u64) list \<Rightarrow> Json" where
  "histogram_json buckets = JArray (map (\<lambda>(upper, count). json_object [(''le_ms'', JDouble upper), (''count'', JUnsigned count)]) buckets)"

definition to_json :: "ScenarioReport \<Rightarrow> Json" where
  "to_json r = json_object (
     [(''scenario'', JString (sp_scenario r)), (''timestamp'', JString (sp_timestamp r)),
      (''duration_seconds'', JDouble (sp_duration_seconds r)), (''result'', JString (verdict (sp_passed r))),
      (''assertions'', JArray (map assertion_json (sp_assertions r))),
      (''metrics'', json_object [(''per_sensor'', json_object (map (\<lambda>(name, s). (name, sensor_json s)) (sp_per_sensor r))),
         (''transport'', transport_json (sp_transport r))]),
      (''replay_recovery_ms'', JDouble (sp_replay_recovery_ms r))] @
     (if sp_latency_histograms r = [] then []
      else [(''latency_histograms'', json_object (map (\<lambda>(name, buckets). (name, histogram_json buckets)) (sp_latency_histograms r)))]))"

text \<open>Both writers: opening can fail, and so can writing.\<close>

definition write_report :: "bool \<Rightarrow> (string \<Rightarrow> bool) \<Rightarrow> string \<Rightarrow> bool \<times> string option" where
  "write_report open_ok stream_ok text = (if \<not> open_ok then (False, None) else (stream_ok text, Some text))"

subsection \<open>HTML\<close>

fun esc :: "string \<Rightarrow> string" where
  "esc [] = []"
| "esc (c # cs) = (if c = CHR ''&'' then ''&amp;'' else if c = CHR ''<'' then ''&lt;'' else if c = CHR ''>'' then ''&gt;''
     else if c = CHR 0x22 then ''&quot;'' else [c]) @ esc cs"

text \<open>Fixed notation with three decimals, rounded to nearest with ties to even.\<close>

definition fmt :: "dbl \<Rightarrow> string" where
  "fmt v = (let n = nat (round_even (\<bar>v\<bar> * 1000))
     in (if v < 0 then ''-'' else []) @ decimal (n div 1000) @ ''.'' @ pad_left 3 (CHR ''0'') (decimal (n mod 1000)))"

definition int_text :: "int \<Rightarrow> string" where
  "int_text n = (if n < 0 then ''-'' else []) @ decimal (nat \<bar>n\<bar>)"

definition max_p99 :: "ScenarioReport \<Rightarrow> dbl" where
  "max_p99 r = foldl (\<lambda>m (name, s). max m (sm_latency_p99_ms s)) 1 (sp_per_sensor r)"

definition bar_width :: "dbl \<Rightarrow> SensorMetrics \<Rightarrow> int" where
  "bar_width m s = trunc (fdiv (fmul 100 (sm_latency_p99_ms s)) m)"

definition html_head :: "ScenarioReport \<Rightarrow> string" where \<open>html_head r =
  ''<!doctype html><html lang="en"><head><meta charset="utf-8">'' @
  ''<meta name="viewport" content="width=device-width,initial-scale=1">'' @
  ''<title>SensorForge report - '' @ esc (sp_scenario r) @ ''</title><style>'' @
  ''body{font-family:-apple-system,Segoe UI,Roboto,sans-serif;margin:0;background:#0f1115;color:#e6e6e6}'' @
  ''.wrap{max-width:900px;margin:0 auto;padding:24px}'' @
  ''.banner{padding:16px 20px;border-radius:10px;color:#fff;font-weight:600;font-size:20px;background:'' @
  (if sp_passed r then ''#1b8a3a'' else ''#c0392b'') @ ''}'' @
  ''h1{font-size:22px;margin:8px 0}h2{font-size:16px;margin:24px 0 8px;color:#9fb0c0}'' @
  ''table{width:100%;border-collapse:collapse;font-size:14px;margin-top:6px}'' @
  ''th,td{text-align:left;padding:8px 10px;border-bottom:1px solid #232833}'' @
  ''th{color:#9fb0c0;font-weight:600}'' @
  ''.pass{color:#38d160}.fail{color:#ff6b6b}.muted{color:#8a94a3}'' @
  ''.bar{height:10px;background:#38d160;border-radius:3px}'' @
  ''</style></head><body><div class="wrap">''\<close>

definition html_banner :: "ScenarioReport \<Rightarrow> string" where \<open>html_banner r =
  ''<h1>SensorForge Scenario Report</h1>'' @
  ''<div class="banner">'' @ esc (sp_scenario r) @ '' &mdash; '' @ verdict (sp_passed r) @ ''</div>'' @
  ''<p class="muted">'' @ esc (sp_timestamp r) @ '' &middot; duration '' @ fmt (sp_duration_seconds r) @ '' s</p>''\<close>

definition html_assertion :: "AssertionReport \<Rightarrow> string" where \<open>html_assertion a =
  ''<tr><td>'' @ esc (rp_metric a) @ ''</td><td>'' @ esc (rp_op a) @ ''</td><td>'' @ fmt (rp_threshold a) @ ''</td><td>'' @
  (if rp_found a then fmt (rp_actual a) else ''&mdash;'') @ ''</td><td class="'' @
  (if rp_passed a then ''pass">PASS'' else ''fail">FAIL'') @ ''</td></tr>''\<close>

definition html_sensor :: "dbl \<Rightarrow> string \<times> SensorMetrics \<Rightarrow> string" where \<open>html_sensor m row = (case row of (name, s) \<Rightarrow>
  ''<tr><td>'' @ esc name @ ''</td><td>'' @ fmt (sm_msgs_sec s) @ ''</td><td>'' @ fmt (sm_drop_rate_pct s) @ ''</td><td>'' @
  fmt (sm_latency_p50_ms s) @ ''</td><td>'' @ fmt (sm_latency_p99_ms s) @ ''</td><td>'' @ decimal (unat (sm_sequence_gaps s)) @
  ''</td>'' @ ''<td><div class="bar" style="width:'' @ int_text (bar_width m s) @ ''%"></div></td></tr>'')\<close>

definition html_transport :: "TransportMetrics \<Rightarrow> string" where \<open>html_transport t =
  ''<h2>Transport</h2><table>'' @
  ''<tr><th>bytes/s</th><th>CRC failures</th><th>sequence gaps</th><th>retransmits</th></tr><tr><td>'' @
  fmt (tm_bytes_sec t) @ ''</td><td>'' @ decimal (unat (tm_crc_failures t)) @ ''</td><td>'' @
  decimal (unat (tm_sequence_gaps t)) @ ''</td><td>'' @ decimal (unat (tm_retransmits t)) @ ''</td></tr></table>''\<close>

definition to_html :: "ScenarioReport \<Rightarrow> string" where \<open>to_html r =
  html_head r @ html_banner r @
  ''<h2>Assertions</h2><table><tr><th>Metric</th><th>Operator</th>'' @ ''<th>Threshold</th><th>Actual</th><th>Result</th></tr>'' @
  concat (map html_assertion (sp_assertions r)) @ ''</table>'' @
  ''<h2>Per-sensor metrics</h2><table><tr><th>Sensor</th><th>msgs/s</th>'' @
  ''<th>drop %</th><th>p50 ms</th><th>p99 ms</th><th>gaps</th><th>p99 latency</th></tr>'' @
  concat (map (html_sensor (max_p99 r)) (sp_per_sensor r)) @ ''</table>'' @
  html_transport (sp_transport r) @ ''</div></body></html>''\<close>

subsection \<open>Writing at the end of a scenario (scenario\_runner.cpp)\<close>

text \<open>The files that \<^verbatim>\<open>finish\<close> writes, with their contents.\<close>

definition finish_reports :: "(Json \<Rightarrow> string) \<Rightarrow> string \<Rightarrow> ScenarioResult \<Rightarrow> MetricMap \<Rightarrow> 'g ScenarioRunner \<Rightarrow> (string \<times> string) list option" where
  "finish_reports dump now result metrics r =
     (if ru_report_dir r = [] then Some []
      else do {
        let sn = ru_scenario r;
        rep \<leftarrow> build_report now result metrics (map sc_name (sn_streams sn)) (sn_duration_seconds sn);
        let base = ru_report_dir r @ ''/'' @ sn_name sn;
        Some [(base @ ''.json'', dump (to_json rep)), (base @ ''.html'', to_html rep)] })"

subsection \<open>Text in the page\<close>

text \<open>What a browser makes of the four character references.\<close>

fun unesc :: "string \<Rightarrow> string" where
  "unesc [] = []"
| "unesc (c # cs) =
     (if c \<noteq> CHR ''&'' then c # unesc cs
      else if take 4 cs = ''amp;'' then CHR ''&'' # unesc (drop 4 cs)
      else if take 3 cs = ''lt;'' then CHR ''<'' # unesc (drop 3 cs)
      else if take 3 cs = ''gt;'' then CHR ''>'' # unesc (drop 3 cs)
      else if take 5 cs = ''quot;'' then CHR 0x22 # unesc (drop 5 cs)
      else c # unesc cs)"

lemma unesc_esc: "unesc (esc s) = s"
  by (induction s) simp_all

lemma esc_no_markup: "set (esc s) \<inter> {CHR ''<'', CHR ''>'', CHR 0x22} = {}"
  by (induction s) auto

text \<open>Text put into the page shows as itself and cannot open or close a tag or end an attribute.\<close>

theorem html_text_safe:
  "unesc (esc s) = s \<and> set (esc s) \<inter> {CHR ''<'', CHR ''>'', CHR 0x22} = {}"
  using unesc_esc esc_no_markup by blast

subsection \<open>Bars\<close>

lemma rnd64_relative:
  assumes "1 \<le> x"
  shows "rnd64 x \<le> x * (1 + 1 / 2 ^ 53)"
proof -
  let ?u = "2 powi ulp_exp x :: real"
  have "0 \<le> log 2 x" using assms by simp
  then have e: "- 1074 < ulp_exp x" using assms unfolding ulp_exp_def by linarith
  have u: "0 < ?u" by simp
  have "2 powi (ulp_exp x + 52) \<le> x" using ulp_exp_lower [OF _ e] assms by simp
  then have u52: "?u * 2 ^ 52 \<le> x" by (simp add: power_int_add)
  have "of_int (round_even (x / ?u)) \<le> x / ?u + 1 / 2" using round_even_near [of "x / ?u"] by linarith
  then have "of_int (round_even (x / ?u)) * ?u \<le> (x / ?u + 1 / 2) * ?u" using u by (intro mult_right_mono) auto
  also have "\<dots> = x + ?u / 2" using u by (simp add: field_simps)
  also have "\<dots> \<le> x * (1 + 1 / 2 ^ 53)" using u52 by (simp add: field_simps)
  finally show ?thesis using assms by (simp add: rnd64_def)
qed

lemma bar_width_bounds:
  assumes "1 \<le> m" "0 \<le> sm_latency_p99_ms s" "sm_latency_p99_ms s \<le> m"
  shows "0 \<le> bar_width m s \<and> bar_width m s \<le> 100"
proof -
  let ?p = "fmul 100 (sm_latency_p99_ms s)"
  have p0: "0 \<le> ?p" using assms by (auto simp: fmul_def intro: rnd64_nonneg)
  have "?p \<le> rnd64 (100 * m)" unfolding fmul_def using assms by (intro rnd64_mono) auto
  also have "\<dots> \<le> 100 * m * (1 + 1 / 2 ^ 53)" using assms by (intro rnd64_relative) simp
  finally have "?p / m \<le> 100 * (1 + 1 / 2 ^ 53)" using assms(1) by (simp add: field_simps)
  then have "fdiv ?p m \<le> rnd64 (100 * (1 + 1 / 2 ^ 53))"
    unfolding fdiv_def using p0 assms(1) by (intro rnd64_mono) auto
  also have "\<dots> \<le> 100 * (1 + 1 / 2 ^ 53) * (1 + 1 / 2 ^ 53)" by (rule rnd64_relative) simp
  also have "\<dots> < 101" by simp
  finally have "fdiv ?p m < 101" .
  moreover have "0 \<le> fdiv ?p m" using p0 assms(1) by (auto intro: fdiv_nonneg)
  ultimately show ?thesis by (simp add: bar_width_def trunc_def floor_le_iff)
qed

lemma fold_max_bounds:
  "m \<le> foldl (\<lambda>m (name, s). max m (sm_latency_p99_ms s)) m rows"
  "(n, s) \<in> set rows \<Longrightarrow> sm_latency_p99_ms s \<le> foldl (\<lambda>m (name, s). max m (sm_latency_p99_ms s)) m rows"
proof (induction rows arbitrary: m)
  case (Cons row rows)
  obtain n' s' where row: "row = (n', s')" by force
  { case 1 show ?case using Cons.IH(1) [of "max m (sm_latency_p99_ms s')"] row by simp }
  { case 2 show ?case using Cons.IH(1) [of "max m (sm_latency_p99_ms s')"] Cons.IH(2) [of "max m (sm_latency_p99_ms s')"] 2 row by auto }
qed simp_all

text \<open>The bars of the page fit: with latencies that are not negative every bar is between 0 and 100 percent wide,
  whatever the rounding of the quotient.\<close>

theorem bars_fit:
  assumes "(name, s) \<in> set (sp_per_sensor r)" "0 \<le> sm_latency_p99_ms s"
  shows "0 \<le> bar_width (max_p99 r) s \<and> bar_width (max_p99 r) s \<le> 100"
  by (rule bar_width_bounds) (use assms fold_max_bounds in \<open>auto simp: max_p99_def\<close>)

theorem bars_fit_witness:
  "let s = \<lparr>sm_msgs_sec = 1, sm_drop_rate_pct = 0, sm_latency_p50_ms = 2, sm_latency_p99_ms = 3, sm_latency_p999_ms = 4,
       sm_sequence_gaps = 0, sm_received = 9\<rparr>;
     r = \<lparr>sp_scenario = ''demo'', sp_timestamp = [], sp_duration_seconds = 9, sp_passed = True, sp_assertions = [],
       sp_per_sensor = [(''imu'', s)], sp_transport = \<lparr>tm_bytes_sec = 0, tm_crc_failures = 0, tm_sequence_gaps = 0, tm_retransmits = 0\<rparr>,
       sp_latency_histograms = [], sp_replay_recovery_ms = 0\<rparr>
   in max_p99 r = 3 \<and> 0 \<le> bar_width (max_p99 r) s \<and> bar_width (max_p99 r) s \<le> 100"
  unfolding Let_def by (intro conjI bars_fit [THEN conjunct1] bars_fit [THEN conjunct2]) (auto simp: max_p99_def)

subsection \<open>What a report says\<close>

definition counts_ok :: "StreamMetrics \<Rightarrow> bool" where
  "counts_ok m \<longleftrightarrow> length (mt_latencies_ms m) < 2 ^ 53 \<and> uint (mt_received m) < 2 ^ 53 \<and> uint (mt_sequence_gaps m) < 2 ^ 53"

text \<open>The row of a stream.\<close>

definition sensor_row :: "StreamMetrics \<Rightarrow> SensorMetrics \<Rightarrow> bool" where
  "sensor_row m s \<longleftrightarrow> sm_msgs_sec s = msgs_per_sec m \<and> sm_drop_rate_pct s = drop_rate_pct m \<and>
     pct p50 m = Some (sm_latency_p50_ms s) \<and> pct p99 m = Some (sm_latency_p99_ms s) \<and> pct p999 m = Some (sm_latency_p999_ms s) \<and>
     sm_sequence_gaps s = mt_sequence_gaps m \<and> sm_received s = mt_received m"

lemma cast_u64_integer:
  assumes "uint w < 2 ^ 53"
  shows "cast_u64 (of_integer (uint (w :: u64))) = Some w"
proof -
  have e: "of_integer (uint w) = of_int (uint w)" using assms by (intro of_integer_exact) simp
  have "real_of_int (uint w) < real_of_int (2 ^ 64)" using assms by (subst of_int_less_iff) simp
  moreover have "0 \<le> real_of_int (uint w)" by (subst of_int_0_le_iff) simp
  then have "- 1 < real_of_int (uint w)" by linarith
  ultimately show ?thesis unfolding e cast_u64_def trunc_int word_of_int_uint by (simp del: of_int_uint)
qed

lemma sensor_metrics_row:
  assumes "counts_ok m" "metrics_emit m Map.empty = Some w" "w \<subseteq>\<^sub>m metrics"
  shows "\<exists>s. sensor_metrics metrics (mt_name m) = Some s \<and> sensor_row m s"
proof -
  obtain a b c where abc: "pct p50 m = Some a" "pct p99 m = Some b" "pct p999 m = Some c"
    using metrics_emit_value [of m] assms(1) by (auto simp: counts_ok_def)
  have get: "metric_or metrics k = v" if "w k = Some v" for k v
    using that assms(3) by (auto simp: metric_or_def map_le_def dom_def split: option.split)
  have w: "w (mt_name m @ ''_msgs_per_sec'') = Some (msgs_per_sec m)" "w (mt_name m @ ''_drop_rate_pct'') = Some (drop_rate_pct m)"
    "w (mt_name m @ ''_latency_p50_ms'') = Some a" "w (mt_name m @ ''_latency_p99_ms'') = Some b" "w (mt_name m @ ''_latency_p999_ms'') = Some c"
    "w (mt_name m @ ''_sequence_gaps'') = Some (of_integer (uint (mt_sequence_gaps m)))"
    "w (mt_name m @ ''_received'') = Some (of_integer (uint (mt_received m)))"
    using assms(2) by (auto simp: metrics_emit_def abc Let_def)
  show ?thesis
    using assms(1) abc by (simp add: sensor_metrics_def get [OF w(1)] get [OF w(2)] get [OF w(3)] get [OF w(4)] get [OF w(5)]
        get [OF w(6)] get [OF w(7)] cast_u64_integer counts_ok_def sensor_row_def)
qed

lemma per_sensor_loop_rows:
  assumes "map_ok acc" "list_all (\<lambda>n. sensor_metrics metrics n \<noteq> None) ns"
  shows "\<exists>rows. per_sensor_loop metrics ns acc = Some rows \<and> map_ok rows \<and>
    map_of rows = (\<lambda>n. if n \<in> set ns then sensor_metrics metrics n else map_of acc n)"
  using assms
proof (induction ns arbitrary: acc)
  case (Cons n ns)
  then obtain sm where sm: "sensor_metrics metrics n = Some sm" by auto
  obtain rows where "per_sensor_loop metrics ns (put n sm acc) = Some rows" "map_ok rows"
    "map_of rows = (\<lambda>k. if k \<in> set ns then sensor_metrics metrics k else map_of (put n sm acc) k)"
    using Cons.IH [of "put n sm acc"] Cons.prems by (auto simp: put_ok)
  with sm Cons.prems(1) show ?case by (auto simp: lookup_put)
qed simp

definition no_transport :: TransportMetrics where
  "no_transport = \<lparr>tm_bytes_sec = 0, tm_crc_failures = 0, tm_sequence_gaps = 0, tm_retransmits = 0\<rparr>"

lemma transport_absent:
  assumes "dom metrics \<subseteq> (\<Union>n\<in>ns. (\<lambda>s. n @ s) ` set metric_suffixes)" "''transport'' \<notin> ns"
  shows "transport_metrics metrics = Some no_transport"
proof -
  have absent: "metrics k = None" if "k \<notin> (\<Union>n\<in>ns. (\<lambda>s. n @ s) ` set metric_suffixes)" for k
    using that assms(1) by blast
  have g: "metrics ''transport_sequence_gaps'' = None"
  proof (rule absent, safe)
    fix n sfx assume "''transport_sequence_gaps'' = n @ sfx" "sfx \<in> set metric_suffixes" "n \<in> ns"
    then have "''transport'' = n" by (intro metric_names_apart [of _ "''_sequence_gaps''" n sfx]) (simp_all add: metric_suffixes_def)
    with \<open>n \<in> ns\<close> assms(2) show False by simp
  qed
  have other: "metrics k = None" if "list_all (\<lambda>sfx. take (length sfx) (rev k) \<noteq> rev sfx) metric_suffixes" for k
  proof (rule absent, safe)
    fix n sfx assume k: "k = n @ sfx" "sfx \<in> set metric_suffixes"
    then show False using that by (auto simp: list_all_iff)
  qed
  have "metrics ''transport_crc_failures'' = None" "metrics ''transport_retransmits'' = None" "metrics ''transport_bytes_sec'' = None"
    by (rule other, simp add: metric_suffixes_def)+
  then show ?thesis using g by (simp add: transport_metrics_def metric_or_def cast_u64_def trunc_def no_transport_def)
qed

lemma report_built:
  assumes "list_all counts_ok ms" "distinct (map mt_name ms)" "emit_all ms Map.empty = Some metrics" "''transport'' \<notin> set (map mt_name ms)"
  shows "\<exists>rep. build_report now result metrics (map mt_name ms) duration = Some rep \<and> sp_passed rep = sr_passed result \<and>
    map rp_passed (sp_assertions rep) = map ar_passed (sr_assertions result) \<and>
    dom (map_of (sp_per_sensor rep)) = set (map mt_name ms) \<and>
    (\<forall>m\<in>set ms. \<exists>s. map_of (sp_per_sensor rep) (mt_name m) = Some s \<and> sensor_row m s) \<and> sp_transport rep = no_transport"
proof -
  have "list_all (\<lambda>m. length (mt_latencies_ms m) < 2 ^ 53) ms" using assms(1) by (auto simp: list_all_iff counts_ok_def)
  from emit_all_correct [OF this assms(2)] assms(3)
  have m: "dom metrics \<subseteq> (\<Union>m\<in>set ms. (\<lambda>s. mt_name m @ s) ` set metric_suffixes)"
    "\<forall>m\<in>set ms. \<exists>w. metrics_emit m Map.empty = Some w \<and> w \<subseteq>\<^sub>m metrics"
    by auto
  have rows: "\<forall>m\<in>set ms. \<exists>s. sensor_metrics metrics (mt_name m) = Some s \<and> sensor_row m s"
    using sensor_metrics_row m(2) assms(1) by (fastforce simp: list_all_iff)
  then have "list_all (\<lambda>n. sensor_metrics metrics n \<noteq> None) (map mt_name ms)" by (fastforce simp: list_all_iff)
  then obtain table where t: "per_sensor_loop metrics (map mt_name ms) [] = Some table"
    "map_of table = (\<lambda>n. if n \<in> set (map mt_name ms) then sensor_metrics metrics n else None)"
    using per_sensor_loop_rows [of "[]" metrics "map mt_name ms"] unfolding map_of.simps by auto
  have "dom (map_of table) = set (map mt_name ms)" using rows unfolding t(2) by (auto simp: dom_def split: if_splits)
  moreover have "\<forall>m\<in>set ms. \<exists>s. map_of table (mt_name m) = Some s \<and> sensor_row m s" using rows unfolding t(2) by auto
  moreover have "transport_metrics metrics = Some no_transport"
    using transport_absent [of metrics "set (map mt_name ms)"] m(1) assms(4) by simp
  ultimately show ?thesis using t(1) by (simp add: build_report_def assertion_report_def comp_def)
qed

text \<open>From the emissions of distinctly named streams with fewer than \<open>2 ^ 53\<close> samples and gaps, a report is always
  built: no conversion is undefined, its verdict is the verdict of the scenario, it has one entry per
  assertion and exactly one row per stream with that stream's own figures. No stream but one called \<^verbatim>\<open>transport\<close>
  can fill the transport section, so that it stays zero.\<close>

theorem report_complete:
  assumes "list_all counts_ok ms" "distinct (map mt_name ms)" "emit_all ms Map.empty = Some metrics" "''transport'' \<notin> set (map mt_name ms)"
  shows "\<exists>rep. build_report now result metrics (map mt_name ms) duration = Some rep \<and> sp_passed rep = sr_passed result \<and>
    map rp_passed (sp_assertions rep) = map ar_passed (sr_assertions result) \<and>
    dom (map_of (sp_per_sensor rep)) = set (map mt_name ms) \<and>
    (\<forall>m\<in>set ms. \<exists>s. map_of (sp_per_sensor rep) (mt_name m) = Some s \<and> sensor_row m s) \<and> sp_transport rep = no_transport"
  by (rule report_built [OF assms])

theorem report_complete_witness:
  "\<exists>metrics rep s. emit_all [record_arrival 7 1 False (StreamMetrics_new ''imu'' 100 10)] Map.empty = Some metrics \<and>
     build_report ''now'' (evaluate_all ''demo'' [] metrics) metrics [''imu''] 10 = Some rep \<and> sp_passed rep \<and>
     map_of (sp_per_sensor rep) ''imu'' = Some s \<and> sm_received s = 1"
proof -
  let ?m = "record_arrival 7 1 False (StreamMetrics_new ''imu'' 100 10)"
  have c: "counts_ok ?m" "mt_name ?m = ''imu''" "mt_received ?m = 1" by (simp_all add: counts_ok_def StreamMetrics_new_def)
  then obtain metrics where m: "emit_all [?m] Map.empty = Some metrics"
    using emit_all_correct [of "[?m]"] by (auto simp: counts_ok_def)
  from report_complete [OF _ _ m, of "''now''" "evaluate_all ''demo'' [] metrics" 10] c m show ?thesis
    by (auto simp: sensor_row_def evaluate_all_def)
qed

end
