(* ===== verification/C_Library.thy ===== *)
theory C_Library
  imports Segment_Name Fp64
begin

text \<open>
  Functions of the C library that the command-line programs use: the conversion of decimal text and the conversions
  of \<^verbatim>\<open>printf\<close> that occur in their output. A \<^verbatim>\<open>double\<close> is printed from its exact value, rounded to the requested
  number of places, ties to even.
\<close>

subsection \<open>Reading numbers\<close>

definition isspace :: "char \<Rightarrow> bool" where
  "isspace c \<longleftrightarrow> c = CHR '' '' \<or> (9 \<le> (of_char c :: nat) \<and> (of_char c :: nat) \<le> 13)"

definition is_digit :: "char \<Rightarrow> bool" where
  "is_digit c \<longleftrightarrow> (48 :: nat) \<le> of_char c \<and> of_char c \<le> (57 :: nat)"

text \<open>\<^verbatim>\<open>std::atoi\<close>, undefined when the value does not fit an \<^verbatim>\<open>int\<close>.\<close>

definition atoi :: "string \<Rightarrow> int option" where
  "atoi s =
     (let s = dropWhile isspace s;
          neg = (s \<noteq> [] \<and> hd s = CHR ''-'');
          s = (if s \<noteq> [] \<and> (hd s = CHR ''-'' \<or> hd s = CHR ''+'') then tl s else s);
          v = int (digits_value 0 (takeWhile is_digit s));
          v = (if neg then - v else v)
      in if - (2 ^ 31) \<le> v \<and> v < 2 ^ 31 then Some v else None)"

subsection \<open>Printing\<close>

text \<open>\<^verbatim>\<open>%-24s\<close> and the like.\<close>

definition pad_right :: "nat \<Rightarrow> string \<Rightarrow> string" where
  "pad_right w s = s @ replicate (w - length s) (CHR '' '')"

text \<open>\<^verbatim>\<open>%.0f\<close> and \<^verbatim>\<open>%.<n>f\<close>.\<close>

definition print_fixed :: "nat \<Rightarrow> dbl \<Rightarrow> string" where
  "print_fixed places x =
     (let v = round_even (\<bar>x\<bar> * 10 ^ places); n = nat v
      in (if x < 0 then ''-'' else []) @ decimal (n div 10 ^ places) @
         (if places = 0 then [] else ''.'' @ pad_left places (CHR ''0'') (decimal (n mod 10 ^ places))))"

lemma atoi_digits:
  assumes "s \<noteq> []" and "list_all is_digit s" and "digits_value 0 s < 2 ^ 31"
  shows "atoi s = Some (int (digits_value 0 s))"
proof -
  have h: "is_digit (hd s)" using assms(1,2) by (cases s) simp_all
  then have "\<not> isspace (hd s)" "hd s \<noteq> CHR ''-''" "hd s \<noteq> CHR ''+''"
    by (auto simp: isspace_def is_digit_def)
  moreover have "dropWhile isspace s = s" using calculation(1) assms(1) by (cases s) simp_all
  moreover have "takeWhile is_digit s = s" using assms(2) by (induction s) simp_all
  ultimately show ?thesis using assms(1,3) by (simp add: atoi_def Let_def del: dropWhile_eq_self_iff takeWhile_eq_all_conv)
qed

end
