(* ===== verification/Parallel_Run.thy ===== *)
theory Parallel_Run
  imports Report C_Library
begin

text \<open>
  The two executables that run scenarios (\<^verbatim>\<open>scenario/scenario_main.cpp\<close>, \<^verbatim>\<open>scenario/parallel_runner.cpp\<close>) with the
  namespaces, ports and the aggregation of results they use (\<^verbatim>\<open>scenario/namespace_manager.hpp\<close>). What happens while the
  executor spins is a parameter, as are the YAML library, the processes and the clock.
\<close>

subsection \<open>Namespaces and aggregation\<close>

record NamespaceManager =
  nm_prefix :: string
  nm_base_port :: u16
  nm_counter :: u64

definition NamespaceManager_new :: "string \<Rightarrow> u16 \<Rightarrow> NamespaceManager" where
  "NamespaceManager_new prefix base_port = \<lparr>nm_prefix = prefix, nm_base_port = base_port, nm_counter = 0\<rparr>"

definition next_namespace :: "NamespaceManager \<Rightarrow> string \<times> NamespaceManager" where
  "next_namespace m = (nm_prefix m @ ''_'' @ decimal (unat (nm_counter m)), m\<lparr>nm_counter := nm_counter m + 1\<rparr>)"

text \<open>The sum is computed in \<^verbatim>\<open>size_t\<close> and then narrowed.\<close>

definition metrics_port :: "NamespaceManager \<Rightarrow> u64 \<Rightarrow> u16" where
  "metrics_port m index = (if nm_base_port m = 0 then 0 else ucast (ucast (nm_base_port m) + index))"

record AggregateResult =
  ag_total_scenarios :: u64
  ag_scenarios_passed :: u64
  ag_scenarios_failed :: u64
  ag_total_assertions :: u64
  ag_assertions_passed :: u64
  ag_per_scenario :: "(string \<times> bool) list"

definition AggregateResult_init :: AggregateResult where
  "AggregateResult_init = \<lparr>ag_total_scenarios = 0, ag_scenarios_passed = 0, ag_scenarios_failed = 0, ag_total_assertions = 0,
     ag_assertions_passed = 0, ag_per_scenario = []\<rparr>"

definition all_passed :: "AggregateResult \<Rightarrow> bool" where
  "all_passed agg \<longleftrightarrow> ag_scenarios_failed agg = 0 \<and> ag_total_scenarios agg > 0"

definition aggregate_assertion :: "AssertionResult \<Rightarrow> AggregateResult \<Rightarrow> AggregateResult" where
  "aggregate_assertion a agg = (if ar_passed a then agg\<lparr>ag_assertions_passed := ag_assertions_passed agg + 1\<rparr> else agg)"

definition aggregate_step :: "ScenarioResult \<Rightarrow> AggregateResult \<Rightarrow> AggregateResult" where
  "aggregate_step r agg =
     (let agg = (if sr_passed r then agg\<lparr>ag_scenarios_passed := ag_scenarios_passed agg + 1\<rparr>
                 else agg\<lparr>ag_scenarios_failed := ag_scenarios_failed agg + 1\<rparr>);
          agg = agg\<lparr>ag_total_assertions := ag_total_assertions agg + word_of_nat (length (sr_assertions r))\<rparr>;
          agg = fold aggregate_assertion (sr_assertions r) agg
      in agg\<lparr>ag_per_scenario := ag_per_scenario agg @ [(sr_scenario_name r, sr_passed r)]\<rparr>)"

definition aggregate :: "ScenarioResult list \<Rightarrow> AggregateResult" where
  "aggregate results = fold aggregate_step results (AggregateResult_init\<lparr>ag_total_scenarios := word_of_nat (length results)\<rparr>)"

subsection \<open>Arguments\<close>

record MainArgs =
  ma_scenario_path :: string
  ma_ns :: string
  ma_report_dir :: string
  ma_metrics_port :: u16

fun main_args :: "string list \<Rightarrow> MainArgs \<Rightarrow> MainArgs option" where
  "main_args (a # v # rest) opt =
     (if a = ''--scenario'' then main_args rest (opt\<lparr>ma_scenario_path := v\<rparr>)
      else if a = ''--ns'' then main_args rest (opt\<lparr>ma_ns := v\<rparr>)
      else if a = ''--report-dir'' then main_args rest (opt\<lparr>ma_report_dir := v\<rparr>)
      else if a = ''--metrics-port'' then do { n \<leftarrow> atoi v; main_args rest (opt\<lparr>ma_metrics_port := word_of_int n\<rparr>) }
      else main_args (v # rest) opt)"
| "main_args [a] opt = Some opt"
| "main_args [] opt = Some opt"

record ParallelArgs =
  pa_scenario_paths :: "string list"
  pa_report_dir :: string
  pa_metrics_base_port :: u16
  pa_count :: int

fun parallel_args :: "string list \<Rightarrow> ParallelArgs \<Rightarrow> ParallelArgs option" where
  "parallel_args (a # v # rest) opt =
     (if a = ''--scenario'' then parallel_args rest (opt\<lparr>pa_scenario_paths := pa_scenario_paths opt @ [v]\<rparr>)
      else if a = ''--report-dir'' then parallel_args rest (opt\<lparr>pa_report_dir := v\<rparr>)
      else if a = ''--metrics-base-port'' then do { n \<leftarrow> atoi v; parallel_args rest (opt\<lparr>pa_metrics_base_port := word_of_int n\<rparr>) }
      else if a = ''--count'' then do { n \<leftarrow> atoi v; parallel_args rest (opt\<lparr>pa_count := max 1 n\<rparr>) }
      else parallel_args (v # rest) opt)"
| "parallel_args [a] opt = Some opt"
| "parallel_args [] opt = Some opt"

subsection \<open>One scenario\<close>

text \<open>The surroundings of a run; \<open>wo_spin\<close> is what the executor makes of a runner until the deadline.\<close>

record ('n, 'g) World =
  wo_load :: "string \<Rightarrow> cpp_exception + 'n"
  wo_yaml :: "'n Yaml"
  wo_random :: 'g
  wo_spawn :: "string list \<Rightarrow> int option"
  wo_to_str :: "dbl \<Rightarrow> string"
  wo_exporter_ok :: bool
  wo_repr :: Double_repr
  wo_polls :: "(int \<Rightarrow> int) list"
  wo_dump :: "Json \<Rightarrow> string"
  wo_now :: string
  wo_spin :: "dbl \<Rightarrow> 'g ScenarioRunner \<Rightarrow> 'g ScenarioRunner"

definition configure :: "string \<Rightarrow> u16 \<Rightarrow> 'g ScenarioRunner \<Rightarrow> 'g ScenarioRunner" where
  "configure report_dir port r =
     (let r = (if report_dir \<noteq> [] then set_report_dir report_dir r else r)
      in if port \<noteq> 0 then set_metrics_port port r else r)"

definition world_start :: "('n, 'g) World \<Rightarrow> 'g ScenarioRunner \<Rightarrow> 'g ScenarioRunner" where
  "world_start W r = runner_start (wo_random W) (wo_spawn W) (wo_to_str W) (wo_exporter_ok W) r"

definition world_finish :: "('n, 'g) World \<Rightarrow> 'g ScenarioRunner \<Rightarrow> (ScenarioResult \<times> (string \<times> string) list) option" where
  "world_finish W r = do {
     (result, metrics, r) \<leftarrow> runner_finish (wo_repr W) (wo_polls W) r;
     files \<leftarrow> finish_reports (wo_dump W) (wo_now W) result metrics r;
     Some (result, files) }"

text \<open>The exit status and the files written.\<close>

definition main_defaults :: MainArgs where
  "main_defaults = \<lparr>ma_scenario_path = [], ma_ns = ''/scenario'', ma_report_dir = [], ma_metrics_port = 0\<rparr>"

definition scenario_main :: "('n, 'g) World \<Rightarrow> string list \<Rightarrow> (int \<times> (string \<times> string) list) option" where
  "scenario_main W args = do {
     opt \<leftarrow> main_args args main_defaults;
     if ma_scenario_path opt = [] then Some (2, [])
     else case parse_scenario (wo_load W) (wo_yaml W) (ma_scenario_path opt) of
       Inl e \<Rightarrow> Some (2, [])
     | Inr sn \<Rightarrow> do {
         let r = configure (ma_report_dir opt) (ma_metrics_port opt) (ScenarioRunner_new sn (ma_ns opt));
         let r = wo_spin W (sn_duration_seconds sn) (world_start W r);
         (result, files) \<leftarrow> world_finish W r;
         Some (if sr_passed result then 0 else 1, files) } }"

subsection \<open>Many scenarios\<close>

record 'g Fleet =
  fl_ns_mgr :: NamespaceManager
  fl_runners :: "'g ScenarioRunner list"
  fl_max_duration :: dbl

definition add_runner :: "string \<Rightarrow> Scenario \<Rightarrow> 'g Fleet \<Rightarrow> 'g Fleet" where
  "add_runner report_dir s fl =
     (let idx = length (fl_runners fl);
          (ns, mgr) = next_namespace (fl_ns_mgr fl);
          port = metrics_port mgr (word_of_nat idx);
          runner = configure report_dir port (ScenarioRunner_new s ns)
      in fl\<lparr>fl_ns_mgr := mgr, fl_runners := fl_runners fl @ [runner], fl_max_duration := max (fl_max_duration fl) (sn_duration_seconds s)\<rparr>)"

fun build_runners :: "('n, 'g) World \<Rightarrow> string \<Rightarrow> string list \<Rightarrow> 'g Fleet \<Rightarrow> cpp_exception + 'g Fleet" where
  "build_runners W report_dir [] fl = Inr fl"
| "build_runners W report_dir (path # paths) fl =
     bindE (parse_scenario (wo_load W) (wo_yaml W) path) (\<lambda>s. build_runners W report_dir paths (add_runner report_dir s fl))"

fun finish_all :: "('n, 'g) World \<Rightarrow> 'g ScenarioRunner list \<Rightarrow> (ScenarioResult list \<times> (string \<times> string) list) option" where
  "finish_all W [] = Some ([], [])"
| "finish_all W (r # rs) = do {
     (result, files) \<leftarrow> world_finish W r;
     (results, more) \<leftarrow> finish_all W rs;
     Some (result # results, files @ more) }"

definition new_fleet :: "u16 \<Rightarrow> 'g Fleet" where
  "new_fleet base_port = \<lparr>fl_ns_mgr = NamespaceManager_new ''/scenario'' base_port, fl_runners = [], fl_max_duration = 0\<rparr>"

definition parallel_main :: "('n, 'g) World \<Rightarrow> string list \<Rightarrow> (int \<times> AggregateResult \<times> (string \<times> string) list) option" where
  "parallel_main W args = do {
     opt \<leftarrow> parallel_args args \<lparr>pa_scenario_paths = [], pa_report_dir = [], pa_metrics_base_port = 0, pa_count = 1\<rparr>;
     if pa_scenario_paths opt = [] then Some (2, AggregateResult_init, [])
     else case build_runners W (pa_report_dir opt) (concat (replicate (nat (pa_count opt)) (pa_scenario_paths opt)))
            (new_fleet (pa_metrics_base_port opt)) of
       Inl e \<Rightarrow> Some (2, AggregateResult_init, [])
     | Inr fl \<Rightarrow> do {
         let runners = map (\<lambda>r. wo_spin W (fl_max_duration fl) (world_start W r)) (fl_runners fl);
         (results, files) \<leftarrow> finish_all W runners;
         let agg = aggregate results;
         Some (if all_passed agg then 0 else 1, agg, files) } }"

subsection \<open>Aggregates\<close>

lemma fold_aggregate_assertion:
  "fold aggregate_assertion as agg = agg\<lparr>ag_assertions_passed := ag_assertions_passed agg + word_of_nat (length (filter ar_passed as))\<rparr>"
  by (induction as arbitrary: agg) (simp_all add: aggregate_assertion_def add.assoc)

lemma fold_aggregate_step:
  "fold aggregate_step rs agg = agg\<lparr>
     ag_scenarios_passed := ag_scenarios_passed agg + word_of_nat (length (filter sr_passed rs)),
     ag_scenarios_failed := ag_scenarios_failed agg + word_of_nat (length (filter (Not \<circ> sr_passed) rs)),
     ag_total_assertions := ag_total_assertions agg + word_of_nat (sum_list (map (length \<circ> sr_assertions) rs)),
     ag_assertions_passed := ag_assertions_passed agg + word_of_nat (sum_list (map (length \<circ> filter ar_passed \<circ> sr_assertions) rs)),
     ag_per_scenario := ag_per_scenario agg @ map (\<lambda>r. (sr_scenario_name r, sr_passed r)) rs\<rparr>"
  by (induction rs arbitrary: agg) (simp_all add: aggregate_step_def fold_aggregate_assertion Let_def add.assoc)

lemma unat_small: "n < 2 ^ 64 \<Longrightarrow> unat (word_of_nat n :: u64) = n"
  by (simp add: unsigned_of_nat take_bit_nat_eq_self)

lemma aggregate_counts:
  assumes "length rs < 2 ^ 64" "sum_list (map (length \<circ> sr_assertions) rs) < 2 ^ 64"
  shows "unat (ag_total_scenarios (aggregate rs)) = length rs"
    "unat (ag_scenarios_passed (aggregate rs)) = length (filter sr_passed rs)"
    "unat (ag_scenarios_failed (aggregate rs)) = length (filter (Not \<circ> sr_passed) rs)"
    "unat (ag_total_assertions (aggregate rs)) = sum_list (map (length \<circ> sr_assertions) rs)"
    "unat (ag_assertions_passed (aggregate rs)) = sum_list (map (length \<circ> filter ar_passed \<circ> sr_assertions) rs)"
proof -
  have "sum_list (map (length \<circ> filter ar_passed \<circ> sr_assertions) rs) \<le> sum_list (map (length \<circ> sr_assertions) rs)"
    by (rule sum_list_mono) simp
  then have a: "sum_list (map (length \<circ> filter ar_passed \<circ> sr_assertions) rs) < 2 ^ 64" using assms(2) by linarith
  have p: "length (filter P rs) < 2 ^ 64" for P using assms(1) length_filter_le [of P rs] by linarith
  show "unat (ag_total_scenarios (aggregate rs)) = length rs"
    "unat (ag_scenarios_passed (aggregate rs)) = length (filter sr_passed rs)"
    "unat (ag_scenarios_failed (aggregate rs)) = length (filter (Not \<circ> sr_passed) rs)"
    "unat (ag_total_assertions (aggregate rs)) = sum_list (map (length \<circ> sr_assertions) rs)"
    "unat (ag_assertions_passed (aggregate rs)) = sum_list (map (length \<circ> filter ar_passed \<circ> sr_assertions) rs)"
    unfolding aggregate_def fold_aggregate_step by (simp_all add: AggregateResult_init_def unat_small [OF assms(1)] unat_small [OF assms(2)] unat_small [OF a] unat_small [OF p])
qed

lemma all_passed_iff:
  assumes "length rs < 2 ^ 64" "sum_list (map (length \<circ> sr_assertions) rs) < 2 ^ 64"
  shows "all_passed (aggregate rs) \<longleftrightarrow> rs \<noteq> [] \<and> list_all sr_passed rs"
proof -
  have "ag_scenarios_failed (aggregate rs) = 0 \<longleftrightarrow> length (filter (Not \<circ> sr_passed) rs) = 0"
    using aggregate_counts(3) [OF assms] by (metis unat_eq_0)
  moreover have "ag_total_scenarios (aggregate rs) > 0 \<longleftrightarrow> rs \<noteq> []"
    using aggregate_counts(1) [OF assms] by (metis length_0_conv unat_eq_0 word_gt_0)
  ultimately show ?thesis by (auto simp: all_passed_def list_all_iff filter_empty_conv)
qed

text \<open>The aggregate counts every scenario once, as passed or failed, and every assertion once; it reports success exactly
  when there was a scenario and all of them passed.\<close>

theorem aggregate_exact:
  assumes "length rs < 2 ^ 64" "sum_list (map (length \<circ> sr_assertions) rs) < 2 ^ 64"
  shows "unat (ag_scenarios_passed (aggregate rs)) + unat (ag_scenarios_failed (aggregate rs)) = length rs \<and>
    unat (ag_total_assertions (aggregate rs)) = sum_list (map (length \<circ> sr_assertions) rs) \<and>
    unat (ag_assertions_passed (aggregate rs)) \<le> unat (ag_total_assertions (aggregate rs)) \<and>
    ag_per_scenario (aggregate rs) = map (\<lambda>r. (sr_scenario_name r, sr_passed r)) rs \<and>
    (all_passed (aggregate rs) \<longleftrightarrow> rs \<noteq> [] \<and> list_all sr_passed rs)"
proof -
  have "sum_list (map (length \<circ> filter ar_passed \<circ> sr_assertions) rs) \<le> sum_list (map (length \<circ> sr_assertions) rs)"
    by (rule sum_list_mono) simp
  moreover have "length (filter sr_passed rs) + length (filter (Not \<circ> sr_passed) rs) = length rs"
    using sum_length_filter_compl [of sr_passed rs] by (simp add: comp_def)
  ultimately show ?thesis using aggregate_counts [OF assms] all_passed_iff [OF assms]
    by (simp add: aggregate_def fold_aggregate_step AggregateResult_init_def)
qed

theorem aggregate_exact_witness:
  "let rs = [\<lparr>sr_scenario_name = ''a'', sr_passed = True, sr_assertions = []\<rparr>, \<lparr>sr_scenario_name = ''b'', sr_passed = False, sr_assertions = []\<rparr>]
   in unat (ag_scenarios_passed (aggregate rs)) + unat (ag_scenarios_failed (aggregate rs)) = 2 \<and> \<not> all_passed (aggregate rs)"
  using aggregate_exact [of "[\<lparr>sr_scenario_name = ''a'', sr_passed = True, sr_assertions = []\<rparr>,
    \<lparr>sr_scenario_name = ''b'', sr_passed = False, sr_assertions = []\<rparr>]"] by (simp add: Let_def)

subsection \<open>Isolation of parallel runs\<close>

lemma decimal_inject: "decimal m = decimal n \<longleftrightarrow> m = n"
  by (metis decimal_value)

lemma configure_fields [simp]:
  "ru_ns (configure dir port (ScenarioRunner_new s ns)) = ns"
  "ru_metrics_port (configure dir port (ScenarioRunner_new s ns)) = port"
  "ru_scenario (configure dir port (ScenarioRunner_new s ns)) = s"
  "ru_report_dir (configure dir port (ScenarioRunner_new s ns)) = dir"
  by (simp_all add: configure_def set_report_dir_def set_metrics_port_def ScenarioRunner_new_def Let_def)

text \<open>Namespace and port of the run with a given position.\<close>

definition run_ns :: "nat \<Rightarrow> string" where
  "run_ns i = ''/scenario'' @ ''_'' @ decimal (unat (word_of_nat i :: u64))"

definition run_port :: "u16 \<Rightarrow> nat \<Rightarrow> u16" where
  "run_port base i = (if base = 0 then 0 else ucast (ucast base + word_of_nat i :: u64))"

definition fleet_ok :: "u16 \<Rightarrow> 'g Fleet \<Rightarrow> bool" where
  "fleet_ok base fl \<longleftrightarrow> nm_prefix (fl_ns_mgr fl) = ''/scenario'' \<and> nm_base_port (fl_ns_mgr fl) = base \<and>
     nm_counter (fl_ns_mgr fl) = word_of_nat (length (fl_runners fl)) \<and>
     map ru_ns (fl_runners fl) = map run_ns [0..<length (fl_runners fl)] \<and>
     map ru_metrics_port (fl_runners fl) = map (run_port base) [0..<length (fl_runners fl)]"

lemma add_runner_ok: "fleet_ok base fl \<Longrightarrow> fleet_ok base (add_runner dir s fl)"
  by (simp add: fleet_ok_def add_runner_def next_namespace_def metrics_port_def run_ns_def run_port_def Let_def)

lemma build_runners_ok:
  "build_runners W dir paths fl = Inr fl' \<Longrightarrow> fleet_ok base fl \<Longrightarrow> fleet_ok base fl' \<and> length (fl_runners fl') = length (fl_runners fl) + length paths"
proof (induction paths arbitrary: fl)
  case (Cons p paths)
  then obtain s where "parse_scenario (wo_load W) (wo_yaml W) p = Inr s" "build_runners W dir paths (add_runner dir s fl) = Inr fl'"
    by (auto simp: bindE_eq_Inr)
  then show ?case using Cons.IH [of "add_runner dir s fl"] Cons.prems(2) add_runner_ok
    by (force simp: add_runner_def next_namespace_def Let_def)
qed simp

lemma run_ns_inject: "i < 2 ^ 64 \<Longrightarrow> j < 2 ^ 64 \<Longrightarrow> run_ns i = run_ns j \<longleftrightarrow> i = j"
  by (simp add: run_ns_def decimal_inject unat_small)

lemma run_port_inject:
  assumes "base \<noteq> 0" "i < 2 ^ 16" "j < 2 ^ 16" "run_port base i = run_port base j"
  shows "i = j"
proof -
  have u: "run_port base k = base + word_of_nat k" if "k < 2 ^ 16" for k
  proof -
    have b: "unat base < 65536" using unsigned_less [of base, where 'a = nat] by simp
    then have "unat (ucast base + word_of_nat k :: u64) = unat base + k"
      using that by (simp add: unat_word_ariths unsigned_ucast_eq unsigned_of_nat take_bit_nat_eq_self)
    then show ?thesis using assms(1) by (simp add: run_port_def word_unat_eq_iff unsigned_ucast_eq take_bit_eq_mod unat_word_ariths unsigned_of_nat mod_simps)
  qed
  then have "word_of_nat i = (word_of_nat j :: u16)" using assms by simp
  then show ?thesis using assms(2,3) by (simp add: word_unat_eq_iff unsigned_of_nat take_bit_nat_eq_self)
qed

text \<open>Runners built for a parallel run are isolated: no two share a namespace, and with metrics enabled and at most 65536
  runs no two share a port, even where the port number wraps around.\<close>

theorem parallel_isolated:
  assumes "build_runners W dir paths (new_fleet base) = Inr fl" "length paths \<le> 2 ^ 16"
  shows "length (fl_runners fl) = length paths \<and> distinct (map ru_ns (fl_runners fl)) \<and>
    (base \<noteq> 0 \<longrightarrow> distinct (map ru_metrics_port (fl_runners fl)))"
proof -
  have "fleet_ok base (new_fleet base :: 'a Fleet)" by (simp add: fleet_ok_def new_fleet_def NamespaceManager_new_def)
  from build_runners_ok [OF assms(1) this]
  have n: "fleet_ok base fl" "length (fl_runners fl) = length paths" by (simp_all add: new_fleet_def)
  have "distinct (map run_ns [0..<length paths])" "base \<noteq> 0 \<Longrightarrow> distinct (map (run_port base) [0..<length paths])"
    using assms(2) by (auto simp: distinct_map inj_on_def intro!: run_ns_inject [THEN iffD1] dest: run_port_inject [rotated 3])
  then show ?thesis using n by (simp add: fleet_ok_def)
qed

lemma empty_document: "parse_scenario (\<lambda>_. Inr (Entries [(''name'', Text ''d''), (''duration_seconds'', Number 5)])) document_yaml path =
    Inr \<lparr>sn_name = ''d'', sn_duration_seconds = 5, sn_streams = [], sn_faults = [], sn_assertions = []\<rparr>"
  by (simp add: parse_scenario_def parse_node_def parse_section_def get_or_def document_yaml_def)

text \<open>A world in which every path holds the same small scenario and nothing happens.\<close>

definition quiet_world :: "(document, unit) World" where
  "quiet_world = \<lparr>wo_load = (\<lambda>_. Inr (Entries [(''name'', Text ''d''), (''duration_seconds'', Number 5)])), wo_yaml = document_yaml,
     wo_random = (), wo_spawn = (\<lambda>_. None), wo_to_str = (\<lambda>_. []), wo_exporter_ok = False, wo_repr = small_double, wo_polls = [],
     wo_dump = (\<lambda>_. ''json''), wo_now = ''now'', wo_spin = (\<lambda>_ r. r)\<rparr>"

theorem parallel_isolated_witness:
  "\<exists>fl. build_runners quiet_world [] [''a'', ''b''] (new_fleet 65535) = Inr fl \<and>
     map ru_metrics_port (fl_runners fl) = [65535, 0] \<and> distinct (map ru_ns (fl_runners fl)) \<and> distinct (map ru_metrics_port (fl_runners fl))"
proof -
  obtain fl where fl: "build_runners quiet_world [] [''a'', ''b''] (new_fleet 65535) = Inr fl"
    "map ru_metrics_port (fl_runners fl) = [65535, 0]"
    by (simp add: quiet_world_def empty_document add_runner_def next_namespace_def metrics_port_def new_fleet_def NamespaceManager_new_def Let_def)
  with parallel_isolated [OF fl(1)] show ?thesis by auto
qed

subsection \<open>Exit status\<close>

lemma world_finish_verdict:
  assumes "runner_ok sn r" "distinct (map sc_name (sn_streams sn))" "''transport'' \<notin> set (map sc_name (sn_streams sn))"
    "list_all counts_ok (ru_metrics (flush_engines (wo_repr W) r))"
  shows "\<exists>metrics files. emit_all (ru_metrics (flush_engines (wo_repr W) r)) Map.empty = Some metrics \<and>
    world_finish W r = Some (evaluate_all (sn_name sn) (sn_assertions sn) metrics, files)"
proof -
  let ?f = "flush_engines (wo_repr W) r"
  have names: "map mt_name (ru_metrics ?f) = map sc_name (sn_streams sn)" and sc: "ru_scenario ?f = sn" "ru_scenario r = sn"
    using assms(1) by (simp_all add: runner_ok_def flush_engines_def fold_run_engine_frame(2,4))
  have "list_all (\<lambda>m. length (mt_latencies_ms m) < 2 ^ 53) (ru_metrics ?f)"
    using assms(4) by (auto simp: list_all_iff counts_ok_def)
  from runner_finish_eq [OF assms(1,2) this] obtain metrics reg where m: "emit_all (ru_metrics ?f) Map.empty = Some metrics"
    "runner_finish (wo_repr W) (wo_polls W) r = Some (evaluate_all (sn_name sn) (sn_assertions sn) metrics, metrics,
      ?f\<lparr>ru_can_reader := None, ru_child_pids := [], ru_registry := reg\<rparr>)"
    unfolding sc by blast
  let ?res = "evaluate_all (sn_name sn) (sn_assertions sn) metrics"
  obtain rep where "build_report (wo_now W) ?res metrics (map sc_name (sn_streams sn)) (sn_duration_seconds sn) = Some rep"
    using report_built [OF assms(4) _ m(1)] assms(2,3) names by metis
  then show ?thesis using m sc by (simp add: world_finish_def finish_reports_def Let_def)
qed

text \<open>C9: The scenario executable is a faithful gate: for a scenario that parses, whose streams have distinct names other than
  \<^verbatim>\<open>transport\<close>, whatever happens while it runs (fewer than \<open>2 ^ 53\<close> samples and gaps a stream), it exits with status 0 exactly
  when every assertion names a metric that was collected and its comparison holds, and with 1 otherwise.\<close>

theorem scenario_exit_status:
  assumes "main_args args main_defaults = Some opt" "ma_scenario_path opt \<noteq> []"
    "parse_scenario (wo_load W) (wo_yaml W) (ma_scenario_path opt) = Inr sn"
    "distinct (map sc_name (sn_streams sn))" "''transport'' \<notin> set (map sc_name (sn_streams sn))"
    "r0 = world_start W (configure (ma_report_dir opt) (ma_metrics_port opt) (ScenarioRunner_new sn (ma_ns opt)))"
    "(runner_step (wo_repr W) E)\<^sup>*\<^sup>* r0 (wo_spin W (sn_duration_seconds sn) r0)"
    "list_all counts_ok (ru_metrics (flush_engines (wo_repr W) (wo_spin W (sn_duration_seconds sn) r0)))"
  shows "\<exists>metrics files. emit_all (ru_metrics (flush_engines (wo_repr W) (wo_spin W (sn_duration_seconds sn) r0))) Map.empty = Some metrics \<and>
    scenario_main W args = Some
      (if \<forall>a\<in>set (sn_assertions sn). \<exists>v. metrics (as_metric a) = Some v \<and> compare (as_op a) v (as_value a) then 0 else 1, files)"
proof -
  have "runner_ok sn r0"
    unfolding assms(6) world_start_def
    by (rule runner_start_ok) (simp_all add: configure_def set_report_dir_def set_metrics_port_def ScenarioRunner_new_def Let_def)
  then have ok: "runner_ok sn (wo_spin W (sn_duration_seconds sn) r0)" by (rule runner_reachable_ok [OF assms(7)])
  obtain metrics files where m: "emit_all (ru_metrics (flush_engines (wo_repr W) (wo_spin W (sn_duration_seconds sn) r0))) Map.empty = Some metrics"
    "world_finish W (wo_spin W (sn_duration_seconds sn) r0) = Some (evaluate_all (sn_name sn) (sn_assertions sn) metrics, files)"
    using world_finish_verdict [OF ok assms(4,5,8)] by blast
  have "sr_passed (evaluate_all (sn_name sn) (sn_assertions sn) metrics) \<longleftrightarrow>
      (\<forall>a\<in>set (sn_assertions sn). \<exists>v. metrics (as_metric a) = Some v \<and> compare (as_op a) v (as_value a))"
    by (simp add: evaluate_all_def evaluate_loop_result evaluate_passed)
  then show ?thesis using m assms(1-3,6) by (auto simp: scenario_main_def Let_def)
qed

theorem scenario_exit_status_witness:
  "\<exists>files. scenario_main quiet_world [''--scenario'', ''d.yaml''] = Some (0, files)"
proof -
  let ?sn = "\<lparr>sn_name = ''d'', sn_duration_seconds = 5, sn_streams = [], sn_faults = [], sn_assertions = []\<rparr>"
  let ?opt = "main_defaults\<lparr>ma_scenario_path := ''d.yaml''\<rparr>"
  let ?r0 = "world_start quiet_world (configure (ma_report_dir ?opt) (ma_metrics_port ?opt) (ScenarioRunner_new ?sn (ma_ns ?opt)))"
  have spin: "wo_spin quiet_world d r = r" for d r by (simp add: quiet_world_def)
  have a: "main_args [''--scenario'', ''d.yaml''] main_defaults = Some ?opt" "ma_scenario_path ?opt \<noteq> []" by simp_all
  have p: "parse_scenario (wo_load quiet_world) (wo_yaml quiet_world) (ma_scenario_path ?opt) = Inr ?sn"
    by (simp add: quiet_world_def empty_document)
  have "list_all counts_ok (ru_metrics (flush_engines (wo_repr quiet_world) ?r0))"
    by (simp add: world_start_def runner_start_def start_exporter_def configure_def main_defaults_def ScenarioRunner_new_def flush_engines_def)
  from scenario_exit_status [where E = still_env, OF a p _ _ refl] this show ?thesis by (simp add: spin)
qed

text \<open>Repeated runs of a scenario write the same files.\<close>

lemma repeated_reports_collide:
  "map_option (\<lambda>(status, agg, files). (status, map fst files))
     (parallel_main quiet_world [''--scenario'', ''d.yaml'', ''--count'', ''2'', ''--report-dir'', ''out'']) =
   Some (0, [''out/d.json'', ''out/d.html'', ''out/d.json'', ''out/d.html''])"
proof -
  have two: "atoi ''2'' = Some 2" by (simp add: atoi_def isspace_def is_digit_def digits_value_def of_char_def)
  have arguments: "parallel_args [''--scenario'', ''d.yaml'', ''--count'', ''2'', ''--report-dir'', ''out'']
      \<lparr>pa_scenario_paths = [], pa_report_dir = [], pa_metrics_base_port = 0, pa_count = 1\<rparr> =
      Some \<lparr>pa_scenario_paths = [''d.yaml''], pa_report_dir = ''out'', pa_metrics_base_port = 0, pa_count = 2\<rparr>"
    by (simp add: two)
  let ?sn = "\<lparr>sn_name = ''d'', sn_duration_seconds = 5, sn_streams = [], sn_faults = [], sn_assertions = []\<rparr>"
  have finish: "\<exists>files. world_finish quiet_world (world_start quiet_world (configure ''out'' 0 (ScenarioRunner_new ?sn ns)))
      = Some (evaluate_all ''d'' [] Map.empty, files) \<and> map fst files = [''out/d.json'', ''out/d.html'']" for ns
    by (simp add: world_finish_def world_start_def runner_start_def start_exporter_def configure_def set_report_dir_def
        ScenarioRunner_new_def runner_finish_def stop_can_reader_def reap_children_def flush_engines_def finish_reports_def
        build_report_def transport_metrics_def metric_or_def cast_u64_def Let_def)
  obtain f0 f1 where f: "world_finish quiet_world (world_start quiet_world (configure ''out'' 0 (ScenarioRunner_new ?sn ''/scenario_0'')))
      = Some (evaluate_all ''d'' [] Map.empty, f0)" "map fst f0 = [''out/d.json'', ''out/d.html'']"
    "world_finish quiet_world (world_start quiet_world (configure ''out'' 0 (ScenarioRunner_new ?sn ''/scenario_1'')))
      = Some (evaluate_all ''d'' [] Map.empty, f1)" "map fst f1 = [''out/d.json'', ''out/d.html'']"
    using finish [of "''/scenario_0''"] finish [of "''/scenario_1''"] by auto
  have parse: "parse_scenario (wo_load quiet_world) (wo_yaml quiet_world) path = Inr ?sn" for path
    by (simp add: quiet_world_def empty_document)
  have spin: "wo_spin quiet_world d r = r" for d r by (simp add: quiet_world_def)
  have ns: "decimal 0 = ''0''" "decimal (Suc 0) = ''1''" by (simp_all add: decimal.simps digit_char_def char_of_def bit_0)
  have build: "build_runners quiet_world ''out'' [''d.yaml'', ''d.yaml''] (new_fleet 0) = Inr \<lparr>
      fl_ns_mgr = \<lparr>nm_prefix = ''/scenario'', nm_base_port = 0, nm_counter = 2\<rparr>,
      fl_runners = [configure ''out'' 0 (ScenarioRunner_new ?sn ''/scenario_0''), configure ''out'' 0 (ScenarioRunner_new ?sn ''/scenario_1'')],
      fl_max_duration = 5\<rparr>"
    by (simp add: parse add_runner_def next_namespace_def metrics_port_def new_fleet_def NamespaceManager_new_def Let_def ns)
  have count: "replicate 2 ''d.yaml'' = [''d.yaml'', ''d.yaml'']" by (simp add: numeral_2_eq_2)
  have "all_passed (aggregate [evaluate_all ''d'' [] Map.empty, evaluate_all ''d'' [] Map.empty])"
    by (simp add: all_passed_iff evaluate_all_def)
  then show ?thesis using f by (simp add: parallel_main_def arguments count build spin Let_def del: parallel_args.simps build_runners.simps)
qed

end
