(* ===== verification/Synthetic_Sensors.thy ===== *)
theory Synthetic_Sensors
  imports Can_Bus
begin

text \<open>
  The synthetic sensor publishers (\<^verbatim>\<open>sensors/synthetic_base.hpp\<close> and the lidar, camera, IMU and GPS publishers; the
  CAN publisher is in \<open>Can_Bus\<close>). The trigonometric functions, the normal distribution over the state of the
  random generator and the bytes of a \<^verbatim>\<open>float\<close> are parameters. Writes into a message go through \<open>wr\<close>, so that a
  tick that returns a message has stayed within its data.
\<close>

subsection \<open>The base class\<close>

record SyntheticPublisherBase =
  sb_rate_hz :: dbl
  sb_seed :: u64
  sb_frame_id :: string
  sb_topic :: string
  sb_seq :: u64

text \<open>The arguments are the values of the parameters, where they are set.\<close>

definition SyntheticPublisherBase_new :: "dbl option \<Rightarrow> int option \<Rightarrow> string option \<Rightarrow> string option \<Rightarrow> SyntheticPublisherBase" where
  "SyntheticPublisherBase_new rate_hz seed frame_id topic =
     \<lparr>sb_rate_hz = (case rate_hz of None \<Rightarrow> 10 | Some r \<Rightarrow> r),
      sb_seed = (case seed of None \<Rightarrow> 42 | Some s \<Rightarrow> word_of_int s),
      sb_frame_id = (case frame_id of None \<Rightarrow> ''sensor'' | Some f \<Rightarrow> f),
      sb_topic = (case topic of None \<Rightarrow> ''sensor'' | Some t \<Rightarrow> t), sb_seq = 0\<rparr>"

definition period_ns :: "SyntheticPublisherBase \<Rightarrow> int" where
  "period_ns b = (let hz = (if sb_rate_hz b > 0 then sb_rate_hz b else 1) in trunc (fmul (fdiv 1 hz) (10 ^ 9)))"

text \<open>The timer callback: the message of the current sequence number, then the next number.\<close>

definition timer_tick :: "(u64 \<Rightarrow> 'm) \<Rightarrow> SyntheticPublisherBase \<Rightarrow> 'm \<times> SyntheticPublisherBase" where
  "timer_tick on_tick b = (on_tick (sb_seq b), b\<lparr>sb_seq := sb_seq b + 1\<rparr>)"

record 'r Noise =
  gaussian :: "dbl \<Rightarrow> 'r \<Rightarrow> dbl \<times> 'r"
  msin :: "dbl \<Rightarrow> dbl"
  mcos :: "dbl \<Rightarrow> dbl"
  float_bytes :: "dbl \<Rightarrow> bytes"
  pi64 :: dbl

definition tick_time :: "SyntheticPublisherBase \<Rightarrow> u64 \<Rightarrow> dbl" where
  "tick_time b seq = fdiv (of_integer (uint seq)) (if sb_rate_hz b > 0 then sb_rate_hz b else 1)"

subsection \<open>Camera\<close>

record CameraPublisher =
  cp_width :: u32
  cp_height :: u32
  cp_noise_amp :: int

definition CameraPublisher_new :: "int option \<Rightarrow> int option \<Rightarrow> int option \<Rightarrow> CameraPublisher" where
  "CameraPublisher_new width height amp =
     \<lparr>cp_width = (case width of None \<Rightarrow> 320 | Some w \<Rightarrow> word_of_int w), cp_height = (case height of None \<Rightarrow> 240 | Some h \<Rightarrow> word_of_int h),
      cp_noise_amp = (case amp of None \<Rightarrow> 8 | Some a \<Rightarrow> sint (word_of_int a :: u32))\<rparr>"

record Image =
  im_frame_id :: string
  im_height :: u32
  im_width :: u32
  im_encoding :: string
  im_step :: u32
  im_data :: bytes

definition lcg_next :: "u32 \<Rightarrow> u32" where
  "lcg_next rng = rng * 1664525 + 1013904223"

text \<open>The noise of a pixel; \<^verbatim>\<open>2 * amp + 1\<close> must not overflow.\<close>

definition pixel_noise :: "int \<Rightarrow> u32 \<Rightarrow> (int \<times> u32) option" where
  "pixel_noise amp rng =
     (if amp > 0
      then if 2 * amp + 1 < 2 ^ 31
           then let rng = lcg_next rng in Some (int (unat (drop_bit 23 rng mod word_of_int (2 * amp + 1))) - amp, rng)
           else None
      else Some (0, rng))"

definition clamp_u8 :: "int \<Rightarrow> u8" where
  "clamp_u8 v = (if v < 0 then 0 else if v > 255 then 255 else word_of_int v)"

definition camera_pixel :: "u32 \<Rightarrow> u32 \<Rightarrow> int \<Rightarrow> nat \<times> nat \<Rightarrow> u32 \<times> bytes \<Rightarrow> (u32 \<times> bytes) option" where
  "camera_pixel step phase amp yx s = (case yx of (y, x) \<Rightarrow> (case s of (rng, data) \<Rightarrow> do {
     let off = (y * unat step + x * 3) mod 2 ^ 64;
     (n, rng) \<leftarrow> pixel_noise amp rng;
     let r = int (unat (word_of_nat x + phase) mod 256) + n;
     let g = int (unat (word_of_nat y + phase) mod 256) + n;
     let b = int (unat (word_of_nat x + word_of_nat y :: u32) mod 256) + n;
     data \<leftarrow> wr data off (clamp_u8 r);
     data \<leftarrow> wr data (off + 1) (clamp_u8 g);
     data \<leftarrow> wr data (off + 2) (clamp_u8 b);
     Some (rng, data) }))"

fun camera_loop :: "u32 \<Rightarrow> u32 \<Rightarrow> int \<Rightarrow> (nat \<times> nat) list \<Rightarrow> u32 \<times> bytes \<Rightarrow> (u32 \<times> bytes) option" where
  "camera_loop step phase amp [] s = Some s"
| "camera_loop step phase amp (yx # yxs) s = do { s \<leftarrow> camera_pixel step phase amp yx s; camera_loop step phase amp yxs s }"

definition pixels :: "nat \<Rightarrow> nat \<Rightarrow> (nat \<times> nat) list" where
  "pixels h w = concat (map (\<lambda>y. map (Pair y) [0..<w]) [0..<h])"

definition camera_on_tick :: "SyntheticPublisherBase \<Rightarrow> CameraPublisher \<Rightarrow> u64 \<Rightarrow> Image option" where
  "camera_on_tick b c seq = do {
     let step = cp_width c * 3;
     let data = replicate (unat step * unat (cp_height c)) 0;
     let phase = ucast (seq AND 0xFF);
     let rng = ucast (sb_seed b) XOR ucast (seq * 2654435761);
     (rng, data) \<leftarrow> camera_loop step phase (cp_noise_amp c) (pixels (unat (cp_height c)) (unat (cp_width c))) (rng, data);
     Some \<lparr>im_frame_id = sb_frame_id b, im_height = cp_height c, im_width = cp_width c, im_encoding = ''rgb8'', im_step = step, im_data = data\<rparr> }"

subsection \<open>Lidar\<close>

record LidarPublisher =
  lp_num_points :: int
  lp_noise_sigma :: dbl

definition LidarPublisher_new :: "int option \<Rightarrow> dbl option \<Rightarrow> LidarPublisher" where
  "LidarPublisher_new num_points sigma =
     \<lparr>lp_num_points = (case num_points of None \<Rightarrow> 16384 | Some n \<Rightarrow> sint (word_of_int n :: u32)),
      lp_noise_sigma = (case sigma of None \<Rightarrow> rnd64 (2 / 100) | Some s \<Rightarrow> s)\<rparr>"

record PointCloud2 =
  pc_frame_id :: string
  pc_height :: u32
  pc_width :: u32
  pc_fields :: "(string \<times> u32) list"
  pc_point_step :: u32
  pc_row_step :: u32
  pc_data :: bytes

definition lidar_point :: "'r Noise \<Rightarrow> dbl \<Rightarrow> dbl \<Rightarrow> int \<Rightarrow> nat \<Rightarrow> 'r \<Rightarrow> bytes \<times> 'r" where
  "lidar_point N base_radius sigma num_points i rng =
     (let angle = fdiv (fmul (fmul 2 (pi64 N)) (of_integer (int i))) (of_integer num_points);
          (n1, rng) = gaussian N sigma rng;
          r = fadd base_radius n1;
          x = fmul r (mcos N angle);
          y = fmul r (msin N angle);
          (n2, rng) = gaussian N sigma rng;
          z = fadd (fmul (rnd64 (1 / 10)) (msin N (fmul angle 4))) n2
      in (float_bytes N x @ float_bytes N y @ float_bytes N z, rng))"

fun lidar_loop :: "'r Noise \<Rightarrow> dbl \<Rightarrow> dbl \<Rightarrow> int \<Rightarrow> nat list \<Rightarrow> 'r \<times> bytes \<Rightarrow> ('r \<times> bytes) option" where
  "lidar_loop N base sigma n [] s = Some s"
| "lidar_loop N base sigma n (i # is) (rng, data) = do {
     let (bs, rng) = lidar_point N base sigma n i rng;
     data \<leftarrow> blit data (i * 12) bs;
     lidar_loop N base sigma n is (rng, data) }"

definition lidar_on_tick :: "'r Noise \<Rightarrow> SyntheticPublisherBase \<Rightarrow> LidarPublisher \<Rightarrow> u64 \<Rightarrow> 'r \<Rightarrow> (PointCloud2 \<times> 'r) option" where
  "lidar_on_tick N b l seq rng = do {
     let width = word_of_int (lp_num_points l);
     let row_step = 12 * width;
     let base_radius = fadd 5 (fmul (1 / 2) (msin N (fmul (of_integer (uint seq)) (rnd64 (1 / 20)))));
     (rng, data) \<leftarrow> lidar_loop N base_radius (lp_noise_sigma l) (lp_num_points l) [0..<nat (lp_num_points l)] (rng, replicate (unat row_step) 0);
     Some (\<lparr>pc_frame_id = sb_frame_id b, pc_height = 1, pc_width = width, pc_fields = [(''x'', 0), (''y'', 4), (''z'', 8)],
       pc_point_step = 12, pc_row_step = row_step, pc_data = data\<rparr>, rng) }"

subsection \<open>IMU and GPS\<close>

record ImuPublisher =
  ip_accel_sigma :: dbl
  ip_gyro_sigma :: dbl

definition ImuPublisher_new :: "dbl option \<Rightarrow> dbl option \<Rightarrow> ImuPublisher" where
  "ImuPublisher_new accel gyro = \<lparr>ip_accel_sigma = (case accel of None \<Rightarrow> rnd64 (5 / 100) | Some s \<Rightarrow> s),
     ip_gyro_sigma = (case gyro of None \<Rightarrow> rnd64 (1 / 100) | Some s \<Rightarrow> s)\<rparr>"

record Imu =
  imu_frame_id :: string
  imu_orientation :: "dbl \<times> dbl \<times> dbl \<times> dbl"
  imu_angular_velocity :: "dbl \<times> dbl \<times> dbl"
  imu_linear_acceleration :: "dbl \<times> dbl \<times> dbl"
  imu_angular_velocity_covariance :: "dbl list"
  imu_linear_acceleration_covariance :: "dbl list"

definition diagonal :: "dbl \<Rightarrow> dbl \<Rightarrow> dbl \<Rightarrow> dbl list" where
  "diagonal a b c = (replicate 9 0)[0 := a, 4 := b, 8 := c]"

definition imu_on_tick :: "'r Noise \<Rightarrow> SyntheticPublisherBase \<Rightarrow> ImuPublisher \<Rightarrow> u64 \<Rightarrow> 'r \<Rightarrow> Imu \<times> 'r" where
  "imu_on_tick N b p seq rng =
     (let t = tick_time b seq;
          yaw = fmul (rnd64 (1 / 5)) (msin N (fmul t (1 / 2)));
          (g1, rng) = gaussian N (ip_gyro_sigma p) rng;
          (g2, rng) = gaussian N (ip_gyro_sigma p) rng;
          (g3, rng) = gaussian N (ip_gyro_sigma p) rng;
          (a1, rng) = gaussian N (ip_accel_sigma p) rng;
          (a2, rng) = gaussian N (ip_accel_sigma p) rng;
          (a3, rng) = gaussian N (ip_accel_sigma p) rng;
          gv = fmul (ip_gyro_sigma p) (ip_gyro_sigma p);
          av = fmul (ip_accel_sigma p) (ip_accel_sigma p)
      in (\<lparr>imu_frame_id = sb_frame_id b,
           imu_orientation = (mcos N (fmul yaw (1 / 2)), 0, 0, msin N (fmul yaw (1 / 2))),
           imu_angular_velocity = (g1, g2, fadd (fmul (rnd64 (1 / 10)) (mcos N (fmul t (1 / 2)))) g3),
           imu_linear_acceleration = (a1, a2, fadd (rnd64 (981 / 100)) a3),
           imu_angular_velocity_covariance = diagonal gv gv gv, imu_linear_acceleration_covariance = diagonal av av av\<rparr>, rng))"

record GpsPublisher =
  gp_origin_lat :: dbl
  gp_origin_lon :: dbl
  gp_radius_m :: dbl
  gp_pos_sigma_m :: dbl

definition GpsPublisher_new :: "dbl option \<Rightarrow> dbl option \<Rightarrow> dbl option \<Rightarrow> dbl option \<Rightarrow> GpsPublisher" where
  "GpsPublisher_new lat lon radius sigma =
     \<lparr>gp_origin_lat = (case lat of None \<Rightarrow> rnd64 (404237 / 10000) | Some v \<Rightarrow> v),
      gp_origin_lon = (case lon of None \<Rightarrow> rnd64 (- (869212 / 10000)) | Some v \<Rightarrow> v),
      gp_radius_m = (case radius of None \<Rightarrow> 50 | Some v \<Rightarrow> v), gp_pos_sigma_m = (case sigma of None \<Rightarrow> 3 / 2 | Some v \<Rightarrow> v)\<rparr>"

record NavSatFix =
  ns_frame_id :: string
  ns_latitude :: dbl
  ns_longitude :: dbl
  ns_altitude :: dbl
  ns_position_covariance :: "dbl list"

definition kMetersPerDegLat :: dbl where "kMetersPerDegLat = 111320"

definition gps_on_tick :: "'r Noise \<Rightarrow> SyntheticPublisherBase \<Rightarrow> GpsPublisher \<Rightarrow> u64 \<Rightarrow> 'r \<Rightarrow> NavSatFix \<times> 'r" where
  "gps_on_tick N b p seq rng =
     (let t = tick_time b seq;
          (n1, rng) = gaussian N (gp_pos_sigma_m p) rng;
          dx = fadd (fmul (gp_radius_m p) (mcos N (fmul t (rnd64 (1 / 10))))) n1;
          (n2, rng) = gaussian N (gp_pos_sigma_m p) rng;
          dy = fadd (fmul (gp_radius_m p) (msin N (fmul t (rnd64 (1 / 10))))) n2;
          meters_per_deg_lon = fmul kMetersPerDegLat (mcos N (fdiv (fmul (gp_origin_lat p) (pi64 N)) 180));
          (n3, rng) = gaussian N (gp_pos_sigma_m p) rng;
          v = fmul (gp_pos_sigma_m p) (gp_pos_sigma_m p)
      in (\<lparr>ns_frame_id = sb_frame_id b,
           ns_latitude = fadd (gp_origin_lat p) (fdiv dy kMetersPerDegLat),
           ns_longitude = fadd (gp_origin_lon p) (fdiv dx meters_per_deg_lon),
           ns_altitude = fadd 200 n3,
           ns_position_covariance = diagonal v v (fmul v 4)\<rparr>, rng))"

subsection \<open>Camera frames\<close>

lemma uint_small: "0 \<le> k \<Longrightarrow> k < 2 ^ 32 \<Longrightarrow> uint (word_of_int k :: u32) = k" "0 \<le> k \<Longrightarrow> k < 2 ^ 8 \<Longrightarrow> uint (word_of_int k :: u8) = k"
  by (simp_all add: unsigned_of_int take_bit_int_eq_self)

lemma pixel_noise_ok:
  assumes "amp < 2 ^ 30"
  obtains n rng' where "pixel_noise amp rng = Some (n, rng')" "\<bar>n\<bar> \<le> max 0 amp"
proof (cases "amp > 0")
  case True
  let ?m = "word_of_int (2 * amp + 1) :: u32" and ?v = "drop_bit 23 (lcg_next rng)"
  have m: "uint ?m = 2 * amp + 1" by (rule uint_small) (use assms True in simp_all)
  then have "?m \<noteq> 0" using True by auto
  then have "unat (?v mod ?m) < unat ?m" by (simp add: unat_mod unat_gt_0)
  then have "int (unat (?v mod ?m)) < 2 * amp + 1" by (simp only: unat_eq_nat_uint [of ?m] m zless_nat_eq_int_zless)
  then have "\<bar>int (unat (?v mod ?m)) - amp\<bar> \<le> max 0 amp" using True by linarith
  moreover have "pixel_noise amp rng = Some (int (unat (?v mod ?m)) - amp, lcg_next rng)"
    using True assms by (simp add: pixel_noise_def Let_def)
  ultimately show thesis using that by blast
next
  case False
  then show thesis using that by (simp add: pixel_noise_def)
qed

lemma clamp_near:
  assumes "0 \<le> base" "base \<le> 255" "\<bar>n\<bar> \<le> a"
  shows "\<bar>uint (clamp_u8 (base + n)) - base\<bar> \<le> a"
proof -
  have "uint (clamp_u8 v) = min 255 (max 0 v)" for v
    using uint_small(2) [of v] by (auto simp: clamp_u8_def)
  then show ?thesis using assms by auto
qed

text \<open>The offset of a pixel, and what its three bytes are near to.\<close>

definition pixel_off :: "nat \<Rightarrow> nat \<times> nat \<Rightarrow> nat" where
  "pixel_off w yx = (fst yx * w + snd yx) * 3"

definition pixel_near :: "u32 \<Rightarrow> int \<Rightarrow> nat \<Rightarrow> bytes \<Rightarrow> nat \<times> nat \<Rightarrow> bool" where
  "pixel_near phase a w data yx \<longleftrightarrow>
     \<bar>uint (data ! pixel_off w yx) - int (unat (word_of_nat (snd yx) + phase) mod 256)\<bar> \<le> a \<and>
     \<bar>uint (data ! (pixel_off w yx + 1)) - int (unat (word_of_nat (fst yx) + phase) mod 256)\<bar> \<le> a \<and>
     \<bar>uint (data ! (pixel_off w yx + 2)) - int (unat (word_of_nat (snd yx) + word_of_nat (fst yx) :: u32) mod 256)\<bar> \<le> a"

lemma pixel_off_bound:
  assumes "y < h" "x < w"
  shows "pixel_off w (y, x) + 3 \<le> w * 3 * h"
proof -
  have "y * w + x + 1 \<le> Suc y * w" using assms(2) by simp
  also have "\<dots> \<le> h * w" using assms(1) by (intro mult_right_mono) simp_all
  finally have "(y * w + x + 1) * 3 \<le> h * w * 3" by (rule mult_right_mono) simp
  then show ?thesis by (simp add: pixel_off_def algebra_simps)
qed

lemma pixel_off_apart:
  assumes "x < w" "x' < w" "(y, x) \<noteq> (y', x')"
  shows "pixel_off w (y, x) + 3 \<le> pixel_off w (y', x') \<or> pixel_off w (y', x') + 3 \<le> pixel_off w (y, x)"
proof -
  have "y * w + x \<noteq> y' * w + x'"
    using assms by (metis div_mult_self3 div_less add.left_neutral mod_mult_self3 mod_less gr_implies_not0 add.right_neutral)
  then show ?thesis by (auto simp: pixel_off_def)
qed

lemma camera_pixel_ok:
  assumes "unat step = w * 3" "amp < 2 ^ 30" "y < h" "x < w" "length data = w * 3 * h" "w * 3 * h < 2 ^ 64"
  shows "\<exists>rng' data'. camera_pixel step phase amp (y, x) (rng, data) = Some (rng', data') \<and> length data' = length data \<and>
    pixel_near phase (max 0 amp) w data' (y, x) \<and>
    (\<forall>i. i < pixel_off w (y, x) \<or> pixel_off w (y, x) + 3 \<le> i \<longrightarrow> data' ! i = data ! i)"
proof -
  let ?o = "pixel_off w (y, x)"
  have b: "?o + 3 \<le> length data" using pixel_off_bound [OF assms(3,4)] assms(5) by simp
  have off: "(y * unat step + x * 3) mod 2 ^ 64 = ?o"
    using b assms(1,5,6) by (simp add: pixel_off_def algebra_simps)
  obtain n rng' where n: "pixel_noise amp rng = Some (n, rng')" "\<bar>n\<bar> \<le> max 0 amp" using pixel_noise_ok [OF assms(2)] .
  have near: "\<bar>uint (clamp_u8 (int (k mod 256) + n)) - int (k mod 256)\<bar> \<le> max 0 amp" for k :: nat
    by (rule clamp_near [OF _ _ n(2)]) (simp_all add: less_Suc_eq_le [symmetric])
  let ?v = "\<lambda>k :: nat. clamp_u8 (int (k mod 256) + n)"
  let ?d = "data[?o := ?v (unat (word_of_nat x + phase)), ?o + 1 := ?v (unat (word_of_nat y + phase)),
    ?o + 2 := ?v (unat (word_of_nat x + word_of_nat y :: u32))]"
  have "camera_pixel step phase amp (y, x) (rng, data) = Some (rng', ?d)"
    unfolding camera_pixel_def Let_def prod.case off n(1) bind.bind_lunit using b by (simp add: wr_def)
  moreover have "pixel_near phase (max 0 amp) w ?d (y, x)"
    unfolding pixel_near_def fst_conv snd_conv using b near by (simp add: nth_list_update)
  ultimately show ?thesis by (intro exI [of _ rng'] exI [of _ ?d]) auto
qed

lemma pixel_near_cong:
  assumes "\<forall>k<3. data' ! (pixel_off w q + k) = data ! (pixel_off w q + k)" "pixel_near phase a w data q"
  shows "pixel_near phase a w data' q"
proof -
  have "data' ! pixel_off w q = data ! pixel_off w q" "data' ! (pixel_off w q + 1) = data ! (pixel_off w q + 1)"
    "data' ! (pixel_off w q + 2) = data ! (pixel_off w q + 2)"
    using assms(1) [rule_format, of 0] assms(1) [rule_format, of 1] assms(1) [rule_format, of 2] by simp_all
  then show ?thesis using assms(2) unfolding pixel_near_def by simp
qed

lemma camera_loop_ok:
  assumes "unat step = w * 3" "amp < 2 ^ 30" "w * 3 * h < 2 ^ 64" "distinct ps" "\<forall>p\<in>set ps. fst p < h \<and> snd p < w" "length data = w * 3 * h"
  shows "\<exists>rng' data'. camera_loop step phase amp ps (rng, data) = Some (rng', data') \<and> length data' = length data \<and>
    (\<forall>p\<in>set ps. pixel_near phase (max 0 amp) w data' p) \<and>
    (\<forall>q. snd q < w \<longrightarrow> q \<notin> set ps \<longrightarrow> (\<forall>k<3. data' ! (pixel_off w q + k) = data ! (pixel_off w q + k)))"
  using assms(4-6)
proof (induction ps arbitrary: rng data)
  case (Cons p ps)
  obtain y x where p: "p = (y, x)" by force
  obtain rng1 data1 where 1: "camera_pixel step phase amp (y, x) (rng, data) = Some (rng1, data1)" "length data1 = length data"
    "pixel_near phase (max 0 amp) w data1 (y, x)"
    "\<forall>i. i < pixel_off w (y, x) \<or> pixel_off w (y, x) + 3 \<le> i \<longrightarrow> data1 ! i = data ! i"
    using camera_pixel_ok [OF assms(1,2), of y h x data phase rng] assms(3) Cons.prems p by auto
  obtain rng2 data2 where 2: "camera_loop step phase amp ps (rng1, data1) = Some (rng2, data2)" "length data2 = length data1"
    "\<forall>p\<in>set ps. pixel_near phase (max 0 amp) w data2 p"
    "\<forall>q. snd q < w \<longrightarrow> q \<notin> set ps \<longrightarrow> (\<forall>k<3. data2 ! (pixel_off w q + k) = data1 ! (pixel_off w q + k))"
    using Cons.IH [of data1 rng1] Cons.prems 1(2) by auto
  have xw: "x < w" "(y, x) \<notin> set ps" using Cons.prems p by auto
  have "pixel_near phase (max 0 amp) w data2 (y, x)" using pixel_near_cong [OF _ 1(3)] 2(4) xw by simp
  moreover have "data1 ! (pixel_off w q + k) = data ! (pixel_off w q + k)" if "snd q < w" "q \<noteq> (y, x)" "k < 3" for q k
    using pixel_off_apart [of "snd q" w x "fst q" y] that xw(1) 1(4) by (cases q) (auto intro!: 1(4) [rule_format])
  ultimately show ?case using 1(1,2) 2 p by (intro exI [of _ rng2] exI [of _ data2]) auto
qed simp

lemma pixels_distinct: "distinct (pixels h w)" "set (pixels h w) = {0..<h} \<times> {0..<w}"
proof -
  show "set (pixels h w) = {0..<h} \<times> {0..<w}" by (auto simp: pixels_def)
  show "distinct (pixels h w)"
    by (induction h) (auto simp: pixels_def distinct_map inj_on_def)
qed

text \<open>A camera tick whose row fits 32 bits (three times the width) and whose noise amplitude is below \<open>2 ^ 30\<close> publishes a
  complete image: it has three bytes a pixel, no write is out of range, and every pixel is within the noise amplitude
  of the gradient that scrolls with the sequence number.\<close>

theorem camera_frame_complete:
  assumes "3 * unat (cp_width c) < 2 ^ 32" "cp_noise_amp c < 2 ^ 30"
  shows "\<exists>im. camera_on_tick b c seq = Some im \<and> unat (im_step im) = 3 * unat (cp_width c) \<and>
    length (im_data im) = 3 * unat (cp_width c) * unat (cp_height c) \<and>
    (\<forall>y < unat (cp_height c). \<forall>x < unat (cp_width c).
       pixel_near (ucast (seq AND 0xFF)) (max 0 (cp_noise_amp c)) (unat (cp_width c)) (im_data im) (y, x))"
proof -
  let ?w = "unat (cp_width c)" and ?h = "unat (cp_height c)" and ?step = "cp_width c * 3"
  have step: "unat ?step = ?w * 3" using assms(1) by (simp add: unat_word_ariths)
  have "?h < 2 ^ 32" by (rule order_less_le_trans [OF unsigned_less]) simp
  then have "?w * 3 * ?h < 2 ^ 32 * 2 ^ 32" using assms(1) by (intro mult_strict_mono) simp_all
  then have lim: "?w * 3 * ?h < 2 ^ 64" by simp
  let ?rng = "ucast (sb_seed b) XOR ucast (seq * 2654435761) :: u32"
  obtain rng' data' where l: "camera_loop ?step (ucast (seq AND 0xFF)) (cp_noise_amp c) (pixels ?h ?w) (?rng, replicate (?w * 3 * ?h) 0) = Some (rng', data')"
    "length data' = ?w * 3 * ?h" "\<forall>p\<in>set (pixels ?h ?w). pixel_near (ucast (seq AND 0xFF)) (max 0 (cp_noise_amp c)) ?w data' p"
    using camera_loop_ok [OF step assms(2) lim pixels_distinct(1) [of ?h ?w],
        where data = "replicate (?w * 3 * ?h) 0" and phase = "ucast (seq AND 0xFF)" and rng = ?rng] pixels_distinct(2)
    by auto
  then have "camera_on_tick b c seq = Some \<lparr>im_frame_id = sb_frame_id b, im_height = cp_height c, im_width = cp_width c,
      im_encoding = ''rgb8'', im_step = ?step, im_data = data'\<rparr>"
    by (simp add: camera_on_tick_def Let_def step)
  then show ?thesis using l step pixels_distinct(2) [of ?h ?w] by (auto simp: mult.commute)
qed

theorem camera_frame_complete_witness:
  "\<exists>im. camera_on_tick (SyntheticPublisherBase_new None None None None) (CameraPublisher_new None None None) 7 = Some im \<and>
     length (im_data im) = 230400"
proof -
  let ?c = "CameraPublisher_new None None None"
  have "unat (cp_width ?c) = 320" "unat (cp_height ?c) = 240" "cp_noise_amp ?c = 8" by (simp_all add: CameraPublisher_new_def)
  then show ?thesis using camera_frame_complete [of ?c "SyntheticPublisherBase_new None None None None" 7] by auto
qed

text \<open>With a width whose row does not fit, the buffer is too small and the first pixel is written out of range.\<close>

lemma camera_row_overflow:
  "camera_on_tick (SyntheticPublisherBase_new None None None None) (CameraPublisher_new (Some 1431655766) (Some 1) (Some 0)) 0 = None"
proof -
  have "pixels (Suc 0) 1431655766 = (0, 0) # map (Pair 0) [1..<1431655766]"
    by (simp add: pixels_def upt_rec [of 0] del: upt_rec_numeral)
  then show ?thesis
    by (simp add: camera_on_tick_def CameraPublisher_new_def camera_pixel_def pixel_noise_def wr_def Let_def)
qed

subsection \<open>Lidar frames\<close>

fun lidar_bytes :: "'r Noise \<Rightarrow> dbl \<Rightarrow> dbl \<Rightarrow> int \<Rightarrow> nat list \<Rightarrow> 'r \<Rightarrow> bytes \<times> 'r" where
  "lidar_bytes N base sigma n [] rng = ([], rng)"
| "lidar_bytes N base sigma n (i # is) rng =
     (case lidar_point N base sigma n i rng of (bs, rng) \<Rightarrow> case lidar_bytes N base sigma n is rng of (rest, rng) \<Rightarrow> (bs @ rest, rng))"

lemma lidar_point_length: "\<forall>x. length (float_bytes N x) = 4 \<Longrightarrow> length (fst (lidar_point N base sigma n i rng)) = 12"
  by (simp add: lidar_point_def Let_def split_beta)

lemma lidar_loop_bytes:
  assumes "\<forall>x. length (float_bytes N x) = 4" "length acc = k * 12"
  shows "lidar_loop N base sigma n [k..<k + m] (rng, acc @ replicate (m * 12) 0) =
    (case lidar_bytes N base sigma n [k..<k + m] rng of (bs, rng') \<Rightarrow> Some (rng', acc @ bs))"
  using assms(2)
proof (induction m arbitrary: k acc rng)
  case (Suc m)
  obtain bs rng1 where p: "lidar_point N base sigma n k rng = (bs, rng1)" by force
  have bs: "length bs = 12" using lidar_point_length [OF assms(1), of base sigma n k rng] p by simp
  have u: "[k..<k + Suc m] = k # [Suc k..<Suc k + m]" by (simp add: upt_rec)
  have b: "blit (acc @ replicate (Suc m * 12) 0) (k * 12) bs = Some ((acc @ bs) @ replicate (m * 12) 0)"
    using Suc.prems bs by (simp add: blit_def drop_replicate)
  have IH: "lidar_loop N base sigma n [Suc k..<Suc k + m] (rng1, (acc @ bs) @ replicate (m * 12) 0) =
      (case lidar_bytes N base sigma n [Suc k..<Suc k + m] rng1 of (bs', rng') \<Rightarrow> Some (rng', (acc @ bs) @ bs'))"
    by (rule Suc.IH) (use Suc.prems bs in simp)
  show ?case
    unfolding u by (simp only: lidar_loop.simps lidar_bytes.simps p Let_def prod.case b bind.bind_lunit IH) (simp split: prod.split)
qed simp

lemma lidar_frame_complete:
  assumes "\<forall>x. length (float_bytes N x) = 4" "0 \<le> lp_num_points l" "12 * lp_num_points l < 2 ^ 32"
  shows "\<exists>pc rng'. lidar_on_tick N b l seq rng = Some (pc, rng') \<and> length (pc_data pc) = 12 * nat (lp_num_points l) \<and>
    uint (pc_width pc) = lp_num_points l \<and> uint (pc_row_step pc) = 12 * lp_num_points l"
proof -
  let ?n = "nat (lp_num_points l)" and ?w = "word_of_int (lp_num_points l) :: u32"
  let ?base = "fadd 5 (fmul (1 / 2) (msin N (fmul (of_integer (uint seq)) (rnd64 (1 / 20)))))"
  have w: "uint ?w = lp_num_points l" by (rule uint_small) (use assms in simp_all)
  have r: "uint (12 * ?w) = 12 * lp_num_points l" using w assms(2,3) by (simp add: uint_word_ariths)
  then have ur: "unat (12 * ?w) = ?n * 12" using assms(2) by (simp add: unat_eq_nat_uint nat_mult_distrib)
  obtain bs rng' where bs: "lidar_bytes N ?base (lp_noise_sigma l) (lp_num_points l) [0..<?n] rng = (bs, rng')" by force
  have "length (fst (lidar_bytes N base sigma k is rng)) = 12 * length is" for base sigma k "is" rng
    using lidar_point_length [OF assms(1)] by (induction "is" arbitrary: rng) (auto split: prod.split, metis fst_conv)
  from this [of ?base "lp_noise_sigma l" "lp_num_points l" "[0..<?n]" rng] have len: "length bs = 12 * ?n" using bs by simp
  have "lidar_loop N ?base (lp_noise_sigma l) (lp_num_points l) [0..<?n] (rng, replicate (unat (12 * ?w)) 0) = Some (rng', bs)"
    using lidar_loop_bytes [OF assms(1), where k = 0 and acc = "[]" and m = ?n and base = ?base] bs by (simp add: ur)
  then show ?thesis using len w r by (simp add: lidar_on_tick_def Let_def)
qed

end
