(* ===== verification/Can_Socket.thy ===== *)
theory Can_Socket
  imports Synthetic_Sensors
begin

text \<open>
  The sockets of the CAN stream: how the publisher opens its socket and computes the signals of a tick
  (\<^verbatim>\<open>sensors/can_publisher.cpp\<close>), how the reader thread of the scenario runner sets up its own
  (\<^verbatim>\<open>scenario_runner.cpp\<close>), and how the runner stops that thread. The results of the system calls are arguments;
  the interleaving of the reader thread with \<^verbatim>\<open>stop_can_reader\<close> is a step relation, because they share the
  descriptor \<^verbatim>\<open>can_fd_\<close>.
\<close>

subsection \<open>Opening a socket\<close>

text \<open>What the calls return: \<open>sock_ifindex\<close> is the index of the interface with the given name, if there is one.\<close>

record can_calls =
  sock_fd :: int
  sock_ifindex :: "string \<Rightarrow> int option"
  sock_bind :: "int \<Rightarrow> int"

definition IFNAMSIZ :: nat where "IFNAMSIZ = 16"

text \<open>The name in \<^verbatim>\<open>ifr_name\<close> after \<^verbatim>\<open>strncpy\<close> of at most \<^verbatim>\<open>IFNAMSIZ - 1\<close> characters of the C string.\<close>

definition ifr_name :: "string \<Rightarrow> string" where
  "ifr_name ifname = take (IFNAMSIZ - 1) (takeWhile (\<lambda>c. c \<noteq> CHR 0x00) ifname)"

record can_socket =
  cn_sock :: int
  cn_closed :: "int list"
  cn_bound :: "int option"

definition can_open_socket :: "can_calls \<Rightarrow> string \<Rightarrow> can_socket" where
  "can_open_socket K ifname =
     (let s = \<lparr>cn_sock = sock_fd K, cn_closed = [], cn_bound = None\<rparr>
      in if cn_sock s < 0 then s
         else case sock_ifindex K (ifr_name ifname) of
           None \<Rightarrow> s\<lparr>cn_closed := [cn_sock s], cn_sock := -1\<rparr>
         | Some ix \<Rightarrow>
             if sock_bind K ix < 0 then s\<lparr>cn_closed := [cn_sock s], cn_sock := -1\<rparr>
             else s\<lparr>cn_bound := Some ix\<rparr>)"

text \<open>The parameter \<^verbatim>\<open>can_interface\<close>, and the destructor.\<close>

definition CanPublisher_new :: "can_calls \<Rightarrow> string option \<Rightarrow> can_socket" where
  "CanPublisher_new K ifname = can_open_socket K (case ifname of None \<Rightarrow> ''vcan0'' | Some i \<Rightarrow> i)"

definition CanPublisher_delete :: "can_socket \<Rightarrow> can_socket" where
  "CanPublisher_delete s = (if cn_sock s \<ge> 0 then s\<lparr>cn_closed := cn_closed s @ [cn_sock s]\<rparr> else s)"

subsection \<open>The signals of a tick\<close>

text \<open>\<^verbatim>\<open>static_cast\<close> of a \<^verbatim>\<open>double\<close> to an integer type is undefined when the truncated value does not fit.\<close>

definition cast_in :: "int \<Rightarrow> int \<Rightarrow> dbl \<Rightarrow> 'a::len word option" where
  "cast_in lo hi x = (if lo \<le> trunc x \<and> trunc x \<le> hi then Some (word_of_int (trunc x)) else None)"

definition wheel_speed :: "'r Noise \<Rightarrow> dbl \<Rightarrow> 'r \<Rightarrow> u16 option \<times> 'r" where
  "wheel_speed N t rng =
     (let (n, rng) = gaussian N 20 rng
      in (cast_in 0 65535 \<bar>fadd (fmul 2000 (fadd 1 (msin N (fmul t (1 / 2))))) n\<bar>, rng))"

definition steering_angle :: "'r Noise \<Rightarrow> dbl \<Rightarrow> 'r \<Rightarrow> u16 option \<times> 'r" where
  "steering_angle N t rng =
     (let (n, rng) = gaussian N 5 rng
      in (cast_in (- 32768) 32767 (fadd (fmul 500 (msin N (fmul t (rnd64 (3 / 10))))) n), rng))"

definition throttle :: "'r Noise \<Rightarrow> dbl \<Rightarrow> 'r \<Rightarrow> u8 option \<times> 'r" where
  "throttle N t rng =
     (let (n, rng) = gaussian N 4 rng
      in (cast_in 0 255 (min 255 (max 0 (fadd (fadd 128 (fmul 100 (msin N (fmul t (rnd64 (2 / 10)))))) n))), rng))"

text \<open>A tick computes the signal of its frame only.\<close>

definition tick_signals :: "'r Noise \<Rightarrow> SyntheticPublisherBase \<Rightarrow> u64 \<Rightarrow> 'r \<Rightarrow> can_signals option \<times> 'r" where
  "tick_signals N b seq rng =
     (let t = tick_time b seq; which = unat (seq mod 3);
          none = \<lparr>sig_speed = (\<lambda>_. 0), sig_angle = (\<lambda>_. 0), sig_throttle = (\<lambda>_. 0)\<rparr>
      in if which = 0 then (let (v, rng) = wheel_speed N t rng in (map_option (\<lambda>v. none\<lparr>sig_speed := (\<lambda>_. v)\<rparr>) v, rng))
         else if which = 1 then (let (v, rng) = steering_angle N t rng in (map_option (\<lambda>v. none\<lparr>sig_angle := (\<lambda>_. v)\<rparr>) v, rng))
         else (let (v, rng) = throttle N t rng in (map_option (\<lambda>v. none\<lparr>sig_throttle := (\<lambda>_. v)\<rparr>) v, rng)))"

text \<open>\<open>None\<close> is undefined behaviour; otherwise the frame written to the socket, if there is one.\<close>

definition can_publisher_tick ::
    "bool \<Rightarrow> 'r Noise \<Rightarrow> SyntheticPublisherBase \<Rightarrow> can_socket \<Rightarrow> u64 \<Rightarrow> nat \<Rightarrow> 'r \<Rightarrow> (can_frame option \<times> 'r) option" where
  "can_publisher_tick little N b s seq now_us rng =
     (if cn_sock s < 0 then Some (None, rng)
      else case tick_signals N b seq rng of
        (None, rng) \<Rightarrow> None
      | (Some S, rng) \<Rightarrow> Some (Some (can_on_tick little S seq now_us), rng))"

text \<open>A write of another size than that of a frame is only logged.\<close>

definition can_write_warns :: "int \<Rightarrow> bool" where
  "can_write_warns n = (n \<noteq> 16)"

subsection \<open>The reader thread\<close>

text \<open>The set-up of the reader makes the same calls; it leaves the descriptor in \<^verbatim>\<open>can_fd_\<close>.\<close>

definition can_reader_setup :: "can_calls \<Rightarrow> string \<Rightarrow> can_socket" where
  "can_reader_setup K ifname =
     (let s = \<lparr>cn_sock = -1, cn_closed = [], cn_bound = None\<rparr>; fd = sock_fd K
      in if fd < 0 then s
         else let s = s\<lparr>cn_sock := fd\<rparr>
              in case sock_ifindex K (ifr_name ifname) of
                   None \<Rightarrow> s\<lparr>cn_closed := [fd], cn_sock := -1\<rparr>
                 | Some ix \<Rightarrow>
                     if sock_bind K ix < 0 then s\<lparr>cn_closed := [fd], cn_sock := -1\<rparr>
                     else s\<lparr>cn_bound := Some ix\<rparr>)"

text \<open>The reads are those of the loop until the stop flag is set.\<close>

definition can_reader_thread :: "can_calls \<Rightarrow> string \<Rightarrow> can_read list \<Rightarrow> StreamMetrics \<Rightarrow> can_socket \<times> StreamMetrics" where
  "can_reader_thread K ifname reads m =
     (let s = can_reader_setup K ifname
      in (s, if cn_bound s = None then m else cr_metrics (can_reader_loop reads m)))"

subsection \<open>Stopping the reader thread\<close>

text \<open>Where the reader thread and the thread in \<^verbatim>\<open>stop_can_reader\<close> are. Other threads of the process open
  descriptors at any time.\<close>

datatype reader_at = AtSocket | AtPublish int | AtSetup int | AtFailedClose int | AtFailedClear | AtLoop int | ReaderDone

datatype stopper_at = AtStop | AtTest | AtShutdown | AtJoin | AtTestClose | AtClose | AtClear | StopperDone

record can_threads =
  ct_can_fd :: int
  ct_stop :: bool
  ct_reader :: reader_at
  ct_stopper :: stopper_at
  ct_own :: "int option"
  ct_others :: "int list"
  ct_shut :: "int list"
  ct_foreign_closed :: "int list"

definition can_threads_init :: "int list \<Rightarrow> can_threads" where
  "can_threads_init others = \<lparr>ct_can_fd = -1, ct_stop = False, ct_reader = AtSocket, ct_stopper = AtStop,
     ct_own = None, ct_others = others, ct_shut = [], ct_foreign_closed = []\<rparr>"

text \<open>\<^verbatim>\<open>close\<close> of a descriptor: it is the socket of the reader, or it belongs to another thread.\<close>

definition close_fd :: "int \<Rightarrow> can_threads \<Rightarrow> can_threads" where
  "close_fd fd s = (if ct_own s = Some fd then s\<lparr>ct_own := None\<rparr>
     else if fd \<in> set (ct_others s) then s\<lparr>ct_others := removeAll fd (ct_others s), ct_foreign_closed := fd # ct_foreign_closed s\<rparr>
     else s)"

inductive can_thread_step :: "can_threads \<Rightarrow> can_threads \<Rightarrow> bool" where
  socket_fails: "ct_reader s = AtSocket \<Longrightarrow> can_thread_step s (s\<lparr>ct_reader := ReaderDone\<rparr>)"
| socket_opens: "\<lbrakk>ct_reader s = AtSocket; 0 \<le> fd; fd \<notin> set (ct_others s)\<rbrakk>
    \<Longrightarrow> can_thread_step s (s\<lparr>ct_own := Some fd, ct_reader := AtPublish fd\<rparr>)"
| publishes_fd: "ct_reader s = AtPublish fd \<Longrightarrow> can_thread_step s (s\<lparr>ct_can_fd := fd, ct_reader := AtSetup fd\<rparr>)"
| setup_fails: "ct_reader s = AtSetup fd \<Longrightarrow> can_thread_step s (s\<lparr>ct_reader := AtFailedClose fd\<rparr>)"
| failed_close: "ct_reader s = AtFailedClose fd \<Longrightarrow> can_thread_step s ((close_fd fd s)\<lparr>ct_reader := AtFailedClear\<rparr>)"
| failed_clear: "ct_reader s = AtFailedClear \<Longrightarrow> can_thread_step s (s\<lparr>ct_can_fd := -1, ct_reader := ReaderDone\<rparr>)"
| setup_succeeds: "ct_reader s = AtSetup fd \<Longrightarrow> can_thread_step s (s\<lparr>ct_reader := AtLoop fd\<rparr>)"
| reads_on: "\<lbrakk>ct_reader s = AtLoop fd; \<not> ct_stop s\<rbrakk> \<Longrightarrow> can_thread_step s s"
| leaves_loop: "\<lbrakk>ct_reader s = AtLoop fd; ct_stop s\<rbrakk> \<Longrightarrow> can_thread_step s (s\<lparr>ct_reader := ReaderDone\<rparr>)"
| sets_stop: "ct_stopper s = AtStop \<Longrightarrow> can_thread_step s (s\<lparr>ct_stop := True, ct_stopper := AtTest\<rparr>)"
| tests_fd: "ct_stopper s = AtTest
    \<Longrightarrow> can_thread_step s (s\<lparr>ct_stopper := if ct_can_fd s \<ge> 0 then AtShutdown else AtJoin\<rparr>)"
| shuts_down: "ct_stopper s = AtShutdown \<Longrightarrow> can_thread_step s (s\<lparr>ct_shut := ct_can_fd s # ct_shut s, ct_stopper := AtJoin\<rparr>)"
| joins: "\<lbrakk>ct_stopper s = AtJoin; ct_reader s = ReaderDone\<rbrakk> \<Longrightarrow> can_thread_step s (s\<lparr>ct_stopper := AtTestClose\<rparr>)"
| tests_close: "ct_stopper s = AtTestClose
    \<Longrightarrow> can_thread_step s (s\<lparr>ct_stopper := if ct_can_fd s \<ge> 0 then AtClose else StopperDone\<rparr>)"
| closes: "ct_stopper s = AtClose \<Longrightarrow> can_thread_step s ((close_fd (ct_can_fd s) s)\<lparr>ct_stopper := AtClear\<rparr>)"
| clears: "ct_stopper s = AtClear \<Longrightarrow> can_thread_step s (s\<lparr>ct_can_fd := -1, ct_stopper := StopperDone\<rparr>)"
| other_opens: "\<lbrakk>0 \<le> fd; fd \<notin> set (ct_others s); ct_own s \<noteq> Some fd\<rbrakk>
    \<Longrightarrow> can_thread_step s (s\<lparr>ct_others := fd # ct_others s\<rparr>)"

inductive_cases can_thread_stepE: "can_thread_step s s'"

text \<open>What \<^verbatim>\<open>can_fd_\<close> says of the socket, by the position of the two threads.\<close>

fun reader_owns :: "reader_at \<Rightarrow> stopper_at \<Rightarrow> can_threads \<Rightarrow> bool" where
  "reader_owns AtSocket w s = (ct_can_fd s = -1 \<and> ct_own s = None)"
| "reader_owns (AtPublish fd) w s = (ct_can_fd s = -1 \<and> 0 \<le> fd \<and> ct_own s = Some fd)"
| "reader_owns (AtSetup fd) w s = (ct_can_fd s = fd \<and> 0 \<le> fd \<and> ct_own s = Some fd)"
| "reader_owns (AtFailedClose fd) w s = (ct_can_fd s = fd \<and> 0 \<le> fd \<and> ct_own s = Some fd)"
| "reader_owns AtFailedClear w s = (0 \<le> ct_can_fd s \<and> ct_own s = None)"
| "reader_owns (AtLoop fd) w s = (ct_can_fd s = fd \<and> 0 \<le> fd \<and> ct_own s = Some fd)"
| "reader_owns ReaderDone w s =
     (case w of
        StopperDone \<Rightarrow> ct_can_fd s = -1 \<and> ct_own s = None
      | AtClose \<Rightarrow> ct_own s = Some (ct_can_fd s)
      | AtClear \<Rightarrow> ct_own s = None
      | _ \<Rightarrow> if ct_can_fd s < 0 then ct_can_fd s = -1 \<and> ct_own s = None else ct_own s = Some (ct_can_fd s))"

definition can_threads_inv :: "can_threads \<Rightarrow> bool" where
  "can_threads_inv s \<longleftrightarrow> reader_owns (ct_reader s) (ct_stopper s) s \<and> ct_foreign_closed s = [] \<and>
     (case ct_own s of None \<Rightarrow> True | Some fd \<Rightarrow> fd \<notin> set (ct_others s)) \<and>
     (ct_stopper s \<in> {AtTestClose, AtClose, AtClear, StopperDone} \<longrightarrow> ct_reader s = ReaderDone) \<and>
     (ct_stopper s = AtStop \<or> ct_stop s)"

lemma can_threads_init_inv: "can_threads_inv (can_threads_init others)"
  by (simp add: can_threads_inv_def can_threads_init_def)

lemma reader_owns_early:
  "w \<in> {AtTest, AtShutdown, AtJoin} \<Longrightarrow> reader_owns r w s = reader_owns r AtStop s"
  by (cases r) auto

lemma reader_owns_frame [simp]:
  "reader_owns r w (s\<lparr>ct_stop := b\<rparr>) = reader_owns r w s"
  "reader_owns r w (s\<lparr>ct_stopper := w'\<rparr>) = reader_owns r w s"
  "reader_owns r w (s\<lparr>ct_reader := r'\<rparr>) = reader_owns r w s"
  "reader_owns r w (s\<lparr>ct_shut := l\<rparr>) = reader_owns r w s"
  "reader_owns r w (s\<lparr>ct_others := l\<rparr>) = reader_owns r w s"
  by (cases r; simp cong: if_cong split: stopper_at.split)+

lemma can_thread_step_inv: "can_thread_step s s' \<Longrightarrow> can_threads_inv s \<Longrightarrow> can_threads_inv s'"
  by (erule can_thread_stepE)
    (auto simp: can_threads_inv_def close_fd_def reader_owns_early split: stopper_at.splits reader_at.splits option.splits if_splits)

lemma can_threads_reach_inv: "can_thread_step\<^sup>*\<^sup>* (can_threads_init others) s \<Longrightarrow> can_threads_inv s"
  by (induction rule: rtranclp_induct) (auto intro: can_threads_init_inv can_thread_step_inv)

text \<open>Some thread can always take a step that brings the shutdown closer to its end.\<close>

primrec reader_left :: "reader_at \<Rightarrow> nat" where
  "reader_left AtSocket = 5" | "reader_left (AtPublish fd) = 4" | "reader_left (AtSetup fd) = 3"
| "reader_left (AtFailedClose fd) = 2" | "reader_left AtFailedClear = 1" | "reader_left (AtLoop fd) = 1"
| "reader_left ReaderDone = 0"

primrec stopper_left :: "stopper_at \<Rightarrow> nat" where
  "stopper_left AtStop = 7" | "stopper_left AtTest = 6" | "stopper_left AtShutdown = 5" | "stopper_left AtJoin = 4"
| "stopper_left AtTestClose = 3" | "stopper_left AtClose = 2" | "stopper_left AtClear = 1" | "stopper_left StopperDone = 0"

definition stopping_left :: "can_threads \<Rightarrow> nat" where
  "stopping_left s = reader_left (ct_reader s) + stopper_left (ct_stopper s)"

lemma close_fd_places [simp]: "ct_reader (close_fd fd s) = ct_reader s" "ct_stopper (close_fd fd s) = ct_stopper s"
  by (simp_all add: close_fd_def)

lemma progressI:
  "can_thread_step s s' \<Longrightarrow> stopping_left s' < stopping_left s \<Longrightarrow> \<exists>s'. can_thread_step s s' \<and> stopping_left s' < stopping_left s"
  by blast

lemma reader_progress:
  assumes "ct_reader s \<noteq> ReaderDone" and "ct_stop s"
  shows "\<exists>s'. can_thread_step s s' \<and> stopping_left s' < stopping_left s"
proof (cases "ct_reader s")
  case AtSocket
  then show ?thesis by (intro progressI [OF socket_fails]) (simp_all add: stopping_left_def)
next
  case (AtPublish fd)
  then show ?thesis by (intro progressI [OF publishes_fd]) (simp_all add: stopping_left_def)
next
  case (AtSetup fd)
  then show ?thesis by (intro progressI [OF setup_succeeds]) (simp_all add: stopping_left_def)
next
  case (AtFailedClose fd)
  then show ?thesis by (intro progressI [OF failed_close]) (simp_all add: stopping_left_def)
next
  case AtFailedClear
  then show ?thesis by (intro progressI [OF failed_clear]) (simp_all add: stopping_left_def)
next
  case (AtLoop fd)
  with assms(2) show ?thesis by (intro progressI [OF leaves_loop]) (simp_all add: stopping_left_def)
qed (use assms in simp)

lemma stopper_progress:
  assumes "ct_stopper s \<noteq> StopperDone" and "ct_stopper s = AtJoin \<longrightarrow> ct_reader s = ReaderDone"
  shows "\<exists>s'. can_thread_step s s' \<and> stopping_left s' < stopping_left s"
proof (cases "ct_stopper s")
  case AtStop
  then show ?thesis by (intro progressI [OF sets_stop]) (simp_all add: stopping_left_def)
next
  case AtTest
  then show ?thesis by (intro progressI [OF tests_fd]) (simp_all add: stopping_left_def)
next
  case AtShutdown
  then show ?thesis by (intro progressI [OF shuts_down]) (simp_all add: stopping_left_def)
next
  case AtJoin
  with assms(2) show ?thesis by (intro progressI [OF joins]) (simp_all add: stopping_left_def)
next
  case AtTestClose
  then show ?thesis by (intro progressI [OF tests_close]) (simp_all add: stopping_left_def)
next
  case AtClose
  then show ?thesis by (intro progressI [OF closes]) (simp_all add: stopping_left_def)
next
  case AtClear
  then show ?thesis by (intro progressI [OF clears]) (simp_all add: stopping_left_def)
qed (use assms in simp)

lemma stop_completes:
  "can_threads_inv s \<Longrightarrow> \<exists>s'. can_thread_step\<^sup>*\<^sup>* s s' \<and> ct_stopper s' = StopperDone"
proof (induction "stopping_left s" arbitrary: s rule: less_induct)
  case less
  show ?case
  proof (cases "ct_stopper s = StopperDone")
    case True
    then show ?thesis by blast
  next
    case False
    have "\<exists>s'. can_thread_step s s' \<and> stopping_left s' < stopping_left s"
      using stopper_progress [OF False] reader_progress [of s] less.prems by (auto simp: can_threads_inv_def)
    then obtain s' where s': "can_thread_step s s'" "stopping_left s' < stopping_left s" by blast
    from less.hyps [OF s'(2) can_thread_step_inv [OF s'(1) less.prems]] s'(1) show ?thesis
      by (meson converse_rtranclp_into_rtranclp)
  qed
qed

subsection \<open>The signals are in range\<close>

lemma cast_in_small:
  assumes "\<bar>x\<bar> \<le> of_int n" and "lo \<le> - n" and "n \<le> hi"
  shows "cast_in lo hi x \<noteq> None"
  using trunc_abs_le [OF assms(1)] assms(2,3) by (auto simp: cast_in_def abs_le_iff)

lemma cast_in_pos:
  assumes "0 \<le> x" and "x \<le> of_int n" and "n \<le> hi"
  shows "cast_in 0 hi x \<noteq> None"
  using trunc_abs_le [of x n] trunc_nonneg [OF assms(1)] assms by (auto simp: cast_in_def)

definition sensible_noise :: "'r Noise \<Rightarrow> bool" where
  "sensible_noise N \<longleftrightarrow> (\<forall>x. \<bar>msin N x\<bar> \<le> 1) \<and> (\<forall>\<sigma>\<in>{4, 5, 20}. \<forall>rng. \<bar>fst (gaussian N \<sigma> rng)\<bar> \<le> 100 * \<sigma>)"

lemma wheel_speed_defined:
  assumes "sensible_noise N" shows "\<exists>v rng'. wheel_speed N t rng = (Some v, rng')"
proof -
  obtain n rng' where gauss: "gaussian N 20 rng = (n, rng')" by force
  let ?s = "msin N (fmul t (1 / 2))"
  have s: "\<bar>?s\<bar> \<le> of_int 1" and n: "\<bar>n\<bar> \<le> of_int 2000"
    using assms gauss by (auto simp: sensible_noise_def dest!: bspec [of _ _ 20] spec [of _ rng])
  have "\<bar>fadd 1 ?s\<bar> \<le> of_int 2" using fadd_abs_le [of 1 1 ?s 1] s by simp
  then have "\<bar>fmul 2000 (fadd 1 ?s)\<bar> \<le> of_int 4000" using fmul_abs_le [of 2000 2000 _ 2] by simp
  then have "\<bar>fadd (fmul 2000 (fadd 1 ?s)) n\<bar> \<le> of_int 6000"
    using fadd_abs_le [OF _ n, of _ 4000] by simp
  then have "cast_in 0 65535 \<bar>fadd (fmul 2000 (fadd 1 ?s)) n\<bar> \<noteq> (None :: u16 option)"
    by (intro cast_in_pos [of _ 6000]) simp_all
  then show ?thesis by (auto simp: wheel_speed_def gauss)
qed

lemma steering_angle_defined:
  assumes "sensible_noise N" shows "\<exists>v rng'. steering_angle N t rng = (Some v, rng')"
proof -
  obtain n rng' where gauss: "gaussian N 5 rng = (n, rng')" by force
  let ?s = "msin N (fmul t (rnd64 (3 / 10)))"
  have s: "\<bar>?s\<bar> \<le> of_int 1" and n: "\<bar>n\<bar> \<le> of_int 500"
    using assms gauss by (auto simp: sensible_noise_def dest!: bspec [of _ _ 5] spec [of _ rng])
  have "\<bar>fmul 500 ?s\<bar> \<le> of_int 500" using fmul_abs_le [of 500 500 ?s 1] s by simp
  then have "\<bar>fadd (fmul 500 ?s) n\<bar> \<le> of_int 1000" using fadd_abs_le [OF _ n, of _ 500] by simp
  then have "cast_in (- 32768) 32767 (fadd (fmul 500 ?s) n) \<noteq> (None :: u16 option)"
    by (rule cast_in_small) simp_all
  then show ?thesis by (auto simp: steering_angle_def gauss)
qed

lemma throttle_defined: "\<exists>v rng'. throttle N t rng = (Some v, rng')"
proof -
  obtain n rng' where gauss: "gaussian N 4 rng = (n, rng')" by force
  have "cast_in 0 255 (min 255 (max 0 x)) \<noteq> (None :: u8 option)" for x
    by (intro cast_in_pos [of _ 255]) simp_all
  then show ?thesis by (auto simp: throttle_def gauss)
qed

lemma tick_signals_defined:
  assumes "sensible_noise N" shows "\<exists>S rng'. tick_signals N b seq rng = (Some S, rng')"
  using wheel_speed_defined [OF assms, of "tick_time b seq" rng] steering_angle_defined [OF assms, of "tick_time b seq" rng]
    throttle_defined [of N "tick_time b seq" rng]
  by (auto simp: tick_signals_def Let_def)

subsection \<open>Properties\<close>

text \<open>The CAN publisher degrades safely: it keeps a socket exactly when the socket opened, the interface exists and
  the bind succeeded, and is then bound to that interface; a socket it gave up is closed. Without a socket a tick
  does nothing; with one it never casts a signal out of range and writes one frame from which a reader decodes
  the sequence number of the tick and the time of sending.\<close>

theorem can_publisher_safe:
  assumes "sensible_noise N"
  shows "let s = CanPublisher_new K ifname; name = ifr_name (case ifname of None \<Rightarrow> ''vcan0'' | Some i \<Rightarrow> i) in
    (0 \<le> cn_sock s \<longleftrightarrow> 0 \<le> sock_fd K \<and> (\<exists>ix. sock_ifindex K name = Some ix \<and> 0 \<le> sock_bind K ix \<and> cn_bound s = Some ix)) \<and>
    (cn_sock s < 0 \<and> 0 \<le> sock_fd K \<longleftrightarrow> cn_closed s = [sock_fd K]) \<and>
    (if cn_sock s < 0 then can_publisher_tick little N b s seq now_us rng = Some (None, rng)
     else \<exists>frame rng'. can_publisher_tick little N b s seq now_us rng = Some (Some frame, rng') \<and>
            length (can_data frame) = 8 \<and> can_dlc frame = 8 \<and>
            can_decode_seq frame = ucast seq \<and> can_decode_us frame = word_of_nat now_us)"
proof -
  obtain S rng' where S: "tick_signals N b seq rng = (Some S, rng')" using tick_signals_defined [OF assms] by blast
  have "length (can_data (can_on_tick little S seq now_us)) = 8" "can_dlc (can_on_tick little S seq now_us) = 8"
    by (simp_all add: can_on_tick_def Let_def)
  then show ?thesis
    by (auto simp: Let_def CanPublisher_new_def can_open_socket_def can_publisher_tick_def S can_seq_roundtrip can_us_roundtrip
        split: option.split)
qed

theorem can_publisher_safe_witness:
  "let N = \<lparr>gaussian = \<lambda>_ r. (1, r), msin = \<lambda>_. 1, mcos = \<lambda>_. 0, float_bytes = \<lambda>_. [], pi64 = 3\<rparr> :: nat Noise;
       K = \<lparr>sock_fd = 5, sock_ifindex = (\<lambda>n. if n = ''vcan0'' then Some 2 else None), sock_bind = (\<lambda>_. 0)\<rparr>;
       b = SyntheticPublisherBase_new None None None None
   in \<exists>frame rng'. can_publisher_tick True N b (CanPublisher_new K None) 65537 12 0 = Some (Some frame, rng') \<and>
        can_decode_seq frame = 1"
proof -
  let ?N = "\<lparr>gaussian = \<lambda>_ r. (1, r), msin = \<lambda>_. 1, mcos = \<lambda>_. 0, float_bytes = \<lambda>_. [], pi64 = 3\<rparr> :: nat Noise"
  let ?K = "\<lparr>sock_fd = 5, sock_ifindex = (\<lambda>n. if n = ''vcan0'' then Some 2 else None), sock_bind = (\<lambda>_. 0)\<rparr>"
  have "sensible_noise ?N" by (simp add: sensible_noise_def)
  moreover have "cn_sock (CanPublisher_new ?K None) = 5"
    by (simp add: CanPublisher_new_def can_open_socket_def Let_def ifr_name_def IFNAMSIZ_def numeral_eq_Suc)
  ultimately show ?thesis
    using can_publisher_safe [of ?N ?K None True "SyntheticPublisherBase_new None None None None" 65537 12 0]
    by (auto simp: Let_def)
qed

text \<open>C29: Stopping the CAN reader leaks nothing and closes nothing that belongs to others: in every interleaving of the
  reader thread, \<^verbatim>\<open>stop_can_reader\<close> and other threads that open descriptors, only the socket of the reader is
  ever closed; when \<^verbatim>\<open>stop_can_reader\<close> has returned the thread has ended and its socket is closed; and from every
  reachable state it can return.\<close>

theorem can_reader_stops:
  assumes "can_thread_step\<^sup>*\<^sup>* (can_threads_init others) s"
  shows "ct_foreign_closed s = [] \<and>
    (ct_stopper s = StopperDone \<longrightarrow> ct_reader s = ReaderDone \<and> ct_own s = None \<and> ct_can_fd s = -1) \<and>
    (\<exists>s'. can_thread_step\<^sup>*\<^sup>* s s' \<and> ct_stopper s' = StopperDone)"
proof (intro conjI)
  have inv: "can_threads_inv s" using assms by (rule can_threads_reach_inv)
  then show "ct_foreign_closed s = []"
    and "ct_stopper s = StopperDone \<longrightarrow> ct_reader s = ReaderDone \<and> ct_own s = None \<and> ct_can_fd s = -1"
    by (auto simp: can_threads_inv_def)
  show "\<exists>s'. can_thread_step\<^sup>*\<^sup>* s s' \<and> ct_stopper s' = StopperDone" using inv by (rule stop_completes)
qed

theorem can_reader_stops_witness:
  "\<exists>s'. can_thread_step\<^sup>*\<^sup>* (can_threads_init [3]) s' \<and> ct_stopper s' = StopperDone"
  using can_reader_stops [OF rtranclp.rtrancl_refl, of "[3]"] by blast

text \<open>The descriptor itself is read without synchronisation: when the set-up of the reader fails while it is being
  stopped, \<^verbatim>\<open>stop_can_reader\<close> can shut down a descriptor that the reader has closed and another thread has opened
  since.\<close>

theorem can_stop_shuts_foreign:
  "\<exists>s. can_thread_step\<^sup>*\<^sup>* (can_threads_init []) s \<and> ct_shut s = [5] \<and> ct_own s = None \<and> 5 \<in> set (ct_others s)"
proof -
  let ?s0 = "can_threads_init []"
  let ?s1 = "?s0\<lparr>ct_own := Some 5, ct_reader := AtPublish 5\<rparr>"
  let ?s2 = "?s1\<lparr>ct_can_fd := 5, ct_reader := AtSetup 5\<rparr>"
  let ?s3 = "?s2\<lparr>ct_reader := AtFailedClose 5\<rparr>"
  let ?s4 = "?s3\<lparr>ct_stop := True, ct_stopper := AtTest\<rparr>"
  let ?s5 = "?s4\<lparr>ct_stopper := AtShutdown\<rparr>"
  let ?s6 = "?s5\<lparr>ct_own := None, ct_reader := AtFailedClear\<rparr>"
  let ?s7 = "?s6\<lparr>ct_others := [5]\<rparr>"
  let ?s8 = "?s7\<lparr>ct_shut := [5], ct_stopper := AtJoin\<rparr>"
  have 1: "can_thread_step ?s0 ?s1" by (rule socket_opens) (simp_all add: can_threads_init_def)
  have 2: "can_thread_step ?s1 ?s2" by (rule publishes_fd) simp
  have 3: "can_thread_step ?s2 ?s3" by (rule setup_fails) simp
  have 4: "can_thread_step ?s3 ?s4" by (rule sets_stop) (simp add: can_threads_init_def)
  have 5: "can_thread_step ?s4 ?s5" using tests_fd [of ?s4] by simp
  have 6: "can_thread_step ?s5 ?s6" using failed_close [of ?s5 5] by (simp add: close_fd_def)
  have 7: "can_thread_step ?s6 ?s7" using other_opens [of 5 ?s6] by (simp add: can_threads_init_def)
  have 8: "can_thread_step ?s7 ?s8" using shuts_down [of ?s7] by (simp add: can_threads_init_def)
  have "can_thread_step\<^sup>*\<^sup>* ?s0 ?s8"
    by (rule converse_rtranclp_into_rtranclp, rule 1, rule converse_rtranclp_into_rtranclp, rule 2,
        rule converse_rtranclp_into_rtranclp, rule 3, rule converse_rtranclp_into_rtranclp, rule 4,
        rule converse_rtranclp_into_rtranclp, rule 5, rule converse_rtranclp_into_rtranclp, rule 6,
        rule converse_rtranclp_into_rtranclp, rule 7, rule r_into_rtranclp, rule 8)
  moreover have "ct_shut ?s8 = [5] \<and> ct_own ?s8 = None \<and> 5 \<in> set (ct_others ?s8)" by simp
  ultimately show ?thesis by blast
qed

text \<open>An interface name of more than 15 characters is cut off, so it can select another interface.\<close>

lemma ifr_name_collides:
  "ifr_name ''vcan-front-left-a'' = ifr_name ''vcan-front-left-b''"
  by (simp add: ifr_name_def IFNAMSIZ_def)

end
