(* ===== verification/Exporter_Server.thy ===== *)
theory Exporter_Server
  imports Metrics_Registry
begin

text \<open>
  The accept loop of the Prometheus exporter (\<^verbatim>\<open>PrometheusExporter::serve_loop\<close> in
  \<^verbatim>\<open>metrics/prometheus_exporter.cpp\<close>). The results of the system calls, the values that the loads of the running flag
  see while another thread may call \<^verbatim>\<open>stop\<close>, and the registry at the time of rendering are given for each round of
  the loop; a receive from a client that stays silent does not return. The receive buffer is accessed through \<open>blit\<close> and \<open>wr\<close>.
\<close>

datatype recv_result = NoData | Data string | Blocks

record serve_round =
  sv_running :: bool
  sv_poll :: int
  sv_accept :: int
  sv_running_after :: bool
  sv_recv :: recv_result
  sv_registry :: Registry

text \<open>\<^verbatim>\<open>sizeof(buf)\<close>; \<^verbatim>\<open>recv\<close> is asked for one byte less and delivers at most that.\<close>

definition recv_capacity :: nat where "recv_capacity = 2048"

definition recv_ok :: "serve_round \<Rightarrow> bool" where
  "recv_ok v \<longleftrightarrow> (case sv_recv v of Data text \<Rightarrow> length text \<le> recv_capacity - 1 | _ \<Rightarrow> True)"

text \<open>The C string in the buffer after a receive, whatever the buffer held before.\<close>

definition read_request :: "string \<Rightarrow> recv_result \<Rightarrow> string option" where
  "read_request junk received = (case received of
     Data text \<Rightarrow>
       if text = [] then Some []
       else do {
         buf \<leftarrow> blit junk 0 text;
         buf \<leftarrow> wr buf (length text) (CHR 0x00);
         Some (takeWhile (\<lambda>c. c \<noteq> CHR 0x00) buf) }
   | _ \<Rightarrow> Some [])"

text \<open>The descriptor and the response of each client, in the order they are sent; each is then closed. The loop is left,
  is still polling after the given rounds, or is stuck in the receive of a client.\<close>

datatype serve_end = LoopLeft | StillServing | StuckIn int

fun serve_loop :: "(dbl \<Rightarrow> string) \<Rightarrow> string \<Rightarrow> serve_round list \<Rightarrow> ((int \<times> string) list \<times> serve_end) option" where
  "serve_loop fmt junk [] = Some ([], StillServing)"
| "serve_loop fmt junk (v # rounds) =
     (if \<not> sv_running v then Some ([], LoopLeft)
      else if sv_poll v \<le> 0 then serve_loop fmt junk rounds
      else if sv_accept v < 0 then (if \<not> sv_running_after v then Some ([], LoopLeft) else serve_loop fmt junk rounds)
      else if sv_recv v = Blocks then Some ([], StuckIn (sv_accept v))
      else do {
        request \<leftarrow> read_request junk (sv_recv v);
        (replies, e) \<leftarrow> serve_loop fmt junk rounds;
        Some ((sv_accept v, http_response fmt (sv_registry v) request) # replies, e) })"

text \<open>The destructor stops the exporter.\<close>

definition exporter_delete :: "PrometheusExporter \<Rightarrow> PrometheusExporter" where
  "exporter_delete e = exporter_stop e"

subsection \<open>What is served\<close>

text \<open>The loop is left at the first load that sees the running flag cleared.\<close>

definition round_leaves :: "serve_round \<Rightarrow> bool" where
  "round_leaves v \<longleftrightarrow> \<not> sv_running v \<or> (sv_poll v > 0 \<and> sv_accept v < 0 \<and> \<not> sv_running_after v)"

definition client_connects :: "serve_round \<Rightarrow> bool" where
  "client_connects v \<longleftrightarrow> sv_poll v > 0 \<and> sv_accept v \<ge> 0"

definition round_sticks :: "serve_round \<Rightarrow> bool" where
  "round_sticks v \<longleftrightarrow> sv_running v \<and> client_connects v \<and> sv_recv v = Blocks"

definition serve_ending :: "serve_round list \<Rightarrow> serve_end" where
  "serve_ending rounds = (case find (\<lambda>v. round_leaves v \<or> round_sticks v) rounds of
     None \<Rightarrow> StillServing
   | Some v \<Rightarrow> if round_sticks v then StuckIn (sv_accept v) else LoopLeft)"

definition request_text :: "serve_round \<Rightarrow> string" where
  "request_text v = (case sv_recv v of Data text \<Rightarrow> text | _ \<Rightarrow> [])"

lemma read_request_text:
  assumes "length junk = recv_capacity" and "recv_ok v"
  shows "read_request junk (sv_recv v) = Some (takeWhile (\<lambda>c. c \<noteq> CHR 0x00) (request_text v))"
proof (cases "request_text v = []")
  case True
  then show ?thesis by (auto simp: read_request_def request_text_def split: recv_result.splits)
next
  case False
  then obtain str where t: "sv_recv v = Data str" "str \<noteq> []" by (auto simp: request_text_def split: recv_result.splits)
  then have len: "length str < length junk" using assms by (auto simp: recv_ok_def recv_capacity_def)
  have "blit junk 0 str = Some (str @ drop (length str) junk)" using len by (simp add: blit_def)
  moreover have "wr (str @ drop (length str) junk) (length str) (CHR 0x00)
      = Some (str @ CHR 0x00 # drop (Suc (length str)) junk)"
    using len by (simp add: wr_in list_update_append Cons_nth_drop_Suc [symmetric])
  moreover have "takeWhile (\<lambda>c. c \<noteq> CHR 0x00) (str @ CHR 0x00 # rest) = takeWhile (\<lambda>c. c \<noteq> CHR 0x00) str" for rest
    by (induction str) simp_all
  ultimately show ?thesis using t by (simp add: read_request_def request_text_def)
qed

lemma takeWhile_request: "request_path (takeWhile (\<lambda>c. c \<noteq> CHR 0x00) text) = request_path text"
  by (simp add: request_path_def)

lemma serve_loop_replies:
  assumes "length junk = recv_capacity" and "list_all recv_ok rounds"
  shows "serve_loop fmt junk rounds =
    Some (map (\<lambda>v. (sv_accept v, http_response fmt (sv_registry v) (request_text v)))
      (filter client_connects (takeWhile (\<lambda>v. \<not> round_leaves v \<and> \<not> round_sticks v) rounds)), serve_ending rounds)"
  using assms(2)
proof (induction rounds)
  case (Cons v rounds)
  have "http_response fmt r (takeWhile (\<lambda>c. c \<noteq> CHR 0x00) (request_text v)) = http_response fmt r (request_text v)" for r
    by (simp add: http_response_def takeWhile_request)
  moreover have "read_request junk (sv_recv v) = Some (takeWhile (\<lambda>c. c \<noteq> CHR 0x00) (request_text v))"
    using assms(1) Cons.prems by (intro read_request_text) simp_all
  ultimately show ?case using Cons by (auto simp: round_leaves_def client_connects_def round_sticks_def serve_ending_def)
qed (simp add: serve_ending_def)

subsection \<open>The response as a client reads it\<close>

text \<open>A client: the lines up to the empty line, the announced length, and as many bytes of body.\<close>

fun header_lines :: "string \<Rightarrow> string \<Rightarrow> (string list \<times> string) option" where
  "header_lines acc [] = None"
| "header_lines acc (c # cs) =
     (if c = CHR 0x0D \<and> cs \<noteq> [] \<and> hd cs = CHR 0x0A
      then (if acc = [] then Some ([], tl cs) else map_option (\<lambda>(ls, b). (acc # ls, b)) (header_lines [] (tl cs)))
      else header_lines (acc @ [c]) cs)"

definition content_length :: "string list \<Rightarrow> nat option" where
  "content_length ls =
     map_option (\<lambda>l. digits_value 0 (drop 16 l)) (find (\<lambda>l. take 16 l = ''Content-Length: '') ls)"

definition http_client :: "string \<Rightarrow> (string \<times> string) option" where
  "http_client response = do {
     (ls, rest) \<leftarrow> header_lines [] response;
     n \<leftarrow> content_length ls;
     Some (hd ls, take n rest) }"

lemma header_line:
  "CHR 0x0D \<notin> set l \<Longrightarrow> acc @ l \<noteq> [] \<Longrightarrow>
     header_lines acc (l @ CHR 0x0D # CHR 0x0A # rest) = map_option (\<lambda>(ls, b). ((acc @ l) # ls, b)) (header_lines [] rest)"
proof (induction l arbitrary: acc)
  case (Cons c l)
  then show ?case using Cons.IH [of "acc @ [c]"] by auto
qed simp

lemma decimal_no_cr: "CHR 0x0D \<notin> set (decimal n)"
proof -
  have "\<forall>c \<in> set (decimal n). (48 :: nat) \<le> of_char c" using decimal_value [of n] by (auto simp: all_digits_def)
  then show ?thesis by fastforce
qed

lemma http_response_read:
  "http_client (http_response fmt r received) =
     (if request_path received = ''/metrics'' \<or> request_path received = ''/''
      then Some (''HTTP/1.1 200 OK'', render fmt r)
      else Some (''HTTP/1.1 404 Not Found'', ''not found'' @ [CHR 0x0A]))"
proof -
  let ?ok = "request_path received = ''/metrics'' \<or> request_path received = ''/''"
  let ?body = "if ?ok then render fmt r else ''not found'' @ [CHR 0x0A]"
  let ?status = "''HTTP/1.1 '' @ (if ?ok then ''200 OK'' else ''404 Not Found'')"
  let ?ctype = "''Content-Type: '' @ (if ?ok then ''text/plain; version=0.0.4; charset=utf-8'' else ''text/plain'')"
  let ?len = "''Content-Length: '' @ decimal (length ?body)"
  let ?conn = "''Connection: close''"
  have r: "http_response fmt r received = ?status @ CHR 0x0D # CHR 0x0A # (?ctype @ CHR 0x0D # CHR 0x0A # (?len @
      CHR 0x0D # CHR 0x0A # (?conn @ CHR 0x0D # CHR 0x0A # ([] @ CHR 0x0D # CHR 0x0A # ?body))))"
    by (simp add: http_response_def Let_def crlf_def)
  have n: "CHR 0x0D \<notin> set ?status" "CHR 0x0D \<notin> set ?ctype" "CHR 0x0D \<notin> set ?len" "CHR 0x0D \<notin> set ?conn"
    using decimal_no_cr by auto
  have "header_lines [] (http_response fmt r received) = Some ([?status, ?ctype, ?len, ?conn], ?body)"
    unfolding r by (subst header_line [OF n(1)], simp, subst header_line [OF n(2)], simp, subst header_line [OF n(3)], simp,
        subst header_line [OF n(4)], simp, simp)
  moreover have "content_length [?status, ?ctype, ?len, ?conn] = Some (length ?body)"
    using decimal_value [of "length ?body"] by (simp add: content_length_def)
  ultimately show ?thesis by (simp add: http_client_def)
qed

subsection \<open>Properties\<close>

text \<open>Until the running flag is seen cleared or a client client_connects and stays silent, the exporter answers every client
  that client_connects, each once and in order, and never writes outside its receive buffer, whatever the clients send; a
  client that reads the announced number of bytes gets the rendered registry for \<^verbatim>\<open>/metrics\<close> and \<^verbatim>\<open>/\<close> and a 404 for
  any other path. A silent client holds the loop, so that \<^verbatim>\<open>stop\<close> does not return, unless it was left before.\<close>

theorem exporter_answers:
  assumes "length junk = recv_capacity" and "list_all recv_ok rounds"
  shows "\<exists>replies. serve_loop fmt junk rounds = Some (replies, serve_ending rounds) \<and>
    map (\<lambda>(client, response). (client, http_client response)) replies =
    map (\<lambda>v. (sv_accept v, Some (if request_path (request_text v) \<in> {''/metrics'', ''/''}
           then (''HTTP/1.1 200 OK'', render fmt (sv_registry v))
           else (''HTTP/1.1 404 Not Found'', ''not found'' @ [CHR 0x0A]))))
      (filter client_connects (takeWhile (\<lambda>v. \<not> round_leaves v \<and> \<not> round_sticks v) rounds))"
  unfolding serve_loop_replies [OF assms] by (simp add: http_response_read comp_def)

theorem exporter_answers_witness:
  "\<exists>reply. serve_loop (\<lambda>_. ''1'') (replicate 2048 CHR ''x'')
     [\<lparr>sv_running = True, sv_poll = 0, sv_accept = -1, sv_running_after = True, sv_recv = NoData, sv_registry = []\<rparr>,
      \<lparr>sv_running = True, sv_poll = 1, sv_accept = 7, sv_running_after = True,
        sv_recv = Data ''GET /nothing HTTP/1.1'', sv_registry = []\<rparr>,
      \<lparr>sv_running = True, sv_poll = 1, sv_accept = 8, sv_running_after = True, sv_recv = Blocks, sv_registry = []\<rparr>,
      \<lparr>sv_running = False, sv_poll = 1, sv_accept = 9, sv_running_after = True, sv_recv = NoData, sv_registry = []\<rparr>]
     = Some ([(7, reply)], StuckIn 8) \<and> http_client reply = Some (''HTTP/1.1 404 Not Found'', ''not found'' @ [CHR 0x0A])"
proof -
  let ?rounds = "[\<lparr>sv_running = True, sv_poll = 0, sv_accept = -1, sv_running_after = True, sv_recv = NoData, sv_registry = []\<rparr>,
      \<lparr>sv_running = True, sv_poll = 1, sv_accept = 7, sv_running_after = True,
        sv_recv = Data ''GET /nothing HTTP/1.1'', sv_registry = []\<rparr>,
      \<lparr>sv_running = True, sv_poll = 1, sv_accept = 8, sv_running_after = True, sv_recv = Blocks, sv_registry = []\<rparr>,
      \<lparr>sv_running = False, sv_poll = 1, sv_accept = 9, sv_running_after = True, sv_recv = NoData, sv_registry = []\<rparr>]"
  have "length (replicate 2048 CHR ''x'') = recv_capacity" "list_all recv_ok ?rounds"
    by (simp_all add: recv_capacity_def recv_ok_def)
  from exporter_answers [OF this, of "\<lambda>_. ''1''"] show ?thesis
    by (auto simp: client_connects_def round_leaves_def round_sticks_def serve_ending_def request_text_def request_path_def map_eq_Cons_conv)
qed

end
