(* ===== verification/Exporter_Threads.thy ===== *)
theory Exporter_Threads
  imports Exporter_Server
begin

text \<open>
  Stopping the exporter: \<^verbatim>\<open>PrometheusExporter::stop\<close> interleaved with the thread in \<^verbatim>\<open>serve_loop\<close> and with
  other threads of the process that open and close descriptors (\<^verbatim>\<open>metrics/prometheus_exporter.cpp\<close>). \<^verbatim>\<open>listen_fd_\<close> is a
  plain member that both threads use. \<open>Exporter_Server\<close> takes the loop on its own and says what it answers; here the answers are left
  out, and an accepted client either sends its request or stays silent, in which case \<^verbatim>\<open>recv\<close> does not return: the client
  socket has no timeout.
\<close>

subsection \<open>Threads\<close>

text \<open>What a descriptor refers to.\<close>

datatype descriptor = Listener | ClientSocket | Foreign

text \<open>The serving thread: before the test of \<^verbatim>\<open>running_\<close>, in \<^verbatim>\<open>poll\<close> with the descriptor that it read, before \<^verbatim>\<open>accept\<close>,
  before the second test, in \<^verbatim>\<open>recv\<close> from a client that is silent or not, before the answer, ended.\<close>

datatype serve_at = SvTest | SvPoll int | SvAccept | SvFailed | SvRecv int bool | SvReply int | SvDone

datatype stop_at = StIdle | StTest | StShutdown | StClose | StClear | StJoin | StReturned

record exporter_threads =
  et_listen_fd :: int
  et_running :: bool
  et_table :: "int \<rightharpoonup> descriptor"
  et_serve :: serve_at
  et_stop :: stop_at
  et_foreign_accepts :: "int list"

text \<open>The state that \<^verbatim>\<open>start\<close> leaves when it succeeds: it got the descriptor \<open>fd\<close>, other threads hold \<open>others\<close>.\<close>

definition exporter_threads_init :: "int \<Rightarrow> int set \<Rightarrow> exporter_threads" where
  "exporter_threads_init fd others = \<lparr>et_listen_fd = fd, et_running = True,
     et_table = (\<lambda>n. if n = fd then Some Listener else if n \<in> others then Some Foreign else None),
     et_serve = SvTest, et_stop = StIdle, et_foreign_accepts = []\<rparr>"

text \<open>\<^verbatim>\<open>poll\<close> reports an event also for a descriptor that is not open. \<^verbatim>\<open>accept\<close> fails on one, on a socket that was shut down,
  and for reasons of its own.\<close>

inductive serve_step :: "exporter_threads \<Rightarrow> exporter_threads \<Rightarrow> bool" where
  sv_leaves: "et_serve s = SvTest \<Longrightarrow> \<not> et_running s \<Longrightarrow> serve_step s (s\<lparr>et_serve := SvDone\<rparr>)"
| sv_polls: "et_serve s = SvTest \<Longrightarrow> et_running s \<Longrightarrow> serve_step s (s\<lparr>et_serve := SvPoll (et_listen_fd s)\<rparr>)"
| sv_timeout: "et_serve s = SvPoll fd \<Longrightarrow> serve_step s (s\<lparr>et_serve := SvTest\<rparr>)"
| sv_event: "et_serve s = SvPoll fd \<Longrightarrow> 0 \<le> fd \<Longrightarrow> serve_step s (s\<lparr>et_serve := SvAccept\<rparr>)"
| sv_accepts: "et_serve s = SvAccept \<Longrightarrow> et_table s (et_listen_fd s) = Some d \<Longrightarrow> et_table s c = None \<Longrightarrow> 0 \<le> c
    \<Longrightarrow> serve_step s (s\<lparr>et_serve := SvRecv c silent, et_table := (et_table s)(c \<mapsto> ClientSocket),
          et_foreign_accepts := et_foreign_accepts s @ (if d = Foreign then [et_listen_fd s] else [])\<rparr>)"
| sv_accept_fails: "et_serve s = SvAccept \<Longrightarrow> serve_step s (s\<lparr>et_serve := SvFailed\<rparr>)"
| sv_retests: "et_serve s = SvFailed \<Longrightarrow> serve_step s (s\<lparr>et_serve := (if et_running s then SvTest else SvDone)\<rparr>)"
| sv_receives: "et_serve s = SvRecv c False \<Longrightarrow> serve_step s (s\<lparr>et_serve := SvReply c\<rparr>)"
| sv_replies: "et_serve s = SvReply c \<Longrightarrow> serve_step s (s\<lparr>et_serve := SvTest, et_table := (et_table s)(c := None)\<rparr>)"

inductive stop_step :: "exporter_threads \<Rightarrow> exporter_threads \<Rightarrow> bool" where
  st_exchange: "et_stop s = StIdle
    \<Longrightarrow> stop_step s (s\<lparr>et_stop := (if et_running s then StTest else StReturned), et_running := False\<rparr>)"
| st_test: "et_stop s = StTest \<Longrightarrow> stop_step s (s\<lparr>et_stop := (if 0 \<le> et_listen_fd s then StShutdown else StJoin)\<rparr>)"
| st_shutdown: "et_stop s = StShutdown \<Longrightarrow> stop_step s (s\<lparr>et_stop := StClose\<rparr>)"
| st_close: "et_stop s = StClose \<Longrightarrow> stop_step s (s\<lparr>et_stop := StClear, et_table := (et_table s)(et_listen_fd s := None)\<rparr>)"
| st_clear: "et_stop s = StClear \<Longrightarrow> stop_step s (s\<lparr>et_stop := StJoin, et_listen_fd := - 1\<rparr>)"
| st_join: "et_stop s = StJoin \<Longrightarrow> et_serve s = SvDone \<Longrightarrow> stop_step s (s\<lparr>et_stop := StReturned\<rparr>)"

text \<open>Other threads use descriptors of their own; one that is opened gets a number that is free.\<close>

inductive other_step :: "exporter_threads \<Rightarrow> exporter_threads \<Rightarrow> bool" where
  ot_opens: "0 \<le> n \<Longrightarrow> et_table s n = None \<Longrightarrow> other_step s (s\<lparr>et_table := (et_table s)(n \<mapsto> Foreign)\<rparr>)"
| ot_closes: "et_table s n = Some Foreign \<Longrightarrow> other_step s (s\<lparr>et_table := (et_table s)(n := None)\<rparr>)"

definition exporter_step :: "exporter_threads \<Rightarrow> exporter_threads \<Rightarrow> bool" where
  "exporter_step s s' \<longleftrightarrow> serve_step s s' \<or> stop_step s s' \<or> other_step s s'"

inductive_cases serve_stepE: "serve_step s s'"
inductive_cases stop_stepE: "stop_step s s'"
inductive_cases other_stepE: "other_step s s'"

subsection \<open>The invariant\<close>

text \<open>The listening socket is open until \<^verbatim>\<open>stop\<close> closes it, and its number is in \<^verbatim>\<open>listen_fd_\<close> until \<^verbatim>\<open>stop\<close> clears it.\<close>

definition listening :: "stop_at \<Rightarrow> bool" where
  "listening p \<longleftrightarrow> p \<in> {StIdle, StTest, StShutdown, StClose}"

definition client_of :: "serve_at \<Rightarrow> int option" where
  "client_of p = (case p of SvRecv c silent \<Rightarrow> Some c | SvReply c \<Rightarrow> Some c | _ \<Rightarrow> None)"

definition table_ok :: "int \<Rightarrow> bool \<Rightarrow> int option \<Rightarrow> (int \<rightharpoonup> descriptor) \<Rightarrow> bool" where
  "table_ok fd open_listener client t \<longleftrightarrow> (\<forall>n. (t n = Some Listener \<longleftrightarrow> n = fd \<and> open_listener) \<and>
     (t n = Some ClientSocket \<longleftrightarrow> client = Some n) \<and> (n < 0 \<longrightarrow> t n = None))"

lemma table_ok_update:
  "table_ok fd l None t \<Longrightarrow> t c = None \<Longrightarrow> 0 \<le> c \<Longrightarrow> table_ok fd l (Some c) (t(c \<mapsto> ClientSocket))"
  "table_ok fd l (Some c) t \<Longrightarrow> table_ok fd l None (t(c := None))"
  "table_ok fd True cl t \<Longrightarrow> table_ok fd False cl (t(fd := None))"
  "table_ok fd l cl t \<Longrightarrow> t n = None \<Longrightarrow> 0 \<le> n \<Longrightarrow> table_ok fd l cl (t(n \<mapsto> Foreign))"
  "table_ok fd l cl t \<Longrightarrow> t n = Some Foreign \<Longrightarrow> table_ok fd l cl (t(n := None))"
  unfolding table_ok_def by (smt (verit) descriptor.distinct fun_upd_apply not_None_eq option.inject option.distinct)+

definition exporter_inv :: "int \<Rightarrow> exporter_threads \<Rightarrow> bool" where
  "exporter_inv fd s \<longleftrightarrow> 0 \<le> fd \<and> (et_running s \<longleftrightarrow> et_stop s = StIdle) \<and>
     et_listen_fd s = (if et_stop s \<in> {StJoin, StReturned} then - 1 else fd) \<and>
     table_ok fd (listening (et_stop s)) (client_of (et_serve s)) (et_table s) \<and>
     (listening (et_stop s) \<longrightarrow> et_foreign_accepts s = []) \<and>
     (et_stop s = StReturned \<longrightarrow> et_serve s = SvDone) \<and> (et_serve s = SvDone \<longrightarrow> \<not> et_running s)"

lemma exporter_init_inv: "0 \<le> fd \<Longrightarrow> \<forall>n\<in>others. 0 \<le> n \<Longrightarrow> exporter_inv fd (exporter_threads_init fd others)"
  by (auto simp: exporter_inv_def exporter_threads_init_def listening_def client_of_def table_ok_def)

lemma serve_step_inv:
  assumes "serve_step s s'" and "exporter_inv fd s"
  shows "exporter_inv fd s'"
  using assms(1)
proof (cases rule: serve_step.cases)
  case (sv_accepts d c silent)
  have "d \<noteq> Foreign" if "listening (et_stop s)"
  proof -
    have "et_listen_fd s = fd" using assms(2) that by (auto simp: exporter_inv_def listening_def)
    then have "et_table s (et_listen_fd s) = Some Listener" using assms(2) that by (simp add: exporter_inv_def table_ok_def)
    with sv_accepts(3) show ?thesis by simp
  qed
  with sv_accepts assms(2) show ?thesis
    by (simp add: exporter_inv_def client_of_def table_ok_update)
next
  case (sv_replies c)
  with assms(2) show ?thesis by (simp add: exporter_inv_def client_of_def table_ok_update)
qed (use assms(2) in \<open>auto simp: exporter_inv_def client_of_def\<close>)

lemma stop_step_inv:
  assumes "stop_step s s'" and "exporter_inv fd s"
  shows "exporter_inv fd s'"
  using assms(1)
proof (cases rule: stop_step.cases)
  case st_close
  with assms(2) table_ok_update(3) [of fd "client_of (et_serve s)" "et_table s"] show ?thesis
    by (simp add: exporter_inv_def listening_def)
qed (use assms(2) in \<open>simp_all add: exporter_inv_def listening_def\<close>)

lemma other_step_inv:
  assumes "other_step s s'" and "exporter_inv fd s"
  shows "exporter_inv fd s'"
  using assms(1)
proof (cases rule: other_step.cases)
  case (ot_opens n)
  with assms(2) show ?thesis by (auto simp: exporter_inv_def table_ok_update(4))
next
  case (ot_closes n)
  with assms(2) show ?thesis by (auto simp: exporter_inv_def table_ok_update(5))
qed

lemma exporter_step_inv: "exporter_step s s' \<Longrightarrow> exporter_inv fd s \<Longrightarrow> exporter_inv fd s'"
  using serve_step_inv stop_step_inv other_step_inv by (auto simp: exporter_step_def)

lemma inv_run: "exporter_step\<^sup>*\<^sup>* s s' \<Longrightarrow> exporter_inv fd s \<Longrightarrow> exporter_inv fd s'"
  by (induction rule: rtranclp_induct) (auto intro: exporter_step_inv)

lemma exporter_reach_inv:
  "exporter_step\<^sup>*\<^sup>* (exporter_threads_init fd others) s \<Longrightarrow> 0 \<le> fd \<Longrightarrow> \<forall>n\<in>others. 0 \<le> n \<Longrightarrow> exporter_inv fd s"
  using inv_run exporter_init_inv by blast

subsection \<open>When \<open>stop\<close> returns\<close>

lemma serve_run: "serve_step s s' \<Longrightarrow> exporter_step\<^sup>*\<^sup>* s s'"
  by (rule r_into_rtranclp) (simp add: exporter_step_def)

lemma stop_run: "stop_step s s' \<Longrightarrow> exporter_step\<^sup>*\<^sup>* s s'"
  by (rule r_into_rtranclp) (simp add: exporter_step_def)

text \<open>\<^verbatim>\<open>stop\<close> gets to its join by itself.\<close>

fun stop_left :: "stop_at \<Rightarrow> nat" where
  "stop_left StIdle = 5" | "stop_left StTest = 4" | "stop_left StShutdown = 3" | "stop_left StClose = 2" | "stop_left StClear = 1"
| "stop_left StJoin = 0" | "stop_left StReturned = 0"

lemma stop_progress:
  assumes "0 < stop_left (et_stop s)"
  shows "\<exists>s'. stop_step s s' \<and> stop_left (et_stop s') < stop_left (et_stop s) \<and> et_serve s' = et_serve s"
proof (cases "et_stop s")
  case StIdle
  show ?thesis by (intro exI conjI, rule st_exchange [OF StIdle]) (simp_all add: StIdle)
next
  case StTest
  show ?thesis by (intro exI conjI, rule st_test [OF StTest]) (simp_all add: StTest)
next
  case StShutdown
  show ?thesis by (intro exI conjI, rule st_shutdown [OF StShutdown]) (simp_all add: StShutdown)
next
  case StClose
  show ?thesis by (intro exI conjI, rule st_close [OF StClose]) (simp_all add: StClose)
next
  case StClear
  show ?thesis by (intro exI conjI, rule st_clear [OF StClear]) (simp_all add: StClear)
qed (use assms in simp_all)

lemma stop_reaches_join:
  "\<exists>s'. exporter_step\<^sup>*\<^sup>* s s' \<and> et_stop s' \<in> {StJoin, StReturned} \<and> et_serve s' = et_serve s"
proof (induction "stop_left (et_stop s)" arbitrary: s rule: less_induct)
  case less
  show ?case
  proof (cases "stop_left (et_stop s) = 0")
    case True
    then have "et_stop s \<in> {StJoin, StReturned}" by (cases "et_stop s") simp_all
    then show ?thesis by blast
  next
    case False
    then obtain s1 where s1: "stop_step s s1" "stop_left (et_stop s1) < stop_left (et_stop s)" "et_serve s1 = et_serve s"
      using stop_progress by blast
    from less [OF s1(2)] stop_run [OF s1(1)] s1(3) show ?thesis by (metis rtranclp_trans)
  qed
qed

text \<open>The serving thread ends once the flag is cleared, unless it waits for a silent client.\<close>

fun serve_left :: "serve_at \<Rightarrow> nat" where
  "serve_left SvDone = 0" | "serve_left SvTest = 1" | "serve_left (SvPoll fd) = 2" | "serve_left SvFailed = 2"
| "serve_left SvAccept = 3" | "serve_left (SvReply c) = 2" | "serve_left (SvRecv c silent) = 3"

definition stuck :: "exporter_threads \<Rightarrow> bool" where
  "stuck s \<longleftrightarrow> (\<exists>c. et_serve s = SvRecv c True)"

definition serve_moves :: "exporter_threads \<Rightarrow> exporter_threads \<Rightarrow> bool" where
  "serve_moves s s' \<longleftrightarrow> serve_step s s' \<and> serve_left (et_serve s') < serve_left (et_serve s) \<and> \<not> stuck s' \<and>
     et_stop s' = et_stop s \<and> et_running s' = et_running s"

lemma serve_progress:
  assumes "\<not> et_running s" and "\<not> stuck s" and "et_serve s \<noteq> SvDone"
  shows "\<exists>s'. serve_moves s s'"
proof (cases "et_serve s")
  case SvTest
  show ?thesis
    unfolding serve_moves_def by (intro exI conjI, rule sv_leaves [OF SvTest assms(1)]) (simp_all add: SvTest stuck_def)
next
  case (SvPoll fd)
  show ?thesis
    unfolding serve_moves_def by (intro exI conjI, rule sv_timeout [OF SvPoll]) (simp_all add: SvPoll stuck_def)
next
  case SvAccept
  show ?thesis
    unfolding serve_moves_def by (intro exI conjI, rule sv_accept_fails [OF SvAccept]) (simp_all add: SvAccept stuck_def)
next
  case SvFailed
  show ?thesis
    unfolding serve_moves_def by (intro exI conjI, rule sv_retests [OF SvFailed]) (simp_all add: SvFailed stuck_def assms(1))
next
  case (SvRecv c silent)
  then have r: "et_serve s = SvRecv c False" using assms(2) by (simp add: stuck_def)
  show ?thesis
    unfolding serve_moves_def by (intro exI conjI, rule sv_receives [OF r]) (simp_all add: r stuck_def)
next
  case (SvReply c)
  show ?thesis
    unfolding serve_moves_def by (intro exI conjI, rule sv_replies [OF SvReply]) (simp_all add: SvReply stuck_def)
qed (use assms in simp_all)

lemma serve_ends:
  assumes "\<not> et_running s" and "\<not> stuck s"
  shows "\<exists>s'. exporter_step\<^sup>*\<^sup>* s s' \<and> et_serve s' = SvDone \<and> et_stop s' = et_stop s"
  using assms
proof (induction "serve_left (et_serve s)" arbitrary: s rule: less_induct)
  case less
  show ?case
  proof (cases "et_serve s = SvDone")
    case False
    then obtain s1 where "serve_moves s s1" using serve_progress less.prems by blast
    then have s1: "exporter_step\<^sup>*\<^sup>* s s1" "serve_left (et_serve s1) < serve_left (et_serve s)" "\<not> stuck s1"
      "et_stop s1 = et_stop s" "\<not> et_running s1"
      using less.prems(1) serve_run by (auto simp: serve_moves_def)
    from less.hyps [OF s1(2,5,3)] s1(1,4) show ?thesis by (metis rtranclp_trans)
  qed blast
qed

text \<open>A serving thread that waits for a silent client waits for ever.\<close>

lemma stuck_step: "exporter_step s s' \<Longrightarrow> stuck s \<Longrightarrow> stuck s'"
  by (auto simp: exporter_step_def stuck_def elim!: serve_stepE stop_stepE other_stepE)

lemma stuck_run: "exporter_step\<^sup>*\<^sup>* s s' \<Longrightarrow> stuck s \<Longrightarrow> stuck s'"
  by (induction rule: rtranclp_induct) (auto intro: stuck_step)

lemma stop_returns_iff:
  assumes inv: "exporter_inv fd s"
  shows "(\<exists>s'. exporter_step\<^sup>*\<^sup>* s s' \<and> et_stop s' = StReturned) \<longleftrightarrow> \<not> stuck s"
proof
  assume "\<exists>s'. exporter_step\<^sup>*\<^sup>* s s' \<and> et_stop s' = StReturned"
  then obtain s' where s': "exporter_step\<^sup>*\<^sup>* s s'" "et_stop s' = StReturned" by blast
  have "et_serve s' = SvDone" using inv_run [OF s'(1) inv] s'(2) by (simp add: exporter_inv_def)
  then show "\<not> stuck s" using stuck_run [OF s'(1)] by (auto simp: stuck_def)
next
  assume free: "\<not> stuck s"
  obtain s1 where s1: "exporter_step\<^sup>*\<^sup>* s s1" "et_stop s1 \<in> {StJoin, StReturned}" "et_serve s1 = et_serve s"
    using stop_reaches_join by blast
  have "\<not> et_running s1" using inv_run [OF s1(1) inv] s1(2) by (auto simp: exporter_inv_def)
  moreover have "\<not> stuck s1" using free s1(3) by (simp add: stuck_def)
  ultimately obtain s2 where s2: "exporter_step\<^sup>*\<^sup>* s1 s2" "et_serve s2 = SvDone" "et_stop s2 = et_stop s1"
    using serve_ends by blast
  show "\<exists>s'. exporter_step\<^sup>*\<^sup>* s s' \<and> et_stop s' = StReturned"
  proof (cases "et_stop s2 = StReturned")
    case True
    with s1(1) s2(1) show ?thesis by (meson rtranclp_trans)
  next
    case False
    then have "et_stop s2 = StJoin" using s1(2) s2(3) by simp
    from stop_run [OF st_join [OF this s2(2)]] s1(1) s2(1) have "exporter_step\<^sup>*\<^sup>* s (s2\<lparr>et_stop := StReturned\<rparr>)"
      by (meson rtranclp_trans)
    then show ?thesis by (intro exI conjI) (assumption, simp)
  qed
qed

text \<open>What is left when it has returned.\<close>

lemma stop_clean:
  assumes "exporter_inv fd s" and "et_stop s = StReturned"
  shows "et_serve s = SvDone \<and> et_listen_fd s = - 1 \<and> ran (et_table s) \<subseteq> {Foreign}"
proof -
  have "d = Foreign" if "et_table s n = Some d" for n d
    using assms that by (cases d) (auto simp: exporter_inv_def table_ok_def listening_def client_of_def)
  then show ?thesis using assms by (auto simp: exporter_inv_def ran_def)
qed

subsection \<open>A descriptor that is used again\<close>

text \<open>Between \<^verbatim>\<open>close\<close> and the assignment of -1, another thread opens a socket, which gets the number that \<^verbatim>\<open>listen_fd_\<close> still
  has, and the serving thread accepts on it.\<close>

lemma foreign_accept:
  assumes "0 \<le> fd" and "c \<noteq> fd" and "0 \<le> c" and "c \<notin> others"
  shows "\<exists>s. exporter_step\<^sup>*\<^sup>* (exporter_threads_init fd others) s \<and> et_foreign_accepts s = [fd]"
proof -
  let ?s0 = "exporter_threads_init fd others"
  let ?s1 = "?s0\<lparr>et_serve := SvPoll fd\<rparr>" and ?s2 = "?s0\<lparr>et_serve := SvAccept\<rparr>"
  let ?s3 = "?s2\<lparr>et_stop := StTest, et_running := False\<rparr>"
  let ?s4 = "?s3\<lparr>et_stop := StShutdown\<rparr>" and ?s5 = "?s3\<lparr>et_stop := StClose\<rparr>"
  let ?s6 = "?s3\<lparr>et_stop := StClear, et_table := (et_table ?s0)(fd := None)\<rparr>"
  let ?s7 = "?s6\<lparr>et_table := (et_table ?s6)(fd \<mapsto> Foreign)\<rparr>"
  let ?s8 = "?s7\<lparr>et_serve := SvRecv c False, et_table := (et_table ?s7)(c \<mapsto> ClientSocket), et_foreign_accepts := [fd]\<rparr>"
  have f: "et_serve ?s0 = SvTest" "et_running ?s0" "et_listen_fd ?s0 = fd" "et_stop ?s0 = StIdle" "et_foreign_accepts ?s0 = []"
    "et_table ?s0 c = None"
    using assms by (simp_all add: exporter_threads_init_def)
  have "serve_step ?s0 ?s1" using sv_polls [of ?s0] f by simp
  moreover have "serve_step ?s1 ?s2" using sv_event [of ?s1 fd] assms(1) by simp
  moreover have "stop_step ?s2 ?s3" using st_exchange [of ?s2] f by simp
  moreover have "stop_step ?s3 ?s4" using st_test [of ?s3] f assms(1) by simp
  moreover have "stop_step ?s4 ?s5" using st_shutdown [of ?s4] by simp
  moreover have "stop_step ?s5 ?s6" using st_close [of ?s5] f by simp
  moreover have "other_step ?s6 ?s7" using ot_opens [of fd ?s6] assms(1) by simp
  moreover have "serve_step ?s7 ?s8" using sv_accepts [of ?s7 Foreign c False] f assms by simp
  ultimately have "exporter_step ?s0 ?s1" "exporter_step ?s1 ?s2" "exporter_step ?s2 ?s3" "exporter_step ?s3 ?s4"
    "exporter_step ?s4 ?s5" "exporter_step ?s5 ?s6" "exporter_step ?s6 ?s7" "exporter_step ?s7 ?s8"
    by (simp_all add: exporter_step_def)
  then have "exporter_step\<^sup>*\<^sup>* ?s0 ?s8" by (meson rtranclp.rtrancl_into_rtrancl rtranclp.rtrancl_refl)
  then show ?thesis by (intro exI conjI) (assumption, simp)
qed

subsection \<open>Property\<close>

text \<open>C28: From any point of a run of the exporter, \<^verbatim>\<open>stop\<close> can return exactly when the serving thread is not waiting for a client that
  stays silent. When it has returned, the thread has ended and the exporter holds no descriptor; until \<^verbatim>\<open>stop\<close> closes the
  listening socket, the thread accepts on no other.\<close>

theorem exporter_stop_returns_iff:
  assumes "exporter_step\<^sup>*\<^sup>* (exporter_threads_init fd others) s" and "0 \<le> fd" and "\<forall>n\<in>others. 0 \<le> n"
  shows "((\<exists>s'. exporter_step\<^sup>*\<^sup>* s s' \<and> et_stop s' = StReturned) \<longleftrightarrow> (\<forall>c. et_serve s \<noteq> SvRecv c True)) \<and>
    (et_stop s = StReturned \<longrightarrow> et_serve s = SvDone \<and> et_listen_fd s = - 1 \<and> ran (et_table s) \<subseteq> {Foreign}) \<and>
    (et_stop s \<in> {StIdle, StTest, StShutdown, StClose} \<longrightarrow> et_foreign_accepts s = [])"
proof -
  note inv = exporter_reach_inv [OF assms]
  show ?thesis
    using stop_returns_iff [OF inv] stop_clean [OF inv] inv by (auto simp: stuck_def exporter_inv_def listening_def)
qed

theorem exporter_stop_returns_iff_witness:
  "\<exists>s. exporter_step\<^sup>*\<^sup>* (exporter_threads_init 3 {4}) s \<and> et_stop s = StReturned \<and> ran (et_table s) \<subseteq> {Foreign}"
proof -
  have "\<forall>c. et_serve (exporter_threads_init 3 {4}) \<noteq> SvRecv c True" by (simp add: exporter_threads_init_def)
  then obtain s where s: "exporter_step\<^sup>*\<^sup>* (exporter_threads_init 3 {4}) s" "et_stop s = StReturned"
    using exporter_stop_returns_iff [of 3 "{4}" "exporter_threads_init 3 {4}"] by auto
  with exporter_stop_returns_iff [OF s(1)] show ?thesis by auto
qed

end
