(* ===== verification/Fuzz_Targets.thy ===== *)
theory Fuzz_Targets
  imports Wal_Reader Tcp_Reassembler Scenario_Model
begin

text \<open>
  The libFuzzer entry points (\<^verbatim>\<open>fuzz/\<close>): each is a function of the input bytes (and, for the frame parser, of the
  static decoder that lives across inputs). A run ends with the value the entry point returns, in \<^verbatim>\<open>__builtin_trap\<close>, or
  in an access outside a buffer; the sanitizers report the last two. Reads of the input go through \<open>rd\<close> and \<open>sub\<close>.
\<close>

datatype fuzz_result = Returned int | Trapped | OutOfBounds

subsection \<open>The entry points\<close>

text \<open>The loops that touch a payload: exclusive or of the bytes \<open>0\<close> to \<open>n - 1\<close> at a pointer.\<close>

definition touch :: "bytes \<Rightarrow> nat \<Rightarrow> u8 option" where
  "touch p n = foldl (\<lambda>acc i. do { sink \<leftarrow> acc; x \<leftarrow> rd p i; Some (sink XOR x) }) (Some 0) [0..<n]"

definition fuzz_frame_parser :: "FrameDecoder \<Rightarrow> bytes \<Rightarrow> fuzz_result \<times> FrameDecoder" where
  "fuzz_frame_parser decoder data =
     (case decode_header (Some data) FrameHeader_init of
        None \<Rightarrow> (OutOfBounds, decoder)
      | Some (err, hdr) \<Rightarrow>
          if err = FrameError.kOk \<and> (kFrameOverhead + unat (fh_payload_size hdr)) mod 2 ^ 64 > length data
          then (Trapped, decoder)
          else if err = FrameError.kOk \<and> touch (payload_ptr data) (unat (fh_payload_size hdr)) = None
          then (OutOfBounds, decoder)
          else (case frame_decode decoder (Some data) 0 FrameHeader_init of
                  None \<Rightarrow> (OutOfBounds, decoder)
                | Some (_, _, decoder) \<Rightarrow> (Returned 0, decoder)))"

text \<open>The inputs of one fuzzing process.\<close>

fun fuzz_frames :: "FrameDecoder \<Rightarrow> bytes list \<Rightarrow> fuzz_result list" where
  "fuzz_frames decoder [] = []"
| "fuzz_frames decoder (data # inputs) =
     (case fuzz_frame_parser decoder data of (res, decoder) \<Rightarrow> res # fuzz_frames decoder inputs)"

text \<open>The resynchronising scan, with the records it finds.\<close>

function resync_scan :: "bytes \<Rightarrow> nat \<Rightarrow> u64 \<Rightarrow> (nat \<times> RecordHeader) list option" where
  "resync_scan data pos guard =
     (if pos + kRecordHeaderSize \<le> length data \<and> guard < push_bit 20 1
      then case decode_record (Some (drop pos data)) RecordHeader_init of
        None \<Rightarrow> None
      | Some (err, h) \<Rightarrow>
          if err = RecordError.kOk
          then map_option (\<lambda>found. (pos, h) # found) (resync_scan data (pos + unat (rh_record_length h)) (guard + 1))
          else resync_scan data (pos + 1) (guard + 1)
      else Some [])"
  by pat_completeness auto
termination
  by (relation "measure (\<lambda>(data, pos, guard). length data - pos)")
    (auto simp: kRecordHeaderSize_def dest: decode_ok_length)

declare resync_scan.simps [simp del]

definition fuzz_replay_reader :: "bytes \<Rightarrow> fuzz_result" where
  "fuzz_replay_reader data =
     (case decode_record (Some data) RecordHeader_init of
        None \<Rightarrow> OutOfBounds
      | Some (err, hdr) \<Rightarrow>
          if err = RecordError.kOk \<and> unat (rh_record_length hdr) > length data then Trapped
          else if err = RecordError.kOk \<and> touch (record_payload data) (unat (rh_payload_size hdr)) = None then OutOfBounds
          else (case resync_scan data 0 0 of None \<Rightarrow> OutOfBounds | Some _ \<Rightarrow> Returned 0))"

text \<open>Chunks of 1 to 17 bytes, by the value of their first byte; the payloads the callback touched.\<close>

definition fuzz_chunk :: "bytes \<Rightarrow> nat \<Rightarrow> u8 \<Rightarrow> nat" where
  "fuzz_chunk data off b =
     (let chunk = 1 + unat b mod 17 in if off + chunk \<le> length data then chunk else length data - off)"

lemma fuzz_chunk_in: "off < length data \<Longrightarrow> 0 < fuzz_chunk data off b \<and> off + fuzz_chunk data off b \<le> length data"
  by (simp add: fuzz_chunk_def Let_def)

function fuzz_feed :: "bytes \<Rightarrow> nat \<Rightarrow> TcpReassembler \<Rightarrow> (bytes list \<times> TcpReassembler) option" where
  "fuzz_feed data off reasm =
     (if off < length data
      then do {
        b \<leftarrow> rd data off;
        let n = fuzz_chunk data off b;
        part \<leftarrow> sub data off n;
        let (emitted, reasm) = reassembler_feed part reasm;
        if list_all (\<lambda>p. touch p (length p) \<noteq> None) emitted
        then do { (later, reasm) \<leftarrow> fuzz_feed data (off + n) reasm; Some (emitted @ later, reasm) }
        else None }
      else Some ([], reasm))"
  by pat_completeness auto
termination
  by (relation "measure (\<lambda>(data, off, reasm). length data - off)")
    (auto simp: fuzz_chunk_def Let_def)

declare fuzz_feed.simps [simp del]

definition fuzz_tcp_reassembly :: "bytes \<Rightarrow> fuzz_result" where
  "fuzz_tcp_reassembly data =
     (case fuzz_feed data 0 (TcpReassembler_new (64 * 1024)) of None \<Rightarrow> OutOfBounds | Some _ \<Rightarrow> Returned 0)"

text \<open>Whatever the YAML library throws is caught.\<close>

definition fuzz_yaml_scenario :: "(string \<Rightarrow> cpp_exception + 'n) \<Rightarrow> 'n Yaml \<Rightarrow> bytes \<Rightarrow> fuzz_result" where
  "fuzz_yaml_scenario yaml_load Y data =
     (case parse_scenario yaml_load Y (map (\<lambda>b. char_of (unat b)) data) of Inl _ \<Rightarrow> Returned 0 | Inr _ \<Rightarrow> Returned 0)"

subsection \<open>Bounds\<close>

lemma touch_in: "n \<le> length p \<Longrightarrow> touch p n \<noteq> None"
proof (induction n)
  case (Suc n)
  then show ?case by (cases "touch p n") (simp_all add: touch_def rd_def)
qed (simp add: touch_def)

lemma ok_frame_fits:
  assumes "decode_header (Some data) out = Some (FrameError.kOk, h)"
  shows "kFrameOverhead + unat (fh_payload_size h) \<le> length data"
proof -
  obtain payload rest where "data = frame_image h payload @ rest" "frame_ok h payload"
    using assms unfolding decode_header_ok_iff by blast
  then show ?thesis by (simp add: frame_ok_def kFrameOverhead_def kHeaderSize_def)
qed

lemma ok_record_fits:
  assumes "decode_record (Some data) out = Some (RecordError.kOk, h)"
  shows "unat (rh_record_length h) = 34 + unat (rh_payload_size h) \<and> unat (rh_record_length h) \<le> length data"
proof -
  obtain payload rest where "data = record_image h payload @ rest" "record_ok h payload"
    using assms unfolding decode_record_ok_iff by blast
  then show ?thesis by (simp add: record_ok_def)
qed

lemma fuzz_frame_returns: "fst (fuzz_frame_parser decoder data) = Returned 0"
proof -
  obtain err h where d: "decode_header (Some data) FrameHeader_init = Some (err, h)"
    using decode_header_returns by blast
  obtain e' h' dec where f: "frame_decode decoder (Some data) 0 FrameHeader_init = Some (e', h', dec)"
    using frame_decode_returns by blast
  have fits: "kFrameOverhead + unat (fh_payload_size h) \<le> length data" if "err = FrameError.kOk"
    using ok_frame_fits d that by blast
  have "(kFrameOverhead + unat (fh_payload_size h)) mod 2 ^ 64 \<le> length data" if "err = FrameError.kOk"
    using fits [OF that] mod_less_eq_dividend order_trans by blast
  moreover have "touch (payload_ptr data) (unat (fh_payload_size h)) \<noteq> None" if "err = FrameError.kOk"
    using fits [OF that] by (intro touch_in) (simp add: payload_ptr_def)
  ultimately show ?thesis unfolding fuzz_frame_parser_def by (auto simp: d f not_less)
qed

lemma fuzz_frames_return: "list_all ((=) (Returned 0)) (fuzz_frames decoder inputs)"
proof (induction inputs arbitrary: decoder)
  case (Cons data inputs)
  then show ?case using fuzz_frame_returns [of decoder data] by (cases "fuzz_frame_parser decoder data") simp
qed simp

lemma resync_scan_returns: "\<exists>found. resync_scan data pos guard = Some found"
proof (induction data pos guard rule: resync_scan.induct)
  case (1 data pos guard)
  obtain err h where d: "decode_record (Some (drop pos data)) RecordHeader_init = Some (err, h)"
    using decode_record_returns by blast
  show ?case
    using 1 [OF _ d refl] by (subst resync_scan.simps) (auto simp: d)
qed

lemma fuzz_replay_returns: "fuzz_replay_reader data = Returned 0"
proof -
  obtain err h where d: "decode_record (Some data) RecordHeader_init = Some (err, h)"
    using decode_record_returns by blast
  obtain found where s: "resync_scan data 0 0 = Some found" using resync_scan_returns by blast
  have fits: "unat (rh_record_length h) = 34 + unat (rh_payload_size h) \<and> unat (rh_record_length h) \<le> length data"
    if "err = RecordError.kOk" using ok_record_fits d that by blast
  moreover have "touch (record_payload data) (unat (rh_payload_size h)) \<noteq> None" if "err = RecordError.kOk"
    using fits [OF that] by (intro touch_in) (auto simp: record_payload_def kRecordHeaderSize_def)
  ultimately show ?thesis by (auto simp: fuzz_replay_reader_def d s)
qed

text \<open>Feeding in chunks is feeding the rest of the input at once.\<close>

lemma fuzz_feed_whole: "fuzz_feed data off reasm = Some (reassembler_feed (drop off data) reasm)"
proof (induction data off reasm rule: fuzz_feed.induct)
  case (1 data off reasm)
  show ?case
  proof (cases "off < length data")
    case True
    define n where "n = fuzz_chunk data off (data ! off)"
    have n: "off + n \<le> length data" using fuzz_chunk_in [OF True] by (simp add: n_def)
    obtain o1 r1 where s: "reassembler_feed (take n (drop off data)) reasm = (o1, r1)" by force
    have rest: "fuzz_feed data (off + n) r1 = Some (reassembler_feed (drop (off + n) data) r1)"
      using 1 [OF True rd_in [OF True] n_def sub_in [OF n] refl s [symmetric]] by (simp add: touch_in list.pred_set)
    have "drop off data = take n (drop off data) @ drop (off + n) data"
      by (metis append_take_drop_id drop_drop add.commute)
    then have "reassembler_feed (drop off data) reasm =
        (case reassembler_feed (drop (off + n) data) r1 of (o2, r2) \<Rightarrow> (o1 @ o2, r2))"
      using reassembler_feed_append [of "take n (drop off data)" "drop (off + n) data" reasm] s by simp
    then show ?thesis
      by (subst fuzz_feed.simps) (simp add: True rd_in sub_in [OF n] s rest touch_in list.pred_set flip: n_def split: prod.splits)
  qed (simp add: fuzz_feed.simps)
qed

subsection \<open>The scan is the one of the log reader\<close>

definition record_at :: "bytes \<Rightarrow> nat \<times> RecordHeader \<Rightarrow> ReplayRecord" where
  "record_at buf found = (case found of (pos, h) \<Rightarrow>
     \<lparr>rr_header = h, rr_payload = take (unat (rh_payload_size h)) (drop (pos + kRecordHeaderSize) buf)\<rparr>)"

lemma resync_scan_records:
  "unat guard + (length buf - pos) \<le> 2 ^ 20 \<Longrightarrow>
     \<exists>found pos' skip' w'. resync_scan buf pos guard = Some found \<and> scan seg_id buf pos skip w = Some (pos', skip', w') \<and>
       wr_records w' = wr_records w @ map (record_at buf) found"
proof (induction seg_id buf pos skip w arbitrary: guard rule: scan.induct)
  case (1 seg_id buf pos skip w)
  show ?case
  proof (cases "pos + kRecordHeaderSize \<le> length buf")
    case False
    then show ?thesis by (simp add: resync_scan.simps scan.simps)
  next
    case True
    obtain err h where d: "decode_record (Some (drop pos buf)) RecordHeader_init = Some (err, h)"
      using decode_record_returns by blast
    have len: "0 < length buf - pos" using True by (simp add: kRecordHeaderSize_def)
    then have g: "guard < push_bit 20 1" and g1: "unat (guard + 1) = Suc (unat guard)"
      using 1(3) by (simp_all add: word_less_nat_alt unat_word_ariths)
    show ?thesis
    proof (cases "err = RecordError.kOk")
      case False
      have "unat (guard + 1) + (length buf - (pos + 1)) \<le> 2 ^ 20" using 1(3) g1 len by linarith
      from 1(2) [OF True d refl False this]
      show ?thesis using True g d False by (auto simp: resync_scan.simps [of buf pos] scan.simps [of seg_id buf pos] skip_byte_def)
    next
      case ok: True
      have fits: "unat (rh_record_length h) = 34 + unat (rh_payload_size h)" "unat (rh_record_length h) \<le> length buf - pos"
        using ok_record_fits [OF d [unfolded ok]] by simp_all
      then have s: "sub buf (pos + kRecordHeaderSize) (unat (rh_payload_size h))
          = Some (take (unat (rh_payload_size h)) (drop (pos + kRecordHeaderSize) buf))"
        using len by (intro sub_in) (simp add: kRecordHeaderSize_def)
      have "unat (guard + 1) + (length buf - (pos + unat (rh_record_length h))) \<le> 2 ^ 20" using 1(3) g1 fits by linarith
      from 1(1) [OF True d refl ok s this]
      show ?thesis using True g d ok s
        by (auto simp: resync_scan.simps [of buf pos] scan.simps [of seg_id buf pos] accept_record_def record_at_def)
    qed
  qed
qed

subsection \<open>Properties\<close>


text \<open>C31: On inputs of up to 1 MiB the scan of the replay target finds exactly the records that the log reader loads
  from a segment with these bytes, in the same order.\<close>

theorem fuzz_scan_mirrors_reader:
  assumes "length data \<le> 2 ^ 20"
  shows "\<exists>found w. resync_scan data 0 0 = Some found \<and> scan_segment seg_id data WalReader_init = Some w \<and>
    wr_records w = map (record_at data) found"
proof -
  have "unat (0 :: u64) + (length data - 0) \<le> 2 ^ 20" using assms by simp
  from resync_scan_records [OF this, of seg_id False WalReader_init] show ?thesis
    by (auto simp: scan_segment_def WalReader_init_def)
qed

theorem fuzz_scan_mirrors_reader_witness:
  "\<exists>found w. resync_scan (7 # encode_record 5 2 9 [1, 2]) 0 0 = Some found \<and>
     scan_segment 1 (7 # encode_record 5 2 9 [1, 2]) WalReader_init = Some w \<and> wr_records w = map (record_at (7 # encode_record 5 2 9 [1, 2])) found"
  by (rule fuzz_scan_mirrors_reader) (simp add: encode_record_image)

end
