(* ===== verification/Metrics_Threads.thy ===== *)
theory Metrics_Threads
  imports Stream_Metrics
begin

text \<open>
  The metrics of the CAN stream, which two threads share without a lock: the CAN reader thread records into them
  (\<^verbatim>\<open>StreamMetrics::record\<close>, called at the end of \<^verbatim>\<open>ScenarioRunner::can_reader_loop\<close>) while the executor reads them, at every
  tick of the one-second timer that \<^verbatim>\<open>start\<close> creates with the exporter (\<^verbatim>\<open>update_registry\<close>), and in \<^verbatim>\<open>finish\<close> after
  the reader thread has been joined (\<^verbatim>\<open>scenario/scenario_runner.cpp\<close>, \<^verbatim>\<open>scenario/metrics.hpp\<close>). Here \<open>record\<close> and
  \<open>emit\<close> are taken apart into the accesses to the members, and those of the two threads interleave. The buffer behind
  the vector of latencies has a number; \<^verbatim>\<open>push_back\<close> on a full buffer moves the elements to a new one and frees
  the old one. Copying from a freed buffer is undefined behaviour, recorded in \<open>mx_undefined\<close>.
\<close>

subsection \<open>The accesses of \<open>record\<close>\<close>

definition note_first :: "dbl \<Rightarrow> StreamMetrics \<Rightarrow> StreamMetrics" where
  "note_first t m = (if \<not> mt_has_arrival m then m\<lparr>mt_first_arrival_s := t, mt_has_arrival := True\<rparr> else m)"

definition note_last :: "dbl \<Rightarrow> StreamMetrics \<Rightarrow> StreamMetrics" where
  "note_last t m = m\<lparr>mt_last_arrival_s := t\<rparr>"

definition push_latency :: "dbl \<Rightarrow> StreamMetrics \<Rightarrow> StreamMetrics" where
  "push_latency l m = m\<lparr>mt_latencies_ms := mt_latencies_ms m @ [l]\<rparr>"

definition count_received :: "StreamMetrics \<Rightarrow> StreamMetrics" where
  "count_received m = m\<lparr>mt_received := mt_received m + 1\<rparr>"

definition count_gap :: "bool \<Rightarrow> StreamMetrics \<Rightarrow> StreamMetrics" where
  "count_gap g m = (if g then m\<lparr>mt_sequence_gaps := mt_sequence_gaps m + 1\<rparr> else m)"

lemma record_arrival_steps:
  "count_gap g (count_received (push_latency l (note_last t (note_first t m)))) = record_arrival l t g m"
  by (simp add: record_arrival_def record_latency_def note_first_def note_last_def push_latency_def
      count_received_def count_gap_def Let_def)

subsection \<open>The accesses of \<open>emit\<close>\<close>

definition emit_rates :: "StreamMetrics \<Rightarrow> MetricMap \<Rightarrow> MetricMap" where
  "emit_rates m out = out(mt_name m @ ''_msgs_per_sec'' \<mapsto> msgs_per_sec m, mt_name m @ ''_drop_rate_pct'' \<mapsto> drop_rate_pct m)"

definition emit_counts :: "StreamMetrics \<Rightarrow> MetricMap \<Rightarrow> MetricMap" where
  "emit_counts m out = out(mt_name m @ ''_sequence_gaps'' \<mapsto> of_integer (uint (mt_sequence_gaps m)),
     mt_name m @ ''_received'' \<mapsto> of_integer (uint (mt_received m)))"

text \<open>The percentiles in the order in which \<open>emit\<close> asks for them.\<close>

definition percentiles :: "(dbl \<times> string) list" where
  "percentiles = [(p50, ''_latency_p50_ms''), (p99, ''_latency_p99_ms''), (p999, ''_latency_p999_ms'')]"

definition emit_pct :: "nat \<Rightarrow> StreamMetrics \<Rightarrow> dbl \<Rightarrow> MetricMap \<Rightarrow> MetricMap" where
  "emit_pct k m v out = out(mt_name m @ snd (percentiles ! k) \<mapsto> v)"

text \<open>The map after the rates and the first \<open>k\<close> percentiles.\<close>

fun emitted :: "StreamMetrics \<Rightarrow> nat \<Rightarrow> MetricMap option" where
  "emitted m 0 = Some (emit_rates m Map.empty)"
| "emitted m (Suc k) = do {
     out \<leftarrow> emitted m k;
     v \<leftarrow> pct (fst (percentiles ! k)) m;
     Some (emit_pct k m v out) }"

lemma emitted_all: "metrics_emit m Map.empty = map_option (emit_counts m) (emitted m 3)"
  by (simp add: metrics_emit_def numeral_3_eq_3 emit_rates_def emit_counts_def emit_pct_def percentiles_def Let_def
      map_option_case split: bind_split)

subsection \<open>Threads\<close>

text \<open>Where the reader thread is, and where an emission is: before the rates, before a percentile, copying the latencies of
  buffer \<open>b\<close> for it (\<open>n\<close> elements, of which those in the list are copied), or before the counts.\<close>

datatype recorder_at = RecLoop | RecFirst dbl dbl bool | RecLast dbl dbl bool | RecPush dbl bool | RecCount bool | RecGap bool | RecDone

datatype emit_at = EmRates | EmPct nat | EmCopy nat nat nat "dbl list"

datatype emit_for = Refresh | Finish

datatype executor_at = ExSpin | ExEmit emit_for emit_at MetricMap | ExJoin | ExDone MetricMap | ExUndefined

record metrics_threads =
  mx_metrics :: StreamMetrics
  mx_buffer :: nat
  mx_capacity :: nat
  mx_freed :: "nat set"
  mx_stop :: bool
  mx_recorder :: recorder_at
  mx_executor :: executor_at
  mx_samples :: "(dbl \<times> dbl \<times> bool) list"

definition metrics_threads_init :: "string \<Rightarrow> dbl \<Rightarrow> dbl \<Rightarrow> metrics_threads" where
  "metrics_threads_init name rate duration =
     \<lparr>mx_metrics = StreamMetrics_new name rate duration, mx_buffer = 0, mx_capacity = 0, mx_freed = {}, mx_stop = False,
      mx_recorder = RecLoop, mx_executor = ExSpin, mx_samples = []\<rparr>"

definition mx_undefined :: "metrics_threads \<Rightarrow> bool" where
  "mx_undefined s \<longleftrightarrow> mx_executor s = ExUndefined"

text \<open>The steps of the reader thread; \<open>mx_samples\<close> are the frames that it has read.\<close>

inductive recorder_step :: "metrics_threads \<Rightarrow> metrics_threads \<Rightarrow> bool" where
  rec_stop: "mx_recorder s = RecLoop \<Longrightarrow> mx_stop s \<Longrightarrow> recorder_step s (s\<lparr>mx_recorder := RecDone\<rparr>)"
| rec_frame: "mx_recorder s = RecLoop \<Longrightarrow> \<not> mx_stop s
    \<Longrightarrow> recorder_step s (s\<lparr>mx_recorder := RecFirst l t g, mx_samples := mx_samples s @ [(l, t, g)]\<rparr>)"
| rec_first: "mx_recorder s = RecFirst l t g
    \<Longrightarrow> recorder_step s (s\<lparr>mx_recorder := RecLast l t g, mx_metrics := note_first t (mx_metrics s)\<rparr>)"
| rec_last: "mx_recorder s = RecLast l t g
    \<Longrightarrow> recorder_step s (s\<lparr>mx_recorder := RecPush l g, mx_metrics := note_last t (mx_metrics s)\<rparr>)"
| rec_push: "mx_recorder s = RecPush l g \<Longrightarrow> length (mt_latencies_ms (mx_metrics s)) < mx_capacity s
    \<Longrightarrow> recorder_step s (s\<lparr>mx_recorder := RecCount g, mx_metrics := push_latency l (mx_metrics s)\<rparr>)"
| rec_grow: "mx_recorder s = RecPush l g \<Longrightarrow> \<not> length (mt_latencies_ms (mx_metrics s)) < mx_capacity s
    \<Longrightarrow> length (mt_latencies_ms (mx_metrics s)) < c
    \<Longrightarrow> recorder_step s (s\<lparr>mx_recorder := RecCount g, mx_metrics := push_latency l (mx_metrics s), mx_capacity := c,
          mx_freed := insert (mx_buffer s) (mx_freed s), mx_buffer := Suc (mx_buffer s)\<rparr>)"
| rec_count: "mx_recorder s = RecCount g
    \<Longrightarrow> recorder_step s (s\<lparr>mx_recorder := RecGap g, mx_metrics := count_received (mx_metrics s)\<rparr>)"
| rec_gap: "mx_recorder s = RecGap g
    \<Longrightarrow> recorder_step s (s\<lparr>mx_recorder := RecLoop, mx_metrics := count_gap g (mx_metrics s)\<rparr>)"

text \<open>The steps of the executor. \<open>timer\<close>: the exporter was started, so that there is a timer.\<close>

definition after_emit :: "emit_for \<Rightarrow> MetricMap \<Rightarrow> executor_at" where
  "after_emit p out = (case p of Refresh \<Rightarrow> ExSpin | Finish \<Rightarrow> ExDone out)"

inductive executor_step :: "bool \<Rightarrow> metrics_threads \<Rightarrow> metrics_threads \<Rightarrow> bool" for timer where
  ex_tick: "timer \<Longrightarrow> mx_executor s = ExSpin \<Longrightarrow> executor_step timer s (s\<lparr>mx_executor := ExEmit Refresh EmRates Map.empty\<rparr>)"
| ex_finish: "mx_executor s = ExSpin \<Longrightarrow> executor_step timer s (s\<lparr>mx_executor := ExJoin, mx_stop := True\<rparr>)"
| ex_join: "mx_executor s = ExJoin \<Longrightarrow> mx_recorder s = RecDone
    \<Longrightarrow> executor_step timer s (s\<lparr>mx_executor := ExEmit Finish EmRates Map.empty\<rparr>)"
| ex_rates: "mx_executor s = ExEmit p EmRates out
    \<Longrightarrow> executor_step timer s (s\<lparr>mx_executor := ExEmit p (EmPct 0) (emit_rates (mx_metrics s) out)\<rparr>)"
| ex_empty: "mx_executor s = ExEmit p (EmPct k) out \<Longrightarrow> k < 3 \<Longrightarrow> mt_latencies_ms (mx_metrics s) = []
    \<Longrightarrow> executor_step timer s (s\<lparr>mx_executor := ExEmit p (EmPct (Suc k)) (emit_pct k (mx_metrics s) 0 out)\<rparr>)"
| ex_copy: "mx_executor s = ExEmit p (EmPct k) out \<Longrightarrow> k < 3 \<Longrightarrow> mt_latencies_ms (mx_metrics s) \<noteq> []
    \<Longrightarrow> executor_step timer s (s\<lparr>mx_executor := ExEmit p (EmCopy k (mx_buffer s) (length (mt_latencies_ms (mx_metrics s))) []) out\<rparr>)"
| ex_element: "mx_executor s = ExEmit p (EmCopy k b n xs) out \<Longrightarrow> length xs < n \<Longrightarrow> b \<notin> mx_freed s
    \<Longrightarrow> executor_step timer s (s\<lparr>mx_executor := ExEmit p (EmCopy k b n (xs @ [mt_latencies_ms (mx_metrics s) ! length xs])) out\<rparr>)"
| ex_freed: "mx_executor s = ExEmit p (EmCopy k b n xs) out \<Longrightarrow> length xs < n \<Longrightarrow> b \<in> mx_freed s
    \<Longrightarrow> executor_step timer s (s\<lparr>mx_executor := ExUndefined\<rparr>)"
| ex_pct: "mx_executor s = ExEmit p (EmCopy k b n xs) out \<Longrightarrow> \<not> length xs < n
    \<Longrightarrow> rd (sort xs) (pct_index (fst (percentiles ! k)) (length xs)) = Some v
    \<Longrightarrow> executor_step timer s (s\<lparr>mx_executor := ExEmit p (EmPct (Suc k)) (emit_pct k (mx_metrics s) v out)\<rparr>)"
| ex_index: "mx_executor s = ExEmit p (EmCopy k b n xs) out \<Longrightarrow> \<not> length xs < n
    \<Longrightarrow> rd (sort xs) (pct_index (fst (percentiles ! k)) (length xs)) = None
    \<Longrightarrow> executor_step timer s (s\<lparr>mx_executor := ExUndefined\<rparr>)"
| ex_counts: "mx_executor s = ExEmit p (EmPct k) out \<Longrightarrow> \<not> k < 3
    \<Longrightarrow> executor_step timer s (s\<lparr>mx_executor := after_emit p (emit_counts (mx_metrics s) out)\<rparr>)"

definition metrics_step :: "bool \<Rightarrow> metrics_threads \<Rightarrow> metrics_threads \<Rightarrow> bool" where
  "metrics_step timer s s' \<longleftrightarrow> recorder_step s s' \<or> executor_step timer s s'"

inductive_cases recorder_stepE: "recorder_step s s'"
inductive_cases executor_stepE: "executor_step timer s s'"

subsection \<open>The recording is complete\<close>

text \<open>What the reader thread still does to the metrics for the frame it is recording.\<close>

fun rest_of_record :: "recorder_at \<Rightarrow> StreamMetrics \<Rightarrow> StreamMetrics" where
  "rest_of_record RecLoop m = m"
| "rest_of_record (RecFirst l t g) m = record_arrival l t g m"
| "rest_of_record (RecLast l t g) m = count_gap g (count_received (push_latency l (note_last t m)))"
| "rest_of_record (RecPush l g) m = count_gap g (count_received (push_latency l m))"
| "rest_of_record (RecCount g) m = count_gap g (count_received m)"
| "rest_of_record (RecGap g) m = count_gap g m"
| "rest_of_record RecDone m = m"

definition recorder_inv :: "StreamMetrics \<Rightarrow> metrics_threads \<Rightarrow> bool" where
  "recorder_inv m s \<longleftrightarrow> rest_of_record (mx_recorder s) (mx_metrics s) = record_all (mx_samples s) m \<and>
     mx_freed s \<subseteq> {..<mx_buffer s}"

text \<open>The state of an emission while nobody records.\<close>

fun emit_ok :: "metrics_threads \<Rightarrow> emit_at \<Rightarrow> MetricMap \<Rightarrow> bool" where
  "emit_ok s EmRates out = (out = Map.empty)"
| "emit_ok s (EmPct k) out = (k \<le> 3 \<and> emitted (mx_metrics s) k = Some out)"
| "emit_ok s (EmCopy k b n xs) out = (k < 3 \<and> emitted (mx_metrics s) k = Some out \<and> b = mx_buffer s \<and>
     mt_latencies_ms (mx_metrics s) \<noteq> [] \<and> n = length (mt_latencies_ms (mx_metrics s)) \<and>
     length xs \<le> n \<and> take (length xs) (mt_latencies_ms (mx_metrics s)) = xs)"

fun executor_ok :: "bool \<Rightarrow> metrics_threads \<Rightarrow> executor_at \<Rightarrow> bool" where
  "executor_ok timer s ExSpin = True"
| "executor_ok timer s ExJoin = mx_stop s"
| "executor_ok timer s (ExEmit Refresh e out) = timer"
| "executor_ok timer s (ExEmit Finish e out) = (mx_recorder s = RecDone \<and> emit_ok s e out)"
| "executor_ok timer s (ExDone out) = (mx_recorder s = RecDone \<and> metrics_emit (mx_metrics s) Map.empty = Some out)"
| "executor_ok timer s ExUndefined = (timer \<or> 2 ^ 53 \<le> length (mx_samples s))"

definition metrics_inv :: "bool \<Rightarrow> StreamMetrics \<Rightarrow> metrics_threads \<Rightarrow> bool" where
  "metrics_inv timer m s \<longleftrightarrow> recorder_inv m s \<and> executor_ok timer s (mx_executor s)"

lemma metrics_init_inv: "metrics_inv timer (StreamMetrics_new name rate duration) (metrics_threads_init name rate duration)"
  by (simp add: metrics_inv_def recorder_inv_def metrics_threads_init_def record_all_def)

lemma recorder_step_inv: "recorder_step s s' \<Longrightarrow> recorder_inv m s \<Longrightarrow> recorder_inv m s'"
  by (erule recorder_stepE) (auto simp: recorder_inv_def record_all_def record_arrival_steps)

text \<open>A recorder that is done makes no step, and the executor changes neither the metrics nor the buffer.\<close>

lemma recorder_step_executor:
  assumes "recorder_step s s'"
  shows "mx_executor s' = mx_executor s" "mx_recorder s \<noteq> RecDone" "mx_stop s' = mx_stop s" "length (mx_samples s) \<le> length (mx_samples s')"
  using assms by (auto elim: recorder_stepE)

lemma recorder_step_executor_ok:
  assumes "recorder_step s s'" and "executor_ok timer s (mx_executor s)"
  shows "executor_ok timer s' (mx_executor s')"
  using assms(2) recorder_step_executor [OF assms(1)]
  by (cases "(timer, s, mx_executor s)" rule: executor_ok.cases) auto

lemma executor_step_frame:
  assumes "executor_step timer s s'"
  shows "mx_metrics s' = mx_metrics s" "mx_buffer s' = mx_buffer s" "mx_freed s' = mx_freed s"
    "mx_recorder s' = mx_recorder s" "mx_samples s' = mx_samples s"
  using assms by (auto elim!: executor_stepE)

lemma executor_step_recorder_inv: "executor_step timer s s' \<Longrightarrow> recorder_inv m s \<Longrightarrow> recorder_inv m s'"
  by (simp add: recorder_inv_def executor_step_frame)

lemma percentile_range: "k < 3 \<Longrightarrow> 0 \<le> fst (percentiles ! k) \<and> fst (percentiles ! k) \<le> 1"
  using percentile_constants by (auto simp: percentiles_def less_Suc_eq numeral_3_eq_3)

text \<open>A copy that is complete is the vector, and its percentile is in range.\<close>

lemma emit_copy_complete:
  assumes "emit_ok s (EmCopy k b n xs) out" and "\<not> length xs < n"
  shows "xs = mt_latencies_ms (mx_metrics s)"
    and "rd (sort xs) (pct_index (fst (percentiles ! k)) (length xs)) = pct (fst (percentiles ! k)) (mx_metrics s)"
proof -
  have "take (length xs) (mt_latencies_ms (mx_metrics s)) = xs" "length (mt_latencies_ms (mx_metrics s)) \<le> length xs"
    using assms unfolding emit_ok.simps by (blast, linarith)
  then show xs: "xs = mt_latencies_ms (mx_metrics s)" by (metis take_all)
  show "rd (sort xs) (pct_index (fst (percentiles ! k)) (length xs)) = pct (fst (percentiles ! k)) (mx_metrics s)"
    using assms(1) unfolding xs by (simp add: pct_def Let_def)
qed

lemma emit_ok_frame [simp]: "emit_ok (s\<lparr>mx_executor := x\<rparr>) e out = emit_ok s e out"
  by (cases e) simp_all

lemma emit_copy_next:
  assumes "emit_ok s (EmCopy k b n xs) out" and "length xs < n"
  shows "emit_ok s (EmCopy k b n (xs @ [mt_latencies_ms (mx_metrics s) ! length xs])) out"
proof -
  let ?l = "mt_latencies_ms (mx_metrics s)"
  have xs: "take (length xs) ?l = xs" and "length xs < length ?l" using assms by simp_all
  then have "take (Suc (length xs)) ?l = xs @ [?l ! length xs]" by (simp add: take_Suc_conv_app_nth)
  with assms show ?thesis by simp
qed

lemma executor_step_ok:
  assumes "executor_step timer s s'" and inv: "recorder_inv m s" and ok: "executor_ok timer s (mx_executor s)"
    and m: "mt_latencies_ms m = []"
  shows "executor_ok timer s' (mx_executor s')"
  using assms(1)
proof (cases rule: executor_step.cases)
  case (ex_rates p out)
  with ok show ?thesis by (cases p) simp_all
next
  case (ex_empty p k out)
  with ok show ?thesis by (cases p) (simp_all add: pct_def)
next
  case (ex_copy p k out)
  with ok show ?thesis by (cases p) simp_all
next
  case (ex_element p k b n xs out)
  with ok emit_copy_next [of s k b n xs out] show ?thesis by (cases p) (simp_all del: emit_ok.simps)
next
  case (ex_freed p k b n xs out)
  with ok inv show ?thesis by (cases p) (auto simp: recorder_inv_def)
next
  case (ex_pct p k b n xs out v)
  show ?thesis
  proof (cases p)
    case Refresh
    with ex_pct ok show ?thesis by simp
  next
    case Finish
    with ex_pct ok have e: "emit_ok s (EmCopy k b n xs) out" "mx_recorder s = RecDone" by (simp_all del: emit_ok.simps)
    then have "k < 3" "emitted (mx_metrics s) k = Some out" by simp_all
    moreover have "pct (fst (percentiles ! k)) (mx_metrics s) = Some v"
      using emit_copy_complete(2) [OF e(1) ex_pct(3)] ex_pct(4) by simp
    ultimately show ?thesis using ex_pct(1) Finish e(2) by simp
  qed
next
  case (ex_index p k b n xs out)
  show ?thesis
  proof (cases p)
    case Refresh
    with ex_index ok show ?thesis by simp
  next
    case Finish
    with ex_index ok have e: "emit_ok s (EmCopy k b n xs) out" "mx_recorder s = RecDone" by (simp_all del: emit_ok.simps)
    have "mx_metrics s = record_all (mx_samples s) m" using inv e(2) by (simp add: recorder_inv_def)
    then have "length (mt_latencies_ms (mx_metrics s)) = length (mx_samples s)"
      using m record_all_counts [of "mx_samples s" m] by simp
    moreover have "pct (fst (percentiles ! k)) (mx_metrics s) = None"
      using emit_copy_complete(2) [OF e(1) ex_index(3)] ex_index(4) by simp
    moreover have "k < 3" using e(1) by simp
    ultimately have "\<not> length (mx_samples s) < 2 ^ 53"
      using pct_value [of "fst (percentiles ! k)" "mx_metrics s"] percentile_range [of k] by auto
    then show ?thesis using ex_index(1) by simp
  qed
next
  case (ex_counts p k out)
  with ok show ?thesis by (cases p) (auto simp: after_emit_def emitted_all le_antisym not_less)
qed (use ok in simp_all)

lemma metrics_step_inv:
  assumes "metrics_step timer s s'" and "metrics_inv timer m s" and "mt_latencies_ms m = []"
  shows "metrics_inv timer m s'"
  using assms recorder_step_inv recorder_step_executor_ok executor_step_recorder_inv executor_step_ok
  unfolding metrics_step_def metrics_inv_def by blast

lemma metrics_reach_inv:
  assumes "(metrics_step timer)\<^sup>*\<^sup>* (metrics_threads_init name rate duration) s"
  shows "metrics_inv timer (StreamMetrics_new name rate duration) s"
proof -
  have "mt_latencies_ms (StreamMetrics_new name rate duration) = []" by (simp add: StreamMetrics_new_def)
  from assms this show ?thesis
    by (induction rule: rtranclp_induct) (auto intro: metrics_init_inv metrics_step_inv)
qed

subsection \<open>Finishing\<close>

text \<open>Steps of either thread as runs of both.\<close>

lemma recorder_run: "recorder_step s s' \<Longrightarrow> (metrics_step timer)\<^sup>*\<^sup>* s s'"
  by (rule r_into_rtranclp) (simp add: metrics_step_def)

lemma executor_run: "executor_step timer s s' \<Longrightarrow> (metrics_step timer)\<^sup>*\<^sup>* s s'"
  by (rule r_into_rtranclp) (simp add: metrics_step_def)

text \<open>The reader thread ends the recording of a frame.\<close>

fun record_steps_left :: "recorder_at \<Rightarrow> nat" where
  "record_steps_left RecLoop = 0"
| "record_steps_left (RecFirst l t g) = 5"
| "record_steps_left (RecLast l t g) = 4"
| "record_steps_left (RecPush l g) = 3"
| "record_steps_left (RecCount g) = 2"
| "record_steps_left (RecGap g) = 1"
| "record_steps_left RecDone = 0"

definition same_outside_recorder :: "metrics_threads \<Rightarrow> metrics_threads \<Rightarrow> bool" where
  "same_outside_recorder s s' \<longleftrightarrow> mx_executor s' = mx_executor s \<and> mx_stop s' = mx_stop s \<and> mx_samples s' = mx_samples s"

lemma record_progress:
  assumes "0 < record_steps_left (mx_recorder s)"
  shows "\<exists>s'. recorder_step s s' \<and> record_steps_left (mx_recorder s') < record_steps_left (mx_recorder s) \<and> same_outside_recorder s s'"
proof (cases "mx_recorder s")
  case (RecFirst l t g)
  show ?thesis by (intro exI conjI, rule rec_first [OF RecFirst]) (simp_all add: RecFirst same_outside_recorder_def)
next
  case (RecLast l t g)
  show ?thesis by (intro exI conjI, rule rec_last [OF RecLast]) (simp_all add: RecLast same_outside_recorder_def)
next
  case (RecPush l g)
  show ?thesis
  proof (cases "length (mt_latencies_ms (mx_metrics s)) < mx_capacity s")
    case True
    show ?thesis by (intro exI conjI, rule rec_push [OF RecPush True]) (simp_all add: RecPush same_outside_recorder_def)
  next
    case False
    show ?thesis by (intro exI conjI, rule rec_grow [OF RecPush False lessI]) (simp_all add: RecPush same_outside_recorder_def)
  qed
next
  case (RecCount g)
  show ?thesis by (intro exI conjI, rule rec_count [OF RecCount]) (simp_all add: RecCount same_outside_recorder_def)
next
  case (RecGap g)
  show ?thesis by (intro exI conjI, rule rec_gap [OF RecGap]) (simp_all add: RecGap same_outside_recorder_def)
qed (use assms in simp_all)

lemma record_ends:
  "\<exists>s'. (metrics_step timer)\<^sup>*\<^sup>* s s' \<and> (mx_recorder s' = RecLoop \<or> mx_recorder s' = RecDone) \<and> same_outside_recorder s s'"
proof (induction "record_steps_left (mx_recorder s)" arbitrary: s rule: less_induct)
  case less
  show ?case
  proof (cases "record_steps_left (mx_recorder s) = 0")
    case True
    then have "mx_recorder s = RecLoop \<or> mx_recorder s = RecDone" by (cases "mx_recorder s") simp_all
    then show ?thesis by (intro exI [of _ s]) (simp add: same_outside_recorder_def)
  next
    case False
    then obtain s1 where s1: "recorder_step s s1" "record_steps_left (mx_recorder s1) < record_steps_left (mx_recorder s)"
      "same_outside_recorder s s1" using record_progress by blast
    from less [OF s1(2)] s1(3) recorder_run [OF s1(1), of timer] show ?thesis
      by (auto simp: same_outside_recorder_def intro: rtranclp_trans)
  qed
qed

text \<open>An emission runs to its end.\<close>

lemma copy_run:
  assumes "mx_buffer s \<notin> mx_freed s" and "i \<le> length (mt_latencies_ms (mx_metrics s))"
  shows "(metrics_step timer)\<^sup>*\<^sup>*
    (s\<lparr>mx_executor := ExEmit p (EmCopy k (mx_buffer s) (length (mt_latencies_ms (mx_metrics s))) []) out\<rparr>)
    (s\<lparr>mx_executor := ExEmit p (EmCopy k (mx_buffer s) (length (mt_latencies_ms (mx_metrics s))) (take i (mt_latencies_ms (mx_metrics s)))) out\<rparr>)"
  using assms(2)
proof (induction i)
  case (Suc i)
  let ?l = "mt_latencies_ms (mx_metrics s)"
  let ?s = "\<lambda>xs. s\<lparr>mx_executor := ExEmit p (EmCopy k (mx_buffer s) (length ?l) xs) out\<rparr>"
  have "executor_step timer (?s (take i ?l)) (?s (take (Suc i) ?l))"
    using ex_element [of "?s (take i ?l)" p k "mx_buffer s" "length ?l" "take i ?l" out timer] assms(1) Suc.prems
    by (simp add: take_Suc_conv_app_nth min_def)
  from executor_run [OF this] Suc show ?case by (meson Suc_leD rtranclp_trans)
qed simp

lemma pct_run:
  assumes "mx_buffer s \<notin> mx_freed s" and "k < 3" and "pct (fst (percentiles ! k)) (mx_metrics s) = Some v"
  shows "(metrics_step timer)\<^sup>*\<^sup>* (s\<lparr>mx_executor := ExEmit p (EmPct k) out\<rparr>)
    (s\<lparr>mx_executor := ExEmit p (EmPct (Suc k)) (emit_pct k (mx_metrics s) v out)\<rparr>)"
proof -
  let ?l = "mt_latencies_ms (mx_metrics s)" and ?s = "\<lambda>e out. s\<lparr>mx_executor := ExEmit p e out\<rparr>"
  let ?c = "\<lambda>xs. ?s (EmCopy k (mx_buffer s) (length ?l) xs) out"
  show ?thesis
  proof (cases "?l = []")
    case True
    then have "v = 0" using assms(3) by (simp add: pct_def)
    then have "executor_step timer (?s (EmPct k) out) (?s (EmPct (Suc k)) (emit_pct k (mx_metrics s) v out))"
      using ex_empty [of "?s (EmPct k) out" p k out timer] assms(2) True by simp
    then show ?thesis by (rule executor_run)
  next
    case False
    have "executor_step timer (?s (EmPct k) out) (?c [])"
      using ex_copy [of "?s (EmPct k) out" p k out timer] assms(2) False by simp
    moreover have "(metrics_step timer)\<^sup>*\<^sup>* (?c []) (?c ?l)" using copy_run [OF assms(1) le_refl, of timer p k out] by simp
    moreover have "executor_step timer (?c ?l) (?s (EmPct (Suc k)) (emit_pct k (mx_metrics s) v out))"
      using ex_pct [of "?c ?l" p k "mx_buffer s" "length ?l" ?l out v timer] assms(3) False by (simp add: pct_def Let_def)
    ultimately show ?thesis by (meson executor_run rtranclp_trans)
  qed
qed

lemma percentiles_run:
  assumes "mx_buffer s \<notin> mx_freed s" and "k \<le> 3" and "emitted (mx_metrics s) k = Some out"
  shows "(metrics_step timer)\<^sup>*\<^sup>* (s\<lparr>mx_executor := ExEmit p (EmPct 0) (emit_rates (mx_metrics s) Map.empty)\<rparr>)
    (s\<lparr>mx_executor := ExEmit p (EmPct k) out\<rparr>)"
  using assms(2,3)
proof (induction k arbitrary: out)
  case (Suc k)
  then obtain o1 v where o1: "emitted (mx_metrics s) k = Some o1" "pct (fst (percentiles ! k)) (mx_metrics s) = Some v"
    "out = emit_pct k (mx_metrics s) v o1" by (auto simp: bind_eq_Some_conv)
  with Suc.IH [OF _ o1(1)] pct_run [OF assms(1) _ o1(2), of timer p o1] Suc.prems(1) show ?case by (simp add: rtranclp_trans)
qed simp

lemma emitted_defined: "length (mt_latencies_ms m) < 2 ^ 53 \<Longrightarrow> k \<le> 3 \<Longrightarrow> \<exists>out. emitted m k = Some out"
proof (induction k)
  case (Suc k)
  with pct_value [of "fst (percentiles ! k)" m] percentile_range [of k] show ?case by auto
qed simp

lemma emission_run:
  assumes "mx_buffer s \<notin> mx_freed s" and "length (mt_latencies_ms (mx_metrics s)) < 2 ^ 53"
  shows "\<exists>out. (metrics_step timer)\<^sup>*\<^sup>* (s\<lparr>mx_executor := ExEmit p EmRates Map.empty\<rparr>) (s\<lparr>mx_executor := after_emit p out\<rparr>)"
proof -
  let ?s = "\<lambda>e out. s\<lparr>mx_executor := ExEmit p e out\<rparr>" and ?m = "mx_metrics s"
  obtain out where out: "emitted ?m 3 = Some out" using emitted_defined [OF assms(2)] by blast
  have "executor_step timer (?s EmRates Map.empty) (?s (EmPct 0) (emit_rates ?m Map.empty))"
    using ex_rates [of "?s EmRates Map.empty" p Map.empty timer] by simp
  moreover have "(metrics_step timer)\<^sup>*\<^sup>* (?s (EmPct 0) (emit_rates ?m Map.empty)) (?s (EmPct 3) out)"
    by (rule percentiles_run [OF assms(1) _ out]) simp
  moreover have "executor_step timer (?s (EmPct 3) out) (s\<lparr>mx_executor := after_emit p (emit_counts ?m out)\<rparr>)"
    using ex_counts [of "?s (EmPct 3) out" p 3 out timer] by simp
  ultimately show ?thesis by (meson executor_run rtranclp_trans)
qed

lemma finish_run:
  assumes inv: "metrics_inv timer m s" and m: "mt_latencies_ms m = []" and ex: "mx_executor s = ExSpin" and few: "length (mx_samples s) < 2 ^ 53"
  shows "\<exists>s' out. (metrics_step timer)\<^sup>*\<^sup>* s s' \<and> mx_executor s' = ExDone out \<and> mx_samples s' = mx_samples s"
proof -
  let ?s1 = "s\<lparr>mx_executor := ExJoin, mx_stop := True\<rparr>"
  have "(metrics_step timer)\<^sup>*\<^sup>* s ?s1" by (rule executor_run [OF ex_finish [OF ex]])
  moreover obtain s2 where s2: "(metrics_step timer)\<^sup>*\<^sup>* ?s1 s2" "mx_recorder s2 = RecLoop \<or> mx_recorder s2 = RecDone"
    "same_outside_recorder ?s1 s2" using record_ends by blast
  moreover obtain s3 where s3: "(metrics_step timer)\<^sup>*\<^sup>* s2 s3" "mx_recorder s3 = RecDone" "same_outside_recorder s2 s3"
  proof (cases "mx_recorder s2 = RecDone")
    case True
    then show ?thesis using that [of s2] by (simp add: same_outside_recorder_def)
  next
    case False
    then have "recorder_step s2 (s2\<lparr>mx_recorder := RecDone\<rparr>)" using s2(2,3) by (intro rec_stop) (auto simp: same_outside_recorder_def)
    then show ?thesis using that [of "s2\<lparr>mx_recorder := RecDone\<rparr>"] recorder_run by (simp add: same_outside_recorder_def)
  qed
  ultimately have run: "(metrics_step timer)\<^sup>*\<^sup>* s s3" by (meson rtranclp_trans)
  have keep: "mx_executor s3 = ExJoin" "mx_samples s3 = mx_samples s" using s2(3) s3(3) by (simp_all add: same_outside_recorder_def)
  have "metrics_inv timer m s3" using run inv by (induction rule: rtranclp_induct) (auto intro: metrics_step_inv [OF _ _ m])
  then have r: "mx_metrics s3 = record_all (mx_samples s) m" "mx_buffer s3 \<notin> mx_freed s3"
    using s3(2) keep by (auto simp: metrics_inv_def recorder_inv_def)
  have "length (mt_latencies_ms (mx_metrics s3)) < 2 ^ 53" using few m record_all_counts [of "mx_samples s" m] by (simp add: r(1))
  then obtain out where "(metrics_step timer)\<^sup>*\<^sup>* (s3\<lparr>mx_executor := ExEmit Finish EmRates Map.empty\<rparr>) (s3\<lparr>mx_executor := after_emit Finish out\<rparr>)"
    using emission_run [OF r(2)] by blast
  moreover have "(metrics_step timer)\<^sup>*\<^sup>* s3 (s3\<lparr>mx_executor := ExEmit Finish EmRates Map.empty\<rparr>)"
    by (rule executor_run [OF ex_join [OF keep(1) s3(2)]])
  ultimately have "(metrics_step timer)\<^sup>*\<^sup>* s (s3\<lparr>mx_executor := after_emit Finish out\<rparr>)" using run by (meson rtranclp_trans)
  then show ?thesis using keep(2) by (intro exI conjI) (assumption, simp_all add: after_emit_def)
qed

subsection \<open>A refresh during a recording\<close>

text \<open>The timer fires after the first frame; the second frame arrives while the executor copies the first percentile.\<close>

lemma frame_into_full_buffer:
  assumes "mx_recorder s = RecLoop" "\<not> mx_stop s" "length (mt_latencies_ms (mx_metrics s)) = mx_capacity s"
  shows "(metrics_step timer)\<^sup>*\<^sup>* s (s\<lparr>mx_samples := mx_samples s @ [(l, t, g)], mx_recorder := RecCount g,
      mx_metrics := push_latency l (note_last t (note_first t (mx_metrics s))), mx_capacity := Suc (mx_capacity s),
      mx_freed := insert (mx_buffer s) (mx_freed s), mx_buffer := Suc (mx_buffer s)\<rparr>)"
proof -
  let ?s1 = "s\<lparr>mx_recorder := RecFirst l t g, mx_samples := mx_samples s @ [(l, t, g)]\<rparr>"
  let ?s2 = "?s1\<lparr>mx_recorder := RecLast l t g, mx_metrics := note_first t (mx_metrics s)\<rparr>"
  let ?s3 = "?s2\<lparr>mx_recorder := RecPush l g, mx_metrics := note_last t (note_first t (mx_metrics s))\<rparr>"
  let ?s4 = "?s3\<lparr>mx_recorder := RecCount g, mx_metrics := push_latency l (mx_metrics ?s3), mx_capacity := Suc (mx_capacity s),
      mx_freed := insert (mx_buffer s) (mx_freed s), mx_buffer := Suc (mx_buffer s)\<rparr>"
  have "recorder_step s ?s1" using rec_frame [OF assms(1,2)] by simp
  moreover have "recorder_step ?s1 ?s2" using rec_first [of ?s1 l t g] by simp
  moreover have "recorder_step ?s2 ?s3" using rec_last [of ?s2 l t g] by simp
  moreover have "recorder_step ?s3 ?s4"
    using rec_grow [of ?s3 l g "Suc (mx_capacity s)"] assms(3) by (simp add: note_last_def note_first_def)
  ultimately have "(metrics_step timer)\<^sup>*\<^sup>* s ?s4" by (blast intro: recorder_run rtranclp_trans)
  then show ?thesis by simp
qed

lemma frame_counted:
  assumes "mx_recorder s = RecCount g"
  shows "(metrics_step timer)\<^sup>*\<^sup>* s (s\<lparr>mx_recorder := RecLoop, mx_metrics := count_gap g (count_received (mx_metrics s))\<rparr>)"
proof -
  let ?s1 = "s\<lparr>mx_recorder := RecGap g, mx_metrics := count_received (mx_metrics s)\<rparr>"
  let ?s2 = "?s1\<lparr>mx_recorder := RecLoop, mx_metrics := count_gap g (mx_metrics ?s1)\<rparr>"
  have "recorder_step s ?s1" using rec_count [OF assms] by simp
  moreover have "recorder_step ?s1 ?s2" using rec_gap [of ?s1 g] by simp
  ultimately have "(metrics_step timer)\<^sup>*\<^sup>* s ?s2" by (blast intro: recorder_run rtranclp_trans)
  then show ?thesis by simp
qed

lemma refresh_copies:
  assumes "mx_executor s = ExSpin" and "mt_latencies_ms (mx_metrics s) \<noteq> []"
  shows "\<exists>out. (metrics_step True)\<^sup>*\<^sup>* s
    (s\<lparr>mx_executor := ExEmit Refresh (EmCopy 0 (mx_buffer s) (length (mt_latencies_ms (mx_metrics s))) []) out\<rparr>)"
proof -
  let ?out = "emit_rates (mx_metrics s) Map.empty"
  let ?s1 = "s\<lparr>mx_executor := ExEmit Refresh EmRates Map.empty\<rparr>" and ?s2 = "s\<lparr>mx_executor := ExEmit Refresh (EmPct 0) ?out\<rparr>"
  let ?s3 = "s\<lparr>mx_executor := ExEmit Refresh (EmCopy 0 (mx_buffer s) (length (mt_latencies_ms (mx_metrics s))) []) ?out\<rparr>"
  have "executor_step True s ?s1" using ex_tick [of True s] assms(1) by simp
  moreover have "executor_step True ?s1 ?s2" using ex_rates [of ?s1] by simp
  moreover have "executor_step True ?s2 ?s3" using ex_copy [of ?s2] assms(2) by simp
  ultimately have "(metrics_step True)\<^sup>*\<^sup>* s ?s3" by (blast intro: executor_run rtranclp_trans)
  then show ?thesis by blast
qed

lemma refresh_race:
  "\<exists>s. (metrics_step True)\<^sup>*\<^sup>* (metrics_threads_init name rate duration) s \<and> mx_undefined s \<and> length (mx_samples s) = 2"
proof -
  let ?s0 = "metrics_threads_init name rate duration"
  have l [simp]: "mt_latencies_ms (push_latency a m) = mt_latencies_ms m @ [a]" "mt_latencies_ms (note_last t m) = mt_latencies_ms m"
      "mt_latencies_ms (note_first t m) = mt_latencies_ms m" "mt_latencies_ms (count_gap g m) = mt_latencies_ms m"
      "mt_latencies_ms (count_received m) = mt_latencies_ms m" for a t g m
    by (simp_all add: push_latency_def note_last_def note_first_def count_gap_def count_received_def)
  have 0: "mx_recorder ?s0 = RecLoop" "\<not> mx_stop ?s0" "mt_latencies_ms (mx_metrics ?s0) = []" "mx_capacity ?s0 = 0"
    "mx_buffer ?s0 = 0" "mx_executor ?s0 = ExSpin" "mx_samples ?s0 = []"
    by (simp_all add: metrics_threads_init_def StreamMetrics_new_def)
  obtain s1 where s1: "(metrics_step True)\<^sup>*\<^sup>* ?s0 s1" "mx_recorder s1 = RecCount False" "\<not> mx_stop s1" "mx_executor s1 = ExSpin"
    "length (mt_latencies_ms (mx_metrics s1)) = 1" "mx_capacity s1 = 1" "length (mx_samples s1) = 1"
    using frame_into_full_buffer [where s = ?s0 and timer = True and g = False and l = 1 and t = 5] 0 by force
  obtain s2 where s2: "(metrics_step True)\<^sup>*\<^sup>* s1 s2" "mx_recorder s2 = RecLoop" "\<not> mx_stop s2" "mx_executor s2 = ExSpin"
    "length (mt_latencies_ms (mx_metrics s2)) = 1" "mx_capacity s2 = 1" "length (mx_samples s2) = 1"
    using frame_counted [OF s1(2), of True] s1(3-7) by force
  obtain s3 out where s3: "(metrics_step True)\<^sup>*\<^sup>* s2 s3" "mx_recorder s3 = RecLoop" "\<not> mx_stop s3"
    "mx_executor s3 = ExEmit Refresh (EmCopy 0 (mx_buffer s3) 1 []) out"
    "length (mt_latencies_ms (mx_metrics s3)) = mx_capacity s3" "length (mx_samples s3) = 1"
    using refresh_copies [OF s2(4)] s2(2,3,5-7) by force
  obtain s4 where s4: "(metrics_step True)\<^sup>*\<^sup>* s3 s4" "mx_buffer s3 \<in> mx_freed s4" "mx_executor s4 = mx_executor s3"
    "length (mx_samples s4) = 2"
    using frame_into_full_buffer [OF s3(2,3,5), where timer = True and g = False and l = 2 and t = 6] s3(6) by force
  have "metrics_step True s4 (s4\<lparr>mx_executor := ExUndefined\<rparr>)"
    using ex_freed [of s4] s3(4) s4(2,3) by (simp add: metrics_step_def)
  with s1(1) s2(1) s3(1) s4(1) have "(metrics_step True)\<^sup>*\<^sup>* ?s0 (s4\<lparr>mx_executor := ExUndefined\<rparr>)"
    by (meson rtranclp.rtrancl_into_rtrancl rtranclp_trans)
  then show ?thesis using s4(4) by (intro exI conjI) (assumption, simp_all add: mx_undefined_def)
qed

subsection \<open>Properties\<close>

text \<open>C26: What \<^verbatim>\<open>finish\<close> reports of the CAN stream is complete: whenever it gets as far as reporting, however the reader thread and
  the timer ran before, the metrics that it emits are those of all the frames that the reader thread read, each
  recorded once and in order; none is missing or half recorded. And from every state in which the executor is not in a callback,
  with fewer than \<open>2 ^ 53\<close> frames read, \<^verbatim>\<open>finish\<close> can get that far without another frame.\<close>

theorem finish_metrics_complete:
  assumes "(metrics_step timer)\<^sup>*\<^sup>* (metrics_threads_init name rate duration) s"
  shows "(mx_executor s = ExDone out \<longrightarrow> metrics_emit (record_all (mx_samples s) (StreamMetrics_new name rate duration)) Map.empty = Some out) \<and>
    (mx_executor s = ExSpin \<longrightarrow> length (mx_samples s) < 2 ^ 53 \<longrightarrow>
      (\<exists>s' out. (metrics_step timer)\<^sup>*\<^sup>* s s' \<and> mx_executor s' = ExDone out \<and> mx_samples s' = mx_samples s))"
proof -
  have m: "mt_latencies_ms (StreamMetrics_new name rate duration) = []" by (simp add: StreamMetrics_new_def)
  from metrics_reach_inv [OF assms] finish_run [OF metrics_reach_inv [OF assms] m] show ?thesis
    by (auto simp: metrics_inv_def recorder_inv_def)
qed

theorem finish_metrics_complete_witness:
  "\<exists>s out. (metrics_step True)\<^sup>*\<^sup>* (metrics_threads_init ''can'' 100 10) s \<and> mx_samples s = [(3, 5, False)] \<and> mx_executor s = ExDone out \<and>
     metrics_emit (record_all [(3, 5, False)] (StreamMetrics_new ''can'' 100 10)) Map.empty = Some out"
proof -
  let ?s0 = "metrics_threads_init ''can'' 100 10"
  obtain s1 where s1: "(metrics_step True)\<^sup>*\<^sup>* ?s0 s1" "mx_samples s1 = [(3, 5, False)]" "mx_executor s1 = ExSpin"
    using frame_into_full_buffer [where s = ?s0 and timer = True and l = 3 and t = 5 and g = False]
    by (force simp: metrics_threads_init_def StreamMetrics_new_def)
  then obtain s out where s: "(metrics_step True)\<^sup>*\<^sup>* s1 s" "mx_executor s = ExDone out" "mx_samples s = [(3, 5, False)]"
    using finish_metrics_complete [OF s1(1)] by auto
  have "(metrics_step True)\<^sup>*\<^sup>* ?s0 s" using s1(1) s(1) by simp
  then show ?thesis using finish_metrics_complete [of True "''can''" 100 10 s out] s by auto
qed

text \<open>C27: The executor can read a freed buffer exactly when the exporter is on: with the timer, its refresh copies the latencies
  without a lock while the reader thread moves them to a new buffer; without it, with fewer than \<open>2 ^ 53\<close> frames, no
  interleaving leads to undefined behaviour.\<close>

theorem gauge_refresh_race_iff:
  "(\<exists>s. (metrics_step timer)\<^sup>*\<^sup>* (metrics_threads_init name rate duration) s \<and> mx_undefined s \<and> length (mx_samples s) < 2 ^ 53)
     \<longleftrightarrow> timer"
proof
  assume "\<exists>s. (metrics_step timer)\<^sup>*\<^sup>* (metrics_threads_init name rate duration) s \<and> mx_undefined s \<and> length (mx_samples s) < 2 ^ 53"
  then show timer by (auto simp: mx_undefined_def metrics_inv_def dest!: metrics_reach_inv)
next
  assume timer
  then show "\<exists>s. (metrics_step timer)\<^sup>*\<^sup>* (metrics_threads_init name rate duration) s \<and> mx_undefined s \<and> length (mx_samples s) < 2 ^ 53"
    using refresh_race [of name rate duration] by fastforce
qed

end
