(* ===== verification/Packet_Threads.thy ===== *)
theory Packet_Threads
  imports Tcp_Interface
begin

text \<open>
  The threads of a TCP interface around its byte queue: the I/O thread that pushes received bytes (\<^verbatim>\<open>receive\<close>), the
  packet thread (\<^verbatim>\<open>receive_thread\<close> in \<^verbatim>\<open>src/network_interfaces/tcp_interface.cpp\<close>, \<^verbatim>\<open>readBytes\<close> in
  \<^verbatim>\<open>network_bridge/thrift_stream_queue.hpp\<close>) and a thread in \<^verbatim>\<open>close\<close>. A step is what a thread does while it holds the
  mutex of the queue, or one access outside it. \<open>Tcp_Interface\<close> takes the packet thread as a function of the bytes
  received, \<open>tcp_feed\<close>; here that is shown to be what the threads do in every interleaving, and what becomes of
  \<^verbatim>\<open>close\<close>. Waits end by notification only; \<open>Queue_Stream\<close> has what a spurious wake-up does.
\<close>

subsection \<open>Threads\<close>

text \<open>The packet thread tests its loop condition, is about to lock the queue for a read, waits with the bytes it has taken
  so far, was notified, has left its loop, or has taken the front of an empty list.\<close>

datatype packet_at = AtLoop | AtRead | AtWait bytes | AtWake bytes | AtExit | AtUndefined

datatype closer_at = NotClosing | SocketClosed | Joining | CloseReturned

record packet_threads =
  pk_stream :: QueueStream
  pk_state :: u8
  pk_size :: u32
  pk_at :: packet_at
  pk_out :: "bytes list"
  pk_io :: "bytes option"
  pk_open :: bool
  pk_ok :: bool
  pk_closer :: closer_at
  pk_pushed :: bytes

definition packet_threads_init :: packet_threads where
  "packet_threads_init = \<lparr>pk_stream = QueueStream_init, pk_state = 0, pk_size = 0, pk_at = AtLoop, pk_out = [],
     pk_io = None, pk_open = True, pk_ok = True, pk_closer = NotClosing, pk_pushed = []\<rparr>"

text \<open>The number of bytes the current state reads, and what it does with them.\<close>

definition packet_need :: "u8 \<Rightarrow> u32 \<Rightarrow> nat" where
  "packet_need st sz = (if st = 0 \<or> st = 1 then 1 else if st = 2 then 4 else unat sz)"

definition packet_read :: "bool \<Rightarrow> bytes \<Rightarrow> packet_threads \<Rightarrow> packet_threads" where
  "packet_read little bs s =
     (if pk_state s = 0 then s\<lparr>pk_state := if hd bs = 0xAB then 1 else 0\<rparr>
      else if pk_state s = 1 then s\<lparr>pk_state := if hd bs = 0xCD then 2 else if hd bs = 0xAB then 1 else 0\<rparr>
      else if pk_state s = 2 then s\<lparr>pk_state := 3, pk_size := htonl little (le_word (rev bs))\<rparr>
      else s\<lparr>pk_state := 0, pk_out := pk_out s @ [bs]\<rparr>)\<lparr>pk_at := AtLoop\<rparr>"

text \<open>\<^verbatim>\<open>readBytes\<close> while it holds the lock: it goes on from the bytes \<open>acc\<close> it has until it has enough or the queue is
  empty.\<close>

definition packet_take :: "bool \<Rightarrow> bytes \<Rightarrow> packet_threads \<Rightarrow> packet_threads" where
  "packet_take little acc s =
     (let bs = acc @ qs_Q (pk_stream s); n = packet_need (pk_state s) (pk_size s)
      in if n \<le> length bs
         then packet_read little (take n bs) (s\<lparr>pk_stream := (pk_stream s)\<lparr>qs_Q := drop n bs\<rparr>\<rparr>)
         else s\<lparr>pk_stream := (pk_stream s)\<lparr>qs_Q := []\<rparr>, pk_at := AtWait bs\<rparr>)"

definition notify_all :: "packet_at \<Rightarrow> packet_at" where
  "notify_all p = (case p of AtWait acc \<Rightarrow> AtWake acc | _ \<Rightarrow> p)"

inductive packet_step :: "bool \<Rightarrow> packet_threads \<Rightarrow> packet_threads \<Rightarrow> bool" for little where
  loop_continues: "\<lbrakk>pk_at s = AtLoop; \<not> is_shutdown (pk_stream s); pk_ok s\<rbrakk> \<Longrightarrow> packet_step little s (s\<lparr>pk_at := AtRead\<rparr>)"
| loop_leaves: "\<lbrakk>pk_at s = AtLoop; is_shutdown (pk_stream s) \<or> \<not> pk_ok s\<rbrakk> \<Longrightarrow> packet_step little s (s\<lparr>pk_at := AtExit\<rparr>)"
| reads: "pk_at s = AtRead \<Longrightarrow> packet_step little s (packet_take little [] s)"
| wakes: "\<lbrakk>pk_at s = AtWake acc; \<not> is_shutdown (pk_stream s); qs_Q (pk_stream s) \<noteq> []\<rbrakk>
    \<Longrightarrow> packet_step little s (packet_take little acc s)"
| wakes_finished: "\<lbrakk>pk_at s = AtWake acc; is_shutdown (pk_stream s)\<rbrakk>
    \<Longrightarrow> packet_step little s (s\<lparr>pk_at := AtLoop, pk_size := if pk_state s = 2 then 0 else pk_size s, pk_state := 0\<rparr>)"
| wakes_empty: "\<lbrakk>pk_at s = AtWake acc; \<not> is_shutdown (pk_stream s); qs_Q (pk_stream s) = []\<rbrakk>
    \<Longrightarrow> packet_step little s (s\<lparr>pk_at := AtUndefined\<rparr>)"
| io_receives: "\<lbrakk>pk_io s = None; pk_open s; bs \<noteq> []\<rbrakk> \<Longrightarrow> packet_step little s (s\<lparr>pk_io := Some bs\<rparr>)"
| io_pushes: "pk_io s = Some bs
    \<Longrightarrow> packet_step little s (s\<lparr>pk_io := None, pk_stream := pushBytes bs (pk_stream s), pk_at := notify_all (pk_at s),
          pk_pushed := pk_pushed s @ bs\<rparr>)"
| close_socket: "pk_closer s = NotClosing \<Longrightarrow> packet_step little s (s\<lparr>pk_open := False, pk_closer := SocketClosed\<rparr>)"
| close_stream: "pk_closer s = SocketClosed
    \<Longrightarrow> packet_step little s (s\<lparr>pk_stream := stream_shutdown (pk_stream s), pk_at := notify_all (pk_at s), pk_closer := Joining\<rparr>)"
| close_joins: "\<lbrakk>pk_closer s = Joining; pk_at s = AtExit\<rbrakk> \<Longrightarrow> packet_step little s (s\<lparr>pk_closer := CloseReturned\<rparr>)"
| ros_shutdown: "packet_step little s (s\<lparr>pk_ok := False\<rparr>)"

inductive_cases packet_stepE: "packet_step little s s'"

subsection \<open>The packet thread computes tcp\_feed\<close>

text \<open>The bytes taken for the read in progress.\<close>

fun packet_taken :: "packet_at \<Rightarrow> bytes" where
  "packet_taken (AtWait acc) = acc" | "packet_taken (AtWake acc) = acc" | "packet_taken _ = []"

text \<open>The thread as the state of \<open>receive_loop\<close>, whose queue starts with the bytes already taken.\<close>

definition as_packet_thread :: "packet_threads \<Rightarrow> packet_thread" where
  "as_packet_thread s = \<lparr>pt_state = pk_state s, pt_payload_size = pk_size s,
     pt_Q = packet_taken (pk_at s) @ qs_Q (pk_stream s)\<rparr>"

text \<open>What the thread has delivered and will deliver of the bytes it has.\<close>

definition packet_total :: "bool \<Rightarrow> packet_threads \<Rightarrow> bytes list \<times> packet_thread" where
  "packet_total little s = (case receive_loop little (as_packet_thread s) of (out, t) \<Rightarrow> (pk_out s @ out, t))"

lemma receive_loop_blocked:
  assumes "length (pt_Q t) < packet_need (pt_state t) (pt_payload_size t)" and "pt_state t \<in> {0, 1, 2, 3}"
  shows "receive_loop little t = ([], t)"
  using assms by (subst receive_loop.simps) (auto simp: packet_need_def split: if_splits)

text \<open>One read of the thread is one turn of the loop.\<close>

lemma packet_read_total:
  assumes st: "pk_state s \<in> {0, 1, 2, 3}" and len: "length bs = packet_need (pk_state s) (pk_size s)"
  shows "packet_total little (packet_read little bs (s\<lparr>pk_stream := (pk_stream s)\<lparr>qs_Q := rest\<rparr>\<rparr>)) =
    (case receive_loop little \<lparr>pt_state = pk_state s, pt_payload_size = pk_size s, pt_Q = bs @ rest\<rparr> of (out, t) \<Rightarrow> (pk_out s @ out, t))"
proof -
  consider "pk_state s = 0" | "pk_state s = 1" | "pk_state s = 2" | "pk_state s = 3" using st by blast
  then show ?thesis
  proof cases
    case 1
    with len obtain b where "bs = [b]" by (auto simp: packet_need_def length_Suc_conv)
    with 1 show ?thesis
      by (subst receive_loop.simps) (simp add: packet_total_def packet_read_def as_packet_thread_def)
  next
    case 2
    with len obtain b where "bs = [b]" by (auto simp: packet_need_def length_Suc_conv)
    with 2 show ?thesis
      by (subst receive_loop.simps) (simp add: packet_total_def packet_read_def as_packet_thread_def)
  next
    case 3
    with len show ?thesis
      by (subst receive_loop.simps) (simp add: packet_total_def packet_read_def as_packet_thread_def packet_need_def)
  next
    case 4
    with len show ?thesis
      by (subst receive_loop.simps)
        (simp add: packet_total_def packet_read_def as_packet_thread_def packet_need_def split: prod.split)
  qed
qed

lemma packet_read_fields [simp]:
  "pk_stream (packet_read little bs s) = pk_stream s" "pk_at (packet_read little bs s) = AtLoop"
  "pk_io (packet_read little bs s) = pk_io s" "pk_open (packet_read little bs s) = pk_open s"
  "pk_ok (packet_read little bs s) = pk_ok s" "pk_closer (packet_read little bs s) = pk_closer s"
  "pk_pushed (packet_read little bs s) = pk_pushed s"
  by (simp_all add: packet_read_def)

lemma packet_take_fields [simp]:
  "qs_finish (pk_stream (packet_take little acc s)) = qs_finish (pk_stream s)"
  "pk_io (packet_take little acc s) = pk_io s" "pk_open (packet_take little acc s) = pk_open s"
  "pk_ok (packet_take little acc s) = pk_ok s" "pk_closer (packet_take little acc s) = pk_closer s"
  "pk_pushed (packet_take little acc s) = pk_pushed s"
  by (simp_all add: packet_take_def Let_def)

lemma packet_read_state: "pk_state s \<in> {0, 1, 2, 3} \<Longrightarrow> pk_state (packet_read little bs s) \<in> {0, 1, 2, 3}"
  by (auto simp: packet_read_def)

lemma packet_take_state: "pk_state s \<in> {0, 1, 2, 3} \<Longrightarrow> pk_state (packet_take little acc s) \<in> {0, 1, 2, 3}"
  using packet_read_state [of "s\<lparr>pk_stream := (pk_stream s)\<lparr>qs_Q := q\<rparr>\<rparr>" little for q]
  by (auto simp: packet_take_def Let_def)

lemma packet_take_total:
  assumes "pk_state s \<in> {0, 1, 2, 3}" and "packet_taken (pk_at s) = acc"
  shows "packet_total little (packet_take little acc s) = packet_total little s"
proof (cases "packet_need (pk_state s) (pk_size s) \<le> length (acc @ qs_Q (pk_stream s))")
  case True
  let ?n = "packet_need (pk_state s) (pk_size s)" and ?bs = "acc @ qs_Q (pk_stream s)"
  have "packet_total little (packet_take little acc s) =
      packet_total little (packet_read little (take ?n ?bs) (s\<lparr>pk_stream := (pk_stream s)\<lparr>qs_Q := drop ?n ?bs\<rparr>\<rparr>))"
    using True by (simp only: packet_take_def Let_def if_True)
  also have "\<dots> = (case receive_loop little \<lparr>pt_state = pk_state s, pt_payload_size = pk_size s, pt_Q = take ?n ?bs @ drop ?n ?bs\<rparr> of
      (out, t) \<Rightarrow> (pk_out s @ out, t))"
    by (rule packet_read_total [OF assms(1)]) (use True in simp)
  finally show ?thesis by (simp only: packet_total_def as_packet_thread_def assms(2) append_take_drop_id)
next
  case False
  then show ?thesis using assms(2) by (simp add: packet_take_def packet_total_def as_packet_thread_def)
qed

definition packet_inv :: "bool \<Rightarrow> packet_threads \<Rightarrow> bool" where
  "packet_inv little s \<longleftrightarrow> pk_state s \<in> {0, 1, 2, 3} \<and>
     (\<not> is_shutdown (pk_stream s) \<longrightarrow> packet_total little s = tcp_feed little (pk_pushed s) packet_thread_init) \<and>
     (case pk_at s of
        AtWait acc \<Rightarrow> qs_Q (pk_stream s) = [] \<and> length acc < packet_need (pk_state s) (pk_size s)
      | AtWake acc \<Rightarrow> qs_Q (pk_stream s) \<noteq> [] \<or> is_shutdown (pk_stream s)
      | AtUndefined \<Rightarrow> False
      | _ \<Rightarrow> True) \<and>
     (is_shutdown (pk_stream s) \<longleftrightarrow> pk_closer s \<in> {Joining, CloseReturned}) \<and>
     (pk_closer s \<noteq> NotClosing \<longrightarrow> \<not> pk_open s) \<and> (pk_closer s = CloseReturned \<longrightarrow> pk_at s = AtExit) \<and> pk_io s \<noteq> Some []"

lemma packet_init_inv: "packet_inv little packet_threads_init"
  by (simp add: packet_inv_def packet_threads_init_def packet_total_def as_packet_thread_def is_shutdown_def
      QueueStream_init_def tcp_feed_def packet_thread_init_def receive_loop.simps)

lemma packet_take_inv:
  assumes inv: "packet_inv little s" and acc: "packet_taken (pk_at s) = acc" and at: "pk_at s \<noteq> AtExit"
  shows "packet_inv little (packet_take little acc s)"
proof -
  have st: "pk_state s \<in> {0, 1, 2, 3}" using inv by (simp add: packet_inv_def)
  have "case pk_at (packet_take little acc s) of
        AtWait a \<Rightarrow> qs_Q (pk_stream (packet_take little acc s)) = [] \<and>
          length a < packet_need (pk_state (packet_take little acc s)) (pk_size (packet_take little acc s))
      | AtWake a \<Rightarrow> False | AtUndefined \<Rightarrow> False | _ \<Rightarrow> True"
    by (simp add: packet_take_def Let_def not_le)
  then show ?thesis
    using inv packet_take_total [OF st acc] packet_take_state [OF st, of little acc] at
    by (auto simp: packet_inv_def is_shutdown_def split: packet_at.splits)
qed

text \<open>Bytes that are pushed are appended to what the thread has.\<close>

lemma push_total:
  assumes "packet_total little s = tcp_feed little (pk_pushed s) packet_thread_init"
  shows "packet_total little (s\<lparr>pk_io := None, pk_stream := pushBytes bs (pk_stream s), pk_at := notify_all (pk_at s),
      pk_pushed := pk_pushed s @ bs\<rparr>) = tcp_feed little (pk_pushed s @ bs) packet_thread_init"
proof -
  let ?t = "as_packet_thread s"
  obtain o1 t1 where 1: "receive_loop little ?t = (o1, t1)" by force
  obtain o2 t2 where 2: "receive_loop little (t1\<lparr>pt_Q := pt_Q t1 @ bs\<rparr>) = (o2, t2)" by force
  have "receive_loop little (?t\<lparr>pt_Q := pt_Q ?t @ bs\<rparr>) = (o1 @ o2, t2)"
    using receive_loop_more [of little ?t bs] 1 2 by simp
  moreover have "as_packet_thread (s\<lparr>pk_io := None, pk_stream := pushBytes bs (pk_stream s), pk_at := notify_all (pk_at s),
      pk_pushed := pk_pushed s @ bs\<rparr>) = ?t\<lparr>pt_Q := pt_Q ?t @ bs\<rparr>"
    by (simp add: as_packet_thread_def pushBytes_def notify_all_def split: packet_at.split)
  moreover have "tcp_feed little (pk_pushed s) packet_thread_init = (pk_out s @ o1, t1)"
    using assms 1 by (simp add: packet_total_def)
  ultimately show ?thesis
    using tcp_feed_append [of little "pk_pushed s" bs packet_thread_init] 2 by (simp add: packet_total_def tcp_feed_def)
qed

text \<open>Steps that leave the data alone.\<close>

lemma packet_total_frame [simp]:
  "packet_total little (s\<lparr>pk_io := io\<rparr>) = packet_total little s" "packet_total little (s\<lparr>pk_open := b\<rparr>) = packet_total little s"
  "packet_total little (s\<lparr>pk_ok := b\<rparr>) = packet_total little s" "packet_total little (s\<lparr>pk_closer := k\<rparr>) = packet_total little s"
  by (simp_all add: packet_total_def as_packet_thread_def)

lemma packet_total_at:
  "packet_taken p = packet_taken (pk_at s) \<Longrightarrow> packet_total little (s\<lparr>pk_at := p\<rparr>) = packet_total little s"
  by (simp add: packet_total_def as_packet_thread_def)

lemma packet_step_inv:
  assumes "packet_step little s s'" and inv: "packet_inv little s"
  shows "packet_inv little s'"
  using assms(1)
proof cases
  case loop_continues
  with inv show ?thesis by (auto simp: packet_inv_def packet_total_at)
next
  case loop_leaves
  with inv show ?thesis by (auto simp: packet_inv_def packet_total_at)
next
  case reads
  with packet_take_inv [OF inv, of "[]"] show ?thesis by simp
next
  case (wakes acc)
  with packet_take_inv [OF inv, of acc] show ?thesis by simp
next
  case (wakes_finished acc)
  with inv show ?thesis by (auto simp: packet_inv_def)
next
  case (wakes_empty acc)
  with inv show ?thesis by (simp add: packet_inv_def)
next
  case (io_pushes bs)
  then have bs: "bs \<noteq> []" using inv by (auto simp: packet_inv_def)
  have "is_shutdown (pushBytes bs (pk_stream s)) = is_shutdown (pk_stream s)" "qs_Q (pushBytes bs (pk_stream s)) \<noteq> []"
    using bs by (simp_all add: is_shutdown_def pushBytes_def)
  with inv push_total [of little s bs] io_pushes bs show ?thesis
    by (auto simp: packet_inv_def notify_all_def split: packet_at.splits)
next
  case close_stream
  then have "is_shutdown (stream_shutdown (pk_stream s))" by (simp add: is_shutdown_def stream_shutdown_def)
  with inv close_stream show ?thesis
    by (auto simp: packet_inv_def notify_all_def split: packet_at.splits)
qed (use inv in \<open>auto simp: packet_inv_def split: packet_at.splits\<close>)

lemma packet_reach_inv: "(packet_step little)\<^sup>*\<^sup>* packet_threads_init s \<Longrightarrow> packet_inv little s"
  by (induction rule: rtranclp_induct) (auto intro: packet_init_inv packet_step_inv)

text \<open>A thread that waits has delivered all it can.\<close>

lemma waiting_delivered:
  assumes inv: "packet_inv little s" and open_stream: "\<not> is_shutdown (pk_stream s)" and at: "pk_at s = AtWait acc"
  shows "fst (tcp_feed little (pk_pushed s) packet_thread_init) = pk_out s"
proof -
  have "receive_loop little (as_packet_thread s) = ([], as_packet_thread s)"
    using inv at by (intro receive_loop_blocked) (simp_all add: packet_inv_def as_packet_thread_def)
  then have "packet_total little s = (pk_out s, as_packet_thread s)" by (simp add: packet_total_def)
  moreover have "packet_total little s = tcp_feed little (pk_pushed s) packet_thread_init"
    using inv open_stream unfolding packet_inv_def by blast
  ultimately show ?thesis by (metis fst_conv)
qed



subsection \<open>Closing\<close>

text \<open>\<^verbatim>\<open>close\<close> joins the packet thread after the shutdown of the queue. A read that starts after the notification waits
  for one that does not come, unless the I/O thread still holds bytes to push.\<close>

definition sleeping :: "packet_threads \<Rightarrow> bool" where
  "sleeping s \<longleftrightarrow> pk_io s = None \<and> (case pk_at s of
     AtWait acc \<Rightarrow> True
   | AtRead \<Rightarrow> length (qs_Q (pk_stream s)) < packet_need (pk_state s) (pk_size s)
   | _ \<Rightarrow> False)"

lemma sleeping_stays:
  assumes "packet_step little s s'" and "packet_inv little s" and "sleeping s" and "pk_closer s = Joining"
  shows "sleeping s' \<and> pk_closer s' = Joining"
  using assms
  by cases (auto simp: sleeping_def packet_inv_def packet_take_def split: packet_at.splits)

lemma sleeping_forever:
  assumes "(packet_step little)\<^sup>*\<^sup>* s s'" and "packet_inv little s" and "sleeping s" and "pk_closer s = Joining"
  shows "pk_closer s' = Joining"
proof -
  have "packet_inv little s' \<and> sleeping s' \<and> pk_closer s' = Joining"
    using assms
    by (induction rule: rtranclp_induct) (auto dest: sleeping_stays packet_step_inv)
  then show ?thesis by simp
qed

lemma exit_joins: "pk_closer s = Joining \<Longrightarrow> pk_at s = AtExit \<Longrightarrow> \<exists>s'. (packet_step little)\<^sup>*\<^sup>* s s' \<and> pk_closer s' = CloseReturned"
  using packet_step.close_joins [of s little] by (intro exI [of _ "s\<lparr>pk_closer := CloseReturned\<rparr>"]) auto

lemma loop_joins:
  assumes "pk_closer s = Joining" "is_shutdown (pk_stream s)" "pk_at s = AtLoop"
  shows "\<exists>s'. (packet_step little)\<^sup>*\<^sup>* s s' \<and> pk_closer s' = CloseReturned"
proof -
  have "packet_step little s (s\<lparr>pk_at := AtExit\<rparr>)" by (rule packet_step.loop_leaves) (use assms in simp_all)
  moreover obtain s' where "(packet_step little)\<^sup>*\<^sup>* (s\<lparr>pk_at := AtExit\<rparr>) s'" "pk_closer s' = CloseReturned"
    using exit_joins [of "s\<lparr>pk_at := AtExit\<rparr>" little] assms(1) by auto
  ultimately show ?thesis by (meson converse_rtranclp_into_rtranclp)
qed

lemma wake_joins:
  assumes "pk_closer s = Joining" "is_shutdown (pk_stream s)" "pk_at s = AtWake acc"
  shows "\<exists>s'. (packet_step little)\<^sup>*\<^sup>* s s' \<and> pk_closer s' = CloseReturned"
proof -
  let ?t = "s\<lparr>pk_at := AtLoop, pk_size := if pk_state s = 2 then 0 else pk_size s, pk_state := 0\<rparr>"
  have "packet_step little s ?t" by (rule packet_step.wakes_finished [OF assms(3,2)])
  moreover obtain s' where "(packet_step little)\<^sup>*\<^sup>* ?t s'" "pk_closer s' = CloseReturned"
    using loop_joins [of ?t little] assms(1,2) by auto
  ultimately show ?thesis by (meson converse_rtranclp_into_rtranclp)
qed

lemma wait_joins:
  assumes "pk_closer s = Joining" "is_shutdown (pk_stream s)" "pk_at s = AtWait acc" "pk_io s = Some bs"
  shows "\<exists>s'. (packet_step little)\<^sup>*\<^sup>* s s' \<and> pk_closer s' = CloseReturned"
proof -
  let ?t = "s\<lparr>pk_io := None, pk_stream := pushBytes bs (pk_stream s), pk_at := notify_all (pk_at s), pk_pushed := pk_pushed s @ bs\<rparr>"
  have "packet_step little s ?t" by (rule packet_step.io_pushes [OF assms(4)])
  moreover obtain s' where "(packet_step little)\<^sup>*\<^sup>* ?t s'" "pk_closer s' = CloseReturned"
    using wake_joins [of ?t acc little] assms(1-3) by (auto simp: notify_all_def is_shutdown_def pushBytes_def)
  ultimately show ?thesis by (meson converse_rtranclp_into_rtranclp)
qed

lemma read_joins:
  assumes "pk_closer s = Joining" "is_shutdown (pk_stream s)" "pk_at s = AtRead" "\<not> sleeping s"
  shows "\<exists>s'. (packet_step little)\<^sup>*\<^sup>* s s' \<and> pk_closer s' = CloseReturned"
proof -
  let ?t = "packet_take little [] s"
  have step: "packet_step little s ?t" by (rule packet_step.reads [OF assms(3)])
  have "is_shutdown (pk_stream ?t)" using assms(2) by (simp add: is_shutdown_def)
  moreover have "pk_at ?t = AtLoop \<or> (\<exists>acc bs. pk_at ?t = AtWait acc \<and> pk_io ?t = Some bs)"
    using assms(3,4) by (cases "pk_io s") (auto simp: packet_take_def sleeping_def not_less Let_def)
  ultimately have "\<exists>s'. (packet_step little)\<^sup>*\<^sup>* ?t s' \<and> pk_closer s' = CloseReturned"
    using loop_joins [of ?t little] wait_joins [of ?t _ _ little] assms(1) by fastforce
  with step show ?thesis by (meson converse_rtranclp_into_rtranclp)
qed

text \<open>C23: When \<^verbatim>\<open>TcpInterface::close\<close> has shut the queue down it can return exactly if the packet thread is not about to
  wait, or waiting, for a notification that has already been given: a thread that has passed the test of its loop
  and then locks an empty queue sleeps for ever, and \<^verbatim>\<open>close\<close> with it.\<close>

theorem tcp_close_returns_iff:
  assumes "(packet_step little)\<^sup>*\<^sup>* packet_threads_init s" and "pk_closer s = Joining"
  shows "(\<exists>s'. (packet_step little)\<^sup>*\<^sup>* s s' \<and> pk_closer s' = CloseReturned) \<longleftrightarrow> \<not> sleeping s"
proof
  have inv: "packet_inv little s" using assms(1) by (rule packet_reach_inv)
  show "\<not> sleeping s" if "\<exists>s'. (packet_step little)\<^sup>*\<^sup>* s s' \<and> pk_closer s' = CloseReturned"
    using that sleeping_forever [OF _ inv _ assms(2)] by fastforce
  assume awake: "\<not> sleeping s"
  have down: "is_shutdown (pk_stream s)" using inv assms(2) by (simp add: packet_inv_def)
  show "\<exists>s'. (packet_step little)\<^sup>*\<^sup>* s s' \<and> pk_closer s' = CloseReturned"
  proof (cases "pk_at s")
    case (AtWait acc)
    with awake obtain bs where "pk_io s = Some bs" by (auto simp: sleeping_def)
    with AtWait down assms(2) show ?thesis by (intro wait_joins)
  next
    case AtUndefined
    with inv show ?thesis by (simp add: packet_inv_def)
  qed (use assms(2) down awake loop_joins read_joins wake_joins exit_joins in blast)+
qed

text \<open>The run: the packet thread finds the queue open, then \<^verbatim>\<open>close\<close> shuts it down and notifies nobody, then the thread
  locks the empty queue and waits.\<close>

definition late_reader :: packet_threads where
  "late_reader = packet_threads_init\<lparr>pk_at := AtWait [], pk_open := False, pk_closer := Joining,
     pk_stream := \<lparr>qs_finish = True, qs_Q = []\<rparr>\<rparr>"

lemma late_reader_reached: "(packet_step True)\<^sup>*\<^sup>* packet_threads_init late_reader"
proof -
  let ?s1 = "packet_threads_init\<lparr>pk_at := AtRead\<rparr>"
  let ?s2 = "?s1\<lparr>pk_open := False, pk_closer := SocketClosed\<rparr>"
  let ?s3 = "?s2\<lparr>pk_stream := \<lparr>qs_finish = True, qs_Q = []\<rparr>, pk_closer := Joining\<rparr>"
  have 1: "packet_step True packet_threads_init ?s1"
    by (rule packet_step.loop_continues) (simp_all add: packet_threads_init_def is_shutdown_def QueueStream_init_def)
  have 2: "packet_step True ?s1 ?s2"
    by (rule packet_step.close_socket) (simp add: packet_threads_init_def)
  have 3: "packet_step True ?s2 ?s3"
    using packet_step.close_stream [of ?s2 True]
    by (simp add: packet_threads_init_def stream_shutdown_def notify_all_def QueueStream_init_def)
  have 4: "packet_step True ?s3 late_reader"
    using packet_step.reads [of ?s3 True]
    by (simp add: packet_take_def packet_need_def late_reader_def packet_threads_init_def)
  show ?thesis
    by (rule converse_rtranclp_into_rtranclp, rule 1, rule converse_rtranclp_into_rtranclp, rule 2,
        rule converse_rtranclp_into_rtranclp, rule 3, rule r_into_rtranclp, rule 4)
qed

theorem tcp_close_returns_iff_witness:
  "\<nexists>s'. (packet_step True)\<^sup>*\<^sup>* late_reader s' \<and> pk_closer s' = CloseReturned"
  using tcp_close_returns_iff [OF late_reader_reached]
  by (simp add: late_reader_def sleeping_def packet_threads_init_def)

end
