(* ===== verification/Benchmarks.thy ===== *)
theory Benchmarks
  imports Subscription_Manager Stream_Metrics C_Library
begin

text \<open>
  The benchmark program (\<^verbatim>\<open>bench/\<close>): the latency harness, the probes that print the \<^verbatim>\<open>[BENCH]\<close> lines, and the bodies
  of the Google Benchmark registrations, which get the number of iterations from that library. A measured operation
  maps a state to a state, or to \<^term>\<open>None\<close> where it would throw or leave a buffer; the readings of
  \<^verbatim>\<open>steady_clock\<close>, in nanoseconds, are a function of their number. Of the threaded ring probe, the frames the
  consumer received and the times of receiving are arguments; the two threads are those of \<open>Spsc_Concurrent\<close>.
\<close>

subsection \<open>The harness (bench\_common.hpp)\<close>

record LatencyStats =
  ls_p50_ns :: dbl
  ls_p99_ns :: dbl
  ls_p999_ns :: dbl
  ls_msgs_per_sec :: dbl
  ls_iterations :: nat

primrec repeat_op :: "nat \<Rightarrow> ('s \<Rightarrow> 's option) \<Rightarrow> 's \<Rightarrow> 's option" where
  "repeat_op 0 operation s = Some s"
| "repeat_op (Suc n) operation s = do { s \<leftarrow> operation s; repeat_op n operation s }"

text \<open>The timed loop: reading \<open>k\<close> before the operation, reading \<open>k + 1\<close> after it.\<close>

primrec timed_op :: "nat \<Rightarrow> ('s \<Rightarrow> 's option) \<Rightarrow> (nat \<Rightarrow> int) \<Rightarrow> nat \<Rightarrow> 's \<Rightarrow> (dbl list \<times> 's) option" where
  "timed_op 0 operation clk k s = Some ([], s)"
| "timed_op (Suc n) operation clk k s = do {
     s \<leftarrow> operation s;
     (samples, s) \<leftarrow> timed_op n operation clk (k + 2) s;
     Some (of_integer (clk (k + 1) - clk k) # samples, s) }"

definition percentile :: "dbl list \<Rightarrow> dbl \<Rightarrow> dbl option" where
  "percentile samples p = (if samples = [] then Some 0 else rd samples (pct_index p (length samples)))"

definition seconds :: "int \<Rightarrow> dbl" where
  "seconds ns = fdiv (of_integer ns) (10 ^ 9)"

definition measure_op :: "('s \<Rightarrow> 's option) \<Rightarrow> nat \<Rightarrow> (nat \<Rightarrow> int) \<Rightarrow> 's \<Rightarrow> (LatencyStats \<times> 's) option" where
  "measure_op operation iters clk s = do {
     s \<leftarrow> repeat_op (iters div 10 + 1) operation s;
     (samples, s) \<leftarrow> timed_op iters operation clk 1 s;
     let samples = sort samples;
     v50 \<leftarrow> percentile samples p50;
     v99 \<leftarrow> percentile samples p99;
     v999 \<leftarrow> percentile samples p999;
     let total_s = seconds (clk (2 * iters + 1) - clk 0);
     Some (\<lparr>ls_p50_ns = v50, ls_p99_ns = v99, ls_p999_ns = v999,
            ls_msgs_per_sec = (if total_s > 0 then fdiv (of_integer (int iters)) total_s else 0),
            ls_iterations = iters\<rparr>, s) }"

definition bench_report :: "string \<Rightarrow> LatencyStats \<Rightarrow> string" where
  "bench_report name s =
     ''[BENCH] '' @ pad_right 24 name @ '' msgs/sec='' @ print_fixed 0 (ls_msgs_per_sec s) @
     '' p50='' @ print_fixed 0 (ls_p50_ns s) @ ''ns p99='' @ print_fixed 0 (ls_p99_ns s) @
     ''ns p999='' @ print_fixed 0 (ls_p999_ns s) @ ''ns''"

definition report_throughput :: "string \<Rightarrow> dbl \<Rightarrow> string" where
  "report_throughput name gbps = ''[BENCH] '' @ pad_right 24 name @ '' GB/s='' @ print_fixed 3 gbps"

subsection \<open>CRC32C (bench\_crc32c.cpp)\<close>

definition make_buffer :: "nat \<Rightarrow> bytes" where
  "make_buffer n = map (\<lambda>i. word_of_nat (i * 131 + 7)) [0..<n]"

definition crc_op :: "bytes \<Rightarrow> u32 \<Rightarrow> u32 option" where
  "crc_op buf sink = Some (sink XOR crc32c buf)"

definition crc_passes :: "nat \<Rightarrow> nat" where
  "crc_passes n = (if n \<ge> 64 * 1024 then 20000 else 2000000)"

definition crc_case :: "(nat \<Rightarrow> int) \<Rightarrow> string \<times> nat \<Rightarrow> string option" where
  "crc_case clk c = (case c of (name, n) \<Rightarrow> do {
     let buf = make_buffer n;
     let passes = crc_passes n;
     sink \<leftarrow> repeat_op passes (crc_op buf) 0;
     let secs = seconds (clk 1 - clk 0);
     let gbps = (if secs > 0 then fdiv (fdiv (fmul (of_integer (int passes)) (of_integer (int n))) secs) (10 ^ 9) else 0);
     Some (report_throughput name gbps) })"

definition crc_cases :: "(string \<times> nat) list" where
  "crc_cases = [(''crc32c_throughput_64b'', 64), (''crc32c_throughput_1kb'', 1024), (''crc32c_throughput_64kb'', 64 * 1024)]"

text \<open>The probes run one after the other; \<open>run_cases\<close> gives each its clock.\<close>

fun run_cases :: "((nat \<Rightarrow> int) \<Rightarrow> 'c \<Rightarrow> 'b option) \<Rightarrow> (nat \<Rightarrow> nat \<Rightarrow> int) \<Rightarrow> nat \<Rightarrow> 'c list \<Rightarrow> 'b list option" where
  "run_cases probe clks k [] = Some []"
| "run_cases probe clks k (c # cs) = do {
     x \<leftarrow> probe (clks k) c;
     xs \<leftarrow> run_cases probe clks (k + 1) cs;
     Some (x # xs) }"

definition bench_crc_throughput :: "(nat \<Rightarrow> nat \<Rightarrow> int) \<Rightarrow> string list option" where
  "bench_crc_throughput clks = run_cases crc_case clks 0 crc_cases"

text \<open>The registered benchmark: the bytes it reports as processed, as an \<^verbatim>\<open>int64_t\<close>.\<close>

definition BM_Crc32c :: "nat \<Rightarrow> nat \<Rightarrow> u64" where
  "BM_Crc32c iterations n = word_of_nat iterations * word_of_nat (length (make_buffer n))"

subsection \<open>Frames (bench\_frame.cpp)\<close>

definition make_payload :: "nat \<Rightarrow> bytes" where
  "make_payload n = map (\<lambda>i. ucast ((word_of_nat i * 37 :: u64) XOR 0xA5)) [0..<n]"

definition size_suffix :: "nat \<Rightarrow> string" where
  "size_suffix n =
     (if n = 64 then ''64b'' else if n = 1024 then ''1kb'' else if n = 64 * 1024 then ''64kb''
      else if n = 1024 * 1024 then ''1mb'' else if n = 4 * 1024 * 1024 then ''4mb'' else ''?'')"

definition encode_op :: "bytes \<Rightarrow> u64 \<Rightarrow> u64 option" where
  "encode_op payload seq = (case encode_frame kLidar seq seq kFlagNone payload of
     Some (Inr f) \<Rightarrow> Some (seq + 1)
   | _ \<Rightarrow> None)"

definition decode_op :: "bytes \<Rightarrow> FrameHeader \<Rightarrow> FrameHeader option" where
  "decode_op frame hdr = (case decode_header (Some frame) hdr of None \<Rightarrow> None | Some (err, hdr) \<Rightarrow> Some hdr)"

definition frame_case :: "(nat \<Rightarrow> int) \<times> (nat \<Rightarrow> int) \<Rightarrow> nat \<Rightarrow> string list option" where
  "frame_case clk n = do {
     let payload = make_payload n;
     let iters = (if n \<ge> 1024 * 1024 then 5000 else 200000);
     (enc_stats, seq) \<leftarrow> measure_op (encode_op payload) iters (fst clk) 0;
     frame \<leftarrow> (case encode_frame kLidar 1 1 kFlagNone payload of Some (Inr f) \<Rightarrow> Some f | _ \<Rightarrow> None);
     (dec_stats, hdr) \<leftarrow> measure_op (decode_op frame) iters (snd clk) FrameHeader_init;
     Some [bench_report (''frame_encode_'' @ size_suffix n) enc_stats,
           bench_report (''frame_decode_'' @ size_suffix n) dec_stats] }"

definition frame_sizes :: "nat list" where
  "frame_sizes = [64, 1024, 64 * 1024, 1024 * 1024, 4 * 1024 * 1024]"

fun bench_frames :: "(nat \<Rightarrow> nat \<Rightarrow> int) \<Rightarrow> nat \<Rightarrow> nat list \<Rightarrow> string list option" where
  "bench_frames clks k [] = Some []"
| "bench_frames clks k (n # ns) = do {
     xs \<leftarrow> frame_case (clks k, clks (k + 1)) n;
     ys \<leftarrow> bench_frames clks (k + 2) ns;
     Some (xs @ ys) }"

definition bench_frame_latency :: "(nat \<Rightarrow> nat \<Rightarrow> int) \<Rightarrow> string list option" where
  "bench_frame_latency clks = bench_frames clks 0 frame_sizes"

text \<open>The registered benchmarks: items and bytes they report.\<close>

definition BM_FrameEncode :: "nat \<Rightarrow> nat \<Rightarrow> (u64 \<times> u64) option" where
  "BM_FrameEncode iterations n = do {
     let payload = make_payload n;
     seq \<leftarrow> repeat_op iterations (encode_op payload) 0;
     Some (word_of_nat iterations, word_of_nat iterations * word_of_nat (length payload)) }"

definition BM_FrameDecode :: "nat \<Rightarrow> nat \<Rightarrow> u64 option" where
  "BM_FrameDecode iterations n = do {
     let payload = make_payload n;
     frame \<leftarrow> (case encode_frame kLidar 1 1 kFlagNone payload of Some (Inr f) \<Rightarrow> Some f | _ \<Rightarrow> None);
     hdr \<leftarrow> repeat_op iterations (decode_op frame) FrameHeader_init;
     Some (word_of_nat iterations) }"

subsection \<open>Ring (bench\_ring.cpp)\<close>

type_synonym Blob = bytes

definition Blob_zero :: Blob where "Blob_zero = replicate 1024 0"

definition ring_op :: "Blob \<Rightarrow> Blob SPSCRing \<times> Blob \<Rightarrow> (Blob SPSCRing \<times> Blob) option" where
  "ring_op inp s = (case s of (ring, out) \<Rightarrow>
     (case try_push inp ring of (_, ring) \<Rightarrow> case try_pop id ring of
        (None, ring) \<Rightarrow> Some (ring, out)
      | (Some v, ring) \<Rightarrow> Some (ring, v)))"

text \<open>The threaded probe: per frame the time of receiving and the frame.\<close>

definition prod2cons_target :: nat where "prod2cons_target = 200000"

definition prod2cons_stats :: "(u64 \<times> SensorFrame) list \<Rightarrow> LatencyStats option" where
  "prod2cons_stats pops = do {
     let latencies = sort (map (\<lambda>(now, out). of_integer (uint (now - sf_timestamp_ns out))) pops);
     v50 \<leftarrow> percentile latencies p50;
     v99 \<leftarrow> percentile latencies p99;
     v999 \<leftarrow> percentile latencies p999;
     Some \<lparr>ls_p50_ns = v50, ls_p99_ns = v99, ls_p999_ns = v999, ls_msgs_per_sec = 0, ls_iterations = length pops\<rparr> }"

definition bench_ring_latency :: "(nat \<Rightarrow> int) \<Rightarrow> (u64 \<times> SensorFrame) list \<Rightarrow> string list option" where
  "bench_ring_latency clk pops = do {
     (stats, s) \<leftarrow> measure_op (ring_op Blob_zero) 1000000 clk (ring_init 1024 Blob_zero, Blob_zero);
     threaded \<leftarrow> prod2cons_stats pops;
     Some [bench_report ''spsc_ring_1kb'' stats, bench_report ''spsc_prod2cons_1kb'' threaded] }"

definition BM_RingPushPop :: "nat \<Rightarrow> Blob SPSCRing \<Rightarrow> (u64 \<times> Blob SPSCRing) option" where
  "BM_RingPushPop iterations ring = do {
     (ring, out) \<leftarrow> repeat_op iterations (ring_op Blob_zero) (ring, Blob_zero);
     Some (word_of_nat iterations, ring) }"

subsection \<open>The pipeline (bench\_e2e.cpp)\<close>

text \<open>The value of an enumerator.\<close>

fun frame_error_code :: "FrameError \<Rightarrow> u64" where
  "frame_error_code FrameError.kOk = 0"
| "frame_error_code FrameError.kTruncatedHeader = 1"
| "frame_error_code kBadMagic = 2"
| "frame_error_code kUnsupportedVersion = 3"
| "frame_error_code kBadHeaderSize = 4"
| "frame_error_code FrameError.kPayloadTooLarge = 5"
| "frame_error_code kLengthOverflow = 6"
| "frame_error_code kTruncatedPayload = 7"
| "frame_error_code kHeaderCrcMismatch = 8"
| "frame_error_code FrameError.kPayloadCrcMismatch = 9"
| "frame_error_code kSequenceRegression = 10"
| "frame_error_code kTimestampRegression = 11"

definition pipeline_pass ::
    "(SensorFrame \<Rightarrow> SensorFrame) \<Rightarrow> SensorFrame SPSCRing \<Rightarrow> nat \<Rightarrow> u64 \<Rightarrow> (u64 \<times> SensorFrame SPSCRing) option" where
  "pipeline_pass moved ring payload_size seq =
     (let inp = \<lparr>sf_data = replicate payload_size (ucast seq), sf_sequence = seq, sf_timestamp_ns = seq\<rparr>;
          (pushed, inp, ring) = try_push_move moved inp ring;
          (popped, ring) = try_pop moved ring;
          out = (case popped of None \<Rightarrow> SensorFrame_init | Some v \<Rightarrow> v)
      in case encode_frame kLidar (sf_sequence out) (sf_timestamp_ns out) kFlagNone (sf_data out) of
           Some (Inr frame) \<Rightarrow> do {
             (err, hdr) \<leftarrow> decode_header (Some frame) FrameHeader_init;
             Some (frame_error_code err + word_of_nat (length frame), ring) }
         | _ \<Rightarrow> None)"

definition e2e_op :: "(SensorFrame \<Rightarrow> SensorFrame) \<Rightarrow> nat \<Rightarrow> SensorFrame SPSCRing \<times> u64 \<Rightarrow> (SensorFrame SPSCRing \<times> u64) option" where
  "e2e_op moved n s = (case s of (ring, seq) \<Rightarrow> do {
     (r, ring) \<leftarrow> pipeline_pass moved ring n seq;
     Some (ring, seq + 1) })"

definition e2e_sizes :: "nat list" where
  "e2e_sizes = [64, 1024, 64 * 1024, 1024 * 1024]"

definition e2e_case :: "(SensorFrame \<Rightarrow> SensorFrame) \<Rightarrow> (nat \<Rightarrow> int) \<Rightarrow> nat \<Rightarrow> string option" where
  "e2e_case moved clk n = do {
     let iters = (if n \<ge> 1024 * 1024 then 5000 else 100000);
     (stats, s) \<leftarrow> measure_op (e2e_op moved n) iters clk (ring_init 1024 SensorFrame_init, 1);
     Some (bench_report (''e2e_pipeline_'' @ size_suffix n) stats) }"

definition bench_e2e_latency :: "(SensorFrame \<Rightarrow> SensorFrame) \<Rightarrow> (nat \<Rightarrow> nat \<Rightarrow> int) \<Rightarrow> string list option" where
  "bench_e2e_latency moved clks = run_cases (e2e_case moved) clks 0 e2e_sizes"

definition BM_E2E :: "(SensorFrame \<Rightarrow> SensorFrame) \<Rightarrow> nat \<Rightarrow> nat \<Rightarrow> SensorFrame SPSCRing \<Rightarrow> (u64 \<times> u64 \<times> SensorFrame SPSCRing) option" where
  "BM_E2E moved iterations n ring = do {
     (ring, seq) \<leftarrow> repeat_op iterations (e2e_op moved n) (ring, 1);
     Some (word_of_nat iterations, word_of_nat iterations * word_of_nat n, ring) }"

subsection \<open>The program (bench\_main.cpp)\<close>

text \<open>What is printed before the Google Benchmark library takes over.\<close>

definition bench_main ::
    "(SensorFrame \<Rightarrow> SensorFrame) \<Rightarrow> (nat \<Rightarrow> nat \<Rightarrow> nat \<Rightarrow> int) \<Rightarrow> (u64 \<times> SensorFrame) list \<Rightarrow> string list option" where
  "bench_main moved clks pops = do {
     crc \<leftarrow> bench_crc_throughput (clks 0);
     ring \<leftarrow> bench_ring_latency (clks 1 0) pops;
     frames \<leftarrow> bench_frame_latency (clks 2);
     e2e \<leftarrow> bench_e2e_latency moved (clks 3);
     Some (''=== SensorForge [BENCH] latency/throughput probes ==='' # crc @ ring @ frames @ e2e @
       [''=== Google Benchmark framework report ==='']) }"

subsection \<open>An operation that never fails\<close>

text \<open>\<open>good\<close> holds of the states the operation meets.\<close>

locale benchmark_op =
  fixes operation :: "'s \<Rightarrow> 's option"
    and good :: "'s \<Rightarrow> bool"
  assumes returns: "good s \<Longrightarrow> \<exists>s'. operation s = Some s' \<and> good s'"
begin

lemma repeat_returns: "good s \<Longrightarrow> \<exists>s'. repeat_op n operation s = Some s' \<and> good s'"
proof (induction n arbitrary: s)
  case (Suc n)
  from returns [OF Suc.prems] obtain s1 where "operation s = Some s1" "good s1" by blast
  with Suc.IH [of s1] show ?case by simp
qed simp

lemma timed_returns:
  "good s \<Longrightarrow> \<exists>samples s'. timed_op n operation clk k s = Some (samples, s') \<and> length samples = n \<and> good s'"
proof (induction n arbitrary: s k)
  case (Suc n)
  from returns [OF Suc.prems] obtain s1 where "operation s = Some s1" "good s1" by blast
  with Suc.IH [of s1 "k + 2"] show ?case by fastforce
qed simp

end

lemma percentile_value:
  assumes "0 \<le> p" "p \<le> 1" "length samples < 2 ^ 53"
  shows "percentile samples p = Some (if samples = [] then 0 else samples ! pct_index p (length samples))"
  using pct_index_less [OF assms(1,2) _ assms(3)] by (simp add: percentile_def rd_def)

lemma percentiles_ordered:
  assumes "length samples < 2 ^ 53"
  shows "\<exists>v50 v99 v999. percentile (sort samples) p50 = Some v50 \<and> percentile (sort samples) p99 = Some v99 \<and>
    percentile (sort samples) p999 = Some v999 \<and> v50 \<le> v99 \<and> v99 \<le> v999 \<and>
    (samples \<noteq> [] \<longrightarrow> {v50, v99, v999} \<subseteq> set samples)"
proof -
  note c = percentile_constants
  have v: "percentile (sort samples) p = Some (if samples = [] then 0 else sort samples ! pct_index p (length samples))"
    if "0 \<le> p" "p \<le> 1" for p using percentile_value [OF that, of "sort samples"] assms by (cases samples) (simp_all add: insort_not_Nil)
  show ?thesis
  proof (cases "samples = []")
    case True
    with v c show ?thesis by (auto intro: order_trans)
  next
    case False
    then have pos: "0 < length samples" by simp
    have lt: "pct_index p50 (length samples) < length samples" "pct_index p99 (length samples) < length samples"
        "pct_index p999 (length samples) < length samples"
      using pct_index_less [OF _ _ pos assms] c by (auto intro: order_trans)
    have m: "pct_index p50 (length samples) \<le> pct_index p99 (length samples)" "pct_index p99 (length samples) \<le> pct_index p999 (length samples)"
      using pct_index_mono [OF _ _ pos] c by (auto intro: order_trans)
    have in_set: "sort samples ! i \<in> set samples" if "i < length samples" for i
      using that by (metis length_sort nth_mem set_sort)
    have "percentile (sort samples) p50 = Some (sort samples ! pct_index p50 (length samples))"
      "percentile (sort samples) p99 = Some (sort samples ! pct_index p99 (length samples))"
      "percentile (sort samples) p999 = Some (sort samples ! pct_index p999 (length samples))"
      using v c False by (auto intro: order_trans)
    with m lt in_set show ?thesis by (auto intro!: sorted_nth_mono)
  qed
qed

context benchmark_op begin

lemma measure_returns:
  assumes "good s" and "iters < 2 ^ 53"
  shows "\<exists>st s'. measure_op operation iters clk s = Some (st, s') \<and> good s' \<and>
    ls_p50_ns st \<le> ls_p99_ns st \<and> ls_p99_ns st \<le> ls_p999_ns st \<and> ls_iterations st = iters"
proof -
  obtain s1 where s1: "repeat_op (iters div 10 + 1) operation s = Some s1" "good s1"
    using repeat_returns [OF assms(1)] by blast
  obtain samples s2 where s2: "timed_op iters operation clk 1 s1 = Some (samples, s2)" "length samples = iters" "good s2"
    using timed_returns [OF s1(2)] by blast
  from percentiles_ordered [of samples] s2(2) assms(2) obtain v50 v99 v999 where
    "percentile (sort samples) p50 = Some v50" "percentile (sort samples) p99 = Some v99"
    "percentile (sort samples) p999 = Some v999" "v50 \<le> v99" "v99 \<le> v999" by auto
  with s1 s2 show ?thesis by (auto simp: measure_op_def Let_def simp del: repeat_op.simps)
qed

end

subsection \<open>The measured operations\<close>

lemma push_pop_empty:
  assumes inv: "ring_inv r" and empty: "ring_contents r = []"
  shows "\<exists>r1 r2. try_push x r = (True, r1) \<and> try_pop moved r1 = (Some x, r2) \<and> ring_inv r2 \<and> ring_contents r2 = []"
proof -
  have "ring_size r = 0" using empty by (metis length_ring_contents list.size(3))
  moreover have "0 < ring_capacity r" using inv by (auto simp: ring_inv_def ring_capacity_def ring_static_asserts_def)
  ultimately have lt: "ring_size r < ring_capacity r" by simp
  obtain r1 where r1: "try_push x r = (True, r1)" "ring_inv r1" "ring_contents r1 = [x]"
    using push_contents [OF inv lt refl, of x] try_push_room [OF inv lt, of x] empty by simp
  obtain v r2 where r2: "try_pop moved r1 = (v, r2)" by force
  have "0 < ring_size r1" using r1(3) by (metis length_ring_contents length_Cons zero_less_Suc)
  from try_pop_contents [OF r1(2) this r2] r1 r2 show ?thesis by auto
qed

lemma pipeline_pass_empty:
  assumes "ring_inv ring" and "ring_contents ring = []" and "n \<le> unat kMaxPayload"
  shows "\<exists>ring'. pipeline_pass moved ring n seq = Some (40 + word_of_nat n, ring') \<and> ring_inv ring' \<and> ring_contents ring' = []"
proof -
  let ?x = "\<lparr>sf_data = replicate n (ucast seq), sf_sequence = seq, sf_timestamp_ns = seq\<rparr>"
  obtain r1 r2 where r: "try_push ?x ring = (True, r1)" "try_pop moved r1 = (Some ?x, r2)" "ring_inv r2" "ring_contents r2 = []"
    using push_pop_empty [OF assms(1,2)] by blast
  have len: "length (sf_data ?x) \<le> unat kMaxPayload" using assms(3) by simp
  note e = encode_frame_image [OF len, of kLidar seq seq kFlagNone]
  have d: "decode_header (Some (frame_image (frame_header_for kLidar seq seq kFlagNone (sf_data ?x)) (sf_data ?x))) FrameHeader_init
      = Some (FrameError.kOk, frame_header_for kLidar seq seq kFlagNone (sf_data ?x))"
    using decode_image [OF frame_ok_header_for [OF len], of _ _ _ _ "[]"] by simp
  show ?thesis using r e d by (simp add: pipeline_pass_def try_push_move_eq Let_def)
qed

interpretation crc_bench: benchmark_op "crc_op buf" "\<lambda>_. True" for buf
  by unfold_locales (simp add: crc_op_def)

interpretation encode_bench: benchmark_op "encode_op payload" "\<lambda>_. length payload \<le> unat kMaxPayload" for payload
  by unfold_locales (simp add: encode_op_def encode_frame_image)

interpretation decode_bench: benchmark_op "decode_op frame" "\<lambda>_. True" for frame
proof
  show "\<exists>h'. decode_op frame h = Some h' \<and> True" for h
    using decode_header_returns [of "Some frame" h] by (auto simp: decode_op_def)
qed

interpretation ring_bench: benchmark_op "ring_op inp" "\<lambda>(r, _). ring_inv r \<and> ring_contents r = []" for inp
proof
  show "\<exists>s'. ring_op inp s = Some s' \<and> (case s' of (r, _) \<Rightarrow> ring_inv r \<and> ring_contents r = [])"
    if "case s of (r, _) \<Rightarrow> ring_inv r \<and> ring_contents r = []" for s
    using that push_pop_empty [of "fst s" inp id] by (auto simp: ring_op_def)
qed

interpretation e2e_bench: benchmark_op "e2e_op moved n"
  "\<lambda>(r, _). ring_inv r \<and> ring_contents r = [] \<and> n \<le> unat kMaxPayload" for moved n
proof
  show "\<exists>s'. e2e_op moved n s = Some s' \<and> (case s' of (r, _) \<Rightarrow> ring_inv r \<and> ring_contents r = [] \<and> n \<le> unat kMaxPayload)"
    if "case s of (r, _) \<Rightarrow> ring_inv r \<and> ring_contents r = [] \<and> n \<le> unat kMaxPayload" for s
    using that pipeline_pass_empty [of "fst s" n moved "snd s"] by (cases s) (auto simp: e2e_op_def)
qed

subsection \<open>The probes run to completion\<close>

text \<open>The benchmark a line is about: the word after the tag.\<close>

definition bench_name :: "string \<Rightarrow> string" where
  "bench_name line = takeWhile (\<lambda>c. c \<noteq> CHR '' '') (drop 8 line)"

lemma bench_name_word: "CHR '' '' \<notin> set name \<Longrightarrow> bench_name (''[BENCH] '' @ pad_right 24 name @ CHR '' '' # rest) = name"
proof -
  assume "CHR '' '' \<notin> set name"
  then have "takeWhile (\<lambda>c. c \<noteq> CHR '' '') (name @ replicate k (CHR '' '') @ CHR '' '' # rest) = name" for k
    by (cases k) (simp_all add: takeWhile_append)
  then show ?thesis by (simp add: bench_name_def pad_right_def)
qed

lemma bench_names [simp]:
  assumes "CHR '' '' \<notin> set name"
  shows "bench_name (bench_report name st) = name" and "bench_name (report_throughput name gbps) = name"
  using bench_name_word [OF assms, simplified] by (simp_all add: bench_report_def report_throughput_def)

lemma crc_case_returns:
  "CHR '' '' \<notin> set name \<Longrightarrow> \<exists>line. crc_case clk (name, n) = Some line \<and> bench_name line = name"
  using crc_bench.repeat_returns [where s = 0 and n = "crc_passes n" and buf = "make_buffer n"] by (auto simp: crc_case_def Let_def)

lemma frame_case_returns:
  assumes "n \<le> unat kMaxPayload"
  shows "\<exists>lines. frame_case clk n = Some lines \<and>
    map bench_name lines = [''frame_encode_'' @ size_suffix n, ''frame_decode_'' @ size_suffix n]"
proof -
  let ?p = "make_payload n" and ?iters = "if n \<ge> 1024 * 1024 then 5000 else 200000 :: nat"
  have len: "length ?p \<le> unat kMaxPayload" using assms by (simp add: make_payload_def)
  have it: "?iters < 2 ^ 53" by simp
  obtain st seq where enc: "measure_op (encode_op ?p) ?iters (fst clk) 0 = Some (st, seq)"
    using encode_bench.measure_returns [OF len it] by blast
  note f = encode_frame_image [OF len, of kLidar 1 1 kFlagNone]
  obtain st' hdr where dec: "measure_op (decode_op (frame_image (frame_header_for kLidar 1 1 kFlagNone ?p) ?p)) ?iters (snd clk) FrameHeader_init = Some (st', hdr)"
    using decode_bench.measure_returns [OF TrueI it] by blast
  have "CHR '' '' \<notin> set (size_suffix n)" by (simp add: size_suffix_def)
  then show ?thesis using enc f dec by (simp add: frame_case_def Let_def)
qed

lemma ring_bench_start: "ring_inv (ring_init 1024 d) \<and> ring_contents (ring_init 1024 d) = []"
  by (simp add: ring_init_inv ring_static_asserts_def)

lemma e2e_case_returns:
  assumes "n \<le> unat kMaxPayload"
  shows "\<exists>line. e2e_case moved clk n = Some line \<and> bench_name line = ''e2e_pipeline_'' @ size_suffix n"
proof -
  let ?iters = "if n \<ge> 1024 * 1024 then 5000 else 100000 :: nat"
  have "?iters < 2 ^ 53" by simp
  then obtain st s where "measure_op (e2e_op moved n) ?iters clk (ring_init 1024 SensorFrame_init, 1) = Some (st, s)"
    using e2e_bench.measure_returns [where s = "(ring_init 1024 SensorFrame_init, 1)" and n = n and iters = ?iters
        and moved = moved and clk = clk] ring_bench_start [of SensorFrame_init] assms by auto
  moreover have "CHR '' '' \<notin> set (size_suffix n)" by (simp add: size_suffix_def)
  ultimately show ?thesis by (simp add: e2e_case_def Let_def)
qed

lemma bench_ring_returns:
  assumes "length pops < 2 ^ 53"
  shows "\<exists>lines. bench_ring_latency clk pops = Some lines \<and> map bench_name lines = [''spsc_ring_1kb'', ''spsc_prod2cons_1kb'']"
proof -
  obtain st s where m: "measure_op (ring_op Blob_zero) 1000000 clk (ring_init 1024 Blob_zero, Blob_zero) = Some (st, s)"
    using ring_bench.measure_returns [where s = "(ring_init 1024 Blob_zero, Blob_zero)" and iters = 1000000 and inp = Blob_zero
        and clk = clk] ring_bench_start [of Blob_zero] by auto
  obtain st' where "prod2cons_stats pops = Some st'"
    using percentiles_ordered [of "map (\<lambda>(now, out). of_integer (uint (now - sf_timestamp_ns out))) pops"] assms
    by (auto simp: prod2cons_stats_def Let_def)
  with m show ?thesis by (simp add: bench_ring_latency_def)
qed

lemma run_cases_return:
  "list_all (\<lambda>c. \<forall>clk. \<exists>line. probe clk c = Some line \<and> bench_name line = nm c) cs \<Longrightarrow>
     \<exists>lines. run_cases probe clks k cs = Some lines \<and> map bench_name lines = map nm cs"
proof (induction cs arbitrary: k)
  case (Cons c cs)
  from Cons.prems obtain line where "probe (clks k) c = Some line" "bench_name line = nm c" by auto
  with Cons.IH [of "k + 1"] Cons.prems show ?case by auto
qed simp

lemma bench_frames_return:
  "list_all (\<lambda>n. n \<le> unat kMaxPayload) ns \<Longrightarrow>
     \<exists>lines. bench_frames clks k ns = Some lines \<and>
       map bench_name lines = concat (map (\<lambda>n. [''frame_encode_'' @ size_suffix n, ''frame_decode_'' @ size_suffix n]) ns)"
proof (induction ns arbitrary: k)
  case (Cons n ns)
  from Cons.prems obtain xs where "frame_case (clks k, clks (k + 1)) n = Some xs"
    "map bench_name xs = [''frame_encode_'' @ size_suffix n, ''frame_decode_'' @ size_suffix n]"
    using frame_case_returns [of n "(clks k, clks (k + 1))"] by auto
  with Cons.IH [of "k + 2"] Cons.prems show ?case by auto
qed simp

subsection \<open>Properties\<close>

text \<open>One pass of the benchmarked pipeline through an empty ring is exact: a payload of up to 4 MiB is pushed, popped,
  encoded and decoded with the verdict \<^verbatim>\<open>kOk\<close>, so that the pass returns the payload size plus 40, and leaves the
  ring empty again, whatever the moved-from slots hold.\<close>

theorem pipeline_pass_exact:
  assumes "ring_inv ring" and "ring_contents ring = []" and "n \<le> unat kMaxPayload"
  shows "\<exists>ring'. pipeline_pass moved ring n seq = Some (40 + word_of_nat n, ring') \<and> ring_inv ring' \<and> ring_contents ring' = []"
  using assms by (rule pipeline_pass_empty)

theorem pipeline_pass_exact_witness:
  "\<exists>ring'. pipeline_pass (\<lambda>f. f\<lparr>sf_data := []\<rparr>) (ring_init 1024 SensorFrame_init) 64 9 = Some (104, ring') \<and> ring_contents ring' = []"
proof -
  obtain ring' where "pipeline_pass (\<lambda>f. f\<lparr>sf_data := []\<rparr>) (ring_init 1024 SensorFrame_init) 64 9 = Some (40 + word_of_nat 64, ring')"
    "ring_contents ring' = []"
    using pipeline_pass_exact [of "ring_init 1024 SensorFrame_init" 64 "\<lambda>f. f\<lparr>sf_data := []\<rparr>" 9] ring_bench_start [of SensorFrame_init]
    by (auto simp: unat_kMaxPayload)
  then show ?thesis by simp
qed

text \<open>The benchmark program completes its probes: whatever the clock shows, no probe throws, reads outside a buffer or
  outside its sorted samples, and the lines it prints are for the nineteen benchmarks of the documentation, in this
  order.\<close>

theorem bench_main_completes:
  assumes "length pops = prod2cons_target"
  shows "\<exists>lines. bench_main moved clks pops = Some lines \<and> map bench_name (butlast (tl lines)) =
    [''crc32c_throughput_64b'', ''crc32c_throughput_1kb'', ''crc32c_throughput_64kb'', ''spsc_ring_1kb'', ''spsc_prod2cons_1kb'',
     ''frame_encode_64b'', ''frame_decode_64b'', ''frame_encode_1kb'', ''frame_decode_1kb'', ''frame_encode_64kb'',
     ''frame_decode_64kb'', ''frame_encode_1mb'', ''frame_decode_1mb'', ''frame_encode_4mb'', ''frame_decode_4mb'',
     ''e2e_pipeline_64b'', ''e2e_pipeline_1kb'', ''e2e_pipeline_64kb'', ''e2e_pipeline_1mb'']"
proof -
  obtain crc where crc: "bench_crc_throughput (clks 0) = Some crc"
    "map bench_name crc = [''crc32c_throughput_64b'', ''crc32c_throughput_1kb'', ''crc32c_throughput_64kb'']"
    using run_cases_return [of crc_case fst crc_cases "clks 0" 0] crc_case_returns
    by (auto simp: bench_crc_throughput_def crc_cases_def)
  obtain ring where ring: "bench_ring_latency (clks 1 0) pops = Some ring" "map bench_name ring = [''spsc_ring_1kb'', ''spsc_prod2cons_1kb'']"
    using bench_ring_returns [of pops "clks 1 0"] assms by (auto simp: prod2cons_target_def)
  obtain frames where frames: "bench_frame_latency (clks 2) = Some frames"
    "map bench_name frames = concat (map (\<lambda>n. [''frame_encode_'' @ size_suffix n, ''frame_decode_'' @ size_suffix n]) frame_sizes)"
    using bench_frames_return [of frame_sizes "clks 2" 0] by (auto simp: bench_frame_latency_def frame_sizes_def unat_kMaxPayload)
  obtain e2e where e2e: "bench_e2e_latency moved (clks 3) = Some e2e"
    "map bench_name e2e = map (\<lambda>n. ''e2e_pipeline_'' @ size_suffix n) e2e_sizes"
    using run_cases_return [of "e2e_case moved" "\<lambda>n. ''e2e_pipeline_'' @ size_suffix n" e2e_sizes "clks 3" 0] e2e_case_returns
    by (auto simp: bench_e2e_latency_def e2e_sizes_def unat_kMaxPayload)
  show ?thesis
    using crc ring frames e2e
    by (simp add: bench_main_def butlast_append frame_sizes_def e2e_sizes_def size_suffix_def)
qed

theorem bench_main_completes_witness:
  "\<exists>lines. bench_main id (\<lambda>_ _ _. 0) (replicate 200000 (0, SensorFrame_init)) = Some lines"
  using bench_main_completes [of "replicate 200000 (0, SensorFrame_init)" id "\<lambda>_ _ _. 0"]
  by (auto simp: prod2cons_target_def)

end
