(* ===== verification/Spsc_Concurrent.thy ===== *)
theory Spsc_Concurrent
  imports Spsc_Ring
begin

text \<open>
  The ring buffer of \<^verbatim>\<open>include/sensorforge/core/spsc_ring.hpp\<close> under its concurrency contract: one
  producer thread in \<^verbatim>\<open>try_push\<close> and one consumer thread in \<^verbatim>\<open>try_pop\<close>, interleaved at every access to
  shared memory. Each thread has a program counter with its local variables; a step is the test of
  the indices, the access to the slot, or the release store of an index. The index a thread loaded
  may be out of date by the time it uses it, as with acquire loads.

  The ghost lists \<open>accepted\<close> and \<open>delivered\<close> record the completed pushes and pops. The last part adds
  the steps of \<^verbatim>\<open>force_push_overwrite\<close>, which stores to the index of the other thread.
\<close>

subsection \<open>Threads and steps\<close>

text \<open>The producer is outside a call, about to write its slot, or about to publish \<^verbatim>\<open>head_\<close>.\<close>

datatype 'a producer =
    P_Idle
  | P_Write (p_item: 'a) (p_head: u64) (p_next: u64)
  | P_Publish (p_item: 'a) (p_next: u64)

text \<open>The consumer is outside a call, about to move its slot out, or about to publish \<^verbatim>\<open>tail_\<close>.\<close>

datatype 'a consumer =
    C_Idle
  | C_Read (c_tail: u64)
  | C_Publish (c_out: 'a) (c_tail: u64)

record 'a conc =
  cc_ring :: "'a SPSCRing"
  cc_prod :: "'a producer"
  cc_cons :: "'a consumer"
  accepted :: "'a list"
  delivered :: "'a list"

definition conc_init :: "nat \<Rightarrow> 'a \<Rightarrow> 'a conc" where
  "conc_init n d = \<lparr>cc_ring = ring_init n d, cc_prod = P_Idle, cc_cons = C_Idle,
                    accepted = [], delivered = []\<rparr>"

inductive push_step :: "'a conc \<Rightarrow> 'a conc \<Rightarrow> bool" where
  push_full: "\<lbrakk>cc_prod c = P_Idle; (rg_head (cc_ring c) + 1) AND kMask (cc_ring c) = rg_tail (cc_ring c)\<rbrakk>
    \<Longrightarrow> push_step c c"
| push_begin: "\<lbrakk>cc_prod c = P_Idle; nxt = (rg_head (cc_ring c) + 1) AND kMask (cc_ring c);
      nxt \<noteq> rg_tail (cc_ring c)\<rbrakk>
    \<Longrightarrow> push_step c (c\<lparr>cc_prod := P_Write x (rg_head (cc_ring c)) nxt\<rparr>)"
| push_write: "cc_prod c = P_Write x h nxt
    \<Longrightarrow> push_step c (c\<lparr>cc_ring := (cc_ring c)\<lparr>rg_buffer := (rg_buffer (cc_ring c))[unat h := x]\<rparr>,
                        cc_prod := P_Publish x nxt\<rparr>)"
| push_publish: "cc_prod c = P_Publish x nxt
    \<Longrightarrow> push_step c (c\<lparr>cc_ring := (cc_ring c)\<lparr>rg_head := nxt\<rparr>, cc_prod := P_Idle,
                        accepted := accepted c @ [x]\<rparr>)"

inductive pop_step :: "('a \<Rightarrow> 'a) \<Rightarrow> 'a conc \<Rightarrow> 'a conc \<Rightarrow> bool" for moved where
  pop_empty: "\<lbrakk>cc_cons c = C_Idle; rg_tail (cc_ring c) = rg_head (cc_ring c)\<rbrakk> \<Longrightarrow> pop_step moved c c"
| pop_begin: "\<lbrakk>cc_cons c = C_Idle; rg_tail (cc_ring c) \<noteq> rg_head (cc_ring c)\<rbrakk>
    \<Longrightarrow> pop_step moved c (c\<lparr>cc_cons := C_Read (rg_tail (cc_ring c))\<rparr>)"
| pop_read: "\<lbrakk>cc_cons c = C_Read t; out = rg_buffer (cc_ring c) ! unat t\<rbrakk>
    \<Longrightarrow> pop_step moved c (c\<lparr>cc_ring := (cc_ring c)\<lparr>rg_buffer := (rg_buffer (cc_ring c))[unat t := moved out]\<rparr>,
                            cc_cons := C_Publish out t\<rparr>)"
| pop_publish: "cc_cons c = C_Publish out t
    \<Longrightarrow> pop_step moved c (c\<lparr>cc_ring := (cc_ring c)\<lparr>rg_tail := (t + 1) AND kMask (cc_ring c)\<rparr>,
                            cc_cons := C_Idle, delivered := delivered c @ [out]\<rparr>)"

definition ring_step :: "('a \<Rightarrow> 'a) \<Rightarrow> 'a conc \<Rightarrow> 'a conc \<Rightarrow> bool" where
  "ring_step moved c c' \<longleftrightarrow> push_step c c' \<or> pop_step moved c c'"

subsection \<open>Slots outside the queued range\<close>

lemma contents_cong_slots:
  assumes "Capacity r' = Capacity r" "rg_head r' = rg_head r" "rg_tail r' = rg_tail r"
    and "\<And>i. i < ring_size r \<Longrightarrow> rg_buffer r' ! ((unat (rg_tail r) + i) mod Capacity r)
              = rg_buffer r ! ((unat (rg_tail r) + i) mod Capacity r)"
  shows "ring_contents r' = ring_contents r"
  using assms by (simp add: ring_contents_def ring_size_def)

lemma slot_write_same [simp]:
  "kMask (r\<lparr>rg_buffer := (rg_buffer r)[i := x]\<rparr>) = kMask r"
  "Capacity (r\<lparr>rg_buffer := (rg_buffer r)[i := x]\<rparr>) = Capacity r"
  by (simp_all add: kMask_def Capacity_def)

lemma write_head_contents:
  assumes inv: "ring_inv r" and room: "ring_size r < ring_capacity r"
  shows "ring_contents (r\<lparr>rg_buffer := (rg_buffer r)[unat (rg_head r) := x]\<rparr>) = ring_contents r"
proof (rule contents_cong_slots)
  fix i assume i: "i < ring_size r"
  then have lt: "i < Capacity r" using room by (simp add: ring_capacity_def)
  have "(unat (rg_tail r) + i) mod Capacity r \<noteq> unat (rg_head r)"
    unfolding ring_slot_if [OF inv lt]
    using i ring_inv_bounds [OF inv] by (auto simp: ring_size_if [OF inv] split: if_splits)
  then show "rg_buffer (r\<lparr>rg_buffer := (rg_buffer r)[unat (rg_head r) := x]\<rparr>)
        ! ((unat (rg_tail r) + i) mod Capacity r)
      = rg_buffer r ! ((unat (rg_tail r) + i) mod Capacity r)" by simp
qed (simp_all add: Capacity_def)

lemma write_tail_contents:
  assumes inv: "ring_inv r" and ne: "0 < ring_size r"
  shows "ring_contents (r\<lparr>rg_buffer := (rg_buffer r)[unat (rg_tail r) := y]\<rparr>) = y # tl (ring_contents r)"
    and "hd (ring_contents r) = rg_buffer r ! unat (rg_tail r)"
proof -
  let ?r = "r\<lparr>rg_buffer := (rg_buffer r)[unat (rg_tail r) := y]\<rparr>"
  let ?t = "r\<lparr>rg_buffer := rg_buffer r, rg_tail := (rg_tail r + 1) AND kMask r\<rparr>"
  have k: "kMask ?r = kMask r" and inv': "ring_inv ?r" and ne': "0 < ring_size ?r"
    using inv ne by (simp_all add: kMask_def Capacity_def ring_inv_def ring_size_def)
  have a: "ring_contents r = rg_buffer r ! unat (rg_tail r) # ring_contents ?t"
    using pop_contents [OF inv ne _ _ refl, of "rg_buffer r"] by (simp add: Capacity_def)
  have "?t = ?r\<lparr>rg_buffer := rg_buffer r, rg_tail := (rg_tail ?r + 1) AND kMask ?r\<rparr>"
    by (simp add: k)
  then have "ring_contents ?r = rg_buffer ?r ! unat (rg_tail ?r) # ring_contents ?t"
    using pop_contents [OF inv' ne' _ _ refl, of "rg_buffer r"] by (simp add: Capacity_def)
  moreover have "unat (rg_tail r) < length (rg_buffer r)"
    using ring_inv_bounds [OF inv] by (simp add: Capacity_def)
  ultimately show "ring_contents ?r = y # tl (ring_contents r)" using a by simp
  show "hd (ring_contents r) = rg_buffer r ! unat (rg_tail r)" using a by simp
qed

lemma publish_head_contents:
  assumes inv: "ring_inv r" and room: "ring_size r < ring_capacity r"
    and x: "rg_buffer r ! unat (rg_head r) = x"
  shows "ring_inv (r\<lparr>rg_head := (rg_head r + 1) AND kMask r\<rparr>) \<and>
    ring_contents (r\<lparr>rg_head := (rg_head r + 1) AND kMask r\<rparr>) = ring_contents r @ [x]"
  using push_contents [OF inv room refl, of x] by (simp add: x [symmetric])

lemma publish_tail_contents:
  assumes inv: "ring_inv r" and ne: "0 < ring_size r"
  shows "ring_inv (r\<lparr>rg_tail := (rg_tail r + 1) AND kMask r\<rparr>) \<and>
    ring_contents (r\<lparr>rg_tail := (rg_tail r + 1) AND kMask r\<rparr>) = tl (ring_contents r)"
  using pop_contents [OF inv ne _ _ refl, of "rg_buffer r"] by (simp add: Capacity_def)

subsection \<open>The invariant\<close>

fun prod_ok :: "'a SPSCRing \<Rightarrow> 'a producer \<Rightarrow> bool" where
  "prod_ok r P_Idle = True"
| "prod_ok r (P_Write x h nxt) = (h = rg_head r \<and> nxt = (rg_head r + 1) AND kMask r \<and>
     ring_size r < ring_capacity r)"
| "prod_ok r (P_Publish x nxt) = (nxt = (rg_head r + 1) AND kMask r \<and>
     ring_size r < ring_capacity r \<and> rg_buffer r ! unat (rg_head r) = x)"

fun cons_ok :: "'a SPSCRing \<Rightarrow> 'a consumer \<Rightarrow> bool" where
  "cons_ok r C_Idle = True"
| "cons_ok r (C_Read t) = (t = rg_tail r \<and> 0 < ring_size r)"
| "cons_ok r (C_Publish out t) = (t = rg_tail r \<and> 0 < ring_size r)"

text \<open>The items that are queued once the slot being moved out is accounted for.\<close>

fun pending :: "'a SPSCRing \<Rightarrow> 'a consumer \<Rightarrow> 'a list" where
  "pending r (C_Publish out t) = out # tl (ring_contents r)"
| "pending r _ = ring_contents r"

definition conc_inv :: "nat \<Rightarrow> 'a conc \<Rightarrow> bool" where
  "conc_inv n c \<longleftrightarrow> ring_inv (cc_ring c) \<and> Capacity (cc_ring c) = n \<and>
     prod_ok (cc_ring c) (cc_prod c) \<and> cons_ok (cc_ring c) (cc_cons c) \<and>
     accepted c = delivered c @ pending (cc_ring c) (cc_cons c)"

lemma conc_init_inv: "ring_static_asserts n \<Longrightarrow> conc_inv n (conc_init n d)"
  by (simp add: conc_inv_def conc_init_def ring_init_inv)

lemma ring_size_contents: "ring_contents r' = xs \<Longrightarrow> ring_size r' = length xs"
  by (metis length_ring_contents)

lemma write_head_cons:
  assumes "ring_inv r" and "ring_size r < ring_capacity r"
    and "r' = r\<lparr>rg_buffer := (rg_buffer r)[unat (rg_head r) := x]\<rparr>"
  shows "ring_inv r' \<and> Capacity r' = Capacity r \<and> kMask r' = kMask r \<and> ring_size r' = ring_size r \<and>
    ring_capacity r' = ring_capacity r \<and> pending r' k = pending r k \<and> (cons_ok r k \<longrightarrow> cons_ok r' k)"
  using assms write_head_contents [OF assms(1,2), of x]
  by (cases k) (auto simp: ring_inv_def Capacity_def kMask_def ring_size_def ring_capacity_def)

lemma push_step_inv:
  assumes "push_step c c'" and "conc_inv n c"
  shows "conc_inv n c'"
  using assms
proof cases
  case push_full
  with assms show ?thesis by simp
next
  case (push_begin nxt x)
  have "ring_inv (cc_ring c)" using assms(2) by (simp add: conc_inv_def)
  with push_begin(3,4) ring_size_le [of "cc_ring c"] ring_full_iff [of "cc_ring c"]
  have "ring_size (cc_ring c) < ring_capacity (cc_ring c)" by auto
  with push_begin assms(2) show ?thesis by (simp add: conc_inv_def)
next
  case (push_write x h nxt)
  let ?r = "cc_ring c" and ?r' = "(cc_ring c)\<lparr>rg_buffer := (rg_buffer (cc_ring c))[unat h := x]\<rparr>"
  have i: "ring_inv ?r" "ring_size ?r < ring_capacity ?r" and h: "h = rg_head ?r"
    and nxt: "nxt = (rg_head ?r + 1) AND kMask ?r"
    using assms(2) push_write(2) by (simp_all add: conc_inv_def)
  have "unat (rg_head ?r) < length (rg_buffer ?r)"
    using ring_inv_bounds [OF i(1)] by (simp add: Capacity_def)
  then have "prod_ok ?r' (P_Publish x nxt)"
    using write_head_cons [OF i refl, of x C_Idle] nxt i(2) by (simp add: h)
  then show ?thesis
    using assms(2) write_head_cons [OF i refl, of x "cc_cons c"]
    by (simp add: push_write(1) conc_inv_def h)
next
  case (push_publish x nxt)
  let ?r = "cc_ring c" and ?r' = "(cc_ring c)\<lparr>rg_head := nxt\<rparr>"
  have i: "ring_inv ?r" "ring_size ?r < ring_capacity ?r" and x: "rg_buffer ?r ! unat (rg_head ?r) = x"
    and nxt: "nxt = (rg_head ?r + 1) AND kMask ?r"
    using assms(2) push_publish(2) by (simp_all add: conc_inv_def)
  have c: "ring_inv ?r'" "ring_contents ?r' = ring_contents ?r @ [x]"
    using publish_head_contents [OF i x] by (simp_all add: nxt)
  then have s: "ring_size ?r' = Suc (ring_size ?r)" by (metis length_append_singleton length_ring_contents)
  have "cons_ok ?r (cc_cons c)" using assms(2) by (simp add: conc_inv_def)
  then have "cons_ok ?r' (cc_cons c) \<and> pending ?r' (cc_cons c) = pending ?r (cc_cons c) @ [x]"
    using c s by (cases "cc_cons c") (auto simp: tl_append split: list.splits dest: ring_size_contents)
  then show ?thesis
    using assms(2) c by (simp add: push_publish(1) conc_inv_def Capacity_def)
qed

lemma head_tail_apart:
  assumes "ring_inv r" and "0 < ring_size r"
  shows "unat (rg_head r) \<noteq> unat (rg_tail r)"
  using ring_empty_iff [OF assms(1)] assms(2) by (auto simp: word_unat_eq_iff)

lemma pop_step_inv:
  assumes "pop_step moved c c'" and "conc_inv n c"
  shows "conc_inv n c'"
  using assms
proof cases
  case pop_empty
  with assms show ?thesis by simp
next
  case pop_begin
  have "ring_inv (cc_ring c)" using assms(2) by (simp add: conc_inv_def)
  with pop_begin(3) ring_empty_iff [of "cc_ring c"] have "0 < ring_size (cc_ring c)" by auto
  with pop_begin assms(2) show ?thesis by (simp add: conc_inv_def)
next
  case (pop_read t out)
  let ?r = "cc_ring c" and ?r' = "(cc_ring c)\<lparr>rg_buffer := (rg_buffer (cc_ring c))[unat t := moved out]\<rparr>"
  have i: "ring_inv ?r" "0 < ring_size ?r" and t: "t = rg_tail ?r"
    using assms(2) pop_read(2) by (simp_all add: conc_inv_def)
  have same: "ring_inv ?r'" "Capacity ?r' = Capacity ?r" "kMask ?r' = kMask ?r"
      "ring_size ?r' = ring_size ?r" "ring_capacity ?r' = ring_capacity ?r"
    using i(1) by (simp_all add: ring_inv_def Capacity_def kMask_def ring_size_def ring_capacity_def)
  have c: "ring_contents ?r' = moved out # tl (ring_contents ?r)" "hd (ring_contents ?r) = out"
    using write_tail_contents [OF i] by (simp_all add: t pop_read(3))
  have "ring_contents ?r \<noteq> []" using i(2) by (auto dest: ring_size_contents)
  with c have "pending ?r' (C_Publish out t) = ring_contents ?r"
    by (cases "ring_contents ?r") simp_all
  moreover have "prod_ok ?r' (cc_prod c)"
    using assms(2) same head_tail_apart [OF i] by (cases "cc_prod c") (auto simp: conc_inv_def t)
  ultimately show ?thesis
    using assms(2) same i by (simp add: pop_read(1,2) conc_inv_def t)
next
  case (pop_publish out t)
  let ?r = "cc_ring c" and ?r' = "(cc_ring c)\<lparr>rg_tail := (t + 1) AND kMask (cc_ring c)\<rparr>"
  have i: "ring_inv ?r" "0 < ring_size ?r" and t: "t = rg_tail ?r"
    using assms(2) pop_publish(2) by (simp_all add: conc_inv_def)
  have c: "ring_inv ?r'" "ring_contents ?r' = tl (ring_contents ?r)"
    using publish_tail_contents [OF i] by (simp_all add: t)
  then have "ring_size ?r' = ring_size ?r - 1" by (auto dest: ring_size_contents)
  moreover have "Capacity ?r' = Capacity ?r" "kMask ?r' = kMask ?r" "ring_capacity ?r' = ring_capacity ?r"
    by (simp_all add: Capacity_def kMask_def ring_capacity_def)
  ultimately have "prod_ok ?r' (cc_prod c)"
    using assms(2) by (cases "cc_prod c") (auto simp: conc_inv_def)
  then show ?thesis
    using assms(2) c by (simp add: pop_publish(1,2) conc_inv_def Capacity_def)
qed

lemma ring_steps_inv:
  "(ring_step moved)\<^sup>*\<^sup>* c c' \<Longrightarrow> conc_inv n c \<Longrightarrow> conc_inv n c'"
  by (induction rule: rtranclp_induct) (auto simp: ring_step_def dest: push_step_inv pop_step_inv)

text \<open>A call that is not interrupted is the sequential operation.\<close>

lemma uninterrupted_push:
  assumes "cc_prod c = P_Idle" and "try_push x (cc_ring c) = (True, r')"
  shows "push_step\<^sup>*\<^sup>* c (c\<lparr>cc_ring := r', accepted := accepted c @ [x]\<rparr>)"
proof -
  let ?n = "(rg_head (cc_ring c) + 1) AND kMask (cc_ring c)"
  have ne: "?n \<noteq> rg_tail (cc_ring c)"
    and r': "r' = (cc_ring c)\<lparr>rg_buffer := (rg_buffer (cc_ring c))[unat (rg_head (cc_ring c)) := x], rg_head := ?n\<rparr>"
    using assms(2) by (auto simp: try_push_def Let_def split: if_splits)
  let ?c1 = "c\<lparr>cc_prod := P_Write x (rg_head (cc_ring c)) ?n\<rparr>"
  let ?c2 = "?c1\<lparr>cc_ring := (cc_ring c)\<lparr>rg_buffer := (rg_buffer (cc_ring c))[unat (rg_head (cc_ring c)) := x]\<rparr>,
      cc_prod := P_Publish x ?n\<rparr>"
  have 1: "push_step c ?c1" by (rule push_begin [OF assms(1) refl ne])
  have 2: "push_step ?c1 ?c2" using push_write [of ?c1] by simp
  have "c\<lparr>cc_ring := r', accepted := accepted c @ [x]\<rparr>
      = ?c2\<lparr>cc_ring := (cc_ring ?c2)\<lparr>rg_head := ?n\<rparr>, cc_prod := P_Idle, accepted := accepted ?c2 @ [x]\<rparr>"
    using assms(1) by (cases c) (simp add: r')
  then have 3: "push_step ?c2 (c\<lparr>cc_ring := r', accepted := accepted c @ [x]\<rparr>)"
    using push_publish [of ?c2 x ?n] by simp
  from 1 2 3 show ?thesis by (meson converse_rtranclp_into_rtranclp r_into_rtranclp)
qed

lemma uninterrupted_pop:
  assumes "cc_cons c = C_Idle" and "try_pop moved (cc_ring c) = (Some v, r')"
  shows "(pop_step moved)\<^sup>*\<^sup>* c (c\<lparr>cc_ring := r', delivered := delivered c @ [v]\<rparr>)"
proof -
  let ?t = "rg_tail (cc_ring c)" and ?b = "rg_buffer (cc_ring c)"
  have ne: "?t \<noteq> rg_head (cc_ring c)" and v: "v = ?b ! unat ?t"
    and r': "r' = (cc_ring c)\<lparr>rg_buffer := ?b[unat ?t := moved v], rg_tail := (?t + 1) AND kMask (cc_ring c)\<rparr>"
    using assms(2) by (auto simp: try_pop_def Let_def split: if_splits)
  let ?c1 = "c\<lparr>cc_cons := C_Read ?t\<rparr>"
  let ?c2 = "?c1\<lparr>cc_ring := (cc_ring c)\<lparr>rg_buffer := ?b[unat ?t := moved v]\<rparr>, cc_cons := C_Publish v ?t\<rparr>"
  have 1: "pop_step moved c ?c1" by (rule pop_begin [OF assms(1) ne])
  have 2: "pop_step moved ?c1 ?c2" using pop_read [of ?c1 ?t v] by (simp add: v)
  have "c\<lparr>cc_ring := r', delivered := delivered c @ [v]\<rparr>
      = ?c2\<lparr>cc_ring := (cc_ring ?c2)\<lparr>rg_tail := (?t + 1) AND kMask (cc_ring ?c2)\<rparr>, cc_cons := C_Idle,
            delivered := delivered ?c2 @ [v]\<rparr>"
    using assms(1) by (cases c) (simp add: r')
  then have 3: "pop_step moved ?c2 (c\<lparr>cc_ring := r', delivered := delivered c @ [v]\<rparr>)"
    using pop_publish [of ?c2 v ?t] by simp
  from 1 2 3 show ?thesis by (meson converse_rtranclp_into_rtranclp r_into_rtranclp)
qed

lemma conc_inv_queued:
  assumes inv: "conc_inv n c"
  shows "\<exists>queued. accepted c = delivered c @ queued \<and> length queued \<le> n - 1"
proof -
  from inv have "length (pending (cc_ring c) (cc_cons c)) = ring_size (cc_ring c)"
    by (cases "cc_cons c") (auto simp: conc_inv_def)
  with inv ring_size_le [of "cc_ring c"] show ?thesis
    by (intro exI [of _ "pending (cc_ring c) (cc_cons c)"]) (auto simp: conc_inv_def ring_capacity_def)
qed

subsection \<open>Properties\<close>

text \<open>C7: With one producer and one consumer interleaved at every memory access, what was popped is at
  all times a prefix of what was pushed, and at most \<^verbatim>\<open>Capacity - 1\<close> completed pushes are not yet
  popped: no item is lost, duplicated, reordered or read after it was moved from.\<close>

theorem spsc_exactly_once:
  assumes "ring_static_asserts n" and "(ring_step moved)\<^sup>*\<^sup>* (conc_init n d) c"
  shows "\<exists>queued. accepted c = delivered c @ queued \<and> length queued \<le> n - 1"
  by (rule conc_inv_queued [OF ring_steps_inv [OF assms(2) conc_init_inv [OF assms(1)]]])

theorem spsc_exactly_once_witness:
  "\<exists>c queued. (ring_step id)\<^sup>*\<^sup>* (conc_init 2 (0 :: nat)) c \<and> accepted c = [5] \<and>
     accepted c = delivered c @ queued \<and> length queued \<le> 2 - 1"
proof -
  have s: "ring_static_asserts 2" by (simp add: ring_static_asserts_def)
  let ?i = "conc_init 2 (0 :: nat)"
  obtain r where r: "try_push 5 (cc_ring ?i) = (True, r)"
    by (simp add: try_push_def conc_init_def ring_init_def kMask_def Capacity_def)
  let ?c = "?i\<lparr>cc_ring := r, accepted := accepted ?i @ [5]\<rparr>"
  have "push_step\<^sup>*\<^sup>* ?i ?c" by (rule uninterrupted_push [OF _ r]) (simp add: conc_init_def)
  then have c: "(ring_step id)\<^sup>*\<^sup>* ?i ?c"
    by (rule rtranclp_mono [THEN predicate2D, rotated]) (auto simp: ring_step_def)
  moreover have "accepted ?c = [5]" by (simp add: conc_init_def)
  moreover obtain q where "accepted ?c = delivered ?c @ q" "length q \<le> 2 - 1"
    using spsc_exactly_once [OF s c] by blast
  ultimately show ?thesis by blast
qed


lemma both_active:
  "\<exists>c x h nxt t. (ring_step id)\<^sup>*\<^sup>* (conc_init 4 (0 :: nat)) c \<and>
     cc_prod c = P_Write x h nxt \<and> cc_cons c = C_Read t"
proof -
  let ?i = "conc_init 4 (0 :: nat)"
  obtain r where r: "try_push 5 (cc_ring ?i) = (True, r)"
    and rf: "rg_head r = 1" "rg_tail r = 0" "kMask r = 3"
    by (simp add: try_push_def conc_init_def ring_init_def kMask_def Capacity_def)
  let ?c = "?i\<lparr>cc_ring := r, accepted := accepted ?i @ [5]\<rparr>"
  have "push_step\<^sup>*\<^sup>* ?i ?c" by (rule uninterrupted_push [OF _ r]) (simp add: conc_init_def)
  then have 1: "(ring_step id)\<^sup>*\<^sup>* ?i ?c"
    by (rule rtranclp_mono [THEN predicate2D, rotated]) (auto simp: ring_step_def)
  let ?c' = "?c\<lparr>cc_prod := P_Write 6 1 2\<rparr>"
  have 2: "ring_step id ?c ?c'"
    using push_begin [of ?c 2 6] rf by (simp add: ring_step_def conc_init_def)
  have 3: "ring_step id ?c' (?c'\<lparr>cc_cons := C_Read 0\<rparr>)"
    using pop_begin [of ?c' id] rf by (simp add: ring_step_def conc_init_def)
  from 1 2 3 have "(ring_step id)\<^sup>*\<^sup>* ?i (?c'\<lparr>cc_cons := C_Read 0\<rparr>)"
    by (meson rtranclp.rtrancl_into_rtrancl)
  moreover have "cc_prod (?c'\<lparr>cc_cons := C_Read 0\<rparr>) = P_Write 6 1 2"
    and "cc_cons (?c'\<lparr>cc_cons := C_Read 0\<rparr>) = C_Read 0" by simp_all
  ultimately show ?thesis by blast
qed


subsection \<open>Overwriting with a live consumer\<close>

text \<open>\<^verbatim>\<open>force_push_overwrite\<close> on a full ring loads \<^verbatim>\<open>tail_\<close> and stores its successor; the second component
  is the index it has loaded and not yet stored. The consumer runs in between.\<close>

inductive overwrite_step :: "('a \<Rightarrow> 'a) \<Rightarrow> 'a conc \<times> u64 option \<Rightarrow> 'a conc \<times> u64 option \<Rightarrow> bool"
  for moved where
  ow_push: "push_step c c' \<Longrightarrow> overwrite_step moved (c, None) (c', None)"
| ow_load: "\<lbrakk>cc_prod c = P_Idle; fst (try_push x (cc_ring c)) = False\<rbrakk>
    \<Longrightarrow> overwrite_step moved (c, None) (c, Some (rg_tail (cc_ring c)))"
| ow_store: "overwrite_step moved (c, Some t)
    (c\<lparr>cc_ring := (cc_ring c)\<lparr>rg_tail := (t + 1) AND kMask (cc_ring c)\<rparr>\<rparr>, None)"
| ow_pop: "pop_step moved c c' \<Longrightarrow> overwrite_step moved (c, m) (c', m)"

lemma ow_pushes: "push_step\<^sup>*\<^sup>* c c' \<Longrightarrow> (overwrite_step moved)\<^sup>*\<^sup>* (c, None) (c', None)"
  by (induction rule: rtranclp_induct) (auto intro: rtranclp.rtrancl_into_rtrancl ow_push)

lemma ow_pops: "(pop_step moved)\<^sup>*\<^sup>* c c' \<Longrightarrow> (overwrite_step moved)\<^sup>*\<^sup>* (c, m) (c', m)"
  by (induction rule: rtranclp_induct) (auto intro: rtranclp.rtrancl_into_rtrancl ow_pop)

text \<open>A state with both threads idle, and the effect of one uninterrupted call on it.\<close>

definition quiet :: "'a SPSCRing \<Rightarrow> 'a list \<Rightarrow> 'a list \<Rightarrow> 'a conc" where
  "quiet r acc del = \<lparr>cc_ring = r, cc_prod = P_Idle, cc_cons = C_Idle, accepted = acc, delivered = del\<rparr>"

lemma quiet_push:
  assumes "try_push x r = (True, r')"
  shows "(overwrite_step moved)\<^sup>*\<^sup>* (quiet r acc del, None) (quiet r' (acc @ [x]) del, None)"
  using ow_pushes [OF uninterrupted_push [of "quiet r acc del" x r']] assms by (simp add: quiet_def)

lemma quiet_pop:
  assumes "try_pop moved r = (Some x, r')"
  shows "(overwrite_step moved)\<^sup>*\<^sup>* (quiet r acc del, m) (quiet r' acc (del @ [x]), m)"
  using ow_pops [OF uninterrupted_pop [of "quiet r acc del" moved x r']] assms by (simp add: quiet_def)

text \<open>A consumer that drains the ring between the load and the store of \<^verbatim>\<open>tail_\<close> in
  \<^verbatim>\<open>force_push_overwrite\<close> sees the index move backwards: there is an interleaving in which, of three
  pushed items, the second is delivered twice. Overwriting needs the consumer to be quiescent.\<close>

theorem overwrite_redelivers:
  "\<exists>c. (overwrite_step id)\<^sup>*\<^sup>* (conc_init 4 (0 :: nat), None) (c, None) \<and>
     accepted c = [5, 6, 7] \<and> delivered c = [5, 6, 7, 6]"
proof -
  let ?r = "\<lambda>h t b. \<lparr>rg_head = h, rg_tail = t, rg_buffer = b\<rparr> :: nat SPSCRing"
  note ev = try_push_def try_pop_def kMask_def Capacity_def Let_def
  let ?full = "quiet (?r 3 0 [5, 6, 7, 0]) [5, 6, 7] []"
  let ?drained = "quiet (?r 3 3 [5, 6, 7, 0]) [5, 6, 7] [5, 6, 7]"
  have s1: "(overwrite_step id)\<^sup>*\<^sup>* (quiet (?r 0 0 [0, 0, 0, 0]) [] [], None) (quiet (?r 1 0 [5, 0, 0, 0]) [5] [], None)"
    using quiet_push [of 5 "?r 0 0 [0, 0, 0, 0]" "?r 1 0 [5, 0, 0, 0]" id "[]" "[]"] by (simp add: ev)
  have s2: "(overwrite_step id)\<^sup>*\<^sup>* (quiet (?r 1 0 [5, 0, 0, 0]) [5] [], None) (quiet (?r 2 0 [5, 6, 0, 0]) [5, 6] [], None)"
    using quiet_push [of 6 "?r 1 0 [5, 0, 0, 0]" "?r 2 0 [5, 6, 0, 0]" id "[5]" "[]"] by (simp add: ev)
  have s3: "(overwrite_step id)\<^sup>*\<^sup>* (quiet (?r 2 0 [5, 6, 0, 0]) [5, 6] [], None) (?full, None)"
    using quiet_push [of 7 "?r 2 0 [5, 6, 0, 0]" "?r 3 0 [5, 6, 7, 0]" id "[5, 6]" "[]"] by (simp add: ev)
  have s4: "(overwrite_step id)\<^sup>*\<^sup>* (?full, None) (?full, Some 0)"
    using ow_load [of ?full 8 id] by (simp add: quiet_def ev r_into_rtranclp)
  have s5: "(overwrite_step id)\<^sup>*\<^sup>* (?full, Some 0) (quiet (?r 3 1 [5, 6, 7, 0]) [5, 6, 7] [5], Some 0)"
    using quiet_pop [of id "?r 3 0 [5, 6, 7, 0]" 5 "?r 3 1 [5, 6, 7, 0]" "[5, 6, 7]" "[]" "Some 0"] by (simp add: ev)
  have s6: "(overwrite_step id)\<^sup>*\<^sup>* (quiet (?r 3 1 [5, 6, 7, 0]) [5, 6, 7] [5], Some 0)
      (quiet (?r 3 2 [5, 6, 7, 0]) [5, 6, 7] [5, 6], Some 0)"
    using quiet_pop [of id "?r 3 1 [5, 6, 7, 0]" 6 "?r 3 2 [5, 6, 7, 0]" "[5, 6, 7]" "[5]" "Some 0"] by (simp add: ev)
  have s7: "(overwrite_step id)\<^sup>*\<^sup>* (quiet (?r 3 2 [5, 6, 7, 0]) [5, 6, 7] [5, 6], Some 0) (?drained, Some 0)"
    using quiet_pop [of id "?r 3 2 [5, 6, 7, 0]" 7 "?r 3 3 [5, 6, 7, 0]" "[5, 6, 7]" "[5, 6]" "Some 0"] by (simp add: ev)
  have s8: "(overwrite_step id)\<^sup>*\<^sup>* (?drained, Some 0) (quiet (?r 3 1 [5, 6, 7, 0]) [5, 6, 7] [5, 6, 7], None)"
    using ow_store [of id ?drained 0] by (simp add: quiet_def ev r_into_rtranclp)
  have s9: "(overwrite_step id)\<^sup>*\<^sup>* (quiet (?r 3 1 [5, 6, 7, 0]) [5, 6, 7] [5, 6, 7], None)
      (quiet (?r 3 2 [5, 6, 7, 0]) [5, 6, 7] [5, 6, 7, 6], None)"
    using quiet_pop [of id "?r 3 1 [5, 6, 7, 0]" 6 "?r 3 2 [5, 6, 7, 0]" "[5, 6, 7]" "[5, 6, 7]" None] by (simp add: ev)
  note run = s1 [THEN rtranclp_trans, OF s2 [THEN rtranclp_trans, OF s3 [THEN rtranclp_trans,
      OF s4 [THEN rtranclp_trans, OF s5 [THEN rtranclp_trans, OF s6 [THEN rtranclp_trans,
      OF s7 [THEN rtranclp_trans, OF s8 [THEN rtranclp_trans, OF s9]]]]]]]]
  from run show ?thesis
    by (intro exI [of _ "quiet (?r 3 2 [5, 6, 7, 0]) [5, 6, 7] [5, 6, 7, 6]"])
      (simp add: quiet_def conc_init_def ring_init_def eval_nat_numeral)
qed

end
