(* ===== verification/Seqlock.thy ===== *)
theory Seqlock
  imports SF_Prelude
begin

text \<open>
  The sequence lock (\<^verbatim>\<open>include/sensorforge/core/seqlock.hpp\<close>): one writer thread in \<^verbatim>\<open>store\<close> and a reader
  thread in \<^verbatim>\<open>load\<close>, interleaved at every atomic access. The payload is the byte array of the stored
  object, copied one atomic byte at a time; \<^verbatim>\<open>seq_\<close> is a 64-bit word that wraps around. Readers write
  nothing that others see, so one reader stands for each of them.

  The ghost list \<open>published\<close> holds the initial value and every value whose \<^verbatim>\<open>store\<close> completed; \<open>returned\<close>
  holds every value \<^verbatim>\<open>load\<close> returned with the index in \<open>published\<close> that was current then. The results hold
  while fewer than \<open>2\<^sup>6\<^sup>3\<close> stores were made, after which the counter repeats.
\<close>

subsection \<open>Threads and steps\<close>

text \<open>\<open>W_Bytes v seq i\<close>: inside \<^verbatim>\<open>write_relaxed\<close>, the first \<open>i\<close> bytes are stored.\<close>

datatype writer = W_Idle | W_Bytes bytes u64 nat

text \<open>\<open>R_Bytes seq0 tmp\<close>: inside \<^verbatim>\<open>read_relaxed\<close>, \<open>tmp\<close> holds the bytes read so far.\<close>

datatype reader = R_Idle | R_Bytes u64 bytes

record seqlock =
  sl_seq :: u64
  sl_data :: bytes
  sl_writer :: writer
  sl_reader :: reader
  published :: "bytes list"
  returned :: "(bytes \<times> nat) list"

definition seqlock_init :: "bytes \<Rightarrow> seqlock" where
  "seqlock_init v = \<lparr>sl_seq = 0, sl_data = v, sl_writer = W_Idle, sl_reader = R_Idle,
                     published = [v], returned = []\<rparr>"

inductive store_step :: "seqlock \<Rightarrow> seqlock \<Rightarrow> bool" where
  store_begin: "\<lbrakk>sl_writer s = W_Idle; length v = length (sl_data s)\<rbrakk>
    \<Longrightarrow> store_step s (s\<lparr>sl_seq := sl_seq s + 1, sl_writer := W_Bytes v (sl_seq s) 0\<rparr>)"
| store_byte: "\<lbrakk>sl_writer s = W_Bytes v seq i; i < length v\<rbrakk>
    \<Longrightarrow> store_step s (s\<lparr>sl_data := (sl_data s)[i := v ! i], sl_writer := W_Bytes v seq (Suc i)\<rparr>)"
| store_publish: "\<lbrakk>sl_writer s = W_Bytes v seq i; i = length v\<rbrakk>
    \<Longrightarrow> store_step s (s\<lparr>sl_seq := seq + 2, sl_writer := W_Idle, published := published s @ [v]\<rparr>)"

inductive load_step :: "seqlock \<Rightarrow> seqlock \<Rightarrow> bool" where
  load_odd: "\<lbrakk>sl_reader s = R_Idle; sl_seq s AND 1 \<noteq> 0\<rbrakk> \<Longrightarrow> load_step s s"
| load_begin: "\<lbrakk>sl_reader s = R_Idle; sl_seq s AND 1 = 0\<rbrakk>
    \<Longrightarrow> load_step s (s\<lparr>sl_reader := R_Bytes (sl_seq s) []\<rparr>)"
| load_byte: "\<lbrakk>sl_reader s = R_Bytes seq0 tmp; length tmp < length (sl_data s)\<rbrakk>
    \<Longrightarrow> load_step s (s\<lparr>sl_reader := R_Bytes seq0 (tmp @ [sl_data s ! length tmp])\<rparr>)"
| load_retry: "\<lbrakk>sl_reader s = R_Bytes seq0 tmp; length tmp = length (sl_data s); sl_seq s \<noteq> seq0\<rbrakk>
    \<Longrightarrow> load_step s (s\<lparr>sl_reader := R_Idle\<rparr>)"
| load_return: "\<lbrakk>sl_reader s = R_Bytes seq0 tmp; length tmp = length (sl_data s); sl_seq s = seq0\<rbrakk>
    \<Longrightarrow> load_step s (s\<lparr>sl_reader := R_Idle, returned := returned s @ [(tmp, length (published s) - 1)]\<rparr>)"

definition seqlock_step :: "seqlock \<Rightarrow> seqlock \<Rightarrow> bool" where
  "seqlock_step s s' \<longleftrightarrow> store_step s s' \<or> load_step s s'"

definition sequence :: "seqlock \<Rightarrow> u64" where
  "sequence s = sl_seq s"

subsection \<open>The invariant\<close>

definition even_seq :: "nat \<Rightarrow> u64" where
  "even_seq k = 2 * word_of_nat k"

fun writer_ok :: "nat \<Rightarrow> seqlock \<Rightarrow> bool" where
  "writer_ok n s = (case sl_writer s of
     W_Idle \<Rightarrow> sl_seq s = even_seq (length (published s) - 1) \<and> sl_data s = last (published s)
   | W_Bytes v seq i \<Rightarrow> seq = even_seq (length (published s) - 1) \<and> sl_seq s = seq + 1 \<and>
       length v = n \<and> i \<le> n \<and> sl_data s = take i v @ drop i (last (published s)))"

fun reader_ok :: "nat \<Rightarrow> seqlock \<Rightarrow> bool" where
  "reader_ok n s = (case sl_reader s of
     R_Idle \<Rightarrow> True
   | R_Bytes seq0 tmp \<Rightarrow> length tmp \<le> n \<and>
       (\<exists>k < length (published s). seq0 = even_seq k \<and>
          (Suc k = length (published s) \<longrightarrow> sl_writer s = W_Idle \<longrightarrow> tmp = take (length tmp) (last (published s)))))"

definition returned_ok :: "seqlock \<Rightarrow> bool" where
  "returned_ok s \<longleftrightarrow> (\<forall>(v, k) \<in> set (returned s). k < length (published s) \<and> v = published s ! k) \<and>
     sorted (map snd (returned s))"

definition seqlock_inv :: "nat \<Rightarrow> seqlock \<Rightarrow> bool" where
  "seqlock_inv n s \<longleftrightarrow> published s \<noteq> [] \<and> (\<forall>v \<in> set (published s). length v = n) \<and>
     writer_ok n s \<and> reader_ok n s \<and> returned_ok s"

lemma even_seq_even: "even_seq k AND 1 = 0" "(even_seq k + 1) AND 1 = 1"
  by (simp_all add: even_seq_def and_one_eq mod2_eq_if)

lemma even_seq_inject: "j < 2 ^ 63 \<Longrightarrow> k < 2 ^ 63 \<Longrightarrow> even_seq j = even_seq k \<longleftrightarrow> j = k"
  by (auto simp: even_seq_def word_unat_eq_iff unat_word_ariths unat_of_nat)

lemma even_seq_Suc: "even_seq k + 2 = even_seq (Suc k)"
  by (simp add: even_seq_def algebra_simps)

lemma even_seq_odd: "even_seq j + 1 \<noteq> even_seq k"
proof
  assume "even_seq j + 1 = even_seq k"
  then have "(even_seq j + 1) AND 1 = even_seq k AND 1" by simp
  then show False by (simp only: even_seq_even) simp
qed

lemma seqlock_init_inv: "seqlock_inv (length v) (seqlock_init v)"
  by (simp add: seqlock_inv_def seqlock_init_def returned_ok_def even_seq_def)

lemma returned_ok_publish:
  "returned_ok s \<Longrightarrow> returned_ok (s\<lparr>sl_seq := q, sl_writer := w, published := published s @ [v]\<rparr>)"
  by (auto simp: returned_ok_def nth_append)

lemma last_length: "seqlock_inv n s \<Longrightarrow> length (last (published s)) = n"
  by (simp add: seqlock_inv_def)

lemma data_length: "seqlock_inv n s \<Longrightarrow> length (sl_data s) = n"
  using last_length [of n s] by (auto simp: seqlock_inv_def split: writer.splits)

lemma store_step_inv:
  assumes "store_step s s'" and inv: "seqlock_inv n s"
  shows "seqlock_inv n s'"
  using assms(1)
proof cases
  case (store_begin v)
  with inv data_length [OF inv] show ?thesis
    by (auto simp: seqlock_inv_def returned_ok_def split: reader.splits)
next
  case (store_byte v seq i)
  have "(take i v @ drop i (last (published s)))[i := v ! i] = take (Suc i) v @ drop (Suc i) (last (published s))"
    using store_byte(2,3) inv last_length [OF inv]
    by (auto simp: seqlock_inv_def list_update_append take_Suc_conv_app_nth Cons_nth_drop_Suc [symmetric])
  with store_byte inv show ?thesis
    by (auto simp: seqlock_inv_def returned_ok_def split: reader.splits)
next
  case (store_publish v seq i)
  have w: "seq = even_seq (length (published s) - 1)" "length v = n" "sl_data s = v"
    using store_publish(2,3) inv last_length [OF inv] by (auto simp: seqlock_inv_def)
  have "published s \<noteq> []" using inv by (simp add: seqlock_inv_def)
  then have "seq + 2 = even_seq (length (published s))"
    by (simp add: w even_seq_Suc)
  moreover have "reader_ok n s'"
  proof (cases "sl_reader s")
    case (R_Bytes seq0 tmp)
    then obtain k where "length tmp \<le> n" "k < length (published s)" "seq0 = even_seq k"
      using inv by (auto simp: seqlock_inv_def)
    with R_Bytes show ?thesis by (auto simp: store_publish(1) intro!: exI [of _ k])
  qed (simp add: store_publish(1))
  moreover have "returned_ok s'"
    using inv returned_ok_publish by (simp add: store_publish(1) seqlock_inv_def)
  ultimately show ?thesis
    using inv w by (simp add: store_publish(1) seqlock_inv_def)
qed

lemma idle_if_even:
  assumes "seqlock_inv n s" and "sl_seq s AND 1 = 0"
  shows "sl_writer s = W_Idle"
proof (cases "sl_writer s")
  case (W_Bytes v q i)
  with assms have "(even_seq (length (published s) - 1) + 1) AND 1 = 0"
    by (simp add: seqlock_inv_def)
  then show ?thesis by (simp only: even_seq_even) simp
qed simp

text \<open>A reader that sees its sequence number unchanged has read the value that is current.\<close>

lemma load_return_current:
  assumes inv: "seqlock_inv n s" and few: "length (published s) \<le> 2 ^ 63"
    and r: "sl_reader s = R_Bytes (sl_seq s) tmp" and len: "length tmp = length (sl_data s)"
  shows "tmp = last (published s)"
proof -
  obtain k where k: "k < length (published s)" "sl_seq s = even_seq k"
      and t: "Suc k = length (published s) \<longrightarrow> sl_writer s = W_Idle \<longrightarrow> tmp = take (length tmp) (last (published s))"
    using inv r by (auto simp: seqlock_inv_def)
  have idle: "sl_writer s = W_Idle"
    by (rule idle_if_even [OF inv]) (simp only: k(2) even_seq_even)
  then have "even_seq k = even_seq (length (published s) - 1)"
    using inv k(2) by (simp add: seqlock_inv_def)
  moreover have "k < 2 ^ 63" "length (published s) - 1 < 2 ^ 63"
    using k(1) few by linarith+
  ultimately have "k = length (published s) - 1" by (simp only: even_seq_inject)
  with k(1) idle t len data_length [OF inv] last_length [OF inv] show ?thesis by simp
qed

text \<open>One more byte read, and a value returned.\<close>

lemma load_byte_ok:
  assumes inv: "seqlock_inv n s" and r: "sl_reader s = R_Bytes seq0 tmp" and len: "length tmp < length (sl_data s)"
  shows "\<exists>k. k < length (published s) \<and> seq0 = even_seq k \<and> (Suc k = length (published s) \<longrightarrow> sl_writer s = W_Idle \<longrightarrow>
      tmp @ [sl_data s ! length tmp] = take (Suc (length tmp)) (last (published s)))"
proof -
  obtain k where k: "k < length (published s)" "seq0 = even_seq k"
    and t: "Suc k = length (published s) \<longrightarrow> sl_writer s = W_Idle \<longrightarrow> tmp = take (length tmp) (last (published s))"
    using inv r by (auto simp: seqlock_inv_def)
  have "tmp @ [sl_data s ! length tmp] = take (Suc (length tmp)) (last (published s))"
    if "Suc k = length (published s)" "sl_writer s = W_Idle"
  proof -
    have "sl_data s = last (published s)" using inv that(2) by (simp add: seqlock_inv_def)
    with t that len show ?thesis by (simp add: take_Suc_conv_app_nth)
  qed
  with k show ?thesis by blast
qed

lemma load_return_ok:
  assumes inv: "seqlock_inv n s" and new: "returned s' = returned s @ [(last (published s), length (published s) - 1)]"
    and same: "published s' = published s"
  shows "returned_ok s'"
proof -
  have ne: "published s \<noteq> []" and ok: "returned_ok s" using inv by (simp_all add: seqlock_inv_def)
  then have "\<forall>k \<in> set (map snd (returned s)). k \<le> length (published s) - 1"
    by (fastforce simp: returned_ok_def)
  with ok ne show ?thesis by (auto simp: new same returned_ok_def last_conv_nth sorted_append)
qed

lemma load_step_inv:
  assumes "load_step s s'" and inv: "seqlock_inv n s" and few: "length (published s) \<le> 2 ^ 63"
  shows "seqlock_inv n s'"
  using assms(1)
proof cases
  case load_odd
  with inv show ?thesis by simp
next
  case load_begin
  have ne: "published s \<noteq> []" using inv by (simp add: seqlock_inv_def)
  have "sl_seq s = even_seq (length (published s) - 1)"
    using idle_if_even [OF inv load_begin(3)] inv by (simp add: seqlock_inv_def)
  then have "reader_ok n s'"
    using ne by (auto simp: load_begin(1) intro!: exI [of _ "length (published s) - 1"])
  with inv show ?thesis
    by (simp add: load_begin(1) seqlock_inv_def returned_ok_def split: writer.splits)
next
  case (load_byte seq0 tmp)
  obtain k where "k < length (published s)" "seq0 = even_seq k" "Suc k = length (published s) \<longrightarrow> sl_writer s = W_Idle \<longrightarrow>
      tmp @ [sl_data s ! length tmp] = take (Suc (length tmp)) (last (published s))"
    using load_byte_ok [OF inv load_byte(2,3)] by blast
  then have "reader_ok n s'" using load_byte(3) data_length [OF inv] by (auto simp: load_byte(1) intro!: exI [of _ k])
  with inv show ?thesis
    by (simp add: load_byte(1) seqlock_inv_def returned_ok_def split: writer.splits)
next
  case load_retry
  with inv show ?thesis
    by (simp add: seqlock_inv_def returned_ok_def split: writer.splits)
next
  case (load_return seq0 tmp)
  have "tmp = last (published s)" using load_return_current [OF inv few] load_return by simp
  then have "returned_ok s'" by (intro load_return_ok [OF inv]) (simp_all add: load_return(1))
  with inv show ?thesis
    by (simp add: load_return(1) seqlock_inv_def split: writer.splits)
qed

lemma published_grows: "seqlock_step s s' \<Longrightarrow> length (published s) \<le> length (published s')"
  by (auto simp: seqlock_step_def elim!: store_step.cases load_step.cases)

lemma seqlock_steps_inv:
  assumes "seqlock_step\<^sup>*\<^sup>* (seqlock_init v) s" and "length (published s) \<le> 2 ^ 63"
  shows "seqlock_inv (length v) s"
  using assms
proof (induction rule: rtranclp_induct)
  case base
  then show ?case by (simp add: seqlock_init_inv)
next
  case (step s s')
  then have "length (published s) \<le> 2 ^ 63" using published_grows [of s s'] by linarith
  with step show ?case
    by (auto simp: seqlock_step_def dest: store_step_inv load_step_inv)
qed

text \<open>A reader that runs alone collects the bytes one after the other.\<close>

lemma load_bytes_alone:
  "sl_reader s = R_Bytes q (take i (sl_data s)) \<Longrightarrow> i \<le> length (sl_data s) \<Longrightarrow>
     load_step\<^sup>*\<^sup>* s (s\<lparr>sl_reader := R_Bytes q (sl_data s)\<rparr>)"
proof (induction "length (sl_data s) - i" arbitrary: s i)
  case 0
  then have "s\<lparr>sl_reader := R_Bytes q (sl_data s)\<rparr> = s" by (cases s) simp
  then show ?case by simp
next
  case (Suc m)
  then have i: "i < length (sl_data s)" by simp
  let ?s = "s\<lparr>sl_reader := R_Bytes q (take i (sl_data s) @ [sl_data s ! i])\<rparr>"
  have "load_step s ?s" using load_byte [of s q "take i (sl_data s)"] Suc.prems i by (simp add: min_def)
  moreover have "load_step\<^sup>*\<^sup>* ?s (?s\<lparr>sl_reader := R_Bytes q (sl_data ?s)\<rparr>)"
    by (rule Suc.hyps(1) [of _ "Suc i"]) (use Suc i in \<open>simp_all add: take_Suc_conv_app_nth\<close>)
  ultimately show ?case by (simp add: converse_rtranclp_into_rtranclp)
qed

lemma load_alone:
  assumes inv: "seqlock_inv n s" and w: "sl_writer s = W_Idle" and r: "sl_reader s = R_Idle"
  shows "load_step\<^sup>*\<^sup>* s (s\<lparr>returned := returned s @ [(last (published s), length (published s) - 1)]\<rparr>)"
proof -
  let ?s1 = "s\<lparr>sl_reader := R_Bytes (sl_seq s) []\<rparr>"
  let ?s2 = "s\<lparr>sl_reader := R_Bytes (sl_seq s) (sl_data s)\<rparr>"
  have d: "sl_data s = last (published s)" and q: "sl_seq s AND 1 = 0"
    using inv w even_seq_even(1) by (simp_all add: seqlock_inv_def)
  have 1: "load_step s ?s1" by (rule load_begin [OF r q])
  have 2: "load_step\<^sup>*\<^sup>* ?s1 ?s2" using load_bytes_alone [of ?s1 "sl_seq s" 0] by simp
  have "s\<lparr>returned := returned s @ [(last (published s), length (published s) - 1)]\<rparr>
      = ?s2\<lparr>sl_reader := R_Idle, returned := returned ?s2 @ [(sl_data s, length (published ?s2) - 1)]\<rparr>"
    using r d by (cases s) simp
  then have 3: "load_step ?s2 (s\<lparr>returned := returned s @ [(last (published s), length (published s) - 1)]\<rparr>)"
    using load_return [of ?s2 "sl_seq s" "sl_data s"] by (simp del: One_nat_def)
  from 1 2 3 show ?thesis
    by (meson converse_rtranclp_into_rtranclp rtranclp.rtrancl_into_rtrancl)
qed

subsection \<open>Properties\<close>

text \<open>C12: As long as fewer than \<open>2\<^sup>6\<^sup>3\<close> stores were made, every value a \<^verbatim>\<open>load\<close> returned is, byte for byte, the
  value that was current when it returned: no torn read, and no reader ever goes back in time.\<close>

theorem seqlock_no_torn_read:
  assumes "seqlock_step\<^sup>*\<^sup>* (seqlock_init v) s" and "length (published s) \<le> 2 ^ 63"
  shows "(\<forall>(x, k) \<in> set (returned s). k < length (published s) \<and> x = published s ! k) \<and>
    sorted (map snd (returned s))"
  using seqlock_steps_inv [OF assms] by (simp add: seqlock_inv_def returned_ok_def)

theorem seqlock_no_torn_read_witness:
  "\<exists>s. returned s = [([1, 2], 0)] \<and> published s ! 0 = [1, 2] \<and> seqlock_step\<^sup>*\<^sup>* (seqlock_init [1, 2]) s"
proof -
  let ?i = "seqlock_init [1, 2]"
  let ?s = "?i\<lparr>returned := returned ?i @ [(last (published ?i), length (published ?i) - 1)]\<rparr>"
  have "load_step\<^sup>*\<^sup>* ?i ?s"
    by (rule load_alone [OF seqlock_init_inv]) (simp_all add: seqlock_init_def)
  then have s: "seqlock_step\<^sup>*\<^sup>* ?i ?s"
    by (rule rtranclp_mono [THEN predicate2D, rotated]) (auto simp: seqlock_step_def)
  have f: "returned ?s = [([1, 2], 0)]" "length (published ?s) \<le> 2 ^ 63" by (simp_all add: seqlock_init_def)
  from seqlock_no_torn_read [OF s f(2)] have "published ?s ! 0 = [1, 2]" by (auto simp: seqlock_init_def)
  with s f(1) show ?thesis by blast
qed

text \<open>C34: A \<^verbatim>\<open>load\<close> that is not overtaken by a writer returns: from every reachable state with the writer
  idle, the reader running alone returns the last published value.\<close>

theorem seqlock_load_returns:
  assumes "seqlock_step\<^sup>*\<^sup>* (seqlock_init v) s" and "length (published s) \<le> 2 ^ 63"
    and "sl_writer s = W_Idle" and "sl_reader s = R_Idle"
  shows "\<exists>s'. load_step\<^sup>*\<^sup>* s s' \<and> returned s' = returned s @ [(last (published s), length (published s) - 1)]"
proof (intro exI conjI)
  show "load_step\<^sup>*\<^sup>* s (s\<lparr>returned := returned s @ [(last (published s), length (published s) - 1)]\<rparr>)"
    by (rule load_alone [OF seqlock_steps_inv [OF assms(1,2)] assms(3,4)])
qed simp

theorem seqlock_load_returns_witness:
  "\<exists>s'. load_step\<^sup>*\<^sup>* (seqlock_init [7]) s' \<and> returned s' = [([7], 0)]"
  using seqlock_load_returns [OF rtranclp.rtrancl_refl, of "[7]"] by (simp add: seqlock_init_def)

end
