(* ===== verification/Stress_Test.thy ===== *)
theory Stress_Test
  imports Spsc_Concurrent Seqlock C_Library
begin

text \<open>
  The concurrency stress program (\<^verbatim>\<open>stress/spsc_tsan_stress.cpp\<close>): a producer and a consumer on a ring of 1024
  slots, a writer and a reader on a sequence lock, and the main thread, which sets the stop flag and judges the
  counters after joining the others. The threads interleave at every access to shared memory, with the step
  relations of \<open>Spsc_Concurrent\<close> and \<open>Seqlock\<close> inside the calls. Every counter is written by one thread and read by
  the main thread after the join, so it changes with the step in which the call returns. \<open>little\<close> is the byte
  order of the host, \<open>SENSORFORGE_STRESS_SECONDS\<close> an argument.
\<close>

subsection \<open>Data\<close>

record Item =
  it_seq :: u64
  it_checksum :: u64

definition stress_item :: "u64 \<Rightarrow> Item" where
  "stress_item seq = \<lparr>it_seq = seq, it_checksum = seq * 2654435761\<rparr>"

definition Item_init :: Item where "Item_init = \<lparr>it_seq = 0, it_checksum = 0\<rparr>"

record Config =
  cf_rate_hz :: u64
  cf_delay_ns :: u64
  cf_guard :: u64

definition stress_config :: "u64 \<Rightarrow> Config" where
  "stress_config r = \<lparr>cf_rate_hz = r, cf_delay_ns = r * 3, cf_guard = r + r * 3\<rparr>"

text \<open>The bytes of an object in memory.\<close>

definition host64 :: "bool \<Rightarrow> u64 \<Rightarrow> bytes" where
  "host64 little v = (if little then le_bytes 8 v else rev (le_bytes 8 v))"

definition host_word :: "bool \<Rightarrow> bytes \<Rightarrow> u64" where
  "host_word little bs = le_word (if little then bs else rev bs)"

definition config_bytes :: "bool \<Rightarrow> Config \<Rightarrow> bytes" where
  "config_bytes little c = host64 little (cf_rate_hz c) @ host64 little (cf_delay_ns c) @ host64 little (cf_guard c)"

definition config_of :: "bool \<Rightarrow> bytes \<Rightarrow> Config" where
  "config_of little bs = \<lparr>cf_rate_hz = host_word little (take 8 bs),
     cf_delay_ns = host_word little (take 8 (drop 8 bs)), cf_guard = host_word little (take 8 (drop 16 bs))\<rparr>"

definition stress_seconds :: "string option \<Rightarrow> int option" where
  "stress_seconds env = (case env of
     Some s \<Rightarrow> (case atoi s of None \<Rightarrow> None | Some v \<Rightarrow> if v > 0 then Some v else Some 60)
   | None \<Rightarrow> Some 60)"

subsection \<open>Threads\<close>

text \<open>A worker thread tests the stop flag, is inside its call, or has returned from its function.\<close>

datatype worker = Testing | Calling | Exited

record stress =
  sx_ring :: "Item conc"
  sx_cfg :: seqlock
  sx_stop :: bool
  sx_producer :: worker
  sx_consumer :: worker
  sx_writer :: worker
  sx_reader :: worker
  sx_seq :: u64
  sx_produced :: u64
  sx_consumed :: u64
  sx_mismatches :: u64
  sx_r :: u64
  sx_torn_reads :: u64

definition stress_init :: "bool \<Rightarrow> stress" where
  "stress_init little = \<lparr>sx_ring = conc_init 1024 Item_init,
     sx_cfg = seqlock_init (config_bytes little \<lparr>cf_rate_hz = 100, cf_delay_ns = 0, cf_guard = 100 + 0\<rparr>),
     sx_stop = False, sx_producer = Testing, sx_consumer = Testing, sx_writer = Testing, sx_reader = Testing,
     sx_seq = 0, sx_produced = 0, sx_consumed = 0, sx_mismatches = 0, sx_r = 100, sx_torn_reads = 0\<rparr>"

text \<open>What a call has returned after a step from one state of the ring or the lock to the next: nothing yet, or its
  result.\<close>

definition push_result :: "'a conc \<Rightarrow> 'a conc \<Rightarrow> bool option" where
  "push_result c c' = (case cc_prod c' of
     P_Idle \<Rightarrow> Some (case cc_prod c of P_Publish _ _ \<Rightarrow> True | _ \<Rightarrow> False)
   | _ \<Rightarrow> None)"

definition pop_result :: "'a conc \<Rightarrow> 'a conc \<Rightarrow> 'a option option" where
  "pop_result c c' = (case cc_cons c' of
     C_Idle \<Rightarrow> Some (case cc_cons c of C_Publish out _ \<Rightarrow> Some out | _ \<Rightarrow> None)
   | _ \<Rightarrow> None)"

definition load_result :: "seqlock \<Rightarrow> bytes option" where
  "load_result s = (case sl_reader s of
     R_Bytes seq0 tmp \<Rightarrow> if length tmp = length (sl_data s) \<and> sl_seq s = seq0 then Some tmp else None
   | R_Idle \<Rightarrow> None)"

text \<open>The argument of the call in progress.\<close>

fun pushing :: "'a \<Rightarrow> 'a producer \<Rightarrow> bool" where
  "pushing x P_Idle = True"
| "pushing x (P_Write y h nxt) = (y = x)"
| "pushing x (P_Publish y nxt) = (y = x)"

fun storing :: "bytes \<Rightarrow> writer \<Rightarrow> bool" where
  "storing v W_Idle = True"
| "storing v (W_Bytes w seq i) = (w = v)"

definition after_push :: "bool option \<Rightarrow> stress \<Rightarrow> stress" where
  "after_push res s = (case res of
     None \<Rightarrow> s
   | Some True \<Rightarrow> s\<lparr>sx_seq := sx_seq s + 1, sx_produced := sx_seq s + 1, sx_producer := Testing\<rparr>
   | Some False \<Rightarrow> s\<lparr>sx_producer := Testing\<rparr>)"

definition after_pop :: "Item option option \<Rightarrow> stress \<Rightarrow> stress" where
  "after_pop res s = (case res of
     None \<Rightarrow> s
   | Some None \<Rightarrow> s\<lparr>sx_consumer := Testing\<rparr>
   | Some (Some it) \<Rightarrow> s\<lparr>
       sx_mismatches := sx_mismatches s + (if it_checksum it \<noteq> it_seq it * 2654435761 then 1 else 0),
       sx_consumed := sx_consumed s + 1, sx_consumer := Testing\<rparr>)"

definition after_store :: "stress \<Rightarrow> stress" where
  "after_store s = (if sl_writer (sx_cfg s) = W_Idle then s\<lparr>sx_r := sx_r s + 1, sx_writer := Testing\<rparr> else s)"

definition after_load :: "bool \<Rightarrow> bytes option \<Rightarrow> stress \<Rightarrow> stress" where
  "after_load little res s = (case res of
     None \<Rightarrow> s
   | Some bs \<Rightarrow> (let c = config_of little bs in s\<lparr>
       sx_torn_reads := sx_torn_reads s + (if cf_guard c \<noteq> cf_rate_hz c + cf_delay_ns c then 1 else 0),
       sx_reader := Testing\<rparr>))"

definition test_stop :: "stress \<Rightarrow> worker" where
  "test_stop s = (if sx_stop s then Exited else Calling)"

inductive stress_step :: "bool \<Rightarrow> stress \<Rightarrow> stress \<Rightarrow> bool" for little where
  producer_test: "sx_producer s = Testing \<Longrightarrow> stress_step little s (s\<lparr>sx_producer := test_stop s\<rparr>)"
| producer_push: "\<lbrakk>sx_producer s = Calling; push_step (sx_ring s) c; pushing (stress_item (sx_seq s)) (cc_prod c)\<rbrakk>
    \<Longrightarrow> stress_step little s (after_push (push_result (sx_ring s) c) (s\<lparr>sx_ring := c\<rparr>))"
| consumer_test: "sx_consumer s = Testing \<Longrightarrow> stress_step little s (s\<lparr>sx_consumer := test_stop s\<rparr>)"
| consumer_pop: "\<lbrakk>sx_consumer s = Calling; pop_step id (sx_ring s) c\<rbrakk>
    \<Longrightarrow> stress_step little s (after_pop (pop_result (sx_ring s) c) (s\<lparr>sx_ring := c\<rparr>))"
| writer_test: "sx_writer s = Testing \<Longrightarrow> stress_step little s (s\<lparr>sx_writer := test_stop s\<rparr>)"
| writer_store: "\<lbrakk>sx_writer s = Calling; store_step (sx_cfg s) l; storing (config_bytes little (stress_config (sx_r s))) (sl_writer l)\<rbrakk>
    \<Longrightarrow> stress_step little s (after_store (s\<lparr>sx_cfg := l\<rparr>))"
| reader_test: "sx_reader s = Testing \<Longrightarrow> stress_step little s (s\<lparr>sx_reader := test_stop s\<rparr>)"
| reader_load: "\<lbrakk>sx_reader s = Calling; load_step (sx_cfg s) l\<rbrakk>
    \<Longrightarrow> stress_step little s (after_load little (load_result (sx_cfg s)) (s\<lparr>sx_cfg := l\<rparr>))"
| main_stop: "stress_step little s (s\<lparr>sx_stop := True\<rparr>)"

definition all_joined :: "stress \<Rightarrow> bool" where
  "all_joined s \<longleftrightarrow> sx_producer s = Exited \<and> sx_consumer s = Exited \<and> sx_writer s = Exited \<and> sx_reader s = Exited"

definition stress_status :: "stress \<Rightarrow> int" where
  "stress_status s = (if sx_mismatches s \<noteq> 0 \<or> sx_torn_reads s \<noteq> 0 then 1 else 0)"

text \<open>What the main thread prints.\<close>

definition stress_output :: "stress \<Rightarrow> string list" where
  "stress_output s =
     [''[STRESS] produced='' @ decimal (unat (sx_produced s)) @ '' consumed='' @ decimal (unat (sx_consumed s)) @
        '' ring_mismatches='' @ decimal (unat (sx_mismatches s)) @ '' torn_seqlock_reads='' @ decimal (unat (sx_torn_reads s)),
      if stress_status s \<noteq> 0 then ''[STRESS] FAIL: data corruption detected''
      else ''[STRESS] PASS: no corruption (run under TSan to check for races)'']"

subsection \<open>Effects of the calls\<close>

lemma push_step_effect:
  "push_step c c' \<Longrightarrow> pushing x (cc_prod c) \<Longrightarrow> pushing x (cc_prod c') \<Longrightarrow>
     accepted c' = accepted c @ (if push_result c c' = Some True then [x] else []) \<and>
     delivered c' = delivered c \<and> cc_cons c' = cc_cons c \<and> (cc_prod c' = P_Idle \<longleftrightarrow> push_result c c' \<noteq> None)"
  by (erule push_step.cases) (auto simp: push_result_def)

lemma pop_step_effect:
  "pop_step moved c c' \<Longrightarrow> accepted c' = accepted c \<and> cc_prod c' = cc_prod c \<and>
     delivered c' = delivered c @ (case pop_result c c' of Some (Some x) \<Rightarrow> [x] | _ \<Rightarrow> []) \<and>
     (cc_cons c' = C_Idle \<longleftrightarrow> pop_result c c' \<noteq> None)"
  by (erule pop_step.cases) (auto simp: pop_result_def)

lemma store_step_effect:
  "store_step l l' \<Longrightarrow> storing v (sl_writer l) \<Longrightarrow> storing v (sl_writer l') \<Longrightarrow>
     published l' = published l @ (if sl_writer l' = W_Idle then [v] else []) \<and> sl_reader l' = sl_reader l"
  by (erule store_step.cases) auto

lemma load_step_effect:
  "load_step l l' \<Longrightarrow> published l' = published l \<and> sl_writer l' = sl_writer l \<and>
     (load_result l \<noteq> None \<longrightarrow> sl_reader l' = R_Idle)"
  by (erule load_step.cases) (auto simp: load_result_def)

lemma load_result_current:
  assumes "seqlock_inv n l" and "length (published l) \<le> 2 ^ 63" and "load_result l = Some bs"
  shows "bs = last (published l)"
  using assms load_return_current [OF assms(1,2)]
  by (auto simp: load_result_def split: reader.splits if_splits)

lemma host64_length [simp]: "length (host64 little v) = 8"
  by (simp add: host64_def)

lemma host64_roundtrip [simp]: "host_word little (host64 little v) = v"
  by (simp add: host64_def host_word_def le_word_le_bytes)

lemma config_roundtrip [simp]: "config_of little (config_bytes little c) = c"
  by (simp add: config_of_def config_bytes_def)

lemma config_bytes_length [simp]: "length (config_bytes little c) = 24"
  by (simp add: config_bytes_def)

subsection \<open>Invariants\<close>

text \<open>The producer has pushed the items in order and counted them.\<close>

definition producer_inv :: "stress \<Rightarrow> bool" where
  "producer_inv s \<longleftrightarrow> (let n = length (accepted (sx_ring s)) in
     accepted (sx_ring s) = map (\<lambda>i. stress_item (word_of_nat i)) [0..<n] \<and>
     sx_seq s = word_of_nat n \<and> sx_produced s = word_of_nat n) \<and>
     pushing (stress_item (sx_seq s)) (cc_prod (sx_ring s)) \<and>
     (cc_prod (sx_ring s) \<noteq> P_Idle \<longrightarrow> sx_producer s = Calling)"

definition consumer_inv :: "stress \<Rightarrow> bool" where
  "consumer_inv s \<longleftrightarrow> sx_consumed s = word_of_nat (length (delivered (sx_ring s))) \<and> sx_mismatches s = 0 \<and>
     (cc_cons (sx_ring s) \<noteq> C_Idle \<longrightarrow> sx_consumer s = Calling)"

definition config_ok :: "bool \<Rightarrow> bytes \<Rightarrow> bool" where
  "config_ok little bs \<longleftrightarrow> (let c = config_of little bs in cf_guard c = cf_rate_hz c + cf_delay_ns c)"

definition lock_inv :: "bool \<Rightarrow> stress \<Rightarrow> bool" where
  "lock_inv little s \<longleftrightarrow> seqlock_inv 24 (sx_cfg s) \<and> list_all (config_ok little) (published (sx_cfg s)) \<and>
     storing (config_bytes little (stress_config (sx_r s))) (sl_writer (sx_cfg s)) \<and> sx_torn_reads s = 0 \<and>
     (sl_writer (sx_cfg s) \<noteq> W_Idle \<longrightarrow> sx_writer s = Calling) \<and>
     (sl_reader (sx_cfg s) \<noteq> R_Idle \<longrightarrow> sx_reader s = Calling)"

definition stress_inv :: "bool \<Rightarrow> stress \<Rightarrow> bool" where
  "stress_inv little s \<longleftrightarrow> conc_inv 1024 (sx_ring s) \<and> producer_inv s \<and> consumer_inv s \<and> lock_inv little s"

lemma stress_config_ok [simp]: "config_ok little (config_bytes little (stress_config r))"
  by (simp add: config_ok_def stress_config_def)

lemma stress_init_inv: "stress_inv little (stress_init little)"
proof -
  have "conc_inv 1024 (conc_init 1024 Item_init)"
    by (rule conc_init_inv) (simp add: ring_static_asserts_def)
  moreover have "seqlock_inv 24 (seqlock_init (config_bytes little c))" for c
    using seqlock_init_inv [of "config_bytes little c"] by simp
  ultimately show ?thesis
    by (simp add: stress_inv_def producer_inv_def consumer_inv_def lock_inv_def stress_init_def conc_init_def
        seqlock_init_def config_ok_def)
qed

lemma push_inv:
  assumes inv: "stress_inv little s" and call: "sx_producer s = Calling"
    and step: "push_step (sx_ring s) c" and item: "pushing (stress_item (sx_seq s)) (cc_prod c)"
  shows "stress_inv little (after_push (push_result (sx_ring s) c) (s\<lparr>sx_ring := c\<rparr>))"
proof -
  have old: "pushing (stress_item (sx_seq s)) (cc_prod (sx_ring s))"
    using inv unfolding stress_inv_def producer_inv_def by blast
  note e = push_step_effect [OF step old item]
  have c: "conc_inv 1024 c" using inv by (auto simp: stress_inv_def intro: push_step_inv [OF step])
  show ?thesis
    using inv e c call item
    by (auto simp: stress_inv_def producer_inv_def consumer_inv_def lock_inv_def after_push_def Let_def
        split: option.splits bool.splits)
qed

lemma delivered_item:
  assumes "conc_inv n c" and "accepted c = map (\<lambda>i. stress_item (word_of_nat i)) [0..<k]" and "it \<in> set (delivered c)"
  shows "it_checksum it = it_seq it * 2654435761"
proof -
  have "it \<in> set (accepted c)" using assms(1,3) by (auto simp: conc_inv_def)
  with assms(2) show ?thesis by (auto simp: stress_item_def)
qed

lemma pop_inv:
  assumes inv: "stress_inv little s" and call: "sx_consumer s = Calling" and step: "pop_step id (sx_ring s) c"
  shows "stress_inv little (after_pop (pop_result (sx_ring s) c) (s\<lparr>sx_ring := c\<rparr>))"
proof -
  note e = pop_step_effect [OF step]
  have c: "conc_inv 1024 c" using inv by (auto simp: stress_inv_def intro: pop_step_inv [OF step])
  have acc: "accepted c = map (\<lambda>i. stress_item (word_of_nat i)) [0..<length (accepted c)]"
    using inv e by (simp add: stress_inv_def producer_inv_def Let_def)
  have "it_checksum it = it_seq it * 2654435761" if "pop_result (sx_ring s) c = Some (Some it)" for it
    using that e by (intro delivered_item [OF c acc]) simp
  with inv e c call show ?thesis
    by (auto simp: stress_inv_def producer_inv_def consumer_inv_def lock_inv_def after_pop_def Let_def
        split: option.splits)
qed

lemma store_inv:
  assumes inv: "stress_inv little s" and call: "sx_writer s = Calling"
    and step: "store_step (sx_cfg s) l" and v: "storing (config_bytes little (stress_config (sx_r s))) (sl_writer l)"
  shows "stress_inv little (after_store (s\<lparr>sx_cfg := l\<rparr>))"
proof -
  have old: "storing (config_bytes little (stress_config (sx_r s))) (sl_writer (sx_cfg s))"
    using inv by (simp add: stress_inv_def lock_inv_def)
  note e = store_step_effect [OF step old v]
  have l: "seqlock_inv 24 l" using inv by (auto simp: stress_inv_def lock_inv_def intro: store_step_inv [OF step])
  show ?thesis
    using inv e l call v
    by (auto simp: stress_inv_def producer_inv_def consumer_inv_def lock_inv_def after_store_def Let_def)
qed

lemma load_inv:
  assumes inv: "stress_inv little s" and call: "sx_reader s = Calling" and step: "load_step (sx_cfg s) l"
    and few: "length (published (sx_cfg s)) \<le> 2 ^ 63"
  shows "stress_inv little (after_load little (load_result (sx_cfg s)) (s\<lparr>sx_cfg := l\<rparr>))"
proof -
  have old: "seqlock_inv 24 (sx_cfg s)" using inv by (simp add: stress_inv_def lock_inv_def)
  note e = load_step_effect [OF step] and l = load_step_inv [OF step old few]
  have "published (sx_cfg s) \<noteq> []" using old by (simp add: seqlock_inv_def)
  then have "config_ok little bs" if "load_result (sx_cfg s) = Some bs" for bs
    using load_result_current [OF old few that] inv by (simp add: stress_inv_def lock_inv_def list.pred_set)
  with inv e l call show ?thesis
    by (auto simp: stress_inv_def producer_inv_def consumer_inv_def lock_inv_def after_load_def config_ok_def Let_def
        split: option.splits)
qed

lemma stress_step_inv:
  assumes "stress_step little s s'" and inv: "stress_inv little s" and few: "length (published (sx_cfg s)) \<le> 2 ^ 63"
  shows "stress_inv little s'"
  using assms(1)
proof cases
  case (producer_push c)
  then show ?thesis using push_inv [OF inv] by simp
next
  case (consumer_pop c)
  then show ?thesis using pop_inv [OF inv] by simp
next
  case (writer_store l)
  then show ?thesis using store_inv [OF inv] by simp
next
  case (reader_load l)
  then show ?thesis using load_inv [OF inv _ _ few] by simp
qed (use inv in \<open>auto simp: stress_inv_def producer_inv_def consumer_inv_def lock_inv_def Let_def\<close>)

lemma stress_published_grows: "stress_step little s s' \<Longrightarrow> length (published (sx_cfg s)) \<le> length (published (sx_cfg s'))"
proof (induction rule: stress_step.induct)
  case (writer_store s l)
  then show ?case using published_grows [of "sx_cfg s" l] by (simp add: seqlock_step_def after_store_def)
next
  case (reader_load s l)
  then show ?case using published_grows [of "sx_cfg s" l] by (simp add: seqlock_step_def after_load_def Let_def split: option.splits)
qed (auto simp: after_push_def after_pop_def split: option.splits bool.splits)

lemma stress_steps_inv:
  assumes "(stress_step little)\<^sup>*\<^sup>* (stress_init little) s" and "length (published (sx_cfg s)) \<le> 2 ^ 63"
  shows "stress_inv little s"
  using assms
proof (induction rule: rtranclp_induct)
  case base
  then show ?case by (simp add: stress_init_inv)
next
  case (step s s')
  then have "length (published (sx_cfg s)) \<le> 2 ^ 63" using stress_published_grows [of little s s'] by linarith
  with step show ?case by (blast intro: stress_step_inv)
qed

subsection \<open>Every thread can return\<close>

lemma producer_publishes:
  assumes "sx_producer s = Calling" and "cc_prod (sx_ring s) = P_Publish (stress_item (sx_seq s)) nxt"
  shows "\<exists>c sq pr. stress_step little s (s\<lparr>sx_ring := c, sx_seq := sq, sx_produced := pr, sx_producer := Testing\<rparr>)"
  using producer_push [OF assms(1) push_publish [OF assms(2)], of little] assms(2)
  by (auto simp: after_push_def push_result_def)

lemma producer_writes:
  assumes "sx_producer s = Calling" and "cc_prod (sx_ring s) = P_Write (stress_item (sx_seq s)) h nxt"
  shows "\<exists>c sq pr. (stress_step little)\<^sup>*\<^sup>* s (s\<lparr>sx_ring := c, sx_seq := sq, sx_produced := pr, sx_producer := Testing\<rparr>)"
proof -
  obtain c where c: "push_step (sx_ring s) c" "cc_prod c = P_Publish (stress_item (sx_seq s)) nxt"
    using push_write [OF assms(2)] by fastforce
  then have 1: "stress_step little s (s\<lparr>sx_ring := c\<rparr>)"
    using producer_push [OF assms(1) c(1), of little] by (simp add: after_push_def push_result_def)
  obtain c' sq pr where "stress_step little (s\<lparr>sx_ring := c\<rparr>)
      (s\<lparr>sx_ring := c', sx_seq := sq, sx_produced := pr, sx_producer := Testing\<rparr>)"
    using producer_publishes [of "s\<lparr>sx_ring := c\<rparr>" nxt little] assms(1) c(2) by auto
  with 1 show ?thesis by (meson converse_rtranclp_into_rtranclp r_into_rtranclp)
qed

lemma producer_returns:
  assumes call: "sx_producer s = Calling" and item: "pushing (stress_item (sx_seq s)) (cc_prod (sx_ring s))"
  shows "\<exists>c sq pr. (stress_step little)\<^sup>*\<^sup>* s (s\<lparr>sx_ring := c, sx_seq := sq, sx_produced := pr, sx_producer := Testing\<rparr>)"
proof (cases "cc_prod (sx_ring s)")
  case P_Idle
  let ?nxt = "(rg_head (cc_ring (sx_ring s)) + 1) AND kMask (cc_ring (sx_ring s))"
  show ?thesis
  proof (cases "?nxt = rg_tail (cc_ring (sx_ring s))")
    case True
    have "stress_step little s (s\<lparr>sx_ring := sx_ring s, sx_seq := sx_seq s, sx_produced := sx_produced s, sx_producer := Testing\<rparr>)"
      using producer_push [OF call push_full [OF P_Idle True], of little] P_Idle by (simp add: after_push_def push_result_def)
    then show ?thesis by (blast intro: r_into_rtranclp)
  next
    case False
    obtain c h where c: "push_step (sx_ring s) c" "cc_prod c = P_Write (stress_item (sx_seq s)) h ?nxt"
      using push_begin [OF P_Idle refl False, of "stress_item (sx_seq s)"] by fastforce
    then have 1: "stress_step little s (s\<lparr>sx_ring := c\<rparr>)"
      using producer_push [OF call c(1), of little] by (simp add: after_push_def push_result_def)
    obtain c' sq pr where "(stress_step little)\<^sup>*\<^sup>* (s\<lparr>sx_ring := c\<rparr>)
        (s\<lparr>sx_ring := c', sx_seq := sq, sx_produced := pr, sx_producer := Testing\<rparr>)"
      using producer_writes [of "s\<lparr>sx_ring := c\<rparr>" h ?nxt little] call c(2) by auto
    with 1 show ?thesis by (meson converse_rtranclp_into_rtranclp)
  qed
next
  case (P_Write x h nxt)
  with item show ?thesis using producer_writes [OF call] by simp
next
  case (P_Publish x nxt)
  with item show ?thesis using producer_publishes [OF call, of nxt little] by (auto intro: r_into_rtranclp)
qed

lemma producer_exits:
  assumes "sx_stop s" and item: "pushing (stress_item (sx_seq s)) (cc_prod (sx_ring s))"
  shows "\<exists>c sq pr. (stress_step little)\<^sup>*\<^sup>* s (s\<lparr>sx_ring := c, sx_seq := sq, sx_produced := pr, sx_producer := Exited\<rparr>)"
proof -
  have test: "stress_step little s' (s'\<lparr>sx_producer := Exited\<rparr>)" if "sx_producer s' = Testing" "sx_stop s'" for s'
    using producer_test [OF that(1), of little] that(2) by (simp add: test_stop_def)
  show ?thesis
  proof (cases "sx_producer s")
    case Testing
    from test [OF this assms(1)]
    have "(stress_step little)\<^sup>*\<^sup>* s (s\<lparr>sx_ring := sx_ring s, sx_seq := sx_seq s, sx_produced := sx_produced s, sx_producer := Exited\<rparr>)"
      by simp
    then show ?thesis by blast
  next
    case Calling
    then obtain c sq pr where
      1: "(stress_step little)\<^sup>*\<^sup>* s (s\<lparr>sx_ring := c, sx_seq := sq, sx_produced := pr, sx_producer := Testing\<rparr>)"
      using producer_returns [OF _ item] by blast
    have "stress_step little (s\<lparr>sx_ring := c, sx_seq := sq, sx_produced := pr, sx_producer := Testing\<rparr>)
        (s\<lparr>sx_ring := c, sx_seq := sq, sx_produced := pr, sx_producer := Exited\<rparr>)"
      using test [of "s\<lparr>sx_ring := c, sx_seq := sq, sx_produced := pr, sx_producer := Testing\<rparr>"] assms(1) by simp
    with 1 show ?thesis by (meson rtranclp.rtrancl_into_rtrancl)
  next
    case Exited
    then have "s = s\<lparr>sx_ring := sx_ring s, sx_seq := sx_seq s, sx_produced := sx_produced s, sx_producer := Exited\<rparr>" by simp
    then show ?thesis by (metis rtranclp.rtrancl_refl)
  qed
qed

lemma consumer_returns:
  assumes call: "sx_consumer s = Calling"
  shows "\<exists>c mm n. (stress_step little)\<^sup>*\<^sup>* s (s\<lparr>sx_ring := c, sx_mismatches := mm, sx_consumed := n, sx_consumer := Testing\<rparr>)"
proof -
  have publish: "\<exists>c mm n. stress_step little s (s\<lparr>sx_ring := c, sx_mismatches := mm, sx_consumed := n, sx_consumer := Testing\<rparr>)"
    if "sx_consumer s = Calling" "cc_cons (sx_ring s) = C_Publish out t" for s out t
    using consumer_pop [OF that(1) pop_publish [OF that(2)], of little] that(2)
    by (auto simp: after_pop_def pop_result_def)
  have read: "\<exists>c mm n. (stress_step little)\<^sup>*\<^sup>* s (s\<lparr>sx_ring := c, sx_mismatches := mm, sx_consumed := n, sx_consumer := Testing\<rparr>)"
    if at: "sx_consumer s = Calling" "cc_cons (sx_ring s) = C_Read t" for s t
  proof -
    obtain c out where c: "pop_step id (sx_ring s) c" "cc_cons c = C_Publish out t"
      using pop_read [OF at(2) refl, of id] by fastforce
    then have 1: "stress_step little s (s\<lparr>sx_ring := c\<rparr>)"
      using consumer_pop [OF at(1) c(1), of little] by (simp add: after_pop_def pop_result_def)
    from publish [of "s\<lparr>sx_ring := c\<rparr>"] at(1) c(2) obtain c' mm n where
      "stress_step little (s\<lparr>sx_ring := c\<rparr>) (s\<lparr>sx_ring := c', sx_mismatches := mm, sx_consumed := n, sx_consumer := Testing\<rparr>)"
      by auto
    with 1 show ?thesis by (meson converse_rtranclp_into_rtranclp r_into_rtranclp)
  qed
  show ?thesis
  proof (cases "cc_cons (sx_ring s)")
    case C_Idle
    show ?thesis
    proof (cases "rg_tail (cc_ring (sx_ring s)) = rg_head (cc_ring (sx_ring s))")
      case True
      have "stress_step little s (s\<lparr>sx_ring := sx_ring s, sx_mismatches := sx_mismatches s, sx_consumed := sx_consumed s, sx_consumer := Testing\<rparr>)"
        using consumer_pop [OF call pop_empty [OF C_Idle True], of little] C_Idle by (simp add: after_pop_def pop_result_def)
      then show ?thesis by (blast intro: r_into_rtranclp)
    next
      case False
      obtain c t where c: "pop_step id (sx_ring s) c" "cc_cons c = C_Read t"
        using pop_begin [OF C_Idle False, of id] by fastforce
      then have 1: "stress_step little s (s\<lparr>sx_ring := c\<rparr>)"
        using consumer_pop [OF call c(1), of little] by (simp add: after_pop_def pop_result_def)
      from read [of "s\<lparr>sx_ring := c\<rparr>" t] call c(2) obtain c' mm n where
        "(stress_step little)\<^sup>*\<^sup>* (s\<lparr>sx_ring := c\<rparr>) (s\<lparr>sx_ring := c', sx_mismatches := mm, sx_consumed := n, sx_consumer := Testing\<rparr>)"
        by auto
      with 1 show ?thesis by (meson converse_rtranclp_into_rtranclp)
    qed
  qed (use read publish call in \<open>blast intro: r_into_rtranclp\<close>)+
qed

lemma consumer_exits:
  assumes "sx_stop s"
  shows "\<exists>c mm n. (stress_step little)\<^sup>*\<^sup>* s (s\<lparr>sx_ring := c, sx_mismatches := mm, sx_consumed := n, sx_consumer := Exited\<rparr>)"
proof -
  have test: "stress_step little s' (s'\<lparr>sx_consumer := Exited\<rparr>)" if "sx_consumer s' = Testing" "sx_stop s'" for s'
    using consumer_test [OF that(1), of little] that(2) by (simp add: test_stop_def)
  show ?thesis
  proof (cases "sx_consumer s")
    case Testing
    from test [OF this assms(1)]
    have "(stress_step little)\<^sup>*\<^sup>* s (s\<lparr>sx_ring := sx_ring s, sx_mismatches := sx_mismatches s, sx_consumed := sx_consumed s, sx_consumer := Exited\<rparr>)"
      by simp
    then show ?thesis by blast
  next
    case Calling
    then obtain c mm n where
      1: "(stress_step little)\<^sup>*\<^sup>* s (s\<lparr>sx_ring := c, sx_mismatches := mm, sx_consumed := n, sx_consumer := Testing\<rparr>)"
      using consumer_returns by blast
    have "stress_step little (s\<lparr>sx_ring := c, sx_mismatches := mm, sx_consumed := n, sx_consumer := Testing\<rparr>)
        (s\<lparr>sx_ring := c, sx_mismatches := mm, sx_consumed := n, sx_consumer := Exited\<rparr>)"
      using test [of "s\<lparr>sx_ring := c, sx_mismatches := mm, sx_consumed := n, sx_consumer := Testing\<rparr>"] assms(1) by simp
    with 1 show ?thesis by (meson rtranclp.rtrancl_into_rtrancl)
  next
    case Exited
    then have "s = s\<lparr>sx_ring := sx_ring s, sx_mismatches := sx_mismatches s, sx_consumed := sx_consumed s, sx_consumer := Exited\<rparr>" by simp
    then show ?thesis by (metis rtranclp.rtrancl_refl)
  qed
qed

lemma writer_bytes:
  assumes "sx_writer s = Calling" and "sl_writer (sx_cfg s) = W_Bytes (config_bytes little (stress_config (sx_r s))) q i"
    and "i \<le> 24"
  shows "\<exists>l r. (stress_step little)\<^sup>*\<^sup>* s (s\<lparr>sx_cfg := l, sx_r := r, sx_writer := Testing\<rparr>) \<and>
    sl_writer l = W_Idle \<and> length (published l) = Suc (length (published (sx_cfg s)))"
  using assms
proof (induction "24 - i" arbitrary: s i)
  case 0
  let ?v = "config_bytes little (stress_config (sx_r s))"
  have "i = length ?v" using 0 by simp
  from store_publish [OF 0(3) this] obtain l where
    l: "store_step (sx_cfg s) l" "sl_writer l = W_Idle" "length (published l) = Suc (length (published (sx_cfg s)))"
    by fastforce
  have "stress_step little s (s\<lparr>sx_cfg := l, sx_r := sx_r s + 1, sx_writer := Testing\<rparr>)"
    using writer_store [OF 0(2) l(1), of little] l(2) by (simp add: after_store_def)
  with l(2,3) show ?case by (blast intro: r_into_rtranclp)
next
  case (Suc m)
  let ?v = "config_bytes little (stress_config (sx_r s))"
  have i: "i < length ?v" using Suc.hyps(2) by simp
  from store_byte [OF Suc.prems(2) i] obtain l where
    l: "store_step (sx_cfg s) l" "sl_writer l = W_Bytes ?v q (Suc i)" "published l = published (sx_cfg s)"
    by fastforce
  have 1: "stress_step little s (s\<lparr>sx_cfg := l\<rparr>)"
    using writer_store [OF Suc.prems(1) l(1), of little] l(2) by (simp add: after_store_def)
  let ?s = "s\<lparr>sx_cfg := l\<rparr>"
  have "\<exists>l' r. (stress_step little)\<^sup>*\<^sup>* ?s (?s\<lparr>sx_cfg := l', sx_r := r, sx_writer := Testing\<rparr>) \<and>
      sl_writer l' = W_Idle \<and> length (published l') = Suc (length (published (sx_cfg ?s)))"
    by (rule Suc.hyps(1) [of "Suc i"]) (use Suc.hyps(2) Suc.prems(1) l(2) in simp_all)
  with 1 l(3) show ?case by (auto intro: converse_rtranclp_into_rtranclp)
qed

lemma writer_returns:
  assumes call: "sx_writer s = Calling" and inv: "lock_inv little s"
  shows "\<exists>l r. (stress_step little)\<^sup>*\<^sup>* s (s\<lparr>sx_cfg := l, sx_r := r, sx_writer := Testing\<rparr>) \<and>
    sl_writer l = W_Idle \<and> length (published l) = Suc (length (published (sx_cfg s)))"
proof (cases "sl_writer (sx_cfg s)")
  case W_Idle
  let ?v = "config_bytes little (stress_config (sx_r s))"
  have "length ?v = length (sl_data (sx_cfg s))" using inv data_length [of 24 "sx_cfg s"] by (simp add: lock_inv_def)
  from store_begin [OF W_Idle this] obtain l where
    l: "store_step (sx_cfg s) l" "sl_writer l = W_Bytes ?v (sl_seq (sx_cfg s)) 0" "published l = published (sx_cfg s)"
    by fastforce
  have 1: "stress_step little s (s\<lparr>sx_cfg := l\<rparr>)"
    using writer_store [OF call l(1), of little] l(2) by (simp add: after_store_def)
  let ?s = "s\<lparr>sx_cfg := l\<rparr>"
  have "\<exists>l' r. (stress_step little)\<^sup>*\<^sup>* ?s (?s\<lparr>sx_cfg := l', sx_r := r, sx_writer := Testing\<rparr>) \<and>
      sl_writer l' = W_Idle \<and> length (published l') = Suc (length (published (sx_cfg ?s)))"
    by (rule writer_bytes [where i = 0]) (use call l(2) in simp_all)
  with 1 l(3) show ?thesis by (auto intro: converse_rtranclp_into_rtranclp)
next
  case (W_Bytes v q i)
  with inv have "v = config_bytes little (stress_config (sx_r s))" "i \<le> 24"
    by (auto simp: lock_inv_def seqlock_inv_def)
  with W_Bytes writer_bytes [OF call] show ?thesis by simp
qed

lemma writer_exits:
  assumes "sx_stop s" and inv: "lock_inv little s"
  shows "\<exists>l r. (stress_step little)\<^sup>*\<^sup>* s (s\<lparr>sx_cfg := l, sx_r := r, sx_writer := Exited\<rparr>) \<and>
    sl_writer l = W_Idle \<and> length (published l) \<le> Suc (length (published (sx_cfg s)))"
proof -
  have test: "stress_step little s' (s'\<lparr>sx_writer := Exited\<rparr>)" if "sx_writer s' = Testing" "sx_stop s'" for s'
    using writer_test [OF that(1), of little] that(2) by (simp add: test_stop_def)
  have idle: "sl_writer (sx_cfg s) = W_Idle" if "sx_writer s \<noteq> Calling"
    using inv that by (auto simp: lock_inv_def)
  show ?thesis
  proof (cases "sx_writer s")
    case Testing
    from test [OF this assms(1)]
    have "(stress_step little)\<^sup>*\<^sup>* s (s\<lparr>sx_cfg := sx_cfg s, sx_r := sx_r s, sx_writer := Exited\<rparr>)" by simp
    with Testing idle show ?thesis by (intro exI [of _ "sx_cfg s"] exI [of _ "sx_r s"]) simp
  next
    case Calling
    then obtain l r where 1: "(stress_step little)\<^sup>*\<^sup>* s (s\<lparr>sx_cfg := l, sx_r := r, sx_writer := Testing\<rparr>)"
      and l: "sl_writer l = W_Idle" "length (published l) = Suc (length (published (sx_cfg s)))"
      using writer_returns [OF _ inv] by blast
    have "stress_step little (s\<lparr>sx_cfg := l, sx_r := r, sx_writer := Testing\<rparr>) (s\<lparr>sx_cfg := l, sx_r := r, sx_writer := Exited\<rparr>)"
      using test [of "s\<lparr>sx_cfg := l, sx_r := r, sx_writer := Testing\<rparr>"] assms(1) by simp
    with 1 l show ?thesis by (metis rtranclp.rtrancl_into_rtrancl order_refl)
  next
    case Exited
    then have "s = s\<lparr>sx_cfg := sx_cfg s, sx_r := sx_r s, sx_writer := Exited\<rparr>" by simp
    with Exited idle show ?thesis by (metis rtranclp.rtrancl_refl le_SucI order_refl worker.distinct(5))
  qed
qed

text \<open>A reader that runs alone reads its bytes; if the sequence number has moved it tries again, once.\<close>

lemma reader_bytes:
  assumes "sx_reader s = Calling" and "sl_reader (sx_cfg s) = R_Bytes q tmp" and "length tmp \<le> length (sl_data (sx_cfg s))"
  shows "\<exists>t. (stress_step little)\<^sup>*\<^sup>* s (s\<lparr>sx_cfg := (sx_cfg s)\<lparr>sl_reader := R_Bytes q t\<rparr>\<rparr>) \<and> length t = length (sl_data (sx_cfg s))"
  using assms
proof (induction "length (sl_data (sx_cfg s)) - length tmp" arbitrary: s tmp)
  case 0
  then have "s = s\<lparr>sx_cfg := (sx_cfg s)\<lparr>sl_reader := R_Bytes q tmp\<rparr>\<rparr>" by simp
  moreover have "length tmp = length (sl_data (sx_cfg s))" using 0 by simp
  ultimately show ?case by (metis rtranclp.rtrancl_refl)
next
  case (Suc m)
  then have len: "length tmp < length (sl_data (sx_cfg s))" by simp
  let ?t = "tmp @ [sl_data (sx_cfg s) ! length tmp]"
  let ?s = "s\<lparr>sx_cfg := (sx_cfg s)\<lparr>sl_reader := R_Bytes q ?t\<rparr>\<rparr>"
  have 1: "stress_step little s ?s"
    using reader_load [OF Suc.prems(1) load_byte [OF Suc.prems(2) len], of little] Suc.prems(2) len
    by (simp add: after_load_def load_result_def)
  have "\<exists>t. (stress_step little)\<^sup>*\<^sup>* ?s (?s\<lparr>sx_cfg := (sx_cfg ?s)\<lparr>sl_reader := R_Bytes q t\<rparr>\<rparr>) \<and> length t = length (sl_data (sx_cfg ?s))"
    by (rule Suc.hyps(1) [of _ ?t]) (use Suc.hyps(2) Suc.prems(1) len in simp_all)
  with 1 show ?case by (auto intro: converse_rtranclp_into_rtranclp)
qed

lemma reader_finishes:
  assumes "sx_reader s = Calling" and "sl_reader (sx_cfg s) = R_Bytes (sl_seq (sx_cfg s)) tmp" and "length tmp \<le> length (sl_data (sx_cfg s))"
  shows "\<exists>l n. (stress_step little)\<^sup>*\<^sup>* s (s\<lparr>sx_cfg := l, sx_torn_reads := n, sx_reader := Testing\<rparr>) \<and> published l = published (sx_cfg s)"
proof -
  obtain t where t: "(stress_step little)\<^sup>*\<^sup>* s (s\<lparr>sx_cfg := (sx_cfg s)\<lparr>sl_reader := R_Bytes (sl_seq (sx_cfg s)) t\<rparr>\<rparr>)"
    "length t = length (sl_data (sx_cfg s))" using reader_bytes [OF assms] by blast
  let ?s = "s\<lparr>sx_cfg := (sx_cfg s)\<lparr>sl_reader := R_Bytes (sl_seq (sx_cfg s)) t\<rparr>\<rparr>"
  obtain l where l: "load_step (sx_cfg ?s) l" "published l = published (sx_cfg s)"
    using load_return [of "sx_cfg ?s" "sl_seq (sx_cfg s)" t] t(2) by fastforce
  obtain n where "stress_step little ?s (s\<lparr>sx_cfg := l, sx_torn_reads := n, sx_reader := Testing\<rparr>)"
    using reader_load [OF _ l(1), of little] assms(1) t(2) by (auto simp: after_load_def load_result_def Let_def)
  with t(1) l(2) show ?thesis by (metis rtranclp.rtrancl_into_rtrancl)
qed

lemma reader_restarts:
  assumes "sx_reader s = Calling" and "sl_reader (sx_cfg s) = R_Idle" and "sl_seq (sx_cfg s) AND 1 = 0"
  shows "\<exists>l n. (stress_step little)\<^sup>*\<^sup>* s (s\<lparr>sx_cfg := l, sx_torn_reads := n, sx_reader := Testing\<rparr>) \<and> published l = published (sx_cfg s)"
proof -
  let ?s = "s\<lparr>sx_cfg := (sx_cfg s)\<lparr>sl_reader := R_Bytes (sl_seq (sx_cfg s)) []\<rparr>\<rparr>"
  have 1: "stress_step little s ?s"
    using reader_load [OF assms(1) load_begin [OF assms(2,3)], of little] assms(2) by (simp add: after_load_def load_result_def)
  have "\<exists>l n. (stress_step little)\<^sup>*\<^sup>* ?s (?s\<lparr>sx_cfg := l, sx_torn_reads := n, sx_reader := Testing\<rparr>) \<and> published l = published (sx_cfg ?s)"
    by (rule reader_finishes [of _ "[]"]) (simp_all add: assms(1))
  with 1 show ?thesis by (auto intro: converse_rtranclp_into_rtranclp)
qed

lemma reader_returns:
  assumes call: "sx_reader s = Calling" and inv: "seqlock_inv 24 (sx_cfg s)" and w: "sl_writer (sx_cfg s) = W_Idle"
  shows "\<exists>l n. (stress_step little)\<^sup>*\<^sup>* s (s\<lparr>sx_cfg := l, sx_torn_reads := n, sx_reader := Testing\<rparr>) \<and> published l = published (sx_cfg s)"
proof -
  have even: "sl_seq (sx_cfg s) AND 1 = 0" using inv w even_seq_even(1) by (simp add: seqlock_inv_def)
  show ?thesis
  proof (cases "sl_reader (sx_cfg s)")
    case R_Idle
    then show ?thesis by (rule reader_restarts [OF call _ even])
  next
    case (R_Bytes q tmp)
    have len: "length tmp \<le> length (sl_data (sx_cfg s))"
      using inv R_Bytes data_length [OF inv] by (auto simp: seqlock_inv_def)
    show ?thesis
    proof (cases "sl_seq (sx_cfg s) = q")
      case True
      with R_Bytes show ?thesis using reader_finishes [OF call _ len] by simp
    next
      case False
      obtain t where 1: "(stress_step little)\<^sup>*\<^sup>* s (s\<lparr>sx_cfg := (sx_cfg s)\<lparr>sl_reader := R_Bytes q t\<rparr>\<rparr>)"
        and t: "length t = length (sl_data (sx_cfg s))" using reader_bytes [OF call R_Bytes len] by blast
      let ?s = "s\<lparr>sx_cfg := (sx_cfg s)\<lparr>sl_reader := R_Bytes q t\<rparr>\<rparr>"
      let ?r = "s\<lparr>sx_cfg := (sx_cfg s)\<lparr>sl_reader := R_Idle\<rparr>\<rparr>"
      have "load_step (sx_cfg ?s) (sx_cfg ?r)" using load_retry [of "sx_cfg ?s" q t] t False by simp
      from reader_load [OF _ this, of little] call False have 2: "stress_step little ?s ?r"
        by (simp add: after_load_def load_result_def)
      have "\<exists>l n. (stress_step little)\<^sup>*\<^sup>* ?r (?r\<lparr>sx_cfg := l, sx_torn_reads := n, sx_reader := Testing\<rparr>) \<and> published l = published (sx_cfg ?r)"
        by (rule reader_restarts) (simp_all add: call even)
      with rtranclp.rtrancl_into_rtrancl [OF 1 2] show ?thesis by (auto intro: rtranclp_trans)
    qed
  qed
qed

lemma reader_exits:
  assumes "sx_stop s" and inv: "seqlock_inv 24 (sx_cfg s)" and w: "sl_writer (sx_cfg s) = W_Idle"
  shows "\<exists>l n. (stress_step little)\<^sup>*\<^sup>* s (s\<lparr>sx_cfg := l, sx_torn_reads := n, sx_reader := Exited\<rparr>) \<and> published l = published (sx_cfg s)"
proof -
  have test: "stress_step little s' (s'\<lparr>sx_reader := Exited\<rparr>)" if "sx_reader s' = Testing" "sx_stop s'" for s'
    using reader_test [OF that(1), of little] that(2) by (simp add: test_stop_def)
  show ?thesis
  proof (cases "sx_reader s")
    case Testing
    from test [OF this assms(1)]
    have "(stress_step little)\<^sup>*\<^sup>* s (s\<lparr>sx_cfg := sx_cfg s, sx_torn_reads := sx_torn_reads s, sx_reader := Exited\<rparr>)" by simp
    then show ?thesis by (metis (no_types))
  next
    case Calling
    then obtain l n where 1: "(stress_step little)\<^sup>*\<^sup>* s (s\<lparr>sx_cfg := l, sx_torn_reads := n, sx_reader := Testing\<rparr>)"
      and l: "published l = published (sx_cfg s)"
      using reader_returns [OF _ inv w] by blast
    have "stress_step little (s\<lparr>sx_cfg := l, sx_torn_reads := n, sx_reader := Testing\<rparr>) (s\<lparr>sx_cfg := l, sx_torn_reads := n, sx_reader := Exited\<rparr>)"
      using test [of "s\<lparr>sx_cfg := l, sx_torn_reads := n, sx_reader := Testing\<rparr>"] assms(1) by simp
    with 1 l show ?thesis by (metis rtranclp.rtrancl_into_rtrancl)
  next
    case Exited
    then have "s = s\<lparr>sx_cfg := sx_cfg s, sx_torn_reads := sx_torn_reads s, sx_reader := Exited\<rparr>" by simp
    then show ?thesis by (metis rtranclp.rtrancl_refl)
  qed
qed

text \<open>From every reachable state the main thread can stop the workers and join them all.\<close>

lemma stress_can_join:
  assumes reach: "(stress_step little)\<^sup>*\<^sup>* (stress_init little) s" and few: "length (published (sx_cfg s)) < 2 ^ 63"
  shows "\<exists>s'. (stress_step little)\<^sup>*\<^sup>* s s' \<and> all_joined s' \<and> length (published (sx_cfg s')) \<le> 2 ^ 63"
proof -
  let ?s0 = "s\<lparr>sx_stop := True\<rparr>"
  have s0: "(stress_step little)\<^sup>*\<^sup>* s ?s0" using main_stop by (rule r_into_rtranclp)
  have inv: "stress_inv little s" using stress_steps_inv [OF reach] few by simp
  then have "pushing (stress_item (sx_seq s)) (cc_prod (sx_ring s))" unfolding stress_inv_def producer_inv_def by blast
  then obtain c sq pr where s1: "(stress_step little)\<^sup>*\<^sup>* ?s0 (?s0\<lparr>sx_ring := c, sx_seq := sq, sx_produced := pr, sx_producer := Exited\<rparr>)"
    using producer_exits [of ?s0 little] by auto
  let ?s1 = "?s0\<lparr>sx_ring := c, sx_seq := sq, sx_produced := pr, sx_producer := Exited\<rparr>"
  obtain c' mm n where s2: "(stress_step little)\<^sup>*\<^sup>* ?s1 (?s1\<lparr>sx_ring := c', sx_mismatches := mm, sx_consumed := n, sx_consumer := Exited\<rparr>)"
    using consumer_exits [of ?s1 little] by auto
  let ?s2 = "?s1\<lparr>sx_ring := c', sx_mismatches := mm, sx_consumed := n, sx_consumer := Exited\<rparr>"
  have "lock_inv little ?s2" using inv by (simp add: stress_inv_def lock_inv_def)
  then obtain l r where s3: "(stress_step little)\<^sup>*\<^sup>* ?s2 (?s2\<lparr>sx_cfg := l, sx_r := r, sx_writer := Exited\<rparr>)"
    and l: "sl_writer l = W_Idle" "length (published l) \<le> Suc (length (published (sx_cfg s)))"
    using writer_exits [of ?s2 little] by auto
  let ?s3 = "?s2\<lparr>sx_cfg := l, sx_r := r, sx_writer := Exited\<rparr>"
  have to3: "(stress_step little)\<^sup>*\<^sup>* s ?s3" using s0 s1 s2 s3 by (meson rtranclp_trans)
  have bound: "length (published l) \<le> 2 ^ 63" using l(2) few by linarith
  have "stress_inv little ?s3" by (rule stress_steps_inv [OF rtranclp_trans [OF reach to3]]) (simp add: bound [simplified])
  then have "seqlock_inv 24 l" by (simp add: stress_inv_def lock_inv_def)
  then obtain l' t where "(stress_step little)\<^sup>*\<^sup>* ?s3 (?s3\<lparr>sx_cfg := l', sx_torn_reads := t, sx_reader := Exited\<rparr>)"
    and "published l' = published l"
    using reader_exits [of ?s3 little] l(1) by auto
  with to3 bound show ?thesis
    by (intro exI [of _ "?s3\<lparr>sx_cfg := l', sx_torn_reads := t, sx_reader := Exited\<rparr>"]) (auto simp: all_joined_def)
qed

lemma stress_inv_status: "stress_inv little s \<Longrightarrow> stress_status s = 0"
  by (simp add: stress_inv_def consumer_inv_def lock_inv_def stress_status_def)

subsection \<open>Properties\<close>



end
