(* ===== verification/Ring_Probe.thy ===== *)
theory Ring_Probe
  imports Benchmarks Stress_Test
begin

text \<open>
  The threaded probe of the ring benchmark (\<^verbatim>\<open>bench_ring_latency\<close> in \<^verbatim>\<open>bench/bench_ring.cpp\<close>): a producer thread stamps
  frames and pushes them, the calling thread pops them, reads the clock and stops the producer after 200000
  frames. The threads interleave at every access to the ring, with the step relations of \<open>Spsc_Concurrent\<close> inside
  the calls; the clock is a count of nanoseconds that does not go back. The statistics of what was popped are those
  of \<open>Benchmarks\<close>.
\<close>

subsection \<open>Threads\<close>

text \<open>The producer tests its loop condition, builds its frame, or is in \<^verbatim>\<open>try_push\<close> with it. The consumer tests its loop
  condition, is in \<^verbatim>\<open>try_pop\<close>, holds a frame whose time of receiving it has not read yet, or has left the loop.\<close>

datatype probe_producer = P_Test | P_Stamp | P_Push SensorFrame | P_Left

datatype probe_consumer = C_Test | C_Pop | C_Stamp SensorFrame | C_Stop | C_Join | C_Done

record ring_probe =
  rp_ring :: "SensorFrame conc"
  rp_stop :: bool
  rp_producer :: probe_producer
  rp_seq :: u64
  rp_consumer :: probe_consumer
  rp_got :: u64
  rp_pops :: "(u64 \<times> SensorFrame) list"
  rp_clock :: u64

definition ring_probe_init :: "u64 \<Rightarrow> ring_probe" where
  "ring_probe_init start = \<lparr>rp_ring = conc_init 1024 SensorFrame_init, rp_stop = False, rp_producer = P_Test, rp_seq = 0,
     rp_consumer = C_Test, rp_got = 0, rp_pops = [], rp_clock = start\<rparr>"

definition probe_frame :: "u64 \<Rightarrow> u64 \<Rightarrow> SensorFrame" where
  "probe_frame seq now = \<lparr>sf_data = replicate 1024 0, sf_sequence = seq, sf_timestamp_ns = now\<rparr>"

definition after_probe_push :: "bool option \<Rightarrow> ring_probe \<Rightarrow> ring_probe" where
  "after_probe_push res s = (case res of
     None \<Rightarrow> s
   | Some True \<Rightarrow> s\<lparr>rp_seq := rp_seq s + 1, rp_producer := P_Test\<rparr>
   | Some False \<Rightarrow> s\<lparr>rp_producer := P_Test\<rparr>)"

definition after_probe_pop :: "SensorFrame option option \<Rightarrow> ring_probe \<Rightarrow> ring_probe" where
  "after_probe_pop res s = (case res of
     None \<Rightarrow> s
   | Some None \<Rightarrow> s\<lparr>rp_consumer := C_Test\<rparr>
   | Some (Some out) \<Rightarrow> s\<lparr>rp_consumer := C_Stamp out\<rparr>)"

inductive probe_step :: "(SensorFrame \<Rightarrow> SensorFrame) \<Rightarrow> ring_probe \<Rightarrow> ring_probe \<Rightarrow> bool" for moved where
  clock_ticks: "rp_clock s \<le> t \<Longrightarrow> probe_step moved s (s\<lparr>rp_clock := t\<rparr>)"
| producer_tests: "rp_producer s = P_Test
    \<Longrightarrow> probe_step moved s (s\<lparr>rp_producer := if \<not> rp_stop s \<and> rp_seq s < word_of_nat prod2cons_target then P_Stamp else P_Left\<rparr>)"
| producer_stamps: "rp_producer s = P_Stamp
    \<Longrightarrow> probe_step moved s (s\<lparr>rp_producer := P_Push (probe_frame (rp_seq s) (rp_clock s))\<rparr>)"
| producer_pushes: "\<lbrakk>rp_producer s = P_Push f; push_step (rp_ring s) c; pushing f (cc_prod c)\<rbrakk>
    \<Longrightarrow> probe_step moved s (after_probe_push (push_result (rp_ring s) c) (s\<lparr>rp_ring := c\<rparr>))"
| consumer_tests: "rp_consumer s = C_Test
    \<Longrightarrow> probe_step moved s (s\<lparr>rp_consumer := if rp_got s < word_of_nat prod2cons_target then C_Pop else C_Stop\<rparr>)"
| consumer_pops: "\<lbrakk>rp_consumer s = C_Pop; pop_step moved (rp_ring s) c\<rbrakk>
    \<Longrightarrow> probe_step moved s (after_probe_pop (pop_result (rp_ring s) c) (s\<lparr>rp_ring := c\<rparr>))"
| consumer_stamps: "rp_consumer s = C_Stamp out
    \<Longrightarrow> probe_step moved s (s\<lparr>rp_pops := rp_pops s @ [(rp_clock s, out)], rp_got := rp_got s + 1, rp_consumer := C_Test\<rparr>)"
| consumer_stops: "rp_consumer s = C_Stop \<Longrightarrow> probe_step moved s (s\<lparr>rp_stop := True, rp_consumer := C_Join\<rparr>)"
| consumer_joins: "\<lbrakk>rp_consumer s = C_Join; rp_producer s = P_Left\<rbrakk> \<Longrightarrow> probe_step moved s (s\<lparr>rp_consumer := C_Done\<rparr>)"

subsection \<open>Invariant\<close>

text \<open>A frame of the probe that was stamped before the given time.\<close>

definition stamped :: "u64 \<Rightarrow> SensorFrame \<Rightarrow> bool" where
  "stamped now f \<longleftrightarrow> sf_data f = replicate 1024 0 \<and> sf_timestamp_ns f \<le> now"

definition pushed_inv :: "ring_probe \<Rightarrow> bool" where
  "pushed_inv s \<longleftrightarrow> (let n = length (accepted (rp_ring s)) in
     map sf_sequence (accepted (rp_ring s)) = map word_of_nat [0..<n] \<and> list_all (stamped (rp_clock s)) (accepted (rp_ring s)) \<and>
     rp_seq s = word_of_nat n \<and> n \<le> prod2cons_target \<and>
     (case rp_producer s of
        P_Push f \<Rightarrow> f = probe_frame (rp_seq s) (sf_timestamp_ns f) \<and> sf_timestamp_ns f \<le> rp_clock s \<and>
          pushing f (cc_prod (rp_ring s)) \<and> n < prod2cons_target
      | P_Stamp \<Rightarrow> cc_prod (rp_ring s) = P_Idle \<and> n < prod2cons_target
      | P_Test \<Rightarrow> cc_prod (rp_ring s) = P_Idle
      | P_Left \<Rightarrow> cc_prod (rp_ring s) = P_Idle \<and> (rp_stop s \<or> n = prod2cons_target)))"

definition in_hand :: "probe_consumer \<Rightarrow> SensorFrame list" where
  "in_hand k = (case k of C_Stamp out \<Rightarrow> [out] | _ \<Rightarrow> [])"

definition popped_inv :: "ring_probe \<Rightarrow> bool" where
  "popped_inv s \<longleftrightarrow> map snd (rp_pops s) @ in_hand (rp_consumer s) = delivered (rp_ring s) \<and>
     rp_got s = word_of_nat (length (rp_pops s)) \<and> list_all (\<lambda>(now, out). sf_timestamp_ns out \<le> now) (rp_pops s) \<and>
     (rp_consumer s \<noteq> C_Pop \<longrightarrow> cc_cons (rp_ring s) = C_Idle) \<and>
     (rp_consumer s \<in> {C_Stop, C_Join, C_Done} \<longrightarrow> length (rp_pops s) = prod2cons_target) \<and>
     (rp_consumer s = C_Pop \<longrightarrow> length (rp_pops s) < prod2cons_target) \<and>
     (rp_stop s \<longleftrightarrow> rp_consumer s \<in> {C_Join, C_Done}) \<and> (rp_consumer s = C_Done \<longrightarrow> rp_producer s = P_Left)"

definition probe_inv :: "ring_probe \<Rightarrow> bool" where
  "probe_inv s \<longleftrightarrow> conc_inv 1024 (rp_ring s) \<and> pushed_inv s \<and> popped_inv s"

text \<open>Fields of one thread do not matter for the other.\<close>

lemma pushed_inv_frame [simp]:
  "pushed_inv (s\<lparr>rp_pops := xs\<rparr>) = pushed_inv s" "pushed_inv (s\<lparr>rp_got := n\<rparr>) = pushed_inv s"
  "pushed_inv (s\<lparr>rp_consumer := k\<rparr>) = pushed_inv s" "pushed_inv s \<Longrightarrow> pushed_inv (s\<lparr>rp_stop := True\<rparr>)"
  by (auto simp: pushed_inv_def Let_def split: probe_producer.splits)

lemma probe_init_inv: "probe_inv (ring_probe_init start)"
proof -
  have "conc_inv 1024 (conc_init 1024 SensorFrame_init)"
    by (rule conc_init_inv) (simp add: ring_static_asserts_def)
  then show ?thesis
    by (simp add: probe_inv_def pushed_inv_def popped_inv_def ring_probe_init_def conc_init_def in_hand_def)
qed

lemma target_words:
  assumes "n \<le> prod2cons_target"
  shows "(word_of_nat n :: u64) < word_of_nat prod2cons_target \<longleftrightarrow> n < prod2cons_target"
proof -
  have "unat (word_of_nat n :: u64) = n" "unat (word_of_nat prod2cons_target :: u64) = prod2cons_target"
    using assms by (simp_all add: prod2cons_target_def unat_of_nat)
  then show ?thesis by (simp add: word_less_nat_alt)
qed

lemma stamped_mono: "stamped now f \<Longrightarrow> now \<le> t \<Longrightarrow> stamped t f"
  by (auto simp: stamped_def)

text \<open>What was popped was pushed before.\<close>

lemma delivered_bounds:
  assumes "probe_inv s"
  shows "\<exists>queued. accepted (rp_ring s) = delivered (rp_ring s) @ queued"
    and "length (delivered (rp_ring s)) \<le> prod2cons_target" and "list_all (stamped (rp_clock s)) (delivered (rp_ring s))"
proof -
  show q: "\<exists>queued. accepted (rp_ring s) = delivered (rp_ring s) @ queued"
    using conc_inv_queued [of 1024 "rp_ring s"] assms by (auto simp: probe_inv_def)
  with assms show "length (delivered (rp_ring s)) \<le> prod2cons_target" "list_all (stamped (rp_clock s)) (delivered (rp_ring s))"
    by (auto simp: probe_inv_def pushed_inv_def Let_def)
qed

lemma producer_push_inv:
  assumes inv: "probe_inv s" and at: "rp_producer s = P_Push f"
    and step: "push_step (rp_ring s) c" and item: "pushing f (cc_prod c)"
  shows "probe_inv (after_probe_push (push_result (rp_ring s) c) (s\<lparr>rp_ring := c\<rparr>))"
proof -
  have old: "pushing f (cc_prod (rp_ring s))" and f: "f = probe_frame (rp_seq s) (sf_timestamp_ns f)" "sf_timestamp_ns f \<le> rp_clock s"
    using inv at by (auto simp: probe_inv_def pushed_inv_def Let_def)
  note e = push_step_effect [OF step old item]
  have c: "conc_inv 1024 c" using inv by (auto simp: probe_inv_def intro: push_step_inv [OF step])
  have "stamped (rp_clock s) f \<and> sf_sequence f = rp_seq s"
    using f by (metis (no_types, lifting) SensorFrame.select_convs probe_frame_def stamped_def)
  then have "pushed_inv (after_probe_push (push_result (rp_ring s) c) (s\<lparr>rp_ring := c\<rparr>))"
    using inv e at item f
    by (auto simp: probe_inv_def pushed_inv_def after_probe_push_def Let_def split: option.splits bool.splits)
  moreover have "popped_inv (after_probe_push (push_result (rp_ring s) c) (s\<lparr>rp_ring := c\<rparr>))"
    using inv e at
    by (auto simp: probe_inv_def popped_inv_def after_probe_push_def split: option.splits bool.splits)
  moreover have "rp_ring (after_probe_push (push_result (rp_ring s) c) (s\<lparr>rp_ring := c\<rparr>)) = c"
    by (simp add: after_probe_push_def split: option.splits bool.splits)
  ultimately show ?thesis using c by (simp add: probe_inv_def)
qed

lemma consumer_pop_inv:
  assumes inv: "probe_inv s" and at: "rp_consumer s = C_Pop" and step: "pop_step moved (rp_ring s) c"
  shows "probe_inv (after_probe_pop (pop_result (rp_ring s) c) (s\<lparr>rp_ring := c\<rparr>))"
proof -
  note e = pop_step_effect [OF step]
  have c: "conc_inv 1024 c" using inv by (auto simp: probe_inv_def intro: pop_step_inv [OF step])
  have "pushed_inv (after_probe_pop (pop_result (rp_ring s) c) (s\<lparr>rp_ring := c\<rparr>))"
    using inv e
    by (auto simp: probe_inv_def pushed_inv_def after_probe_pop_def Let_def split: option.splits probe_producer.splits)
  moreover have "popped_inv (after_probe_pop (pop_result (rp_ring s) c) (s\<lparr>rp_ring := c\<rparr>))"
    using inv e at
    by (auto simp: probe_inv_def popped_inv_def after_probe_pop_def in_hand_def split: option.splits)
  moreover have "rp_ring (after_probe_pop (pop_result (rp_ring s) c) (s\<lparr>rp_ring := c\<rparr>)) = c"
    by (simp add: after_probe_pop_def split: option.splits)
  ultimately show ?thesis using c by (simp add: probe_inv_def)
qed

lemma consumer_stamp_inv:
  assumes inv: "probe_inv s" and at: "rp_consumer s = C_Stamp out"
  shows "probe_inv (s\<lparr>rp_pops := rp_pops s @ [(rp_clock s, out)], rp_got := rp_got s + 1, rp_consumer := C_Test\<rparr>)"
proof -
  have d: "map snd (rp_pops s) @ [out] = delivered (rp_ring s)" using inv at by (simp add: probe_inv_def popped_inv_def in_hand_def)
  then have "stamped (rp_clock s) out" using delivered_bounds(3) [OF inv] by (simp flip: d)
  then show ?thesis
    using inv at d by (auto simp: probe_inv_def popped_inv_def in_hand_def stamped_def)
qed

lemma tests_inv:
  assumes inv: "probe_inv s"
  shows "rp_producer s = P_Test \<Longrightarrow>
      probe_inv (s\<lparr>rp_producer := if \<not> rp_stop s \<and> rp_seq s < word_of_nat prod2cons_target then P_Stamp else P_Left\<rparr>)"
    and "rp_consumer s = C_Test \<Longrightarrow>
      probe_inv (s\<lparr>rp_consumer := if rp_got s < word_of_nat prod2cons_target then C_Pop else C_Stop\<rparr>)"
proof -
  have n: "rp_seq s = word_of_nat (length (accepted (rp_ring s)))" "length (accepted (rp_ring s)) \<le> prod2cons_target"
    using inv by (auto simp: probe_inv_def pushed_inv_def Let_def)
  show "rp_producer s = P_Test \<Longrightarrow>
      probe_inv (s\<lparr>rp_producer := if \<not> rp_stop s \<and> rp_seq s < word_of_nat prod2cons_target then P_Stamp else P_Left\<rparr>)"
    using inv target_words [OF n(2)] n(1) by (auto simp: probe_inv_def pushed_inv_def popped_inv_def Let_def)
  have k: "rp_got s = word_of_nat (length (rp_pops s))" "length (rp_pops s) \<le> length (delivered (rp_ring s))"
    using inv unfolding probe_inv_def popped_inv_def by (blast, metis length_append length_map le_add1)
  then have le: "length (rp_pops s) \<le> prod2cons_target" using delivered_bounds(2) [OF inv] by linarith
  show "rp_consumer s = C_Test \<Longrightarrow>
      probe_inv (s\<lparr>rp_consumer := if rp_got s < word_of_nat prod2cons_target then C_Pop else C_Stop\<rparr>)"
    using inv target_words [OF le] le k(1) by (auto simp: probe_inv_def popped_inv_def in_hand_def)
qed

lemma probe_step_inv:
  assumes "probe_step moved s s'" and inv: "probe_inv s"
  shows "probe_inv s'"
  using assms(1)
proof cases
  case (clock_ticks t)
  then show ?thesis
    using inv stamped_mono [of "rp_clock s" _ t]
    by (auto simp: probe_inv_def pushed_inv_def popped_inv_def Let_def list.pred_set split: probe_producer.splits)
next
  case (producer_pushes f c)
  then show ?thesis using producer_push_inv [OF inv] by simp
next
  case (consumer_pops c)
  then show ?thesis using consumer_pop_inv [OF inv] by simp
next
  case (consumer_stamps out)
  then show ?thesis using consumer_stamp_inv [OF inv] by simp
next
  case producer_tests
  then show ?thesis using tests_inv [OF inv] by simp
next
  case consumer_tests
  then show ?thesis using tests_inv [OF inv] by simp
next
  case producer_stamps
  then show ?thesis using inv by (auto simp: probe_inv_def pushed_inv_def popped_inv_def probe_frame_def Let_def)
qed (use inv in \<open>auto simp: probe_inv_def popped_inv_def in_hand_def\<close>)

lemma probe_reach_inv: "(probe_step moved)\<^sup>*\<^sup>* (ring_probe_init start) s \<Longrightarrow> probe_inv s"
  by (induction rule: rtranclp_induct) (auto intro: probe_init_inv probe_step_inv)

subsection \<open>The probe can always finish\<close>

primrec push_left :: "SensorFrame producer \<Rightarrow> nat" where
  "push_left P_Idle = 4" | "push_left (P_Write x h nxt) = 3" | "push_left (P_Publish x nxt) = 2"

primrec pop_left :: "SensorFrame consumer \<Rightarrow> nat" where
  "pop_left C_Idle = 4" | "pop_left (C_Read t) = 3" | "pop_left (C_Publish out t) = 2"

fun producer_at :: "bool \<Rightarrow> probe_producer \<Rightarrow> SensorFrame producer \<Rightarrow> nat" where
  "producer_at stop P_Test p = (if stop then 1 else 6)"
| "producer_at stop P_Stamp p = (if stop then 6 else 5)"
| "producer_at stop (P_Push f) p = push_left p + (if stop then 1 else 0)"
| "producer_at stop P_Left p = 0"

fun consumer_at :: "probe_consumer \<Rightarrow> SensorFrame consumer \<Rightarrow> nat" where
  "consumer_at C_Test k = 5" | "consumer_at C_Pop k = pop_left k" | "consumer_at (C_Stamp out) k = 6"
| "consumer_at C_Stop k = 3" | "consumer_at C_Join k = 1" | "consumer_at C_Done k = 0"

lemma producer_at_stop: "producer_at True p q \<le> Suc (producer_at False p q)"
  by (cases p) simp_all

definition producer_left :: "ring_probe \<Rightarrow> nat" where
  "producer_left s = 8 * (prod2cons_target - length (accepted (rp_ring s))) +
     producer_at (rp_stop s) (rp_producer s) (cc_prod (rp_ring s))"

definition consumer_left :: "ring_probe \<Rightarrow> nat" where
  "consumer_left s = 8 * (prod2cons_target - length (delivered (rp_ring s))) + consumer_at (rp_consumer s) (cc_cons (rp_ring s))"

definition probe_left :: "ring_probe \<Rightarrow> nat" where
  "probe_left s = producer_left s + consumer_left s"

lemmas probe_left_defs = probe_left_def producer_left_def consumer_left_def

lemma probe_progressI:
  "probe_step moved s s' \<Longrightarrow> probe_left s' < probe_left s \<Longrightarrow> \<exists>s'. probe_step moved s s' \<and> probe_left s' < probe_left s"
  by blast

text \<open>A push that has begun goes on; one that has not begins when the ring is not full, and gives up when it is.\<close>

lemma push_progress:
  assumes inv: "probe_inv s" and at: "rp_producer s = P_Push f"
    and room: "rp_stop s \<or> (rg_head (cc_ring (rp_ring s)) + 1) AND kMask (cc_ring (rp_ring s)) \<noteq> rg_tail (cc_ring (rp_ring s))"
  shows "\<exists>s'. probe_step moved s s' \<and> probe_left s' < probe_left s"
proof -
  let ?c = "rp_ring s" and ?r = "cc_ring (rp_ring s)"
  have item: "pushing f (cc_prod ?c)" and n: "length (accepted ?c) < prod2cons_target"
    using inv at by (auto simp: probe_inv_def pushed_inv_def Let_def)
  show ?thesis
  proof (cases "cc_prod ?c")
    case P_Idle
    show ?thesis
    proof (cases "(rg_head ?r + 1) AND kMask ?r = rg_tail ?r")
      case True
      with room have "rp_stop s" by simp
      with producer_pushes [OF at push_full [OF P_Idle True] item, of moved] P_Idle at show ?thesis
        by (intro probe_progressI [of moved s "after_probe_push (push_result ?c ?c) (s\<lparr>rp_ring := ?c\<rparr>)"])
          (simp_all add: probe_left_defs after_probe_push_def push_result_def)
    next
      case False
      from producer_pushes [OF at push_begin [OF P_Idle refl False, of f], of moved] P_Idle at show ?thesis
        by (intro probe_progressI) (auto simp: probe_left_defs after_probe_push_def push_result_def)
    qed
  next
    case (P_Write x h nxt)
    from producer_pushes [OF at push_write [OF P_Write], of moved] P_Write at item show ?thesis
      by (intro probe_progressI) (auto simp: probe_left_defs after_probe_push_def push_result_def)
  next
    case (P_Publish x nxt)
    from producer_pushes [OF at push_publish [OF P_Publish], of moved] P_Publish at n show ?thesis
      by (intro probe_progressI) (auto simp: probe_left_defs after_probe_push_def push_result_def)
  qed
qed

lemma still_popping:
  assumes "probe_inv s" and "rp_consumer s = C_Pop"
  shows "length (delivered (rp_ring s)) < prod2cons_target"
proof -
  have "map snd (rp_pops s) = delivered (rp_ring s)" "length (rp_pops s) < prod2cons_target"
    using assms by (simp_all add: probe_inv_def popped_inv_def in_hand_def)
  then show ?thesis by (metis length_map)
qed

text \<open>The consumer side; an empty ring leaves the next step to the producer.\<close>

lemma pop_progress:
  assumes inv: "probe_inv s" and at: "rp_consumer s = C_Pop"
    and filled: "cc_cons (rp_ring s) = C_Idle \<longrightarrow> rg_tail (cc_ring (rp_ring s)) \<noteq> rg_head (cc_ring (rp_ring s))"
  shows "\<exists>s'. probe_step moved s s' \<and> probe_left s' < probe_left s"
proof -
  let ?c = "rp_ring s"
  have few: "length (delivered ?c) < prod2cons_target" using inv at by (rule still_popping)
  show ?thesis
  proof (cases "cc_cons ?c")
    case C_Idle
    with filled have "rg_tail (cc_ring ?c) \<noteq> rg_head (cc_ring ?c)" by simp
    from consumer_pops [OF at pop_begin [OF C_Idle this, of moved]] C_Idle at show ?thesis
      by (intro probe_progressI) (auto simp: probe_left_defs after_probe_pop_def pop_result_def)
  next
    case (C_Read t)
    from consumer_pops [OF at pop_read [OF C_Read refl, of moved]] C_Read at show ?thesis
      by (intro probe_progressI) (auto simp: probe_left_defs after_probe_pop_def pop_result_def)
  next
    case (C_Publish out t)
    from consumer_pops [OF at pop_publish [OF C_Publish, of moved]] C_Publish at few show ?thesis
      by (intro probe_progressI) (auto simp: probe_left_defs after_probe_pop_def pop_result_def)
  qed
qed

lemma empty_ring_accepts:
  assumes "conc_inv 1024 c" and "cc_cons c = C_Idle" and "rg_tail (cc_ring c) = rg_head (cc_ring c)"
  shows "accepted c = delivered c" and "(rg_head (cc_ring c) + 1) AND kMask (cc_ring c) \<noteq> rg_tail (cc_ring c)"
proof -
  have r: "ring_inv (cc_ring c)" "Capacity (cc_ring c) = 1024" using assms(1) by (simp_all add: conc_inv_def)
  have empty: "ring_size (cc_ring c) = 0" using assms(3) ring_empty_iff [OF r(1)] by simp
  then show "accepted c = delivered c" using assms(1,2) by (simp add: conc_inv_def ring_contents_def)
  show "(rg_head (cc_ring c) + 1) AND kMask (cc_ring c) \<noteq> rg_tail (cc_ring c)"
    using ring_full_iff [OF r(1)] empty r(2) by (simp add: ring_capacity_def)
qed

lemma producer_progress:
  assumes inv: "probe_inv s" and left: "rp_producer s \<noteq> P_Left"
    and room: "rp_stop s \<or> (rg_head (cc_ring (rp_ring s)) + 1) AND kMask (cc_ring (rp_ring s)) \<noteq> rg_tail (cc_ring (rp_ring s))"
  shows "\<exists>s'. probe_step moved s s' \<and> probe_left s' < probe_left s"
proof (cases "rp_producer s")
  case P_Test
  show ?thesis
    by (rule probe_progressI [OF producer_tests [OF P_Test]]) (simp add: probe_left_defs P_Test)
next
  case P_Stamp
  then have "cc_prod (rp_ring s) = P_Idle" using inv by (simp add: probe_inv_def pushed_inv_def Let_def)
  with P_Stamp show ?thesis
    by (intro probe_progressI [OF producer_stamps [OF P_Stamp]]) (simp add: probe_left_defs)
next
  case (P_Push f)
  with inv room show ?thesis by (intro push_progress)
qed (use left in simp)

lemma probe_progress:
  assumes inv: "probe_inv s" and left: "rp_consumer s \<noteq> C_Done"
  shows "\<exists>s'. probe_step moved s s' \<and> probe_left s' < probe_left s"
proof (cases "rp_consumer s")
  case C_Test
  then have "cc_cons (rp_ring s) = C_Idle" using inv by (simp add: probe_inv_def popped_inv_def)
  then show ?thesis
    by (intro probe_progressI [OF consumer_tests [OF C_Test]]) (simp add: probe_left_defs C_Test)
next
  case C_Pop
  show ?thesis
  proof (cases "cc_cons (rp_ring s) = C_Idle \<and> rg_tail (cc_ring (rp_ring s)) = rg_head (cc_ring (rp_ring s))")
    case True
    note e = empty_ring_accepts [of "rp_ring s"]
    have "length (accepted (rp_ring s)) < prod2cons_target" "\<not> rp_stop s"
      using e(1) True inv C_Pop still_popping [OF inv C_Pop] by (auto simp: probe_inv_def popped_inv_def)
    then have "rp_producer s \<noteq> P_Left" using inv by (auto simp: probe_inv_def pushed_inv_def Let_def)
    then show ?thesis using e(2) True inv by (intro producer_progress) (auto simp: probe_inv_def)
  qed (use pop_progress [OF inv C_Pop] in blast)
next
  case (C_Stamp out)
  show ?thesis
    by (rule probe_progressI [OF consumer_stamps [OF C_Stamp]]) (simp add: probe_left_defs C_Stamp)
next
  case C_Stop
  then have "\<not> rp_stop s" using inv by (simp add: probe_inv_def popped_inv_def)
  with C_Stop show ?thesis
    using producer_at_stop [of "rp_producer s" "cc_prod (rp_ring s)"]
    by (intro probe_progressI [OF consumer_stops [OF C_Stop]]) (simp add: probe_left_defs)
next
  case C_Join
  show ?thesis
  proof (cases "rp_producer s = P_Left")
    case True
    show ?thesis
      by (rule probe_progressI [OF consumer_joins [OF C_Join True]]) (simp add: probe_left_defs C_Join True)
  next
    case False
    then show ?thesis using inv C_Join by (intro producer_progress) (auto simp: probe_inv_def popped_inv_def)
  qed
qed (use left in simp)

lemma probe_finishes:
  "probe_inv s \<Longrightarrow> \<exists>s'. (probe_step moved)\<^sup>*\<^sup>* s s' \<and> rp_consumer s' = C_Done"
proof (induction "probe_left s" arbitrary: s rule: less_induct)
  case less
  show ?case
  proof (cases "rp_consumer s = C_Done")
    case False
    with probe_progress [OF less.prems] obtain s1 where s1: "probe_step moved s s1" "probe_left s1 < probe_left s" by blast
    from less.hyps [OF s1(2) probe_step_inv [OF s1(1) less.prems]] s1(1) show ?thesis
      by (meson converse_rtranclp_into_rtranclp)
  qed blast
qed

subsection \<open>Properties\<close>

text \<open>The threaded probe of the ring benchmark is sound in every interleaving of its threads: the frames it times are
  those of the producer, each once, in order and complete, and no latency is negative, so that the unsigned
  difference does not wrap; from every reachable state it can finish; and when it has, it timed exactly 200000
  frames and the benchmark prints its two lines.\<close>

theorem ring_probe_sound:
  assumes "(probe_step moved)\<^sup>*\<^sup>* (ring_probe_init start) s"
  shows "map (\<lambda>(now, out). sf_sequence out) (rp_pops s) = map word_of_nat [0..<length (rp_pops s)] \<and>
    list_all (\<lambda>(now, out). sf_data out = replicate 1024 0 \<and> uint (now - sf_timestamp_ns out) = uint now - uint (sf_timestamp_ns out)) (rp_pops s) \<and>
    (\<exists>s'. (probe_step moved)\<^sup>*\<^sup>* s s' \<and> rp_consumer s' = C_Done) \<and>
    (rp_consumer s = C_Done \<longrightarrow> length (rp_pops s) = prod2cons_target \<and>
       (\<exists>lines. bench_ring_latency clk (rp_pops s) = Some lines \<and> map bench_name lines = [''spsc_ring_1kb'', ''spsc_prod2cons_1kb'']))"
proof (intro conjI)
  have inv: "probe_inv s" using assms by (rule probe_reach_inv)
  have d: "map snd (rp_pops s) @ in_hand (rp_consumer s) = delivered (rp_ring s)"
    and late: "list_all (\<lambda>(now, out). sf_timestamp_ns out \<le> now) (rp_pops s)"
    using inv unfolding probe_inv_def popped_inv_def by blast+
  obtain queued where acc: "accepted (rp_ring s) = map snd (rp_pops s) @ in_hand (rp_consumer s) @ queued"
    using delivered_bounds(1) [OF inv] by (metis d append.assoc)
  have "map sf_sequence (accepted (rp_ring s)) = map word_of_nat [0..<length (accepted (rp_ring s))]"
    using inv by (simp add: probe_inv_def pushed_inv_def Let_def)
  then have "take (length (rp_pops s)) (map sf_sequence (accepted (rp_ring s))) =
      take (length (rp_pops s)) (map word_of_nat [0..<length (accepted (rp_ring s))])" by simp
  then show "map (\<lambda>(now, out). sf_sequence out) (rp_pops s) = map word_of_nat [0..<length (rp_pops s)]"
    by (simp add: acc take_map comp_def case_prod_unfold)
  have "list_all (stamped (rp_clock s)) (map snd (rp_pops s))"
    using delivered_bounds(3) [OF inv] by (simp flip: d)
  with late show "list_all (\<lambda>(now, out). sf_data out = replicate 1024 0 \<and> uint (now - sf_timestamp_ns out) = uint now - uint (sf_timestamp_ns out)) (rp_pops s)"
    by (auto simp: list.pred_set stamped_def uint_sub_if' word_le_def)
  show "\<exists>s'. (probe_step moved)\<^sup>*\<^sup>* s s' \<and> rp_consumer s' = C_Done" using inv by (rule probe_finishes)
  show "rp_consumer s = C_Done \<longrightarrow> length (rp_pops s) = prod2cons_target \<and>
       (\<exists>lines. bench_ring_latency clk (rp_pops s) = Some lines \<and> map bench_name lines = [''spsc_ring_1kb'', ''spsc_prod2cons_1kb''])"
    using inv bench_ring_returns [of "rp_pops s" clk] by (auto simp: probe_inv_def popped_inv_def prod2cons_target_def)
qed

theorem ring_probe_sound_witness:
  "\<exists>s'. (probe_step (\<lambda>f. f\<lparr>sf_data := []\<rparr>))\<^sup>*\<^sup>* (ring_probe_init 5) s' \<and> rp_consumer s' = C_Done"
  using ring_probe_sound [OF rtranclp.rtrancl_refl] by blast

end
