(* ===== verification/Tcp_Writers.thy ===== *)
theory Tcp_Writers
  imports Tcp_Interface
begin

text \<open>
  Two threads in \<^verbatim>\<open>TcpInterface::write\<close> (\<^verbatim>\<open>src/network_interfaces/tcp_interface.cpp\<close>). With fault injection the bridge
  writes frames from its executor and, for delayed frames, from the worker of the fault engine
  (the write callback in \<^verbatim>\<open>src/network_bridge.cpp\<close>). \<open>write\<close> takes no lock: it puts the marker, the size and the
  data on the connection with three calls, and the calls of the two threads interleave. \<open>Tcp_Interface\<close> takes a
  write as one step; this theory says when that is justified and what happens otherwise. The connection is open
  and no call fails.
\<close>

subsection \<open>Threads\<close>

text \<open>A thread is outside \<^verbatim>\<open>write\<close>, or the given frame has its size and data, or its data, still to go out.\<close>

datatype writing = NotWriting | NextSize bytes | NextData bytes

text \<open>The threads are told apart by a \<^typ>\<open>bool\<close>, which is \<^term>\<open>True\<close> for the worker. Besides what the calls have put on
  the connection the state records the frames in the order their writes began, and whether a write ever began
  inside another.\<close>

record tcp_writers =
  tw_at :: "bool \<Rightarrow> writing"
  tw_calls :: "(bool \<times> bytes) list"
  tw_order :: "(bool \<times> bytes) list"
  tw_overlap :: bool

definition tcp_writers_init :: tcp_writers where
  "tcp_writers_init = \<lparr>tw_at = (\<lambda>_. NotWriting), tw_calls = [], tw_order = [], tw_overlap = False\<rparr>"

definition tw_wire :: "tcp_writers \<Rightarrow> bytes" where
  "tw_wire s = concat (map snd (tw_calls s))"

definition size_bytes_of :: "bool \<Rightarrow> bytes \<Rightarrow> bytes" where
  "size_bytes_of little d = host_bytes little (word_of_nat (length d))"

definition data_bytes_of :: "bytes \<Rightarrow> bytes" where
  "data_bytes_of d = take (unat (word_of_nat (length d) :: u32)) d"

inductive tcp_write_step :: "bool \<Rightarrow> tcp_writers \<Rightarrow> tcp_writers \<Rightarrow> bool" for little where
  writes_marker: "tw_at s w = NotWriting
    \<Longrightarrow> tcp_write_step little s (s\<lparr>tw_at := (tw_at s)(w := NextSize d), tw_calls := tw_calls s @ [(w, [0xAB, 0xCD])],
          tw_order := tw_order s @ [(w, d)], tw_overlap := tw_overlap s \<or> tw_at s (\<not> w) \<noteq> NotWriting\<rparr>)"
| writes_size: "tw_at s w = NextSize d
    \<Longrightarrow> tcp_write_step little s (s\<lparr>tw_at := (tw_at s)(w := NextData d), tw_calls := tw_calls s @ [(w, size_bytes_of little d)]\<rparr>)"
| writes_data: "tw_at s w = NextData d
    \<Longrightarrow> tcp_write_step little s (s\<lparr>tw_at := (tw_at s)(w := NotWriting), tw_calls := tw_calls s @ [(w, data_bytes_of d)]\<rparr>)"

inductive_cases tcp_write_stepE: "tcp_write_step little s s'"

subsection \<open>Each thread writes its frames in order\<close>

text \<open>The calls of one write, and those a thread still has to make.\<close>

definition write_calls :: "bool \<Rightarrow> bytes \<Rightarrow> bytes list" where
  "write_calls little d = [[0xAB, 0xCD], size_bytes_of little d, data_bytes_of d]"

lemma concat_write_calls: "concat (write_calls little d) = tcp_wire little d"
  by (simp add: write_calls_def tcp_wire_def size_bytes_of_def data_bytes_of_def Let_def)

fun pending :: "bool \<Rightarrow> writing \<Rightarrow> bytes list" where
  "pending little NotWriting = []"
| "pending little (NextSize d) = [size_bytes_of little d, data_bytes_of d]"
| "pending little (NextData d) = [data_bytes_of d]"

definition calls_of :: "bool \<Rightarrow> tcp_writers \<Rightarrow> bytes list" where
  "calls_of w s = map snd (filter (\<lambda>c. fst c = w) (tw_calls s))"

definition frames_of :: "bool \<Rightarrow> tcp_writers \<Rightarrow> bytes list" where
  "frames_of w s = map snd (filter (\<lambda>f. fst f = w) (tw_order s))"

definition thread_inv :: "bool \<Rightarrow> bool \<Rightarrow> tcp_writers \<Rightarrow> bool" where
  "thread_inv little w s \<longleftrightarrow> calls_of w s @ pending little (tw_at s w) = concat (map (write_calls little) (frames_of w s))"

text \<open>As long as no write began inside another, at most one thread is inside a write.\<close>

definition serial_inv :: "bool \<Rightarrow> tcp_writers \<Rightarrow> bool" where
  "serial_inv little s \<longleftrightarrow> (\<not> tw_overlap s \<longrightarrow>
     (\<exists>w. tw_at s (\<not> w) = NotWriting \<and>
        map snd (tw_calls s) @ pending little (tw_at s w) = concat (map (write_calls little) (map snd (tw_order s)))))"

definition writers_inv :: "bool \<Rightarrow> tcp_writers \<Rightarrow> bool" where
  "writers_inv little s \<longleftrightarrow> (\<forall>w. thread_inv little w s) \<and> serial_inv little s"

lemma writers_init_inv: "writers_inv little tcp_writers_init"
  by (simp add: writers_inv_def thread_inv_def serial_inv_def tcp_writers_init_def calls_of_def frames_of_def)

lemma thread_step_inv: "tcp_write_step little s s' \<Longrightarrow> thread_inv little v s \<Longrightarrow> thread_inv little v s'"
  by (erule tcp_write_stepE) (auto simp: thread_inv_def calls_of_def frames_of_def write_calls_def)

lemma serial_step_inv:
  assumes "tcp_write_step little s s'" and "serial_inv little s"
  shows "serial_inv little s'"
proof (cases "tw_overlap s'")
  case False
  with assms(1) have "\<not> tw_overlap s" by (auto elim: tcp_write_stepE)
  with assms(2) obtain v where v: "tw_at s (\<not> v) = NotWriting"
    "map snd (tw_calls s) @ pending little (tw_at s v) = concat (map (write_calls little) (map snd (tw_order s)))"
    by (auto simp: serial_inv_def)
  have step: "tw_at s' (\<not> w) = NotWriting \<and>
      map snd (tw_calls s') @ pending little (tw_at s' w) = concat (map (write_calls little) (map snd (tw_order s')))"
    if "tw_at s' (\<not> w) = NotWriting" "tw_at s w = tw_at s v \<or> v = w" "map snd (tw_order s') = map snd (tw_order s) @ new"
      "map snd (tw_calls s') @ pending little (tw_at s' w) =
        map snd (tw_calls s) @ pending little (tw_at s w) @ concat (map (write_calls little) new)" for w new
    using that v(2) by auto
  from assms(1) show ?thesis
  proof (cases rule: tcp_write_step.cases)
    case (writes_marker w d)
    then have "tw_at s w = tw_at s v" using False v(1) by (cases "v = w") auto
    with writes_marker False show ?thesis
      unfolding serial_inv_def by (intro impI exI [of _ w] step [of w "[d]"]) (simp_all add: write_calls_def)
  next
    case (writes_size w d)
    then have "v = w" using v(1) by (cases "v = w") auto
    with writes_size v(1) show ?thesis
      unfolding serial_inv_def by (intro impI exI [of _ w] step [of w "[]"]) simp_all
  next
    case (writes_data w d)
    then have "v = w" using v(1) by (cases "v = w") auto
    with writes_data v(1) show ?thesis
      unfolding serial_inv_def by (intro impI exI [of _ w] step [of w "[]"]) simp_all
  qed
qed (simp add: serial_inv_def)

lemma writers_step_inv: "tcp_write_step little s s' \<Longrightarrow> writers_inv little s \<Longrightarrow> writers_inv little s'"
  using thread_step_inv serial_step_inv by (simp add: writers_inv_def)

lemma writers_reach_inv: "(tcp_write_step little)\<^sup>*\<^sup>* tcp_writers_init s \<Longrightarrow> writers_inv little s"
  by (induction rule: rtranclp_induct) (auto intro: writers_init_inv writers_step_inv)

subsection \<open>What a receiver makes of it\<close>

lemma concat_all_calls: "concat (concat (map (write_calls little) ds)) = concat (map (tcp_wire little) ds)"
  by (induction ds) (simp_all add: concat_write_calls)

lemma calls_shuffle: "map snd cs \<in> shuffles (map snd (filter (\<lambda>c. \<not> fst c) cs)) (map snd (filter fst cs))"
  by (induction cs) (auto intro: Cons_in_shuffles_leftI Cons_in_shuffles_rightI)

lemma writers_quiet:
  assumes "writers_inv little s" and "tw_at s = (\<lambda>_. NotWriting)"
  shows "map snd (tw_calls s) \<in>
      shuffles (concat (map (write_calls little) (frames_of False s))) (concat (map (write_calls little) (frames_of True s)))"
    and "\<not> tw_overlap s \<Longrightarrow> tw_wire s = concat (map (tcp_wire little) (map snd (tw_order s)))"
proof -
  have own: "calls_of w s = concat (map (write_calls little) (frames_of w s))" for w
    using assms by (simp add: writers_inv_def thread_inv_def)
  show "map snd (tw_calls s) \<in>
      shuffles (concat (map (write_calls little) (frames_of False s))) (concat (map (write_calls little) (frames_of True s)))"
    using calls_shuffle [of "tw_calls s"] by (simp add: calls_of_def flip: own)
  show "tw_wire s = concat (map (tcp_wire little) (map snd (tw_order s)))" if "\<not> tw_overlap s"
    using assms that concat_all_calls [of little "map snd (tw_order s)"]
    by (auto simp: writers_inv_def serial_inv_def tw_wire_def)
qed

text \<open>C33: Writing from two threads is safe exactly as long as the writes do not overlap: the calls on the connection
  are always an interleaving of the three calls per frame of each thread, in order and none lost; and when no write
  began inside another, the receiver delivers the frames of both threads in the order their writes began, however
  the connection cuts the stream.\<close>

theorem tcp_writers_deliver:
  assumes "(tcp_write_step little)\<^sup>*\<^sup>* tcp_writers_init s" and "tw_at s = (\<lambda>_. NotWriting)"
  shows "map snd (tw_calls s) \<in>
      shuffles (concat (map (write_calls little) (frames_of False s))) (concat (map (write_calls little) (frames_of True s))) \<and>
    map snd (tw_order s) \<in> shuffles (frames_of False s) (frames_of True s) \<and>
    (\<not> tw_overlap s \<longrightarrow> (\<forall>p \<in> set (map snd (tw_order s)). length p < 2 ^ 32) \<longrightarrow>
       (\<forall>reads. concat reads = tw_wire s \<longrightarrow> reads \<noteq> [] \<longrightarrow>
          (\<exists>t. feed_chunks (tcp_feed little) reads packet_thread_init = (map snd (tw_order s), t))))"
proof (intro conjI)
  note quiet = writers_quiet [OF writers_reach_inv [OF assms(1)] assms(2)]
  show "map snd (tw_calls s) \<in>
      shuffles (concat (map (write_calls little) (frames_of False s))) (concat (map (write_calls little) (frames_of True s)))"
    by (rule quiet(1))
  show "map snd (tw_order s) \<in> shuffles (frames_of False s) (frames_of True s)"
    using calls_shuffle [of "tw_order s"] by (simp add: frames_of_def)
  show "\<not> tw_overlap s \<longrightarrow> (\<forall>p \<in> set (map snd (tw_order s)). length p < 2 ^ 32) \<longrightarrow>
       (\<forall>reads. concat reads = tw_wire s \<longrightarrow> reads \<noteq> [] \<longrightarrow>
          (\<exists>t. feed_chunks (tcp_feed little) reads packet_thread_init = (map snd (tw_order s), t)))"
    using tcp.delivers_all [where ps = "map snd (tw_order s)" and little = little and s = packet_thread_init] quiet(2)
    by (fastforce simp: tcp_idle_def packet_thread_init_def)
qed

subsection \<open>Runs\<close>

text \<open>Two frames one after the other, from different threads.\<close>

definition serial_run :: tcp_writers where
  "serial_run = \<lparr>tw_at = (\<lambda>_. NotWriting),
     tw_calls = [(False, [0xAB, 0xCD]), (False, [1, 0, 0, 0]), (False, [7]), (True, [0xAB, 0xCD]), (True, [1, 0, 0, 0]), (True, [8])],
     tw_order = [(False, [7]), (True, [8])], tw_overlap = False\<rparr>"

text \<open>The second write begins after the size of the first has gone out.\<close>

definition overlapping_run :: tcp_writers where
  "overlapping_run = \<lparr>tw_at = (\<lambda>_. NotWriting),
     tw_calls = [(False, [0xAB, 0xCD]), (False, [1, 0, 0, 0]), (True, [0xAB, 0xCD]), (True, [1, 0, 0, 0]), (True, [8]), (False, [7])],
     tw_order = [(False, [7]), (True, [8])], tw_overlap = True\<rparr>"

lemma one_byte_call: "size_bytes_of True [b] = [1, 0, 0, 0]" "data_bytes_of [b] = [b]"
  by (simp_all add: size_bytes_of_def data_bytes_of_def host_bytes_def le_bytes_def upt_4)

lemma two_writes_begin:
  "(tcp_write_step True)\<^sup>*\<^sup>* tcp_writers_init
     \<lparr>tw_at = (\<lambda>_. NotWriting)(False := NextData [7]), tw_calls = [(False, [0xAB, 0xCD]), (False, [1, 0, 0, 0])],
      tw_order = [(False, [7])], tw_overlap = False\<rparr>" (is "?R\<^sup>*\<^sup>* _ ?t")
proof -
  let ?s1 = "\<lparr>tw_at = (\<lambda>_. NotWriting)(False := NextSize [7]), tw_calls = [(False, [0xAB, 0xCD])],
      tw_order = [(False, [7])], tw_overlap = False\<rparr>"
  have "?R tcp_writers_init ?s1"
    using writes_marker [of tcp_writers_init False True "[7]"] by (simp add: tcp_writers_init_def)
  moreover have "?R ?s1 ?t"
    using writes_size [of ?s1 False "[7]" True] by (simp add: one_byte_call)
  ultimately show ?thesis by (meson converse_rtranclp_into_rtranclp r_into_rtranclp)
qed

lemma whole_write:
  assumes "tw_at s w = NotWriting"
  shows "(tcp_write_step little)\<^sup>*\<^sup>* s (s\<lparr>tw_calls := tw_calls s @ map (Pair w) (write_calls little d),
    tw_order := tw_order s @ [(w, d)], tw_overlap := tw_overlap s \<or> tw_at s (\<not> w) \<noteq> NotWriting\<rparr>)" (is "?R\<^sup>*\<^sup>* s ?t")
proof -
  define s1 where "s1 = s\<lparr>tw_at := (tw_at s)(w := NextSize d), tw_calls := tw_calls s @ [(w, [0xAB, 0xCD])],
    tw_order := tw_order s @ [(w, d)], tw_overlap := tw_overlap s \<or> tw_at s (\<not> w) \<noteq> NotWriting\<rparr>"
  define s2 where "s2 = s1\<lparr>tw_at := (tw_at s1)(w := NextData d), tw_calls := tw_calls s1 @ [(w, size_bytes_of little d)]\<rparr>"
  have t: "?t = s2\<lparr>tw_at := (tw_at s2)(w := NotWriting), tw_calls := tw_calls s2 @ [(w, data_bytes_of d)]\<rparr>"
    using assms by (simp add: s1_def s2_def write_calls_def fun_upd_idem)
  have 1: "?R s s1" unfolding s1_def by (rule writes_marker) (rule assms)
  have 2: "?R s1 s2" unfolding s2_def by (rule writes_size) (simp add: s1_def)
  have 3: "?R s2 ?t" unfolding t by (rule writes_data) (simp add: s2_def)
  show ?thesis
    by (rule converse_rtranclp_into_rtranclp, rule 1, rule converse_rtranclp_into_rtranclp, rule 2, rule r_into_rtranclp, rule 3)
qed

lemma serial_run_reached: "(tcp_write_step True)\<^sup>*\<^sup>* tcp_writers_init serial_run"
proof -
  let ?s = "tcp_writers_init\<lparr>tw_calls := map (Pair False) (write_calls True [7]), tw_order := [(False, [7])]\<rparr>"
  have 1: "(tcp_write_step True)\<^sup>*\<^sup>* tcp_writers_init ?s"
    using whole_write [of tcp_writers_init False True "[7]"] by (simp add: tcp_writers_init_def)
  have 2: "(tcp_write_step True)\<^sup>*\<^sup>* ?s serial_run"
    using whole_write [of ?s True True "[8]"]
    by (simp add: tcp_writers_init_def serial_run_def write_calls_def one_byte_call)
  show ?thesis using 1 2 by (rule rtranclp_trans)
qed

theorem tcp_writers_deliver_witness:
  "\<exists>t. feed_chunks (tcp_feed True) [tw_wire serial_run] packet_thread_init = ([[7], [8]], t)"
proof -
  have "tw_at serial_run = (\<lambda>_. NotWriting)" "\<not> tw_overlap serial_run" "map snd (tw_order serial_run) = [[7], [8]]"
    by (simp_all add: serial_run_def)
  with tcp_writers_deliver [OF serial_run_reached] have
    "\<forall>reads. concat reads = tw_wire serial_run \<longrightarrow> reads \<noteq> [] \<longrightarrow>
       (\<exists>t. feed_chunks (tcp_feed True) reads packet_thread_init = ([[7], [8]], t))" by auto
  then show ?thesis by (rule allE [where x = "[tw_wire serial_run]"]) simp
qed

lemma overlapping_run_reached: "(tcp_write_step True)\<^sup>*\<^sup>* tcp_writers_init overlapping_run"
proof -
  let ?s1 = "\<lparr>tw_at = (\<lambda>_. NotWriting)(False := NextData [7]), tw_calls = [(False, [0xAB, 0xCD]), (False, [1, 0, 0, 0])],
      tw_order = [(False, [7])], tw_overlap = False\<rparr>"
  let ?s2 = "?s1\<lparr>tw_calls := tw_calls ?s1 @ map (Pair True) (write_calls True [8]), tw_order := [(False, [7]), (True, [8])],
      tw_overlap := True\<rparr>"
  have 1: "(tcp_write_step True)\<^sup>*\<^sup>* ?s1 ?s2"
    using whole_write [of ?s1 True True "[8]"] by simp
  have 2: "tcp_write_step True ?s2 overlapping_run"
    using writes_data [of ?s2 False "[7]" True] by (simp add: overlapping_run_def write_calls_def one_byte_call fun_upd_idem)
  show ?thesis using two_writes_begin 1 2 by (meson rtranclp.rtrancl_into_rtrancl rtranclp_trans)
qed

text \<open>From the overlapping writes the receiver makes up a payload that nobody sent, and delivers neither frame.\<close>

theorem overlapping_writes_corrupt:
  "\<exists>s. (tcp_write_step True)\<^sup>*\<^sup>* tcp_writers_init s \<and> tw_at s = (\<lambda>_. NotWriting) \<and>
     frames_of False s = [[7]] \<and> frames_of True s = [[8]] \<and>
     fst (tcp_feed True (tw_wire s) packet_thread_init) = [[0xAB]]"
proof (intro exI conjI)
  show "(tcp_write_step True)\<^sup>*\<^sup>* tcp_writers_init overlapping_run" by (rule overlapping_run_reached)
  show "fst (tcp_feed True (tw_wire overlapping_run) packet_thread_init) = [[0xAB]]"
    by (simp add: overlapping_run_def tw_wire_def tcp_feed_def packet_thread_init_def receive_loop.simps htonl_def
        le_bytes_def upt_4)
qed (simp_all add: overlapping_run_def frames_of_def)

end
