(* ===== verification/Udp_Benchmark.thy ===== *)
theory Udp_Benchmark
  imports Benchmarks
begin

text \<open>
  The round-trip benchmark of the UDP transports (\<^verbatim>\<open>transport/bench_udp_transport.cpp\<close>): the echo server, the client
  over Boost.Asio and the client over io\_uring. The network between client and server is a function from the datagram
  sent to the datagram that comes back (\<^term>\<open>None\<close> when none does, so that the client waits for ever); the readings of the
  clock are a function of their number. Of io\_uring the model has the entries of the submission queue that are
  prepared and the completions that are not yet consumed.
\<close>

definition kPayload :: nat where "kPayload = 1024"
definition kIters :: nat where "kIters = 50000"
definition kEchoPort :: u16 where "kEchoPort = 45999"

subsection \<open>Statistics\<close>

record Stats =
  st_p50_ns :: dbl
  st_p99_ns :: dbl
  st_msgs_per_sec :: dbl

definition summarize :: "dbl list \<Rightarrow> dbl \<Rightarrow> Stats option" where
  "summarize s total_s = do {
     let s = sort s;
     v50 \<leftarrow> percentile s p50;
     v99 \<leftarrow> percentile s p99;
     Some \<lparr>st_p50_ns = v50, st_p99_ns = v99,
           st_msgs_per_sec = (if total_s > 0 then fdiv (of_integer (int (length s))) total_s else 0)\<rparr> }"

definition stats_line :: "string \<Rightarrow> Stats \<Rightarrow> string" where
  "stats_line head s = head @ ''msgs/sec='' @ print_fixed 0 (st_msgs_per_sec s) @ '' p50='' @ print_fixed 0 (st_p50_ns s) @
     ''ns p99='' @ print_fixed 0 (st_p99_ns s) @ ''ns''"

subsection \<open>The echo server\<close>

definition echo_buffer :: nat where "echo_buffer = 65536"

text \<open>Per round the stop flag as loaded and the datagram received with its sender, if one came before the timeout; a longer
  datagram is cut to the buffer. The result is what is sent, and to whom.\<close>

fun echo_server :: "(bool \<times> ('a \<times> bytes) option) list \<Rightarrow> ('a \<times> bytes) list" where
  "echo_server [] = []"
| "echo_server ((stop, received) # rounds) =
     (if stop then []
      else (case received of
              None \<Rightarrow> []
            | Some (from_addr, datagram) \<Rightarrow>
                (let buf = take echo_buffer datagram in if 0 < length buf then [(from_addr, buf)] else [])) @
           echo_server rounds)"

subsection \<open>Boost.Asio client\<close>

text \<open>One round: the reply is cut to the receive buffer of 65536 bytes. The loop around it is the timed loop of the harness.\<close>

definition asio_round :: "(bytes \<Rightarrow> bytes option) \<Rightarrow> bytes \<Rightarrow> bytes option" where
  "asio_round net out = map_option (take 65536) (net out)"

definition bench_asio :: "(bytes \<Rightarrow> bytes option) \<Rightarrow> (nat \<Rightarrow> int) \<Rightarrow> string option" where
  "bench_asio net clk = do {
     let out = replicate kPayload 0xAB;
     (lat, inp) \<leftarrow> timed_op kIters (\<lambda>_. asio_round net out) clk 1 [];
     s \<leftarrow> summarize lat (seconds (clk (2 * kIters + 1) - clk 0));
     Some (stats_line ''[BENCH] udp_asio_1kb        '' s) }"

subsection \<open>io\_uring client\<close>

record bench_uring =
  bu_entries :: nat
  bu_prepared :: nat
  bu_completed :: nat

text \<open>\<^verbatim>\<open>io_uring_get_sqe\<close> returns a null pointer when the queue is full, and the preparation that follows writes through it.\<close>

definition bu_get_sqe :: "bench_uring \<Rightarrow> bench_uring option" where
  "bu_get_sqe u = (if bu_prepared u < bu_entries u then Some (u\<lparr>bu_prepared := bu_prepared u + 1\<rparr>) else None)"

definition bu_submit :: "bench_uring \<Rightarrow> bench_uring" where
  "bu_submit u = u\<lparr>bu_prepared := 0, bu_completed := bu_completed u + bu_prepared u\<rparr>"

definition bu_wait_seen :: "bench_uring \<Rightarrow> bench_uring option" where
  "bu_wait_seen u = (if 0 < bu_completed u then Some (u\<lparr>bu_completed := bu_completed u - 1\<rparr>) else None)"

definition uring_round :: "(bytes \<Rightarrow> bytes option) \<Rightarrow> bytes \<Rightarrow> bench_uring \<times> bytes \<Rightarrow> (bench_uring \<times> bytes) option" where
  "uring_round net out s = (case s of (u, inp) \<Rightarrow> do {
     u \<leftarrow> bu_get_sqe u;
     let u = bu_submit u;
     u \<leftarrow> bu_wait_seen u;
     u \<leftarrow> bu_get_sqe u;
     let u = bu_submit u;
     reply \<leftarrow> net out;
     u \<leftarrow> bu_wait_seen u;
     Some (u, take 65536 reply) })"

definition bench_iouring :: "(bytes \<Rightarrow> bytes option) \<Rightarrow> (nat \<Rightarrow> int) \<Rightarrow> string option" where
  "bench_iouring net clk = do {
     let ring = \<lparr>bu_entries = 8, bu_prepared = 0, bu_completed = 0\<rparr>;
     let out = replicate kPayload 0xCD;
     (lat, s) \<leftarrow> timed_op kIters (uring_round net out) clk 1 (ring, []);
     s \<leftarrow> summarize lat (seconds (clk (2 * kIters + 1) - clk 0));
     Some (stats_line ''[BENCH] udp_iouring_1kb     '' s) }"

text \<open>The program, built with or without liburing.\<close>

definition udp_bench_main :: "bool \<Rightarrow> (bytes \<Rightarrow> bytes option) \<Rightarrow> (nat \<Rightarrow> int) \<Rightarrow> (nat \<Rightarrow> int) \<Rightarrow> string list option" where
  "udp_bench_main have_liburing net clk_asio clk_iouring = do {
     asio \<leftarrow> bench_asio net clk_asio;
     iouring \<leftarrow> (if have_liburing then bench_iouring net clk_iouring
               else Some ''[BENCH] udp_iouring_1kb     SKIPPED (build without liburing)'');
     Some [''=== SensorForge UDP transport benchmark (1KB, '' @ decimal kIters @ '' iters RTT) ==='', asio, iouring] }"

subsection \<open>The loopback\<close>

text \<open>What comes back when the loopback loses nothing: the reply of the echo server to one datagram.\<close>

definition echoed :: "bytes \<Rightarrow> bytes option" where
  "echoed datagram = (case echo_server [(False, None), (False, Some ((), datagram))] of [] \<Rightarrow> None | (_, d) # _ \<Rightarrow> Some d)"

lemma echoed_eq: "echoed d = (if d = [] then None else Some (take 65536 d))"
  by (simp add: echoed_def echo_buffer_def Let_def)

lemma echo_server_all:
  "echo_server (map (\<lambda>x. (False, x)) received @ (True, last_one) # rest) =
     map (\<lambda>(a, d). (a, take echo_buffer d))
       (filter (\<lambda>(a, d). d \<noteq> []) (concat (map (\<lambda>x. case x of None \<Rightarrow> [] | Some y \<Rightarrow> [y]) received)))"
proof (induction received)
  case (Cons x received)
  then show ?case by (cases x) (auto simp: echo_buffer_def Let_def)
qed simp

lemma timed_settle:
  assumes "trip s = Some t" and "trip t = Some t"
  shows "\<exists>lat. timed_op (Suc n) trip clk k s = Some (lat, t) \<and> length lat = Suc n"
proof -
  have "\<exists>lat. timed_op n trip clk k t = Some (lat, t) \<and> length lat = n" for k
  proof (induction n arbitrary: k)
    case (Suc n)
    from Suc.IH [of "k + 2"] show ?case using assms(2) by fastforce
  qed simp
  from this [of "k + 2"] show ?thesis using assms(1) by fastforce
qed

lemma summarize_ordered:
  "length lat < 2 ^ 53 \<Longrightarrow> \<exists>s. summarize lat t = Some s \<and> st_p50_ns s \<le> st_p99_ns s"
  using percentiles_ordered [of lat] by (auto simp: summarize_def Let_def)

text \<open>Between rounds the submission queue is empty and every completion was consumed.\<close>

lemma uring_round_quiet:
  assumes "bu_entries u = 8" "bu_prepared u = 0" "bu_completed u = 0" and "net out = Some reply"
  shows "uring_round net out (u, inp) = Some (u, take 65536 reply)"
  using assms by (cases u) (simp add: uring_round_def bu_get_sqe_def bu_submit_def bu_wait_seen_def Let_def)

lemma asio_rounds:
  "\<exists>lat. timed_op kIters (\<lambda>_. asio_round echoed (replicate kPayload 0xAB)) clk 1 [] = Some (lat, replicate kPayload 0xAB) \<and>
     length lat = kIters"
proof -
  have r: "asio_round echoed (replicate kPayload 0xAB) = Some (replicate kPayload 0xAB)"
    by (simp add: asio_round_def echoed_eq kPayload_def)
  have k: "kIters = Suc 49999" by (simp add: kIters_def)
  show ?thesis unfolding k by (rule timed_settle) (simp_all add: r)
qed

lemma uring_rounds:
  "\<exists>lat. timed_op kIters (uring_round echoed (replicate kPayload 0xCD)) clk 1 (\<lparr>bu_entries = 8, bu_prepared = 0, bu_completed = 0\<rparr>, [])
      = Some (lat, \<lparr>bu_entries = 8, bu_prepared = 0, bu_completed = 0\<rparr>, replicate kPayload 0xCD) \<and> length lat = kIters"
proof -
  have k: "kIters = Suc 49999" by (simp add: kIters_def)
  show ?thesis unfolding k
    by (rule timed_settle; subst uring_round_quiet [where reply = "replicate kPayload 0xCD"]) (simp_all add: echoed_eq kPayload_def)
qed

lemma bench_asio_completes: "\<exists>line. bench_asio echoed clk = Some line"
proof -
  obtain lat where l: "timed_op kIters (\<lambda>_. asio_round echoed (replicate kPayload 0xAB)) clk 1 [] = Some (lat, replicate kPayload 0xAB)"
    "length lat < 2 ^ 53" using asio_rounds [of clk] by (auto simp: kIters_def)
  from summarize_ordered [OF l(2)] obtain s where "summarize lat (seconds (clk (2 * kIters + 1) - clk 0)) = Some s" by blast
  with l(1) show ?thesis by (simp add: bench_asio_def Let_def)
qed

lemma bench_iouring_completes: "\<exists>line. bench_iouring echoed clk = Some line"
proof -
  obtain lat where l: "timed_op kIters (uring_round echoed (replicate kPayload 0xCD)) clk 1 (\<lparr>bu_entries = 8, bu_prepared = 0, bu_completed = 0\<rparr>, [])
      = Some (lat, \<lparr>bu_entries = 8, bu_prepared = 0, bu_completed = 0\<rparr>, replicate kPayload 0xCD)"
    "length lat < 2 ^ 53" using uring_rounds [of clk] by (auto simp: kIters_def)
  from summarize_ordered [OF l(2)] obtain s where "summarize lat (seconds (clk (2 * kIters + 1) - clk 0)) = Some s" by blast
  with l(1) show ?thesis by (simp add: bench_iouring_def Let_def)
qed

lemma decimal_iters: "decimal kIters = ''50000''"
  by (simp add: kIters_def decimal.simps digit_char_def char_of_def bit_0)

subsection \<open>Properties\<close>

text \<open>Over a loopback that loses nothing both clients of the UDP benchmark complete their 50000 round trips against the
  echo server: each gets back the kilobyte it sent, the io\_uring client never finds the submission queue full and
  leaves no completion behind, and the program prints its three lines; the server answers every datagram that is not
  empty, in order, until it is stopped.\<close>

theorem udp_bench_completes:
  "(\<exists>lat. timed_op kIters (\<lambda>_. asio_round echoed (replicate kPayload 0xAB)) clk 1 [] = Some (lat, replicate kPayload 0xAB)) \<and>
   (\<exists>lat. timed_op kIters (uring_round echoed (replicate kPayload 0xCD)) clk 1 (\<lparr>bu_entries = 8, bu_prepared = 0, bu_completed = 0\<rparr>, [])
      = Some (lat, \<lparr>bu_entries = 8, bu_prepared = 0, bu_completed = 0\<rparr>, replicate kPayload 0xCD)) \<and>
   (\<exists>asio iouring. udp_bench_main liburing echoed clk clk' =
      Some [''=== SensorForge UDP transport benchmark (1KB, 50000 iters RTT) ==='', asio, iouring]) \<and>
   echo_server (map (\<lambda>x. (False, x)) received @ [(True, None)]) =
     map (\<lambda>(a, d). (a, take echo_buffer d))
       (filter (\<lambda>(a, d). d \<noteq> []) (concat (map (\<lambda>x. case x of None \<Rightarrow> [] | Some y \<Rightarrow> [y]) received)))"
proof (intro conjI)
  obtain asio iouring where "bench_asio echoed clk = Some asio" "bench_iouring echoed clk' = Some iouring"
    using bench_asio_completes bench_iouring_completes by metis
  then show "\<exists>asio iouring. udp_bench_main liburing echoed clk clk' =
      Some [''=== SensorForge UDP transport benchmark (1KB, 50000 iters RTT) ==='', asio, iouring]"
    by (simp add: udp_bench_main_def decimal_iters)
qed (use asio_rounds uring_rounds in blast, use uring_rounds in blast, rule echo_server_all)

end
