(* ===== verification/Spec2Isabelle.thy ===== *)
theory Spec2Isabelle
  imports IoUring_Interface Bridge_Config Bridge_Faults Bridge_Recording Bridge_Threads Parallel_Run Can_Socket Exporter_Threads
    Fuzz_Targets Metrics_Threads Packet_Threads Ring_Probe Tcp_Writers Udp_Benchmark
begin

text \<open>
  SensorForge is a hardware-in-the-loop validation platform for sensor streams: a bridge forwards ROS 2 topics
  over a network link in checksummed frames, records them in a replay log and injects faults, and a
  scenario runner drives synthetic sensors, measures what arrives and judges it by assertions. This
  development models the C++ program under \<^verbatim>\<open>src/\<close> and proves what makes its parts correct. Paths below are
  relative to \<^verbatim>\<open>src/\<close>.

  \<^bold>\<open>Conventions.\<close> A buffer is a list of bytes; reads and writes go through \<open>rd\<close>, \<open>wr\<close> and \<open>sub\<close> of \<open>SF_Prelude\<close>,
  which are \<^term>\<open>None\<close> where the C++ access is out of bounds, so that a definition that returns \<^term>\<open>Some x\<close> has
  stayed within its buffers. \<^verbatim>\<open>uintN_t\<close> is an \<open>N\<close>-bit word and wraps around. A \<^verbatim>\<open>double\<close> is a real number and
  each operation rounds to nearest even in 53 bits (\<open>Fp64\<close>). An exception is \<open>Inl e\<close>; output parameters are
  passed in and returned. Where code may not return, the model is a \<^theory_text>\<open>partial_function\<close> or carries the
  list of what other threads do, and that it returns is proved as such. No definition has a fuel
  argument: loops are structural recursions, recursions with a measure, or runs over a list of events.

  \<^bold>\<open>Link protocol.\<close>
  \<^item> \<open>Crc32c\<close> (\<^verbatim>\<open>include/sensorforge/protocol/crc32c.hpp\<close>): table, software and hardware routine and the
    dispatch. Every build computes the same function, and four changed consecutive bytes are always
    detected.
  \<^item> \<open>Frame_Codec\<close> (\<^verbatim>\<open>frame.hpp\<close>, \<^verbatim>\<open>frame_codec.hpp\<close>, \<^verbatim>\<open>src/protocol/frame_codec.cpp\<close>): encoder, header decoder
    and the stateful decoder. The decoder accepts exactly the documented wire image, round trip,
    rejection of damage, monotone sequence numbers and times.
  \<^item> \<open>Codec_Interface\<close>: the contract (locales \<open>framed_codec\<close>, \<open>burst_codec\<close>) that the frame codec and the record
    codec of the log are both interpreted in; unique decoding of concatenations is proved there once.

  \<^bold>\<open>Queues.\<close>
  \<^item> \<open>Spsc_Ring\<close> (\<^verbatim>\<open>core/spsc_ring.hpp\<close>) refines the bounded queue of \<open>Fifo_Interface\<close>; \<open>Spsc_Concurrent\<close> runs one
    producer and one consumer interleaved at every load, store and slot access: each item is delivered
    once and in order, no slot is accessed by both at once; the overwriting push may redeliver.
  \<^item> \<open>Backpressure\<close> (\<^verbatim>\<open>core/backpressure_policy.hpp\<close>): the effect of each policy on a full queue and which of
    them return.
  \<^item> \<open>Seqlock\<close> (\<^verbatim>\<open>core/seqlock.hpp\<close>): writer and reader interleaved word by word; no torn value is
    returned, and a reader that is left alone returns.
  \<^item> \<open>Subscription_Manager\<close>, \<open>Subscription_Manager_TF\<close> (\<^verbatim>\<open>network_bridge/subscription_manager*.hpp\<close> and their
    \<^verbatim>\<open>.cpp\<close>): the per-topic queue in front of the bridge and the buffer of the latest transforms.

  \<^bold>\<open>Replay log.\<close> \<open>Wal_Record\<close>, \<open>Segment_Name\<close>, \<open>Replay_Index\<close>, \<open>Wal_Writer\<close>, \<open>Wal_Reader\<close>
  (\<^verbatim>\<open>include/sensorforge/replay/\<close>, \<^verbatim>\<open>src/replay/\<close>): record codec, segment files, index, writer and replayer over a
  map from file names to contents. What is appended is read back; everything that is read was a record
  of the log; damage between intact records costs only the damaged part.

  \<^bold>\<open>Transports.\<close> \<open>Link_Interface\<close> is the contract below the bridge (\<^verbatim>\<open>network_interface_base.hpp\<close>),
  \<open>Framing_Interface\<close> that of a stream decoder.
  \<^item> \<open>Queue_Stream\<close>, \<open>Tcp_Interface\<close>, \<open>Udp_Interface\<close>, \<open>IoUring_Interface\<close> (\<^verbatim>\<open>network_bridge/thrift_stream*.hpp\<close>,
    \<^verbatim>\<open>src/network_interfaces/\<close>) and \<open>Tcp_Reassembler\<close> (\<^verbatim>\<open>transport/tcp_reassembler.hpp\<close>): set-up and failure
    handling, sending, and delivery of the payloads however the connection cuts the stream. \<open>Tcp_Writers\<close> interleaves
    the calls of two threads inside \<^verbatim>\<open>write\<close>, which is safe as long as the writes do not overlap. \<open>Packet_Threads\<close>
    interleaves the I/O thread, the packet thread and \<^verbatim>\<open>close\<close>: what is delivered is the function \<open>tcp_feed\<close> of the
    bytes received, and \<^verbatim>\<open>close\<close> returns unless the packet thread missed its notification. The
    io\_uring transport sends in order while a send buffer is free, and loses data when none is.

  \<^bold>\<open>Bridge.\<close> \<open>Bridge_Header\<close>, \<open>Network_Bridge\<close>, \<open>Bridge_Session\<close>, \<open>Bridge_Config\<close> (\<^verbatim>\<open>network_bridge.hpp\<close>,
  \<^verbatim>\<open>src/network_bridge.cpp\<close>): the inner header, the send and receive paths, sessions of two bridges, and the
  initialisation from parameters. Arbitrary input cannot make a bridge access memory out of bounds
  or publish anything but the content of a valid frame. The bridge is composed with what it works on:
  \<^item> the theorem below with TCP in both directions;
  \<^item> \<open>Bridge_Datagrams\<close> with UDP and a network that loses, repeats, reorders and damages datagrams: which messages are
    published is a function of what arrives (\<open>kept\<close>);
  \<^item> \<open>Bridge_Faults\<close> with its fault engine in front of that network: no fault but corruption forges or reorders messages;
  \<^item> \<open>Bridge_Recording\<close> with the replay log (locale \<open>journal\<close>): a recorded session is read back and replayed in full;
  \<^item> \<open>Bridge_Threads\<close> interleaves \<^verbatim>\<open>shutdown\<close> with the worker of the fault engine: frames are accounted for, and the
    interface is used after its end exactly if frames can be delayed.

  \<^bold>\<open>Faults.\<close> \<open>Fault_Engine\<close> (\<^verbatim>\<open>faults/\<close>): rules, the stages of \<^verbatim>\<open>process\<close>, the delay queue and its worker.
  Every frame is accounted for as written, dropped, queued or held. \<open>Fault_Threads\<close> interleaves the executor and the
  worker inside an emission: what \<^verbatim>\<open>flush\<close> guarantees when it returns, and how the unlocked count of arrivals loses one.

  \<^bold>\<open>Scenarios.\<close>
  \<^item> \<open>Scenario_Model\<close> (\<^verbatim>\<open>scenario/scenario.*\<close>, \<^verbatim>\<open>scenario/assertion.*\<close>): parser and assertions.
  \<^item> \<open>Stream_Metrics\<close> (\<^verbatim>\<open>scenario/metrics.hpp\<close>), \<open>Can_Bus\<close> (\<^verbatim>\<open>sensors/can_publisher.cpp\<close> and the CAN reader), \<open>Ordered_Map\<close>
    and \<open>Metrics_Registry\<close> (\<^verbatim>\<open>metrics/\<close>): what is measured and how it is exported.
  \<^item> \<open>Can_Socket\<close>: the sockets of the CAN stream, the signals of a tick, and the reader thread interleaved with
    \<^verbatim>\<open>stop_can_reader\<close>, which leaves nothing open. \<open>Metrics_Threads\<close> interleaves the reader thread inside \<^verbatim>\<open>record\<close> with the
    executor inside \<^verbatim>\<open>emit\<close>: what \<^verbatim>\<open>finish\<close> reports is complete, and the gauge refresh of the exporter races.
  \<^item> \<open>Exporter_Server\<close>: the accept loop of the exporter, which answers every client that sends a request. \<open>Exporter_Threads\<close>
    interleaves it with \<^verbatim>\<open>stop\<close>, which returns unless a silent client holds the loop, and then leaves nothing open.
  \<^item> \<open>Synthetic_Sensors\<close> (\<^verbatim>\<open>sensors/\<close>): the messages of the lidar, camera, IMU and GPS publishers. An image
    is complete and within the noise of its gradient, a point cloud has all its points.
  \<^item> \<open>Scenario_Runner\<close> (\<^verbatim>\<open>scenario/scenario_runner.*\<close>): start, arrivals through the fault engines, child
    processes, verdict; \<open>runner_step\<close> is the step relation of a run.
  \<^item> \<open>Report\<close> (\<^verbatim>\<open>report/\<close>) and \<open>Parallel_Run\<close> (\<^verbatim>\<open>scenario/scenario_main.cpp\<close>, \<^verbatim>\<open>scenario/parallel_runner.cpp\<close>,
    \<^verbatim>\<open>scenario/namespace_manager.hpp\<close>): the report of a run and the two executables. The exit status is 0 exactly
    when every assertion holds of the collected metrics.

  \<^bold>\<open>Programs around the library.\<close> \<open>Stress_Test\<close> (\<^verbatim>\<open>stress/\<close>) runs the concurrent models of ring and seqlock
  under the threads of the stress program, which passes in every interleaving. \<open>Fuzz_Targets\<close> (\<^verbatim>\<open>fuzz/\<close>): no input
  makes a fuzz target trap or leave its buffers, and the scan of the replay target is the one of the reader.
  \<open>Benchmarks\<close> and \<open>Udp_Benchmark\<close> (\<^verbatim>\<open>bench/\<close>, \<^verbatim>\<open>transport/bench_udp_transport.cpp\<close>): the harness, the probes and
  their output; every probe completes, and its percentiles are samples in order. \<open>Ring_Probe\<close> is the
  threaded probe of the ring, step by step. \<open>C_Library\<close> has \<^verbatim>\<open>atoi\<close> and the
  conversions of \<^verbatim>\<open>printf\<close> that these programs use.

  \<^bold>\<open>Parameters of the model.\<close> Zstd, YAML nodes, the JSON serialiser, regular expressions, the ROS graph and
  plugin loader, Boost sockets, the kernel side of io\_uring, system calls, clocks, random numbers and the text of a
  \<^verbatim>\<open>double\<close> are arguments; what a theorem needs of them is a hypothesis that states documented behaviour
  (\<open>zstd_ok\<close>, \<open>insn8_ok\<close>, \<open>env_ok\<close>), and each such theorem has a witness with concrete functions.

  \<^bold>\<open>Bounds.\<close> \<open>2 ^ 53\<close> samples are the largest count that a \<^verbatim>\<open>double\<close> holds exactly, where percentile indices stay in
  range; \<open>2 ^ 64\<close> frames are the wrap-around of the sequence number; \<open>4 MiB\<close> is the payload limit of the
  protocol; 65536 runs exhaust the ports of a parallel run.

  \<^bold>\<open>Not modelled.\<close> Weak memory: atomics are sequentially consistent, which the acquire and release pairs of the
  ring and the seqlock are written to achieve. Infinities and not-a-number; in particular a NaN duration
  in a scenario file passes the parser's test. The order of frames with equal due time in the delay queue is
  that of their arrival. Log output, the set-up calls of the ROS nodes and their \<^verbatim>\<open>main\<close> functions, which create a node and spin
  it; the unit tests, and the Python tools (dashboard, regression check, launch files). The submission queue of io\_uring,
  which writers and the completion thread share without a lock, is kept by liburing, whose code is not part of the
  repository: \<open>IoUring_Interface\<close> takes its calls as atomic. In the thread models the callbacks and the
  single accesses named in their first paragraph are the atomic steps, and a waiting time is any time.
\<close>

section \<open>Properties that span components\<close>

text \<open>C1: End to end: a bridge that sends messages over an open TCP connection, without fault injection, and a fresh
  bridge at the other end that is given whatever pieces the connection delivers, publish exactly the messages
  that were sent, in order, on their topics under the receiver's namespace. The messages have non-empty
  names without NUL and compress to at most 4 MiB, the clock does not go back, and the sequence
  number does not wrap.\<close>

theorem bridge_over_tcp:
  assumes "zstd_ok Z" "\<forall>n. can_resize n" "\<forall>n t. create_ok n t"
    and "\<forall>m\<in>set ms. sendable Z m" "sorted (map bm_time ms)" "unat (nb_tx_sequence tx) + length ms \<le> 2 ^ 64"
    and "nb_network_interface tx = Some i" "ti_socket i" "tcp_is_ready i" "ti_wire_out i = []" "nb_fault_engine tx = None"
    and "nb_frame_decoder rx = Map.empty" "nb_publishers rx = Map.empty"
  shows "\<exists>tx' i'. send_all Z (tcp_ops little None address_ok ecs ros_ok connects) E can_open wfail t_s ms tx = Some tx' \<and>
    nb_network_interface tx' = Some i' \<and>
    (\<forall>reads. concat reads = ti_wire_out i' \<longrightarrow> reads \<noteq> [] \<longrightarrow>
      (\<exists>fs t rx'. feed_chunks (tcp_feed little) reads packet_thread_init = (fs, t) \<and>
         receive_all Z can_resize create_ok fs rx = Some (Inr rx') \<and>
         nb_published rx' = nb_published rx @ map (\<lambda>m. (nb_publish_namespace rx @ bm_topic m, bm_data m)) ms))"
proof -
  let ?ops = "tcp_ops little None address_ok ecs ros_ok connects" and ?fs = "session_frames Z (nb_tx_sequence tx) ms"
  obtain i' where i': "write_all ?ops ?fs i = Some i'" "ti_wire_out i' = concat (map (tcp_wire little) ?fs)"
    using tcp_link.write_all_ok [OF assms(8), of little address_ok ecs ros_ok connects ?fs] assms(9,10) by (auto simp: tcp_ops_def)
  obtain tx' where tx': "send_all Z ?ops E can_open wfail t_s ms tx = Some tx'" "nb_network_interface tx' = Some i'"
    using send_all_writes [OF assms(4,11,7) i'(1)] by blast
  have "publishers_ok rx" "ms \<noteq> [] \<Longrightarrow> decoder_below (nb_tx_sequence tx) (bm_time (hd ms)) (nb_frame_decoder rx)"
    by (simp_all add: publishers_ok_def decoder_below_def assms(12,13))
  then obtain rx' where rx': "receive_all Z can_resize create_ok ?fs rx = Some (Inr rx')"
    "nb_published rx' = nb_published rx @ map (\<lambda>m. (nb_publish_namespace rx @ bm_topic m, bm_data m)) ms"
    using receive_session [OF assms(1,4,2,3) _ assms(5,6)] by blast
  have "\<exists>t. feed_chunks (tcp_feed little) reads packet_thread_init = (?fs, t)"
    if "concat reads = ti_wire_out i'" "reads \<noteq> []" for reads
    using tcp.delivers_all [where ps = ?fs and cs = reads and little = little and s = packet_thread_init]
      session_frames_length [OF assms(4)] that i'(2)
    by (auto simp: tcp_idle_def packet_thread_init_def)
  with tx' rx' show ?thesis by fastforce
qed

theorem bridge_over_tcp_witness:
  "\<exists>tx' i'. send_all plain_zstd (tcp_ops True None (\<lambda>_. True) (False, False, False, False) (\<lambda>_. True) (\<lambda>_. True))
      (undefined :: unit Env) (\<lambda>_. True) None 0 [sample_message 5, sample_message 9]
      (NetworkBridge_new\<lparr>nb_network_interface := Some \<lparr>ti_role = ''client'', ti_remote_address = [], ti_port = 5000, ti_ready = True,
            ti_failed = False, ti_shutting_down = False, ti_acceptor = False, ti_socket = True, ti_receiving = True,
            ti_stream = QueueStream_init, ti_wire_out = []\<rparr>\<rparr>) = Some tx' \<and>
    nb_network_interface tx' = Some i' \<and>
    (\<exists>fs t rx'. feed_chunks (tcp_feed True) [ti_wire_out i', []] packet_thread_init = (fs, t) \<and>
         receive_all plain_zstd (\<lambda>_. True) (\<lambda>_ _. True) fs
           ((NetworkBridge_new :: (unit, unit) NetworkBridge)\<lparr>nb_publish_namespace := ''/car''\<rparr>) = Some (Inr rx') \<and>
         nb_published rx' = [(''/car/scan'', [1, 2, 3]), (''/car/scan'', [1, 2, 3])])"
proof -
  let ?i = "\<lparr>ti_role = ''client'', ti_remote_address = [], ti_port = 5000, ti_ready = True,
            ti_failed = False, ti_shutting_down = False, ti_acceptor = False, ti_socket = True, ti_receiving = True,
            ti_stream = QueueStream_init, ti_wire_out = []\<rparr>"
  let ?tx = "NetworkBridge_new\<lparr>nb_network_interface := Some ?i\<rparr> :: (TcpInterface, unit) NetworkBridge"
  let ?rx = "(NetworkBridge_new :: (unit, unit) NetworkBridge)\<lparr>nb_publish_namespace := ''/car''\<rparr>"
  let ?ms = "[sample_message 5, sample_message 9]"
  have pre: "\<forall>m\<in>set ?ms. sendable plain_zstd m" "sorted (map bm_time ?ms)" "unat (nb_tx_sequence ?tx) + length ?ms \<le> 2 ^ 64"
    "nb_network_interface ?tx = Some ?i" "ti_socket ?i" "tcp_is_ready ?i" "ti_wire_out ?i = []" "nb_fault_engine ?tx = None"
    "nb_frame_decoder ?rx = Map.empty" "nb_publishers ?rx = Map.empty"
    by (simp_all add: sample_sendable NetworkBridge_new_def tcp_is_ready_def) (simp add: sample_message_def)
  obtain tx' i' where s: "send_all plain_zstd (tcp_ops True None (\<lambda>_. True) (False, False, False, False) (\<lambda>_. True) (\<lambda>_. True))
      (undefined :: unit Env) (\<lambda>_. True) None 0 ?ms ?tx = Some tx'" "nb_network_interface tx' = Some i'"
    and r: "\<And>reads. concat reads = ti_wire_out i' \<Longrightarrow> reads \<noteq> [] \<Longrightarrow>
      (\<exists>fs t rx'. feed_chunks (tcp_feed True) reads packet_thread_init = (fs, t) \<and>
         receive_all plain_zstd (\<lambda>_. True) (\<lambda>_ _. True) fs ?rx = Some (Inr rx') \<and>
         nb_published rx' = nb_published ?rx @ map (\<lambda>m. (nb_publish_namespace ?rx @ bm_topic m, bm_data m)) ?ms)"
    using bridge_over_tcp [OF plain_zstd_ok _ _ pre, of "\<lambda>_. True" "\<lambda>_ _. True" True "\<lambda>_. True" "(False, False, False, False)"
        "\<lambda>_. True" "\<lambda>_. True" "undefined :: unit Env" "\<lambda>_. True" None 0] by auto
  have "nb_published ?rx @ map (\<lambda>m. (nb_publish_namespace ?rx @ bm_topic m, bm_data m)) ?ms
      = [(''/car/scan'', [1, 2, 3]), (''/car/scan'', [1, 2, 3])]"
    by (simp add: NetworkBridge_new_def sample_message_def)
  with r [of "[ti_wire_out i', []]"] s show ?thesis by auto
qed

end
